(* ===== verification/Zcm_Prelude.thy ===== *)
theory Zcm_Prelude
  imports Main "HOL-Library.Word" "HOL-Library.Monad_Syntax" "HOL-Library.Multiset"
begin

text \<open>
  Shared material of the development: the names of the machine types the sources use, the
  conventions for memory accesses and for \<^verbatim>\<open>size_t\<close> arithmetic, the return codes of
  \<^verbatim>\<open>zcm/zcm.h\<close>, the ring-index lemmas that the circular byte buffer and the message queue
  share, and the interface of a bounded first-in first-out store, which both of them provide.

  Conventions.
  \<^item> A fixed-width integer of the source is a word of that width. \<^verbatim>\<open>size_t\<close> values
    are natural numbers; where the code subtracts them the wrap-around of the 64-bit type is
    written out (\<open>size_sub\<close>).
  \<^item> A memory object is the list of its cells. An access outside of the object is undefined
    behaviour in C and C++; the model returns \<open>None\<close> for it, so that \<open>f x = Some y\<close> says that
    \<open>f\<close> ran without such an access.
\<close>

unbundle bit_operations_syntax

named_theorems ring_simps \<open>index arithmetic of ring buffers\<close>
named_theorems mem_simps \<open>in-range memory accesses\<close>

section \<open>Machine types\<close>

type_synonym u8 = "8 word"
type_synonym u16 = "16 word"
type_synonym u32 = "32 word"
type_synonym u64 = "64 word"

section \<open>Return codes (zcm/zcm.h)\<close>

definition ZCM_EOK :: int where "ZCM_EOK = 0"
definition ZCM_EINVALID :: int where "ZCM_EINVALID = -1"
definition ZCM_EAGAIN :: int where "ZCM_EAGAIN = -2"
definition ZCM_ECONNECT :: int where "ZCM_ECONNECT = -3"
definition ZCM_EINTR :: int where "ZCM_EINTR = -4"
definition ZCM_EUNKNOWN :: int where "ZCM_EUNKNOWN = -5"
definition ZCM_EMEMORY :: int where "ZCM_EMEMORY = -6"
definition ZCM_EUNIMPL :: int where "ZCM_EUNIMPL = -7"
definition ZCM_NUM_RETURN_CODES :: int where "ZCM_NUM_RETURN_CODES = 8"

lemmas retcode_defs = ZCM_EOK_def ZCM_EINVALID_def ZCM_EAGAIN_def ZCM_ECONNECT_def ZCM_EINTR_def
  ZCM_EUNKNOWN_def ZCM_EMEMORY_def ZCM_EUNIMPL_def ZCM_NUM_RETURN_CODES_def

lemma retcodes_distinct [simp]:
  "ZCM_EINVALID \<noteq> ZCM_EOK" "ZCM_EAGAIN \<noteq> ZCM_EOK" "ZCM_EOK \<noteq> ZCM_EINVALID" "ZCM_EOK \<noteq> ZCM_EAGAIN"
  "ZCM_EINVALID \<noteq> ZCM_EAGAIN" "ZCM_EAGAIN \<noteq> ZCM_EINVALID" "ZCM_EUNKNOWN \<noteq> ZCM_EOK"
  "ZCM_EMEMORY \<noteq> ZCM_EOK" "ZCM_EUNIMPL \<noteq> ZCM_EOK" "ZCM_ECONNECT \<noteq> ZCM_EOK"
  by (simp_all add: retcode_defs)

definition ZCM_CHANNEL_MAXLEN :: nat where "ZCM_CHANNEL_MAXLEN = 32"

section \<open>size_t subtraction\<close>

definition size_sub :: "nat \<Rightarrow> nat \<Rightarrow> nat" where
  "size_sub a b = (if b \<le> a then a - b else (2 ^ 64 + a) - b)"

lemma size_sub_le [simp]: "b \<le> a \<Longrightarrow> size_sub a b = a - b"
  by (simp add: size_sub_def)

section \<open>Memory objects\<close>

definition mem_get :: "'a list \<Rightarrow> nat \<Rightarrow> 'a option" where
  "mem_get m i = (if i < length m then Some (m ! i) else None)"

definition mem_put :: "'a list \<Rightarrow> nat \<Rightarrow> 'a \<Rightarrow> 'a list option" where
  "mem_put m i v = (if i < length m then Some (m[i := v]) else None)"

text \<open>\<^verbatim>\<open>memcpy(dst + i, src, length src)\<close>: one contiguous block overwritten.\<close>

definition mem_blit :: "'a list \<Rightarrow> nat \<Rightarrow> 'a list \<Rightarrow> 'a list option" where
  "mem_blit m i xs =
     (if i + length xs \<le> length m then Some (take i m @ xs @ drop (i + length xs) m) else None)"

text \<open>The \<open>n\<close> cells that start at \<open>i\<close>.\<close>

definition mem_slice :: "'a list \<Rightarrow> nat \<Rightarrow> nat \<Rightarrow> 'a list option" where
  "mem_slice m i n = (if i + n \<le> length m then Some (take n (drop i m)) else None)"

lemma mem_get_in [mem_simps]: "i < length m \<Longrightarrow> mem_get m i = Some (m ! i)"
  by (simp add: mem_get_def)

lemma mem_get_eq_Some [simp]: "mem_get m i = Some v \<longleftrightarrow> i < length m \<and> m ! i = v"
  by (simp add: mem_get_def)

lemma mem_put_in [mem_simps]: "i < length m \<Longrightarrow> mem_put m i v = Some (m[i := v])"
  by (simp add: mem_put_def)

lemma mem_put_eq_Some [simp]: "mem_put m i v = Some m' \<longleftrightarrow> i < length m \<and> m' = m[i := v]"
  by (auto simp: mem_put_def)

lemma mem_blit_in [mem_simps]:
  "i + length xs \<le> length m \<Longrightarrow> mem_blit m i xs = Some (take i m @ xs @ drop (i + length xs) m)"
  by (simp add: mem_blit_def)

lemma mem_blit_eq_Some:
  "mem_blit m i xs = Some m' \<longleftrightarrow>
     i + length xs \<le> length m \<and> m' = take i m @ xs @ drop (i + length xs) m"
  by (auto simp: mem_blit_def)

lemma length_mem_blit: "mem_blit m i xs = Some m' \<Longrightarrow> length m' = length m"
  by (auto simp: mem_blit_eq_Some)

lemma mem_slice_in [mem_simps]: "i + n \<le> length m \<Longrightarrow> mem_slice m i n = Some (take n (drop i m))"
  by (simp add: mem_slice_def)

lemma mem_slice_eq_Some:
  "mem_slice m i n = Some xs \<longleftrightarrow> i + n \<le> length m \<and> xs = take n (drop i m)"
  by (auto simp: mem_slice_def)

text \<open>A block just written is read back.\<close>

lemma mem_slice_blit: "mem_blit m i xs = Some m' \<Longrightarrow> mem_slice m' i (length xs) = Some xs"
  by (auto simp: mem_blit_eq_Some mem_slice_eq_Some)

section \<open>Words and their bytes\<close>

lemma ucast_and_ff: "ucast ((x :: 'a :: len word) AND 0xff) = (ucast x :: u8)"
proof -
  have "x AND 0xff = take_bit 8 x" by (simp add: take_bit_eq_mask mask_eq_exp_minus_1)
  then have eq: "ucast (x AND 0xff) = (ucast (take_bit 8 x) :: u8)" by simp
  show ?thesis unfolding eq by (simp add: bit_eq_iff bit_simps)
qed

lemma bit_byte_ge [simp]: "8 \<le> n \<Longrightarrow> \<not> bit (x :: u8) n"
  using bit_imp_le_length[of x n] by auto

text \<open>The word with the given bytes, the most significant one first.\<close>

definition be16 :: "u8 \<Rightarrow> u8 \<Rightarrow> u16" where
  "be16 a b = push_bit 8 (ucast a) OR ucast b"

definition be32 :: "u8 \<Rightarrow> u8 \<Rightarrow> u8 \<Rightarrow> u8 \<Rightarrow> u32" where
  "be32 a b c d = push_bit 24 (ucast a) OR push_bit 16 (ucast b) OR push_bit 8 (ucast c) OR ucast d"

lemma be16_byte: "ucast (drop_bit 8 (be16 a b)) = a" "ucast (be16 a b) = b"
  by (auto simp: be16_def bit_eq_iff bit_simps)

lemma be16_bytes: "be16 (ucast (drop_bit 8 x)) (ucast x) = x"
  by (auto simp: be16_def bit_eq_iff bit_simps)

lemma be32_byte: "ucast (drop_bit 24 (be32 a b c d)) = a" "ucast (drop_bit 16 (be32 a b c d)) = b"
    "ucast (drop_bit 8 (be32 a b c d)) = c" "ucast (be32 a b c d) = d"
  by (auto simp: be32_def bit_eq_iff bit_simps)

lemma be32_bytes: "be32 (ucast (drop_bit 24 x)) (ucast (drop_bit 16 x)) (ucast (drop_bit 8 x)) (ucast x) = x"
proof (rule bit_word_eqI)
  fix n assume "n < LENGTH(32)"
  then consider "n < 8" | "8 \<le> n" "n < 16" | "16 \<le> n" "n < 24" | "24 \<le> n" "n < 32" by fastforce
  then show "bit (be32 (ucast (drop_bit 24 x)) (ucast (drop_bit 16 x)) (ucast (drop_bit 8 x)) (ucast x)) n = bit x n"
    by cases (auto simp: be32_def bit_simps)
qed

lemma sint_small:
  assumes "unat (x :: u32) < 2 ^ 31"
  shows "sint x = int (unat x)"
proof -
  have u: "uint x = int (unat x)" by (fact uint_nat)
  have "sint x = signed_take_bit 31 (uint x)" by (simp add: sint_uint)
  moreover have "int (unat x) < int (2 ^ 31)" using assms by (simp only: of_nat_less_iff)
  then have "uint x < 2 ^ 31" unfolding u by simp
  then have "signed_take_bit 31 (uint x) = uint x"
    using uint_ge_0[of x] by (intro signed_take_bit_int_eq_self) linarith+
  ultimately show ?thesis unfolding u[symmetric] by (simp only:)
qed

lemma sint_of_nat_small: "n < 2 ^ 31 \<Longrightarrow> sint (of_nat n :: u32) = int n"
  by (subst sint_small) (simp_all add: unat_of_nat)

lemma unat_of_nat_small: "n < 2 ^ 31 \<Longrightarrow> unat (of_nat n :: u32) = n"
  by (simp add: unat_of_nat)

lemma sint_nonneg:
  assumes "0 \<le> sint (x :: u32)"
  shows "sint x = int (unat x)" "unat x < 2 ^ 31"
proof -
  have "sint x < 2 ^ 31" using signed_take_bit_int_less_exp[of 31 "uint x"] by (simp add: sint_uint)
  then have "uint x = sint x" using assms by (simp add: uint_sint take_bit_int_eq_self)
  then show *: "sint x = int (unat x)" by simp
  show "unat x < 2 ^ 31" using \<open>sint x < 2 ^ 31\<close> \<open>uint x = sint x\<close> by (simp add: unat_eq_nat_uint nat_less_iff)
qed

lemma sint_less_unat: "0 \<le> sint (x :: u32) \<Longrightarrow> sint x < int k \<Longrightarrow> unat x < k"
  using sint_nonneg(1)[of x] by linarith

text \<open>The bytes of a word in network order, and the word that a list of bytes starts with.\<close>

definition bytes16 :: "u16 \<Rightarrow> u8 list" where
  "bytes16 x = [ucast (drop_bit 8 x), ucast x]"

definition bytes32 :: "u32 \<Rightarrow> u8 list" where
  "bytes32 x = [ucast (drop_bit 24 x), ucast (drop_bit 16 x), ucast (drop_bit 8 x), ucast x]"

fun get16 :: "u8 list \<Rightarrow> u16 option" where
  "get16 (a # b # _) = Some (be16 a b)"
| "get16 _ = None"

fun get32 :: "u8 list \<Rightarrow> u32 option" where
  "get32 (a # b # c # d # _) = Some (be32 a b c d)"
| "get32 _ = None"

lemma get32_bytes [simp]: "get32 (bytes32 x @ r) = Some x"
  by (simp add: bytes32_def be32_bytes)

lemma get16_bytes [simp]: "get16 (bytes16 x @ r) = Some x"
  by (simp add: bytes16_def be16_bytes)

lemma length_bytes [simp]: "length (bytes32 x) = 4" "length (bytes16 y) = 2"
  by (simp_all add: bytes32_def bytes16_def)

text \<open>Sums of words without common bits have no carries.\<close>

lemma be16_sum: "push_bit 8 (ucast a) + ucast b = be16 a b"
  unfolding be16_def by (intro disjunctive_add_eq_or) (auto simp: bit_eq_iff bit_simps)

lemma be32_sum: "push_bit 24 (ucast a) + push_bit 16 (ucast b) + push_bit 8 (ucast c) + ucast d = be32 a b c d"
proof -
  have 1: "push_bit 24 (ucast a) + push_bit 16 (ucast b) = (push_bit 24 (ucast a) OR push_bit 16 (ucast b) :: u32)"
    by (intro disjunctive_add_eq_or) (auto simp: bit_eq_iff bit_simps)
  have 2: "(push_bit 24 (ucast a) OR push_bit 16 (ucast b)) + push_bit 8 (ucast c)
      = (push_bit 24 (ucast a) OR push_bit 16 (ucast b) OR push_bit 8 (ucast c) :: u32)"
    by (subst disjunctive_add_eq_or) (auto simp: bit_eq_iff bit_simps)
  have 3: "(push_bit 24 (ucast a) OR push_bit 16 (ucast b) OR push_bit 8 (ucast c)) + ucast d = be32 a b c d"
    unfolding be32_def by (subst disjunctive_add_eq_or) (auto simp: bit_eq_iff bit_simps)
  show ?thesis unfolding 1 2 3 ..
qed

lemma bit_u32_ge [simp]: "32 \<le> n \<Longrightarrow> \<not> bit (x :: u32) n"
  using bit_imp_le_length[of x n] by auto

definition be64 :: "u32 \<Rightarrow> u32 \<Rightarrow> u64" where
  "be64 a b = push_bit 32 (ucast a) OR ucast b"

lemma be64_sum: "push_bit 32 (ucast a) + (ucast b AND 0xffffffff) = be64 a b"
proof -
  have "(ucast b :: u64) AND 0xffffffff = take_bit 32 (ucast b)" by (simp add: take_bit_eq_mask mask_eq_exp_minus_1)
  also have "\<dots> = ucast b" by (auto simp: bit_eq_iff bit_simps dest: bit_imp_le_length)
  finally have eq: "(ucast b :: u64) AND 0xffffffff = ucast b" .
  show ?thesis unfolding eq be64_def by (intro disjunctive_add_eq_or) (auto simp: bit_eq_iff bit_simps)
qed

lemma be64_word: "ucast (drop_bit 32 (be64 a b)) = a" "ucast (be64 a b) = b"
  by (auto simp: be64_def bit_eq_iff bit_simps)

lemma be64_words: "be64 (ucast (drop_bit 32 x)) (ucast x) = x"
  by (auto simp: be64_def bit_eq_iff bit_simps)

section \<open>Running a partial operation over a list\<close>

fun fold_opt :: "('a \<Rightarrow> 's \<Rightarrow> 's option) \<Rightarrow> 'a list \<Rightarrow> 's \<Rightarrow> 's option" where
  "fold_opt f [] s = Some s"
| "fold_opt f (x # xs) s = Option.bind (f x s) (fold_opt f xs)"

lemma fold_opt_append: "fold_opt f (xs @ ys) s = Option.bind (fold_opt f xs s) (fold_opt f ys)"
  by (induction xs arbitrary: s) (auto split: bind_splits)

section \<open>Removing an entry of a vector\<close>

text \<open>An entry is overwritten by the last one and the vector is shortened.\<close>

definition remove_swap :: "nat \<Rightarrow> 'a list \<Rightarrow> 'a list" where
  "remove_swap i xs = butlast (xs[i := last xs])"

lemma remove_swap_mset:
  assumes "i < length xs"
  shows "mset xs = mset (remove_swap i xs) + {#xs ! i#}"
proof -
  obtain ys y where xs: "xs = ys @ [y]" using assms by (cases xs rule: rev_cases) auto
  show ?thesis
  proof (cases "i = length ys")
    case True
    then show ?thesis by (simp add: remove_swap_def xs)
  next
    case False
    then have "i < length ys" using assms xs by simp
    moreover have "mset (ys[i := y]) + {#ys ! i#} = mset ys + {#y#}"
      using \<open>i < length ys\<close> by (simp add: mset_update)
    ultimately show ?thesis by (simp add: remove_swap_def xs list_update_append nth_append add.commute)
  qed
qed

section \<open>Ring buffers\<close>

text \<open>
  The elements stored in a ring of \<open>cap\<close> cells, from index \<open>f\<close> on. Both ring buffers of the
  code base keep \<open>front\<close> and \<open>back\<close> indices below the capacity and leave one cell unused.
\<close>

definition ring_count :: "nat \<Rightarrow> nat \<Rightarrow> nat \<Rightarrow> nat" where
  "ring_count cap f b = (if f \<le> b then b - f else cap - (f - b))"

definition ring_list :: "'a list \<Rightarrow> nat \<Rightarrow> nat \<Rightarrow> nat \<Rightarrow> 'a list" where
  "ring_list dat cap f n = map (\<lambda>i. dat ! ((f + i) mod cap)) [0..<n]"

lemma length_ring_list [simp]: "length (ring_list dat cap f n) = n"
  by (simp add: ring_list_def)

lemma ring_list_nth [simp]: "i < n \<Longrightarrow> ring_list dat cap f n ! i = dat ! ((f + i) mod cap)"
  by (simp add: ring_list_def)

lemma ring_list_0 [simp]: "ring_list dat cap f 0 = []"
  by (simp add: ring_list_def)

lemma mod_less_twice: "(n::nat) < 2 * cap \<Longrightarrow> n mod cap = (if n < cap then n else n - cap)"
  by (simp add: mod_if)

lemma ring_count_less: "f < cap \<Longrightarrow> b < cap \<Longrightarrow> ring_count cap f b < cap"
  by (auto simp: ring_count_def)

lemma ring_back: "f < cap \<Longrightarrow> b < cap \<Longrightarrow> (f + ring_count cap f b) mod cap = b"
  by (auto simp: ring_count_def mod_if)

text \<open>Writing the cell behind the last element appends to the contents.\<close>

lemma ring_list_push:
  assumes "f < cap" "length dat = cap" "n < cap"
  shows "ring_list (dat[(f + n) mod cap := d]) cap f (Suc n) = ring_list dat cap f n @ [d]"
proof (rule nth_equalityI)
  fix i assume i: "i < length (ring_list (dat[(f + n) mod cap := d]) cap f (Suc n))"
  then have "i \<le> n" by simp
  have "i < n \<Longrightarrow> (f + i) mod cap \<noteq> (f + n) mod cap"
    using assms by (auto simp: mod_if split: if_splits)
  moreover have "(f + n) mod cap < length dat" using assms by simp
  ultimately show "ring_list (dat[(f + n) mod cap := d]) cap f (Suc n) ! i
      = (ring_list dat cap f n @ [d]) ! i"
    using \<open>i \<le> n\<close> by (cases "i = n") (auto simp: nth_append)
qed simp

lemma ring_list_drop:
  assumes "k \<le> n"
  shows "ring_list dat cap ((f + k) mod cap) (n - k) = drop k (ring_list dat cap f n)"
  using assms by (intro nth_equalityI) (auto simp: mod_add_left_eq add.assoc)

lemma ring_list_take: "k \<le> n \<Longrightarrow> ring_list dat cap f k = take k (ring_list dat cap f n)"
  by (intro nth_equalityI) auto

text \<open>A contiguous run of cells of the ring is a prefix of its contents.\<close>

lemma ring_list_contiguous:
  assumes "f + n \<le> cap" "length dat = cap" "n \<le> cap"
  shows "ring_list dat cap f n = take n (drop f dat)"
  using assms by (intro nth_equalityI) auto

lemma ring_list_split:
  assumes "m \<le> n"
  shows "ring_list dat cap f n = ring_list dat cap f m @ ring_list dat cap ((f + m) mod cap) (n - m)"
  using assms by (simp add: ring_list_drop ring_list_take[OF assms])

text \<open>A contiguous block written behind the last element appends the block.\<close>

lemma nth_blit:
  assumes "b + length xs \<le> length dat" "i < length dat"
  shows "(take b dat @ xs @ drop (b + length xs) dat) ! i =
    (if b \<le> i \<and> i < b + length xs then xs ! (i - b) else dat ! i)"
  using assms by (auto simp: nth_append)

lemma ring_list_blit:
  assumes "f < cap" "length dat = cap" "n < cap" "n + length xs \<le> cap"
    and b: "b = (f + n) mod cap" and fit: "b + length xs \<le> cap"
  shows "ring_list (take b dat @ xs @ drop (b + length xs) dat) cap f (n + length xs)
    = ring_list dat cap f n @ xs" (is "?l = ?r")
proof (rule nth_equalityI)
  fix i assume "i < length ?l"
  then have i: "i < n + length xs" by simp
  then have l: "?l ! i = (if b \<le> (f + i) mod cap \<and> (f + i) mod cap < b + length xs
      then xs ! ((f + i) mod cap - b) else dat ! ((f + i) mod cap))"
    using nth_blit[of b xs dat "(f + i) mod cap"] assms by simp
  show "?l ! i = ?r ! i"
  proof (cases "i < n")
    case True
    then have "\<not> (b \<le> (f + i) mod cap \<and> (f + i) mod cap < b + length xs)"
      using assms by (auto simp: mod_if split: if_splits)
    with True show ?thesis unfolding l by (auto simp: nth_append)
  next
    case False
    then obtain j where j: "i = n + j" "j < length xs" using i by (auto simp: not_less le_iff_add)
    have "(f + i) mod cap = b + j"
      using assms j by (auto simp: mod_if split: if_splits)
    with j show ?thesis unfolding l by (simp add: nth_append)
  qed
qed simp

section \<open>The interface of a bounded FIFO store\<close>

text \<open>
  What a client of a ring buffer relies on: a store with a fixed room, whose push appends
  while there is room, and whose pop removes from the front.
\<close>

locale bounded_fifo =
  fixes invar :: "'q \<Rightarrow> bool"
    and contents :: "'q \<Rightarrow> 'a list"
    and room :: "'q \<Rightarrow> nat"
    and push :: "'a \<Rightarrow> 'q \<Rightarrow> 'q option"
    and pop :: "'q \<Rightarrow> 'q option"
  assumes push_ok: "invar q \<Longrightarrow> 0 < room q \<Longrightarrow>
      \<exists>q'. push x q = Some q' \<and> invar q' \<and> contents q' = contents q @ [x] \<and> room q' = room q - 1"
    and pop_ok: "invar q \<Longrightarrow> contents q \<noteq> [] \<Longrightarrow>
      \<exists>q'. pop q = Some q' \<and> invar q' \<and> contents q' = tl (contents q) \<and> room q' = Suc (room q)"
begin

lemma push_all:
  assumes "invar q" "length xs \<le> room q"
  shows "\<exists>q'. fold_opt push xs q = Some q' \<and> invar q' \<and> contents q' = contents q @ xs
           \<and> room q' = room q - length xs"
  using assms
proof (induction xs arbitrary: q)
  case (Cons x xs)
  then obtain q1 where "push x q = Some q1" "invar q1" "contents q1 = contents q @ [x]"
      "room q1 = room q - 1"
    using push_ok[of q x] by auto
  with Cons.IH[of q1] Cons.prems show ?case by auto
qed simp

lemma pop_all:
  assumes "invar q" "n \<le> length (contents q)"
  shows "\<exists>q'. fold_opt (\<lambda>_. pop) (replicate n ()) q = Some q' \<and> invar q'
           \<and> contents q' = drop n (contents q) \<and> room q' = room q + n"
  using assms
proof (induction n arbitrary: q)
  case (Suc n)
  then obtain q1 where "pop q = Some q1" "invar q1" "contents q1 = tl (contents q)"
      "room q1 = Suc (room q)"
    using pop_ok[of q] by (cases "contents q") auto
  with Suc.IH[of q1] Suc.prems show ?case by (auto simp: drop_Suc)
qed simp

text \<open>First in, first out: what was pushed last comes out after everything before it.\<close>

lemma fifo_order:
  assumes "invar q" "length xs \<le> room q"
  shows "\<exists>q'. Option.bind (fold_opt push xs q)
                (fold_opt (\<lambda>_. pop) (replicate (length (contents q)) ())) = Some q'
              \<and> contents q' = xs"
proof -
  from push_all[OF assms] obtain q1 where q1: "fold_opt push xs q = Some q1" "invar q1"
      "contents q1 = contents q @ xs" by blast
  from pop_all[OF q1(2), of "length (contents q)"] q1 show ?thesis by auto
qed

end

end
