(* ===== verification/Transport.thy ===== *)
theory Transport
  imports Zcm_Prelude
begin

text \<open>
  The transport interface of \<^verbatim>\<open>zcm/transport.h\<close>: the message structure, the table of methods, the
  dispatch helpers, and (as locales) what \<^verbatim>\<open>transport.h\<close> documents a transport to promise to the
  core. A transport's state is a type parameter; each method returns the next state, and \<open>None\<close>
  where it would access memory it does not own.
\<close>

section \<open>Messages and the method table\<close>

text \<open>A C string is the list of its bytes before the terminator.\<close>

type_synonym cstring = "u8 list"

definition is_cstring :: "u8 list \<Rightarrow> bool" where "is_cstring s \<longleftrightarrow> 0 \<notin> set s"

text \<open>The pair \<^verbatim>\<open>(len, buf)\<close> of \<^verbatim>\<open>struct zcm_msg_t\<close> is the byte list \<open>msg_buf\<close>.\<close>

record zcm_msg_t =
  msg_utime :: u64
  msg_channel :: cstring
  msg_buf :: "u8 list"

abbreviation msg_len :: "zcm_msg_t \<Rightarrow> nat" where "msg_len m \<equiv> length (msg_buf m)"

datatype zcm_type = ZCM_BLOCKING | ZCM_NONBLOCKING

record 't zcm_trans_methods_t =
  vt_get_mtu :: "'t \<Rightarrow> nat"
  vt_sendmsg :: "'t \<Rightarrow> zcm_msg_t \<Rightarrow> (int \<times> 't) option"
  vt_recvmsg_enable :: "'t \<Rightarrow> cstring \<Rightarrow> bool \<Rightarrow> (int \<times> 't) option"
  vt_recvmsg :: "'t \<Rightarrow> nat \<Rightarrow> (int \<times> zcm_msg_t option \<times> 't) option"
  vt_query_drops :: "('t \<Rightarrow> (int \<times> u64 \<times> 't) option) option"
  vt_update :: "('t \<Rightarrow> (int \<times> 't) option) option"

text \<open>
  \<^verbatim>\<open>struct zcm_trans_t\<close> together with the concrete transport behind it: the type tag, the vtable and
  the transport's own state.
\<close>

record 't zcm_trans_t =
  trans_type :: zcm_type
  trans_vtbl :: "'t zcm_trans_methods_t"
  trans_state :: 't

definition zcm_trans_get_mtu :: "'t zcm_trans_t \<Rightarrow> nat" where
  "zcm_trans_get_mtu zt = vt_get_mtu (trans_vtbl zt) (trans_state zt)"

definition zcm_trans_sendmsg :: "'t zcm_trans_t \<Rightarrow> zcm_msg_t \<Rightarrow> (int \<times> 't zcm_trans_t) option" where
  "zcm_trans_sendmsg zt msg =
     map_option (\<lambda>(rc, s). (rc, zt\<lparr>trans_state := s\<rparr>)) (vt_sendmsg (trans_vtbl zt) (trans_state zt) msg)"

definition zcm_trans_recvmsg_enable ::
    "'t zcm_trans_t \<Rightarrow> cstring \<Rightarrow> bool \<Rightarrow> (int \<times> 't zcm_trans_t) option" where
  "zcm_trans_recvmsg_enable zt channel enable =
     map_option (\<lambda>(rc, s). (rc, zt\<lparr>trans_state := s\<rparr>))
       (vt_recvmsg_enable (trans_vtbl zt) (trans_state zt) channel enable)"

definition zcm_trans_recvmsg ::
    "'t zcm_trans_t \<Rightarrow> nat \<Rightarrow> (int \<times> zcm_msg_t option \<times> 't zcm_trans_t) option" where
  "zcm_trans_recvmsg zt timeout =
     map_option (\<lambda>(rc, m, s). (rc, m, zt\<lparr>trans_state := s\<rparr>))
       (vt_recvmsg (trans_vtbl zt) (trans_state zt) timeout)"

text \<open>\<open>out_drops\<close> is the caller's out-parameter, left as it was when the method is missing.\<close>

definition zcm_trans_query_drops ::
    "'t zcm_trans_t \<Rightarrow> u64 \<Rightarrow> (int \<times> u64 \<times> 't zcm_trans_t) option" where
  "zcm_trans_query_drops zt out_drops =
     (case vt_query_drops (trans_vtbl zt) of
        None \<Rightarrow> Some (ZCM_EUNIMPL, out_drops, zt)
      | Some f \<Rightarrow> map_option (\<lambda>(rc, d, s). (rc, d, zt\<lparr>trans_state := s\<rparr>)) (f (trans_state zt)))"

text \<open>Calling a null \<^verbatim>\<open>update\<close> pointer is a fault.\<close>

definition zcm_trans_update :: "'t zcm_trans_t \<Rightarrow> (int \<times> 't zcm_trans_t) option" where
  "zcm_trans_update zt =
     (case vt_update (trans_vtbl zt) of
        None \<Rightarrow> None
      | Some f \<Rightarrow> map_option (\<lambda>(rc, s). (rc, zt\<lparr>trans_state := s\<rparr>)) (f (trans_state zt)))"

lemmas zcm_trans_defs = zcm_trans_get_mtu_def zcm_trans_sendmsg_def zcm_trans_recvmsg_enable_def
  zcm_trans_recvmsg_def zcm_trans_query_drops_def zcm_trans_update_def

section \<open>The contract of a transport\<close>

text \<open>
  What \<^verbatim>\<open>transport.h\<close> asks of a non-blocking transport, in the form the core uses: on a well-formed
  state no method faults and the state stays well-formed; \<^verbatim>\<open>sendmsg\<close> rejects exactly the messages
  that \<^verbatim>\<open>transport.h\<close> allows it to reject with \<^verbatim>\<open>ZCM_EINVALID\<close>; \<^verbatim>\<open>recvmsg\<close> returns a message exactly
  when it returns \<^verbatim>\<open>ZCM_EOK\<close>, and otherwise \<^verbatim>\<open>ZCM_EAGAIN\<close>.
\<close>

locale nonblocking_transport =
  fixes vtbl :: "'t zcm_trans_methods_t"
    and tinv :: "'t \<Rightarrow> bool"
  assumes send_total: "tinv s \<Longrightarrow> is_cstring (msg_channel m) \<Longrightarrow>
      \<exists>rc s'. vt_sendmsg vtbl s m = Some (rc, s') \<and> tinv s'
        \<and> rc \<in> {ZCM_EOK, ZCM_EINVALID, ZCM_EAGAIN}
        \<and> (rc = ZCM_EINVALID \<longleftrightarrow>
             length (msg_channel m) > ZCM_CHANNEL_MAXLEN \<or> msg_len m > vt_get_mtu vtbl s)"
    and enable_total: "tinv s \<Longrightarrow>
      \<exists>rc s'. vt_recvmsg_enable vtbl s c b = Some (rc, s') \<and> tinv s'"
    and recv_total: "tinv s \<Longrightarrow>
      \<exists>rc m s'. vt_recvmsg vtbl s t = Some (rc, m, s') \<and> tinv s'
        \<and> (rc = ZCM_EOK \<and> m \<noteq> None \<or> rc = ZCM_EAGAIN \<and> m = None)"
    and update_total: "tinv s \<Longrightarrow>
      \<exists>u rc s'. vt_update vtbl = Some u \<and> u s = Some (rc, s') \<and> tinv s'"
begin

lemma publish_never_invalid:
  assumes "tinv s" "is_cstring (msg_channel m)" "length (msg_channel m) \<le> ZCM_CHANNEL_MAXLEN"
    "msg_len m \<le> vt_get_mtu vtbl s"
  shows "\<exists>rc s'. vt_sendmsg vtbl s m = Some (rc, s') \<and> tinv s' \<and> rc \<in> {ZCM_EOK, ZCM_EAGAIN}"
  using send_total[OF assms(1,2)] assms(3,4) by fastforce

end

end
