(* ===== verification/Circ_Buff.thy ===== *)
theory Circ_Buff
  imports Zcm_Prelude
begin

text \<open>
  The circular byte buffer of the generic serial transport
  (\<^verbatim>\<open>zcm/transport/generic_serial_circ_buff.c\<close>): one definition per function of the file, the
  buffer invariant, and the refinement of every operation to the list of stored bytes
  (\<open>cb_bytes\<close>). The user callbacks of \<^verbatim>\<open>cb_flush_out\<close> and \<^verbatim>\<open>cb_flush_in\<close> are parameters
  that thread an environment of their own.
\<close>

section \<open>State and operations\<close>

record circBuffer_t =
  cb_data :: "u8 list"
  cb_capacity :: nat
  cb_frontIdx :: nat
  cb_backIdx :: nat

text \<open>\<^verbatim>\<open>malloc\<close> is a parameter: \<open>None\<close> is the null pointer, \<open>Some m\<close> the fresh block.\<close>

definition cb_init :: "(nat \<Rightarrow> u8 list option) \<Rightarrow> circBuffer_t \<Rightarrow> nat \<Rightarrow> bool \<times> circBuffer_t" where
  "cb_init malloc cb sz =
     (let cb = cb\<lparr>cb_capacity := sz, cb_frontIdx := 0, cb_backIdx := 0\<rparr> in
      if cb_capacity cb = 0 then (False, cb)
      else case malloc (cb_capacity cb) of
             None \<Rightarrow> (False, cb\<lparr>cb_data := [], cb_capacity := 0\<rparr>)
           | Some m \<Rightarrow> (True, cb\<lparr>cb_data := m\<rparr>))"

definition cb_deinit :: "circBuffer_t \<Rightarrow> circBuffer_t" where
  "cb_deinit cb = cb\<lparr>cb_data := [], cb_capacity := 0\<rparr>"

definition cb_size :: "circBuffer_t \<Rightarrow> nat" where
  "cb_size cb =
     (let f = cb_frontIdx cb; b = cb_backIdx cb in
      if b \<ge> f then b - f else size_sub (cb_capacity cb) (f - b))"

definition cb_room :: "circBuffer_t \<Rightarrow> nat" where
  "cb_room cb = size_sub (size_sub (cb_capacity cb) 1) (cb_size cb)"

definition cb_push_back :: "u8 \<Rightarrow> circBuffer_t \<Rightarrow> circBuffer_t option" where
  "cb_push_back d cb =
     do {
       dat \<leftarrow> mem_put (cb_data cb) (cb_backIdx cb) d;
       let b = Suc (cb_backIdx cb);
       Some (cb\<lparr>cb_data := dat, cb_backIdx := (if b = cb_capacity cb then 0 else b)\<rparr>)
     }"

definition cb_front :: "circBuffer_t \<Rightarrow> nat \<Rightarrow> u8 option" where
  "cb_front cb offset =
     (let idx = cb_frontIdx cb + offset;
          idx = (if idx \<ge> cb_capacity cb then idx - cb_capacity cb else idx)
      in mem_get (cb_data cb) idx)"

definition cb_pop_front :: "circBuffer_t \<Rightarrow> nat \<Rightarrow> circBuffer_t" where
  "cb_pop_front cb num =
     (let f = cb_frontIdx cb + num
      in cb\<lparr>cb_frontIdx := (if f \<ge> cb_capacity cb then f - cb_capacity cb else f)\<rparr>)"

definition cb_pop_back :: "circBuffer_t \<Rightarrow> nat \<Rightarrow> circBuffer_t" where
  "cb_pop_back cb num =
     cb\<lparr>cb_backIdx := (if cb_backIdx cb < num
                        then size_sub (cb_capacity cb) (num - cb_backIdx cb)
                        else cb_backIdx cb - num)\<rparr>"

text \<open>
  \<open>write bytes e\<close> is the user's \<^verbatim>\<open>put\<close>: it is offered a block, and returns how many of its bytes
  it took and its next state. \<open>read num e\<close> is the user's \<^verbatim>\<open>get\<close>: it stores the returned bytes at
  the start of the block of \<open>num\<close> cells it is offered.
\<close>

definition cb_flush_out ::
    "(u8 list \<Rightarrow> 'e \<Rightarrow> nat \<times> 'e) \<Rightarrow> circBuffer_t \<Rightarrow> 'e \<Rightarrow> (nat \<times> circBuffer_t \<times> 'e) option" where
  "cb_flush_out write cb e =
     (let sz = cb_size cb in
      if sz = 0 then Some (0, cb, e)
      else
        let contiguous = min (size_sub (cb_capacity cb) (cb_frontIdx cb)) sz;
            wrapped = size_sub sz contiguous
        in do {
          blk \<leftarrow> mem_slice (cb_data cb) (cb_frontIdx cb) contiguous;
          let (n, e) = write blk e;
          let written = n;
          let cb = cb_pop_front cb n;
          if written \<noteq> contiguous \<or> wrapped = 0 then Some (written, cb, e)
          else do {
            blk \<leftarrow> mem_slice (cb_data cb) 0 wrapped;
            let (n, e) = write blk e;
            Some (written + n, cb_pop_front cb n, e)
          }
        })"

definition cb_flush_in ::
    "(nat \<Rightarrow> 'e \<Rightarrow> u8 list \<times> 'e) \<Rightarrow> circBuffer_t \<Rightarrow> 'e \<Rightarrow> (nat \<times> circBuffer_t \<times> 'e) option" where
  "cb_flush_in read cb e =
     (let room = cb_room cb in
      if cb_backIdx cb < cb_frontIdx cb then
        (let (bs, e) = read room e in do {
          dat \<leftarrow> mem_blit (cb_data cb) (cb_backIdx cb) bs;
          Some (length bs, cb\<lparr>cb_data := dat, cb_backIdx := cb_backIdx cb + length bs\<rparr>, e)
        })
      else
        let contiguous = min (size_sub (cb_capacity cb) (cb_backIdx cb)) room;
            wrapped = size_sub room contiguous;
            (bs, e) = read contiguous e
        in do {
          dat \<leftarrow> mem_blit (cb_data cb) (cb_backIdx cb) bs;
          let bytesRead = length bs;
          let cb = cb\<lparr>cb_data := dat, cb_backIdx := cb_backIdx cb + length bs\<rparr>;
          if length bs \<noteq> contiguous then Some (bytesRead, cb, e)
          else do {
            let cb = (if cb_backIdx cb = cb_capacity cb then cb\<lparr>cb_backIdx := 0\<rparr> else cb);
            if wrapped = 0 then Some (bytesRead, cb, e)
            else do {
              let (bs, e) = read wrapped e;
              dat \<leftarrow> mem_blit (cb_data cb) 0 bs;
              Some (bytesRead + length bs,
                    cb\<lparr>cb_data := dat, cb_backIdx := cb_backIdx cb + length bs\<rparr>, e)
            }
          }
        })"

section \<open>Invariant and abstraction\<close>

definition cb_inv :: "circBuffer_t \<Rightarrow> bool" where
  "cb_inv cb \<longleftrightarrow> length (cb_data cb) = cb_capacity cb
      \<and> cb_frontIdx cb < cb_capacity cb \<and> cb_backIdx cb < cb_capacity cb"

definition cb_bytes :: "circBuffer_t \<Rightarrow> u8 list" where
  "cb_bytes cb = ring_list (cb_data cb) (cb_capacity cb) (cb_frontIdx cb) (cb_size cb)"

lemma cb_size_ring: "cb_inv cb \<Longrightarrow> cb_size cb = ring_count (cb_capacity cb) (cb_frontIdx cb) (cb_backIdx cb)"
  by (auto simp: cb_size_def ring_count_def cb_inv_def Let_def)

lemma cb_size_less: "cb_inv cb \<Longrightarrow> cb_size cb < cb_capacity cb"
  by (simp add: cb_size_ring ring_count_less cb_inv_def)

lemma length_cb_bytes [simp]: "length (cb_bytes cb) = cb_size cb"
  by (simp add: cb_bytes_def)

lemma cb_room_eq: "cb_inv cb \<Longrightarrow> cb_room cb = cb_capacity cb - 1 - length (cb_bytes cb)"
  using cb_size_less[of cb] by (simp add: cb_room_def cb_inv_def)

lemma cb_back_ring: "cb_inv cb \<Longrightarrow> (cb_frontIdx cb + cb_size cb) mod cb_capacity cb = cb_backIdx cb"
  by (simp add: cb_size_ring ring_back cb_inv_def)

lemma cb_size_from_ring:
  assumes "f < cap" "n < cap" "cb_capacity cb = cap" "cb_frontIdx cb = f" "cb_backIdx cb = (f + n) mod cap"
  shows "cb_size cb = n"
  using assms by (auto simp: cb_size_def Let_def mod_if)

text \<open>A buffer given by its ring description has the expected contents.\<close>

lemma cb_bytes_from_ring:
  assumes "length (cb_data cb) = cap" "f < cap" "n < cap" "cb_capacity cb = cap"
    "cb_frontIdx cb = f" "cb_backIdx cb = (f + n) mod cap"
  shows "cb_inv cb" "cb_bytes cb = ring_list (cb_data cb) cap f n"
  using assms cb_size_from_ring[of f cap n cb] by (auto simp: cb_inv_def cb_bytes_def)

section \<open>The operations on the contents\<close>

lemma cb_init_ok:
  assumes "0 < sz" "malloc sz = Some m" "length m = sz"
  shows "fst (cb_init malloc cb sz)" "cb_inv (snd (cb_init malloc cb sz))"
    "cb_bytes (snd (cb_init malloc cb sz)) = []" "cb_capacity (snd (cb_init malloc cb sz)) = sz"
  using assms by (auto simp: cb_init_def cb_inv_def cb_bytes_def cb_size_def)

lemma cb_push_back_ok:
  assumes inv: "cb_inv cb" and room: "0 < cb_room cb"
  shows "\<exists>cb'. cb_push_back d cb = Some cb' \<and> cb_inv cb' \<and> cb_bytes cb' = cb_bytes cb @ [d]
           \<and> cb_capacity cb' = cb_capacity cb"
proof -
  let ?cap = "cb_capacity cb" and ?f = "cb_frontIdx cb" and ?n = "cb_size cb"
  define cb' where "cb' = cb\<lparr>cb_data := (cb_data cb)[cb_backIdx cb := d],
    cb_backIdx := (if Suc (cb_backIdx cb) = ?cap then 0 else Suc (cb_backIdx cb))\<rparr>"
  have b: "cb_backIdx cb = (?f + ?n) mod ?cap" using cb_back_ring[OF inv] by simp
  have n: "Suc ?n < ?cap" using room inv by (simp add: cb_room_eq)
  have "cb_backIdx cb' = (?f + Suc ?n) mod ?cap"
    using b n inv by (auto simp: cb'_def cb_inv_def mod_Suc)
  then have "cb_inv cb' \<and> cb_bytes cb' = ring_list (cb_data cb') ?cap ?f (Suc ?n)"
    using cb_bytes_from_ring[of cb' ?cap ?f "Suc ?n"] n inv by (simp add: cb'_def cb_inv_def)
  moreover have "ring_list (cb_data cb') ?cap ?f (Suc ?n) = cb_bytes cb @ [d]"
    using ring_list_push[of ?f ?cap "cb_data cb" ?n d] n inv b
    by (simp add: cb'_def cb_inv_def cb_bytes_def)
  moreover have "cb_push_back d cb = Some cb'"
    using inv by (simp add: cb_push_back_def cb'_def cb_inv_def mem_put_def)
  ultimately show ?thesis by (auto simp: cb'_def)
qed

lemma cb_front_ok:
  assumes "cb_inv cb" "offset < cb_size cb"
  shows "cb_front cb offset = Some (cb_bytes cb ! offset)"
  using assms cb_size_less[OF assms(1)]
  by (auto simp: cb_front_def cb_bytes_def cb_inv_def Let_def mod_if)

lemma cb_pop_front_ok:
  assumes inv: "cb_inv cb" and n: "num \<le> cb_size cb"
  shows "cb_inv (cb_pop_front cb num)" "cb_bytes (cb_pop_front cb num) = drop num (cb_bytes cb)"
    "cb_capacity (cb_pop_front cb num) = cb_capacity cb"
proof -
  let ?cap = "cb_capacity cb" and ?f = "cb_frontIdx cb" and ?cb' = "cb_pop_front cb num"
  have lt: "cb_size cb < ?cap" using cb_size_less[OF inv] .
  have f: "cb_frontIdx ?cb' = (?f + num) mod ?cap"
    using inv n lt by (auto simp: cb_pop_front_def cb_inv_def mod_if Let_def)
  have "cb_backIdx ?cb' = (cb_frontIdx ?cb' + (cb_size cb - num)) mod ?cap"
  proof -
    have "((?f + num) mod ?cap + (cb_size cb - num)) mod ?cap = (?f + cb_size cb) mod ?cap"
      using n by (subst mod_add_left_eq) simp
    then show ?thesis unfolding f cb_back_ring[OF inv] by (simp add: cb_pop_front_def Let_def)
  qed
  from cb_bytes_from_ring[of ?cb' ?cap "cb_frontIdx ?cb'" "cb_size cb - num", OF _ _ _ _ _ this]
  show "cb_inv ?cb'" "cb_bytes ?cb' = drop num (cb_bytes cb)" "cb_capacity ?cb' = ?cap"
    using inv lt f n ring_list_drop[OF n, of "cb_data cb" ?cap ?f]
    by (auto simp: cb_pop_front_def cb_inv_def cb_bytes_def Let_def)
qed

lemma cb_pop_back_ok:
  assumes inv: "cb_inv cb" and n: "num \<le> cb_size cb"
  shows "cb_inv (cb_pop_back cb num)"
    "cb_bytes (cb_pop_back cb num) = take (cb_size cb - num) (cb_bytes cb)"
    "cb_capacity (cb_pop_back cb num) = cb_capacity cb"
proof -
  let ?cap = "cb_capacity cb" and ?f = "cb_frontIdx cb" and ?cb' = "cb_pop_back cb num"
  have lt: "cb_size cb < ?cap" using cb_size_less[OF inv] .
  have "cb_backIdx ?cb' = (?f + (cb_size cb - num)) mod ?cap"
    using inv n lt cb_back_ring[OF inv]
    by (auto simp: cb_pop_back_def cb_inv_def mod_if split: if_splits)
  from cb_bytes_from_ring[of ?cb' ?cap ?f "cb_size cb - num", OF _ _ _ _ _ this]
  show "cb_inv ?cb'" "cb_bytes ?cb' = take (cb_size cb - num) (cb_bytes cb)" "cb_capacity ?cb' = ?cap"
    using inv lt n ring_list_take[of "cb_size cb - num" "cb_size cb" "cb_data cb" ?cap ?f]
    by (auto simp: cb_pop_back_def cb_inv_def cb_bytes_def)
qed

lemmas cb_pops = cb_pop_front_ok cb_pop_back_ok

interpretation cb: bounded_fifo cb_inv cb_bytes cb_room cb_push_back
  "\<lambda>cb. if cb_size cb = 0 then None else Some (cb_pop_front cb 1)"
proof unfold_locales
  fix q x assume "cb_inv q" "0 < cb_room q"
  then show "\<exists>q'. cb_push_back x q = Some q' \<and> cb_inv q' \<and> cb_bytes q' = cb_bytes q @ [x]
      \<and> cb_room q' = cb_room q - 1"
    using cb_push_back_ok[of q x] by (auto simp: cb_room_eq simp del: length_cb_bytes)
next
  fix q assume "cb_inv q" "cb_bytes q \<noteq> []"
  moreover from this have "1 \<le> cb_size q" by (cases "cb_bytes q") (auto simp flip: length_cb_bytes)
  ultimately show "\<exists>q'. (if cb_size q = 0 then None else Some (cb_pop_front q 1)) = Some q'
      \<and> cb_inv q' \<and> cb_bytes q' = tl (cb_bytes q) \<and> cb_room q' = Suc (cb_room q)"
    using cb_pop_front_ok[of q 1] cb_size_less[of q]
    by (auto simp: cb_room_eq drop_Suc simp flip: length_cb_bytes)
qed

section \<open>Flushing to and from the user's byte streams\<close>

text \<open>
  The contracts of the callbacks, as \<^verbatim>\<open>generic_serial_transport.h\<close> users implement them: \<^verbatim>\<open>put\<close>
  takes a prefix of the block it is offered, \<^verbatim>\<open>get\<close> stores at most as many bytes as it is offered
  room for, and they come off the front of the input.
\<close>

definition put_contract :: "(u8 list \<Rightarrow> 'e \<Rightarrow> nat \<times> 'e) \<Rightarrow> ('e \<Rightarrow> u8 list) \<Rightarrow> bool" where
  "put_contract write sent \<longleftrightarrow> (\<forall>blk e. fst (write blk e) \<le> length blk
      \<and> sent (snd (write blk e)) = sent e @ take (fst (write blk e)) blk)"

definition get_contract :: "(nat \<Rightarrow> 'e \<Rightarrow> u8 list \<times> 'e) \<Rightarrow> ('e \<Rightarrow> u8 list) \<Rightarrow> bool" where
  "get_contract read input \<longleftrightarrow> (\<forall>num e. length (fst (read num e)) \<le> num
      \<and> input e = fst (read num e) @ input (snd (read num e)))"

lemma put_contractD:
  assumes "put_contract write sent" "write blk e = (n, e')"
  shows "n \<le> length blk" "sent e' = sent e @ take n blk"
  using assms unfolding put_contract_def by (metis fst_conv snd_conv)+

lemma get_contractD:
  assumes "get_contract read input" "read num e = (bs, e')"
  shows "length bs \<le> num" "input e = bs @ input e'"
  using assms unfolding get_contract_def by (metis fst_conv snd_conv)+

lemma cb_slice_front:
  assumes "cb_inv cb" "n \<le> cb_size cb" "cb_frontIdx cb + n \<le> cb_capacity cb"
  shows "mem_slice (cb_data cb) (cb_frontIdx cb) n = Some (take n (cb_bytes cb))"
  using assms cb_size_less[of cb] ring_list_take[of n "cb_size cb" "cb_data cb" "cb_capacity cb" "cb_frontIdx cb"]
  by (simp add: mem_slice_def cb_bytes_def cb_inv_def ring_list_contiguous)

lemma cb_blit_back:
  assumes inv: "cb_inv cb" and room: "length bs \<le> cb_room cb"
    and fit: "cb_backIdx cb + length bs \<le> cb_capacity cb"
  defines "dat \<equiv> take (cb_backIdx cb) (cb_data cb) @ bs @ drop (cb_backIdx cb + length bs) (cb_data cb)"
  defines "cb' \<equiv> cb\<lparr>cb_data := dat,
      cb_backIdx := (if cb_backIdx cb + length bs = cb_capacity cb then 0 else cb_backIdx cb + length bs)\<rparr>"
  shows "mem_blit (cb_data cb) (cb_backIdx cb) bs = Some dat" "cb_inv cb'" "cb_bytes cb' = cb_bytes cb @ bs"
proof -
  let ?cap = "cb_capacity cb" and ?f = "cb_frontIdx cb" and ?n = "cb_size cb"
  have lt: "?n + length bs < ?cap" using room inv cb_size_less[OF inv] by (simp add: cb_room_eq)
  have b: "cb_backIdx cb = (?f + ?n) mod ?cap" using cb_back_ring[OF inv] by simp
  show "mem_blit (cb_data cb) (cb_backIdx cb) bs = Some dat"
    using inv fit by (simp add: mem_blit_def dat_def cb_inv_def)
  have "cb_backIdx cb' = (cb_backIdx cb + length bs) mod ?cap"
    using fit inv by (auto simp: cb'_def cb_inv_def)
  also have "\<dots> = (?f + (?n + length bs)) mod ?cap" unfolding b by (simp add: mod_add_left_eq add.assoc)
  finally have "cb_inv cb' \<and> cb_bytes cb' = ring_list dat ?cap ?f (?n + length bs)"
    using cb_bytes_from_ring[of cb' ?cap ?f "?n + length bs"] lt inv fit
    by (simp add: cb'_def dat_def cb_inv_def)
  moreover have "ring_list dat ?cap ?f (?n + length bs) = cb_bytes cb @ bs"
    unfolding dat_def cb_bytes_def by (rule ring_list_blit) (use inv lt b fit in \<open>auto simp: cb_inv_def\<close>)
  ultimately show "cb_inv cb'" "cb_bytes cb' = cb_bytes cb @ bs" by auto
qed

text \<open>One \<^verbatim>\<open>write\<close> of a block at the front: the bytes it took move from the buffer to the sink.\<close>

lemma cb_flush_step:
  assumes inv: "cb_inv cb" and n: "k \<le> cb_size cb" and fit: "cb_frontIdx cb + k \<le> cb_capacity cb"
    and w: "put_contract write sent" "write (take k (cb_bytes cb)) e = (n, e')"
  shows "n \<le> k" "cb_inv (cb_pop_front cb n)" "cb_size (cb_pop_front cb n) = cb_size cb - n"
    "sent e' @ cb_bytes (cb_pop_front cb n) = sent e @ cb_bytes cb"
proof -
  note c = put_contractD[OF w]
  show nk: "n \<le> k" using c(1) n by simp
  with n have le: "n \<le> cb_size cb" by simp
  note p = cb_pop_front_ok[OF inv le]
  show "cb_inv (cb_pop_front cb n)" by (rule p(1))
  show "cb_size (cb_pop_front cb n) = cb_size cb - n"
    using p(2) by (metis length_cb_bytes length_drop)
  show "sent e' @ cb_bytes (cb_pop_front cb n) = sent e @ cb_bytes cb"
    using c(2) p(2) nk by (simp add: min_absorb1)
qed

text \<open>
  \<^verbatim>\<open>cb_flush_out\<close> never reads outside the buffer and loses, duplicates or reorders nothing: what
  the sink received so far followed by what is left in the buffer is unchanged.
\<close>

lemma cb_flush_out_conserves:
  assumes inv: "cb_inv cb" and w: "put_contract write sent"
  shows "\<exists>n cb' e'. cb_flush_out write cb e = Some (n, cb', e') \<and> cb_inv cb'
    \<and> sent e' @ cb_bytes cb' = sent e @ cb_bytes cb \<and> cb_size cb = n + cb_size cb'"
proof (cases "cb_size cb = 0")
  case False
  let ?f = "cb_frontIdx cb" and ?cap = "cb_capacity cb" and ?sz = "cb_size cb"
  define c where "c = min (?cap - ?f) ?sz"
  obtain n e1 where w1: "write (take c (cb_bytes cb)) e = (n, e1)" by fastforce
  define cb1 where "cb1 = cb_pop_front cb n"
  have f: "?f < ?cap" using inv by (simp add: cb_inv_def)
  have c: "c \<le> ?sz" "?f + c \<le> ?cap" using f by (auto simp: c_def)
  note s1 = cb_flush_step[OF inv c w w1, folded cb1_def]
  have sl: "mem_slice (cb_data cb) ?f c = Some (take c (cb_bytes cb))"
    using cb_slice_front[OF inv c] .
  have unfold: "cb_flush_out write cb e = (if n \<noteq> c \<or> ?sz - c = 0 then Some (n, cb1, e1)
      else do { blk \<leftarrow> mem_slice (cb_data cb1) 0 (?sz - c);
                let (n2, e2) = write blk e1; Some (n + n2, cb_pop_front cb1 n2, e2) })"
    using False sl w1 f c by (simp add: cb_flush_out_def Let_def cb1_def flip: c_def)
  show ?thesis
  proof (cases "n \<noteq> c \<or> ?sz - c = 0")
    case True
    then show ?thesis using unfold s1 c by auto
  next
    case no: False
    then have c': "c = ?cap - ?f" "n = ?cap - ?f" by (auto simp: c_def)
    have f1: "cb_frontIdx cb1 = 0" "cb_data cb1 = cb_data cb" "cb_capacity cb1 = ?cap"
      using c' f by (auto simp: cb_pop_front_def Let_def cb1_def)
    have sz1: "cb_size cb1 = ?sz - c" using s1(3) no by simp
    obtain n2 e2 where w2: "write (take (?sz - c) (cb_bytes cb1)) e1 = (n2, e2)" by fastforce
    have le: "?sz - c \<le> cb_size cb1" "cb_frontIdx cb1 + (?sz - c) \<le> cb_capacity cb1"
      using sz1 f1 cb_size_less[OF inv] by auto
    note s2 = cb_flush_step[OF s1(2) le w w2]
    have "cb_flush_out write cb e = Some (n + n2, cb_pop_front cb1 n2, e2)"
      using unfold no cb_slice_front[OF s1(2) le] f1 w2 by simp
    then show ?thesis using s1 s2 sz1 no c by auto
  qed
qed (use inv in \<open>auto simp: cb_flush_out_def\<close>)

text \<open>
  \<^verbatim>\<open>cb_flush_in\<close> never writes outside the buffer, never overwrites stored bytes, and appends to the
  contents exactly the bytes the reader delivered, in order.
\<close>

lemma cb_flush_in_wrapped:
  assumes inv: "cb_inv cb" and r: "get_contract read input" and lt: "cb_backIdx cb < cb_frontIdx cb"
  shows "\<exists>n cb' e'. cb_flush_in read cb e = Some (n, cb', e') \<and> cb_inv cb'
    \<and> cb_bytes cb' @ input e' = cb_bytes cb @ input e \<and> cb_size cb' = cb_size cb + n"
proof -
  obtain bs e' where rd: "read (cb_room cb) e = (bs, e')" by fastforce
  note c = get_contractD[OF r rd]
  have "cb_room cb < cb_frontIdx cb - cb_backIdx cb"
    using inv lt by (simp add: cb_room_eq cb_size_ring ring_count_def cb_inv_def)
  then have "cb_backIdx cb + length bs < cb_capacity cb" using c(1) inv lt by (auto simp: cb_inv_def)
  with cb_blit_back[OF inv c(1)] rd lt c show ?thesis
    by (auto simp: cb_flush_in_def Let_def simp flip: length_cb_bytes)
qed

lemma cb_flush_in_conserves:
  assumes inv: "cb_inv cb" and r: "get_contract read input"
  shows "\<exists>n cb' e'. cb_flush_in read cb e = Some (n, cb', e') \<and> cb_inv cb'
    \<and> cb_bytes cb' @ input e' = cb_bytes cb @ input e \<and> cb_size cb' = cb_size cb + n"
proof (cases "cb_backIdx cb < cb_frontIdx cb")
  case True
  with cb_flush_in_wrapped[OF inv r] show ?thesis by blast
next
  case False
  let ?b = "cb_backIdx cb" and ?cap = "cb_capacity cb" and ?room = "cb_room cb"
  define c where "c = min (?cap - ?b) ?room"
  obtain bs e1 where rd: "read c e = (bs, e1)" by fastforce
  note gc = get_contractD[OF r rd]
  have b: "?b < ?cap" using inv by (simp add: cb_inv_def)
  have c: "c \<le> ?cap - ?b" "c \<le> ?room" by (auto simp: c_def)
  have bl: "length bs \<le> ?room" "?b + length bs \<le> ?cap" using gc(1) b c by auto
  define dat where "dat = take ?b (cb_data cb) @ bs @ drop (?b + length bs) (cb_data cb)"
  define cb1 where "cb1 = cb\<lparr>cb_data := dat,
      cb_backIdx := (if ?b + length bs = ?cap then 0 else ?b + length bs)\<rparr>"
  note w1 = cb_blit_back[OF inv bl, folded dat_def, folded cb1_def]
  have sz1: "cb_size cb1 = cb_size cb + length bs" using w1(3) by (metis length_append length_cb_bytes)
  have unfold: "cb_flush_in read cb e = (if length bs \<noteq> c \<or> ?room - c = 0 then Some (length bs, cb1, e1)
      else let (bs2, e2) = read (?room - c) e1 in do {
             dat \<leftarrow> mem_blit (cb_data cb1) 0 bs2;
             Some (length bs + length bs2,
                   cb1\<lparr>cb_data := dat, cb_backIdx := cb_backIdx cb1 + length bs2\<rparr>, e2) })"
    using False rd w1(1) b c gc(1)
    by (simp add: cb_flush_in_def Let_def cb1_def flip: c_def)
  show ?thesis
  proof (cases "length bs \<noteq> c \<or> ?room - c = 0")
    case True
    then have "cb_flush_in read cb e = Some (length bs, cb1, e1)" using unfold by simp
    then show ?thesis using w1 gc sz1 by auto
  next
    case no: False
    then have "length bs = ?cap - ?b" by (auto simp: c_def)
    then have b1: "cb_backIdx cb1 = 0" "cb_capacity cb1 = ?cap" using b by (auto simp: cb1_def)
    obtain bs2 e2 where rd2: "read (?room - c) e1 = (bs2, e2)" by fastforce
    note gc2 = get_contractD[OF r rd2]
    have "cb_room cb1 = ?room - c" using w1(2) inv no sz1 b1 by (simp add: cb_room_eq)
    moreover have "?room < ?cap" using inv b by (simp add: cb_room_eq)
    ultimately have bl2: "length bs2 \<le> cb_room cb1" "cb_backIdx cb1 + length bs2 < cb_capacity cb1"
      using gc2(1) b1 by auto
    note w2 = cb_blit_back[OF w1(2) bl2(1) less_imp_le[OF bl2(2)]]
    show ?thesis using unfold no rd2 w1 w2 gc gc2 sz1 b1 bl2 by (auto simp flip: length_cb_bytes)
  qed
qed

end
