(* ===== verification/Fletcher.thy ===== *)
theory Fletcher
  imports Zcm_Prelude
begin

text \<open>
  The checksum of the serial framing (\<^verbatim>\<open>zcm/transport/generic_serial_fletcher.h\<close>), kept at its
  width of 16 bits, and its arithmetic: the two bytes of the sum are the residues modulo 255 of
  the sum of the bytes and of the sum of the partial sums, which is what makes the checksum
  notice a corrupted byte.
\<close>

definition fletcherUpdate :: "u8 \<Rightarrow> u16 \<Rightarrow> u16" where
  "fletcherUpdate b prevSum =
     (let sumHigh = drop_bit 8 prevSum AND 0xff;
          sumLow = prevSum AND 0xff;
          sumLow = sumLow + ucast b;
          sumHigh = sumHigh + sumLow;
          sumLow = (sumLow AND 0xff) + drop_bit 8 sumLow;
          sumHigh = (sumHigh AND 0xff) + drop_bit 8 sumHigh;
          sumLow = (sumLow AND 0xff) + drop_bit 8 sumLow;
          sumHigh = (sumHigh AND 0xff) + drop_bit 8 sumHigh
      in push_bit 8 sumHigh OR sumLow)"

text \<open>The checksum of a byte sequence, from the value the framing starts with.\<close>

definition fletcher :: "u8 list \<Rightarrow> u16 \<Rightarrow> u16" where
  "fletcher = fold fletcherUpdate"

lemma fletcher_simps [simp]:
  "fletcher [] s = s" "fletcher (b # bs) s = fletcher bs (fletcherUpdate b s)"
  "fletcher (xs @ ys) s = fletcher ys (fletcher xs s)"
  by (simp_all add: fletcher_def)

section \<open>The two halves as natural numbers\<close>

definition cs_low :: "u16 \<Rightarrow> nat" where "cs_low s = unat s mod 256"
definition cs_high :: "u16 \<Rightarrow> nat" where "cs_high s = unat s div 256"

definition red :: "nat \<Rightarrow> nat" where "red n = n mod 256 + n div 256"

lemma red_mod: "red n mod 255 = n mod 255"
proof -
  have "n mod 255 = (256 * (n div 256) + n mod 256) mod 255" by simp
  also have "\<dots> = (255 * (n div 256) + red n) mod 255" by (simp add: red_def)
  also have "\<dots> = red n mod 255" by (metis mod_mult_self4)
  finally show ?thesis by simp
qed

lemma red_red_le: "n < 1024 \<Longrightarrow> red (red n) \<le> 255"
proof -
  assume "n < 1024"
  then have "n div 256 \<le> 3" "n mod 256 \<le> 255" by simp_all
  then have "red n \<le> 258" by (simp add: red_def)
  then show ?thesis by (cases "red n < 256") (auto simp: red_def[of "red n"] mod_if)
qed

lemma unat_and_ff: "unat ((x :: u16) AND 0xff) = unat x mod 256"
proof -
  have "x AND 0xff = take_bit 8 x" by (simp add: take_bit_eq_mask mask_eq_exp_minus_1)
  then show ?thesis by (simp only: unsigned_take_bit_eq) (simp add: take_bit_eq_mod)
qed

lemma unat_shr8: "unat (drop_bit 8 (x :: u16)) = unat x div 256"
  by (simp add: unsigned_drop_bit_eq drop_bit_eq_div take_bit_eq_mod unat_div_distrib)

lemma unat_red: "unat x < 1024 \<Longrightarrow> unat ((x AND 0xff) + drop_bit 8 (x :: u16)) = red (unat x)"
proof -
  assume "unat x < 1024"
  then have "unat x div 256 < 4" "unat x mod 256 < 256" by simp_all
  then have "unat (x AND 0xff) + unat (drop_bit 8 x) < 2 ^ LENGTH(16)"
    by (simp add: unat_and_ff unat_shr8)
  then show ?thesis by (simp add: unat_word_ariths unat_and_ff unat_shr8 red_def)
qed

lemma red_less: "n < 1024 \<Longrightarrow> red n < 1024"
proof -
  assume "n < 1024"
  then have "n div 256 \<le> 3" "n mod 256 \<le> 255" by simp_all
  then show ?thesis by (simp add: red_def)
qed

lemma unat_red_red:
  assumes "unat (x :: u16) < 1024"
  shows "unat ((((x AND 0xff) + drop_bit 8 x) AND 0xff) + drop_bit 8 ((x AND 0xff) + drop_bit 8 x))
    = red (red (unat x))"
  using unat_red[of x] unat_red[of "(x AND 0xff) + drop_bit 8 x"] assms red_less[OF assms] by simp

lemma unat_pack:
  assumes "unat (h :: u16) < 256" "unat l < 256"
  shows "unat (push_bit 8 h OR l) = 256 * unat h + unat l"
proof -
  have l: "take_bit 8 l = l"
    using assms(2) by (simp add: word_unat_eq_iff unsigned_take_bit_eq take_bit_nat_eq_self_iff)
  have "push_bit 8 h AND l = 0"
    by (subst l[symmetric]) (rule bit_eqI, simp add: bit_simps)
  then have "push_bit 8 h OR l = push_bit 8 h + l" by (simp add: disjunctive_add_eq_or)
  moreover have "unat (push_bit 8 h) = 256 * unat h"
    using assms(1) by (simp add: push_bit_eq_mult unat_word_ariths mult.commute)
  ultimately show ?thesis using assms by (simp add: unat_word_ariths)
qed

text \<open>The step on the two halves: both reductions keep the residue and fit in a byte.\<close>

lemma fletcherUpdate_halves:
  "cs_low (fletcherUpdate b s) = red (red (cs_low s + unat b))"
  "cs_high (fletcherUpdate b s) = red (red (cs_high s + cs_low s + unat b))"
proof -
  define l where "l = (s AND 0xff) + ucast b"
  define h where "h = (drop_bit 8 s AND 0xff) + l"
  define R where "R x = (x AND 0xff) + drop_bit 8 x" for x :: u16
  have hs: "unat s div 256 < 256" using unsigned_less[of s, where 'a=nat] by simp
  have ub: "unat (ucast b :: u16) = unat b" "unat b < 256"
    using unsigned_less[of b, where 'a=nat] by (simp_all add: unsigned_ucast_eq take_bit_nat_eq_self_iff)
  have l: "unat l = cs_low s + unat b"
    using ub by (simp add: l_def unat_word_ariths unat_and_ff cs_low_def)
  have h: "unat h = cs_high s + cs_low s + unat b"
    using hs ub unfolding h_def unat_word_ariths l
    by (simp add: unat_and_ff unat_shr8 cs_low_def cs_high_def)
  have bl: "unat l < 1024" "unat h < 1024"
    using hs ub by (simp_all add: l h cs_low_def cs_high_def)
  note rl = unat_red_red[OF bl(1), folded R_def] red_red_le[OF bl(1)]
  note rh = unat_red_red[OF bl(2), folded R_def] red_red_le[OF bl(2)]
  have "fletcherUpdate b s = push_bit 8 (R (R h)) OR R (R l)"
    by (simp add: fletcherUpdate_def Let_def R_def h_def l_def)
  then have u: "unat (fletcherUpdate b s) = 256 * unat (R (R h)) + unat (R (R l))"
    using unat_pack rl rh by simp
  show "cs_low (fletcherUpdate b s) = red (red (cs_low s + unat b))"
    using u rl l by (simp add: cs_low_def)
  show "cs_high (fletcherUpdate b s) = red (red (cs_high s + cs_low s + unat b))"
    using u rl rh h by (simp add: cs_high_def)
qed

lemma fletcherUpdate_residues:
  "cs_low (fletcherUpdate b s) mod 255 = (cs_low s + unat b) mod 255"
  "cs_high (fletcherUpdate b s) mod 255 = (cs_high s + cs_low s + unat b) mod 255"
  by (simp_all add: fletcherUpdate_halves red_mod)

section \<open>The checksum as two running sums\<close>

lemma mod255_cong_add: "(a :: nat) mod 255 = a' mod 255 \<Longrightarrow> (a + b) mod 255 = (a' + b) mod 255"
  by (metis mod_add_left_eq)

text \<open>The low byte is the byte sum; the high byte is the sum of its partial sums.\<close>

fun partial_sums :: "nat \<Rightarrow> u8 list \<Rightarrow> nat" where
  "partial_sums l [] = 0"
| "partial_sums l (b # bs) = (l + unat b) + partial_sums (l + unat b) bs"

lemma partial_sums_cong: "l mod 255 = l' mod 255 \<Longrightarrow> partial_sums l bs mod 255 = partial_sums l' bs mod 255"
proof (induction bs arbitrary: l l')
  case (Cons b bs)
  have e: "(l + unat b) mod 255 = (l' + unat b) mod 255" using mod255_cong_add[OF Cons.prems] .
  show ?case using mod_add_cong[OF e Cons.IH[OF e]] by simp
qed simp

lemma fletcher_sums:
  "cs_low (fletcher bs s) mod 255 = (cs_low s + sum_list (map unat bs)) mod 255"
  "cs_high (fletcher bs s) mod 255 = (cs_high s + partial_sums (cs_low s) bs) mod 255"
proof (induction bs arbitrary: s)
  case (Cons b bs)
  { case (1 s)
    let ?s = "fletcherUpdate b s"
    have "(cs_low ?s + sum_list (map unat bs)) mod 255 = (cs_low s + sum_list (map unat (b # bs))) mod 255"
      using mod255_cong_add[OF fletcherUpdate_residues(1)[of b s], of "sum_list (map unat bs)"]
      by (simp only: list.map sum_list.Cons add.assoc)
    from trans[OF Cons.IH(1)[of ?s] this] show ?case by simp
  next
    case (2 s)
    let ?s = "fletcherUpdate b s"
    have "partial_sums (cs_low ?s) bs mod 255 = partial_sums (cs_low s + unat b) bs mod 255"
      by (rule partial_sums_cong) (rule fletcherUpdate_residues(1))
    with fletcherUpdate_residues(2)[of b s] have "(cs_high ?s + partial_sums (cs_low ?s) bs) mod 255
        = (cs_high s + cs_low s + unat b + partial_sums (cs_low s + unat b) bs) mod 255"
      by (metis mod_add_cong)
    from trans[OF Cons.IH(2)[of ?s] this] show ?case by (simp add: add.assoc) }
qed simp_all

lemma nat_mod_add_cancel: "((n :: nat) + a) mod m = (n + b) mod m \<longleftrightarrow> a mod m = b mod m"
proof
  assume "(n + a) mod m = (n + b) mod m"
  then obtain q1 q2 where "n + a + m * q1 = n + b + m * q2" using nat_mod_eq_iff by blast
  then show "a mod m = b mod m" by (simp add: nat_mod_eq_iff) (metis add.assoc add_left_cancel)
qed (metis mod_add_right_eq)

text \<open>A single corrupted byte always changes the sum, unless it turned 0 into 255 or back.\<close>

lemma fletcher_single_byte:
  assumes "unat a mod 255 \<noteq> unat b mod 255"
  shows "fletcher (xs @ a # ys) s \<noteq> fletcher (xs @ b # ys) s"
proof
  let ?n = "cs_low s + sum_list (map unat xs) + sum_list (map unat ys)"
  assume "fletcher (xs @ a # ys) s = fletcher (xs @ b # ys) s"
  then have "(?n + unat a) mod 255 = (?n + unat b) mod 255"
    using fletcher_sums(1)[of "xs @ a # ys" s] fletcher_sums(1)[of "xs @ b # ys" s]
    by (simp add: ac_simps)
  then show False using assms by (simp add: nat_mod_add_cancel)
qed

end
