(* ===== verification/Generic_Serial.thy ===== *)
theory Generic_Serial
  imports Transport Circ_Buff Fletcher
begin

text \<open>
  The generic serial transport (\<^verbatim>\<open>zcm/transport/generic_serial_transport.c\<close>): framing of messages
  into the send buffer, with byte stuffing and a Fletcher checksum, and parsing of frames from the
  receive buffer, with resynchronisation. The frame format is stated once (\<open>serial_frame\<close>); the
  sender is proved to append exactly that frame or to leave the buffer as it was, the receiver to
  take exactly that frame off the buffer.
\<close>

section \<open>Constants and state\<close>

definition ZCM_GENERIC_SERIAL_ESCAPE_CHAR :: u8 where "ZCM_GENERIC_SERIAL_ESCAPE_CHAR = 0xcc"
definition FRAME_BYTES :: nat where "FRAME_BYTES = 9"

abbreviation ESC :: u8 where "ESC \<equiv> ZCM_GENERIC_SERIAL_ESCAPE_CHAR"

text \<open>
  The user's callbacks \<^verbatim>\<open>get\<close>, \<^verbatim>\<open>put\<close> and \<^verbatim>\<open>time\<close> share an environment \<open>'e\<close>, carried in the state.
\<close>

record 'e zcm_trans_generic_serial_t =
  sendBuffer :: circBuffer_t
  recvBuffer :: circBuffer_t
  recvChanName :: "u8 list"
  ser_mtu :: nat
  recvMsgData :: "u8 list"
  ser_env :: 'e

record 'e serial_callbacks =
  ser_get :: "nat \<Rightarrow> 'e \<Rightarrow> u8 list \<times> 'e"
  ser_put :: "u8 list \<Rightarrow> 'e \<Rightarrow> nat \<times> 'e"
  ser_time :: "'e \<Rightarrow> u64 \<times> 'e"

definition serial_get_mtu :: "'e zcm_trans_generic_serial_t \<Rightarrow> nat" where
  "serial_get_mtu zt = ser_mtu zt"

section \<open>Sending\<close>

text \<open>
  The two byte loops of \<^verbatim>\<open>serial_sendmsg\<close> differ only in what must still fit behind the loop:
  \<open>extra\<close> is \<^verbatim>\<open>msg.len\<close> in the channel loop and 0 in the data loop; \<open>length (c # cs)\<close> is
  \<^verbatim>\<open>chan_len - i\<close> and \<^verbatim>\<open>msg.len - i\<close>. \<open>Inl\<close> is the early exit for lack of room.
\<close>

fun serial_push_loop ::
    "nat \<Rightarrow> u8 list \<Rightarrow> circBuffer_t \<Rightarrow> nat \<Rightarrow> u16 \<Rightarrow>
       ((circBuffer_t \<times> nat) + (circBuffer_t \<times> nat \<times> u16)) option" where
  "serial_push_loop extra [] cb nPushed checksum = Some (Inr (cb, nPushed, checksum))"
| "serial_push_loop extra (c # cs) cb nPushed checksum =
     do {
       cb \<leftarrow> cb_push_back c cb;
       let nPushed = nPushed + 1;
       if c = ESC then
         if cb_room cb > length (c # cs) + extra + 1 then do {
           cb \<leftarrow> cb_push_back c cb;
           serial_push_loop extra cs cb (nPushed + 1) (fletcherUpdate c checksum)
         }
         else Some (Inl (cb, nPushed))
       else serial_push_loop extra cs cb nPushed (fletcherUpdate c checksum)
     }"

text \<open>\<^verbatim>\<open>(len>>24)&0xff\<close> and so on: the big-endian bytes of the length.\<close>

definition len_bytes :: "u32 \<Rightarrow> u8 list" where
  "len_bytes len = [ucast (drop_bit 24 len AND 0xff), ucast (drop_bit 16 len AND 0xff),
                    ucast (drop_bit 8 len AND 0xff), ucast (drop_bit 0 len AND 0xff)]"

definition serial_sendmsg ::
    "'e zcm_trans_generic_serial_t \<Rightarrow> zcm_msg_t \<Rightarrow> (int \<times> 'e zcm_trans_generic_serial_t) option" where
  "serial_sendmsg zt msg =
     (let chan_len = length (msg_channel msg) in
      if chan_len > ZCM_CHANNEL_MAXLEN then Some (ZCM_EINVALID, zt)
      else if msg_len msg > ser_mtu zt then Some (ZCM_EINVALID, zt)
      else if FRAME_BYTES + chan_len + msg_len msg > cb_room (sendBuffer zt) then Some (ZCM_EAGAIN, zt)
      else do {
        cb \<leftarrow> fold_opt cb_push_back ([ESC, 0, of_nat chan_len] @ len_bytes (of_nat (msg_len msg)))
               (sendBuffer zt);
        let nPushed = 7;
        r \<leftarrow> serial_push_loop (msg_len msg) (msg_channel msg) cb nPushed 0xffff;
        case r of
          Inl (cb, nPushed) \<Rightarrow> Some (ZCM_EAGAIN, zt\<lparr>sendBuffer := cb_pop_back cb nPushed\<rparr>)
        | Inr (cb, nPushed, checksum) \<Rightarrow> do {
            r \<leftarrow> serial_push_loop 0 (msg_buf msg) cb nPushed checksum;
            case r of
              Inl (cb, nPushed) \<Rightarrow> Some (ZCM_EAGAIN, zt\<lparr>sendBuffer := cb_pop_back cb nPushed\<rparr>)
            | Inr (cb, nPushed, checksum) \<Rightarrow> do {
                cb \<leftarrow> cb_push_back (ucast (drop_bit 8 checksum AND 0xff)) cb;
                cb \<leftarrow> cb_push_back (ucast (checksum AND 0xff)) cb;
                Some (ZCM_EOK, zt\<lparr>sendBuffer := cb\<rparr>)
              }
          }
      })"

definition serial_recvmsg_enable ::
    "'e zcm_trans_generic_serial_t \<Rightarrow> cstring \<Rightarrow> bool \<Rightarrow> int \<times> 'e zcm_trans_generic_serial_t" where
  "serial_recvmsg_enable zt channel enable = (ZCM_EOK, zt)"

section \<open>Receiving\<close>

datatype 'a flow = Again | Fail | Done 'a

text \<open>
  The channel loop: \<open>k = chan_len - i\<close> bytes are still to be read. Reading and unescaping advances
  \<open>consumed\<close>; \<open>chan\<close> is \<^verbatim>\<open>recvChanName\<close>.
\<close>

fun serial_read_chan ::
    "circBuffer_t \<Rightarrow> nat \<Rightarrow> nat \<Rightarrow> nat \<Rightarrow> nat \<Rightarrow> nat \<Rightarrow> u8 list \<Rightarrow> u16 \<Rightarrow> ((nat \<times> u16) flow \<times> u8 list) option" where
  "serial_read_chan rb incomingSize len 0 i consumed chan checksum = Some (Done (consumed, checksum), chan)"
| "serial_read_chan rb incomingSize len (Suc k) i consumed chan checksum =
     do {
       c \<leftarrow> cb_front rb consumed;
       let consumed = consumed + 1;
       if c = ESC then
         if consumed + Suc k + len + 2 > incomingSize then Some (Again, chan)
         else do {
           c \<leftarrow> cb_front rb consumed;
           let consumed = consumed + 1;
           if c \<noteq> ESC then Some (Fail, chan)
           else do {
             chan \<leftarrow> mem_put chan i c;
             serial_read_chan rb incomingSize len k (Suc i) consumed chan (fletcherUpdate c checksum)
           }
         }
       else do {
         chan \<leftarrow> mem_put chan i c;
         serial_read_chan rb incomingSize len k (Suc i) consumed chan (fletcherUpdate c checksum)
       }
     }"

text \<open>The data loop: \<open>k = msg->len - i\<close>; \<open>dat\<close> is \<^verbatim>\<open>recvMsgData\<close>.\<close>

fun serial_read_data ::
    "circBuffer_t \<Rightarrow> nat \<Rightarrow> nat \<Rightarrow> nat \<Rightarrow> nat \<Rightarrow> u8 list \<Rightarrow> u16 \<Rightarrow> ((nat \<times> u16) flow \<times> u8 list) option" where
  "serial_read_data rb incomingSize 0 i consumed dat checksum = Some (Done (consumed, checksum), dat)"
| "serial_read_data rb incomingSize (Suc k) i consumed dat checksum =
     (if consumed > incomingSize then Some (Again, dat)
      else do {
       c \<leftarrow> cb_front rb consumed;
       let consumed = consumed + 1;
       if c = ESC then
         if consumed + Suc k + 2 > incomingSize then Some (Again, dat)
         else do {
           c \<leftarrow> cb_front rb consumed;
           let consumed = consumed + 1;
           if c \<noteq> ESC then Some (Fail, dat)
           else do {
             dat \<leftarrow> mem_put dat i c;
             serial_read_data rb incomingSize k (Suc i) consumed dat (fletcherUpdate c checksum)
           }
         }
       else do {
         dat \<leftarrow> mem_put dat i c;
         serial_read_data rb incomingSize k (Suc i) consumed dat (fletcherUpdate c checksum)
       }
     })"

text \<open>
  One attempt of \<^verbatim>\<open>serial_recvmsg\<close>, from the label \<^verbatim>\<open>serial_recvmsg_start\<close> to a return or to
  \<^verbatim>\<open>goto fail\<close>. \<open>Again\<close> is \<^verbatim>\<open>return ZCM_EAGAIN\<close>.
\<close>

definition serial_recv_attempt ::
    "'e zcm_trans_generic_serial_t \<Rightarrow> u64 \<Rightarrow>
       (zcm_msg_t flow \<times> 'e zcm_trans_generic_serial_t) option" where
  "serial_recv_attempt zt utime =
     (let rb = recvBuffer zt; incomingSize = cb_size rb in
      if incomingSize < FRAME_BYTES then Some (Again, zt)
      else do {
        b0 \<leftarrow> cb_front rb 0;
        if b0 \<noteq> ESC then Some (Fail, zt)
        else do {
          b1 \<leftarrow> cb_front rb 1;
          if b1 \<noteq> 0 then Some (Fail, zt)
          else do {
            b2 \<leftarrow> cb_front rb 2;
            let chan_len = unat b2;
            b3 \<leftarrow> cb_front rb 3;
            b4 \<leftarrow> cb_front rb 4;
            b5 \<leftarrow> cb_front rb 5;
            b6 \<leftarrow> cb_front rb 6;
            let len = unat (push_bit 24 (ucast b3) OR push_bit 16 (ucast b4)
                            OR push_bit 8 (ucast b5) OR ucast b6 :: u32);
            if chan_len > ZCM_CHANNEL_MAXLEN then Some (Fail, zt)
            else if len > ser_mtu zt then Some (Fail, zt)
            else if incomingSize < FRAME_BYTES + chan_len + len then Some (Again, zt)
            else do {
              chan \<leftarrow> mem_blit (recvChanName zt) 0 (replicate ZCM_CHANNEL_MAXLEN 0);
              (r, chan) \<leftarrow> serial_read_chan rb incomingSize len chan_len 0 7 chan 0xffff;
              let zt = zt\<lparr>recvChanName := chan\<rparr>;
              case r of
                Again \<Rightarrow> Some (Again, zt)
              | Fail \<Rightarrow> Some (Fail, zt)
              | Done (consumed, checksum) \<Rightarrow> do {
                  chan \<leftarrow> mem_put chan chan_len 0;
                  (r, dat) \<leftarrow> serial_read_data rb incomingSize len 0 consumed (recvMsgData zt) checksum;
                  let zt = zt\<lparr>recvChanName := chan, recvMsgData := dat\<rparr>;
                  case r of
                    Again \<Rightarrow> Some (Again, zt)
                  | Fail \<Rightarrow> Some (Fail, zt)
                  | Done (consumed, checksum) \<Rightarrow> do {
                      hi \<leftarrow> cb_front rb consumed;
                      lo \<leftarrow> cb_front rb (consumed + 1);
                      let receivedCS = (push_bit 8 (ucast hi) OR ucast lo :: u16);
                      if receivedCS = checksum then
                        Some (Done \<lparr>msg_utime = utime,
                                    msg_channel = takeWhile (\<lambda>c. c \<noteq> 0) chan,
                                    msg_buf = take len dat\<rparr>,
                              zt\<lparr>recvBuffer := cb_pop_front rb (consumed + 2)\<rparr>)
                      else Some (Fail, zt)
                    }
                }
            }
          }
        }
      })"

text \<open>The \<^verbatim>\<open>do ... while\<close> of the \<^verbatim>\<open>fail\<close> label.\<close>

partial_function (option) serial_resync :: "circBuffer_t \<Rightarrow> circBuffer_t option" where
  "serial_resync cb =
     (let cb = cb_pop_front cb 1 in
      if cb_size cb = 0 then Some cb
      else Option.bind (cb_front cb 0)
             (\<lambda>c. if c \<noteq> ESC then serial_resync cb else Some cb))"

partial_function (option) serial_recvmsg ::
    "('e \<Rightarrow> u64 \<times> 'e) \<Rightarrow> 'e zcm_trans_generic_serial_t \<Rightarrow>
       (int \<times> zcm_msg_t option \<times> 'e zcm_trans_generic_serial_t) option" where
  "serial_recvmsg time zt =
     (let (utime, e) = time (ser_env zt) in
      Option.bind (serial_recv_attempt (zt\<lparr>ser_env := e\<rparr>) utime)
        (\<lambda>(r, zt). case r of
            Again \<Rightarrow> Some (ZCM_EAGAIN, None, zt)
          | Done msg \<Rightarrow> Some (ZCM_EOK, Some msg, zt)
          | Fail \<Rightarrow> Option.bind (serial_resync (recvBuffer zt))
                     (\<lambda>rb. serial_recvmsg time (zt\<lparr>recvBuffer := rb\<rparr>))))"

section \<open>Updating, creating, the method table\<close>

definition serial_update_rx ::
    "'e serial_callbacks \<Rightarrow> 'e zcm_trans_generic_serial_t \<Rightarrow> (int \<times> 'e zcm_trans_generic_serial_t) option" where
  "serial_update_rx cbs zt =
     map_option (\<lambda>(n, rb, e). (ZCM_EOK, zt\<lparr>recvBuffer := rb, ser_env := e\<rparr>))
       (cb_flush_in (ser_get cbs) (recvBuffer zt) (ser_env zt))"

definition serial_update_tx ::
    "'e serial_callbacks \<Rightarrow> 'e zcm_trans_generic_serial_t \<Rightarrow> (int \<times> 'e zcm_trans_generic_serial_t) option" where
  "serial_update_tx cbs zt =
     map_option (\<lambda>(n, sb, e). (ZCM_EOK, zt\<lparr>sendBuffer := sb, ser_env := e\<rparr>))
       (cb_flush_out (ser_put cbs) (sendBuffer zt) (ser_env zt))"

definition serial_update ::
    "'e serial_callbacks \<Rightarrow> 'e zcm_trans_generic_serial_t \<Rightarrow> (int \<times> 'e zcm_trans_generic_serial_t) option" where
  "serial_update cbs zt =
     do {
       (rxRet, zt) \<leftarrow> serial_update_rx cbs zt;
       (txRet, zt) \<leftarrow> serial_update_tx cbs zt;
       Some (if rxRet = ZCM_EOK then txRet else rxRet, zt)
     }"

definition serial_methods :: "'e serial_callbacks \<Rightarrow> 'e zcm_trans_generic_serial_t zcm_trans_methods_t" where
  "serial_methods cbs =
     \<lparr>vt_get_mtu = serial_get_mtu,
      vt_sendmsg = serial_sendmsg,
      vt_recvmsg_enable = (\<lambda>zt c en. Some (serial_recvmsg_enable zt c en)),
      vt_recvmsg = (\<lambda>zt timeout. serial_recvmsg (ser_time cbs) zt),
      vt_query_drops = None,
      vt_update = Some (serial_update cbs)\<rparr>"

text \<open>
  \<^verbatim>\<open>malloc n\<close> gives the blocks for \<^verbatim>\<open>recvMsgData\<close> and for the two buffers; the transport object and
  the uninitialised channel name come with it (\<open>chan0\<close>).
\<close>

definition zcm_trans_generic_serial_create ::
    "(nat \<Rightarrow> u8 list option) \<Rightarrow> u8 list \<Rightarrow> 'e serial_callbacks \<Rightarrow> 'e \<Rightarrow> nat \<Rightarrow> nat \<Rightarrow>
       'e zcm_trans_generic_serial_t zcm_trans_t option" where
  "zcm_trans_generic_serial_create malloc chan0 cbs e MTU bufSize =
     (if MTU = 0 \<or> bufSize < FRAME_BYTES + MTU then None
      else case malloc MTU of
        None \<Rightarrow> None
      | Some recvData \<Rightarrow>
          (let cb0 = \<lparr>cb_data = [], cb_capacity = 0, cb_frontIdx = 0, cb_backIdx = 0\<rparr>;
               (ok1, sb) = cb_init malloc cb0 bufSize
           in if \<not> ok1 then None
              else let (ok2, rb) = cb_init malloc cb0 bufSize
                   in if \<not> ok2 then None
                      else Some \<lparr>trans_type = ZCM_NONBLOCKING, trans_vtbl = serial_methods cbs,
                                 trans_state = \<lparr>sendBuffer = sb, recvBuffer = rb, recvChanName = chan0,
                                    ser_mtu = MTU, recvMsgData = recvData, ser_env = e\<rparr>\<rparr>))"

section \<open>The frame format\<close>

definition esc_bytes :: "u8 list \<Rightarrow> u8 list" where
  "esc_bytes cs = concat (map (\<lambda>c. if c = ESC then [c, c] else [c]) cs)"

definition cs_bytes :: "u16 \<Rightarrow> u8 list" where
  "cs_bytes ck = [ucast (drop_bit 8 ck AND 0xff), ucast (ck AND 0xff)]"

definition serial_header :: "nat \<Rightarrow> nat \<Rightarrow> u8 list" where
  "serial_header chan_len len = [ESC, 0, of_nat chan_len] @ len_bytes (of_nat len)"

definition serial_frame :: "u8 list \<Rightarrow> u8 list \<Rightarrow> u8 list" where
  "serial_frame chan dat = serial_header (length chan) (length dat)
     @ esc_bytes chan @ esc_bytes dat @ cs_bytes (fletcher (chan @ dat) 0xffff)"

lemma esc_bytes_simps [simp]:
  "esc_bytes [] = []"
  "esc_bytes (c # cs) = (if c = ESC then [c, c] else [c]) @ esc_bytes cs"
  by (simp_all add: esc_bytes_def)

lemma length_esc_bytes: "length cs \<le> length (esc_bytes cs)"
  by (induction cs) auto

lemma length_cs_bytes [simp]: "length (cs_bytes ck) = 2"
  by (simp add: cs_bytes_def)

lemma length_serial_header [simp]: "length (serial_header m n) = 7"
  by (simp add: serial_header_def len_bytes_def)

lemma length_serial_frame:
  "length (serial_frame chan dat) = 9 + length (esc_bytes chan) + length (esc_bytes dat)"
  by (simp add: serial_frame_def)

section \<open>The sender appends a frame or nothing\<close>

lemma cb_push1:
  assumes "cb_inv cb" "0 < cb_room cb"
  obtains cb' where "cb_push_back d cb = Some cb'" "cb_inv cb'" "cb_bytes cb' = cb_bytes cb @ [d]"
    "cb_capacity cb' = cb_capacity cb" "cb_room cb' = cb_room cb - 1"
proof -
  from cb_push_back_ok[OF assms, of d] obtain cb' where c: "cb_push_back d cb = Some cb'" "cb_inv cb'"
      "cb_bytes cb' = cb_bytes cb @ [d]" "cb_capacity cb' = cb_capacity cb" by blast
  from c assms have "cb_room cb' = cb_room cb - 1" by (simp add: cb_room_eq del: length_cb_bytes)
  with c that show thesis by blast
qed

text \<open>
  A byte loop either stuffs all of its bytes into the buffer, which it does whenever they fit with
  what has to follow, or stops after a part of them.
\<close>

definition push_loop_post ::
    "nat \<Rightarrow> u8 list \<Rightarrow> circBuffer_t \<Rightarrow> nat \<Rightarrow> u16 \<Rightarrow> (circBuffer_t \<times> nat) + (circBuffer_t \<times> nat \<times> u16) \<Rightarrow> bool" where
  "push_loop_post extra cs cb n ck r =
     (if length (esc_bytes cs) + extra + 2 \<le> cb_room cb then
        (\<exists>cb'. r = Inr (cb', n + length (esc_bytes cs), fletcher cs ck) \<and> cb_inv cb'
           \<and> cb_bytes cb' = cb_bytes cb @ esc_bytes cs \<and> cb_capacity cb' = cb_capacity cb
           \<and> cb_room cb' = cb_room cb - length (esc_bytes cs))
      else (\<exists>cb' p. r = Inl (cb', n + length p) \<and> cb_inv cb' \<and> cb_bytes cb' = cb_bytes cb @ p
           \<and> cb_capacity cb' = cb_capacity cb))"

lemma push_loop_post_step:
  assumes "cb_bytes cb1 = cb_bytes cb @ p" "cb_capacity cb1 = cb_capacity cb"
    "cb_room cb1 = cb_room cb - length p" "length p \<le> cb_room cb" "esc_bytes (c # cs) = p @ esc_bytes cs"
    "push_loop_post extra cs cb1 (n + length p) (fletcherUpdate c ck) r"
  shows "push_loop_post extra (c # cs) cb n ck r"
  using assms by (auto simp: push_loop_post_def split: if_splits)

lemma serial_push_loop_spec:
  assumes "cb_inv cb" "length cs + extra + 2 \<le> cb_room cb"
  shows "\<exists>r. serial_push_loop extra cs cb n ck = Some r \<and> push_loop_post extra cs cb n ck r"
  using assms
proof (induction cs arbitrary: cb n ck)
  case Nil
  then show ?case by (simp add: push_loop_post_def)
next
  case (Cons c cs)
  obtain cb1 where p1: "cb_push_back c cb = Some cb1" "cb_inv cb1" "cb_bytes cb1 = cb_bytes cb @ [c]"
      "cb_capacity cb1 = cb_capacity cb" "cb_room cb1 = cb_room cb - 1"
    using cb_push1[of cb c] Cons.prems by auto
  show ?case
  proof (cases "c = ESC")
    case False
    have "length cs + extra + 2 \<le> cb_room cb1" using Cons.prems p1 by simp
    from Cons.IH[OF p1(2) this, of "n + 1" "fletcherUpdate c ck"] obtain r where
      r: "serial_push_loop extra cs cb1 (n + 1) (fletcherUpdate c ck) = Some r"
         "push_loop_post extra cs cb1 (n + 1) (fletcherUpdate c ck) r" by auto
    have "push_loop_post extra (c # cs) cb n ck r"
      by (rule push_loop_post_step[where p = "[c]"]) (use p1 r False Cons.prems in auto)
    with p1 r False show ?thesis by auto
  next
    case esc: True
    show ?thesis
    proof (cases "cb_room cb1 > length (c # cs) + extra + 1")
      case False
      have "push_loop_post extra (c # cs) cb n ck (Inl (cb1, n + 1))"
        using False p1 esc length_esc_bytes[of cs] by (auto simp: push_loop_post_def intro!: exI[of _ "[c]"])
      with False p1 esc show ?thesis by auto
    next
      case True
      then have "0 < cb_room cb1" by simp
      from cb_push1[OF p1(2) this, of c] obtain cb2 where p2: "cb_push_back c cb1 = Some cb2" "cb_inv cb2"
          "cb_bytes cb2 = cb_bytes cb1 @ [c]" "cb_capacity cb2 = cb_capacity cb1" "cb_room cb2 = cb_room cb1 - 1"
        by blast
      from p2(5) True have "length cs + extra + 2 \<le> cb_room cb2" by simp
      from Cons.IH[OF p2(2) this, of "n + 2" "fletcherUpdate c ck"] obtain r where
        r: "serial_push_loop extra cs cb2 (n + 2) (fletcherUpdate c ck) = Some r"
           "push_loop_post extra cs cb2 (n + 2) (fletcherUpdate c ck) r" by auto
      have "push_loop_post extra (c # cs) cb n ck r"
        by (rule push_loop_post_step[where p = "[c, c]"]) (use p1 p2 r esc True in auto)
      with p1 p2 r esc True show ?thesis by (auto simp: numeral_2_eq_2)
    qed
  qed
qed

abbreviation msg_within_limits :: "'e zcm_trans_generic_serial_t \<Rightarrow> zcm_msg_t \<Rightarrow> bool" where
  "msg_within_limits zt msg \<equiv> length (msg_channel msg) \<le> ZCM_CHANNEL_MAXLEN \<and> msg_len msg \<le> ser_mtu zt"

lemma serial_sendmsg_invalid:
  "\<not> msg_within_limits zt msg \<Longrightarrow> serial_sendmsg zt msg = Some (ZCM_EINVALID, zt)"
  by (auto simp: serial_sendmsg_def Let_def)

lemma serial_sendmsg_no_room:
  assumes "msg_within_limits zt msg" "FRAME_BYTES + length (msg_channel msg) + msg_len msg > cb_room (sendBuffer zt)"
  shows "serial_sendmsg zt msg = Some (ZCM_EAGAIN, zt)"
  using assms by (auto simp: serial_sendmsg_def Let_def)

lemma cb_capacity_room: "cb_inv cb \<Longrightarrow> cb_capacity cb = cb_room cb + 1 + length (cb_bytes cb)"
  using cb_size_less[of cb] by (simp add: cb_room_eq)

lemma cb_pop_back_undo:
  assumes "cb_inv cb'" "cb_bytes cb' = bs @ p" "length p = n"
  shows "cb_inv (cb_pop_back cb' n)" "cb_bytes (cb_pop_back cb' n) = bs"
    "cb_capacity (cb_pop_back cb' n) = cb_capacity cb'"
proof -
  have n: "n \<le> cb_size cb'" and d: "cb_size cb' - n = length bs"
    using assms(2,3) by (simp_all flip: length_cb_bytes)
  show "cb_inv (cb_pop_back cb' n)" "cb_bytes (cb_pop_back cb' n) = bs"
    "cb_capacity (cb_pop_back cb' n) = cb_capacity cb'"
    using cb_pop_back_ok[OF assms(1) n] d assms(2) by simp_all
qed

text \<open>What \<^verbatim>\<open>serial_sendmsg\<close> does once the length checks have passed.\<close>

definition send_post :: "circBuffer_t \<Rightarrow> u8 list \<Rightarrow> int \<Rightarrow> circBuffer_t \<Rightarrow> bool" where
  "send_post cb frame rc cb' \<longleftrightarrow> cb_inv cb' \<and> cb_capacity cb' = cb_capacity cb
     \<and> (if length frame \<le> cb_room cb then rc = ZCM_EOK \<and> cb_bytes cb' = cb_bytes cb @ frame
        else rc = ZCM_EAGAIN \<and> cb_bytes cb' = cb_bytes cb)"

lemma send_post_rollback:
  assumes "cb_inv cb" "\<not> length frame \<le> cb_room cb" "cb_inv cb'" "cb_bytes cb' = cb_bytes cb @ p"
    "length p = n" "cb_capacity cb' = cb_capacity cb"
  shows "send_post cb frame ZCM_EAGAIN (cb_pop_back cb' n)"
  using cb_pop_back_undo[OF assms(3,4,5)] assms by (simp add: send_post_def)

lemma serial_send_tail:
  assumes "cb_inv cb" "2 \<le> cb_room cb"
  shows "\<exists>cb1 cb'. cb_push_back (ucast (drop_bit 8 ck AND 0xff)) cb = Some cb1
      \<and> cb_push_back (ucast (ck AND 0xff)) cb1 = Some cb' \<and> cb_inv cb'
      \<and> cb_bytes cb' = cb_bytes cb @ cs_bytes ck \<and> cb_capacity cb' = cb_capacity cb"
proof -
  from cb.push_all[OF assms(1), of "cs_bytes ck"] assms(2) obtain cb' where
    p: "fold_opt cb_push_back (cs_bytes ck) cb = Some cb'" "cb_inv cb'" "cb_bytes cb' = cb_bytes cb @ cs_bytes ck"
      "cb_room cb' = cb_room cb - 2" by auto
  then have "cb_capacity cb' = cb_capacity cb"
    using assms cb_capacity_room[OF p(2)] cb_capacity_room[OF assms(1)] by (simp del: length_cb_bytes)
  with p show ?thesis by (auto simp: cs_bytes_def split: bind_splits)
qed

lemma serial_sendmsg_go:
  assumes inv: "cb_inv (sendBuffer zt)" and lim: "msg_within_limits zt msg"
    and fits: "FRAME_BYTES + length (msg_channel msg) + msg_len msg \<le> cb_room (sendBuffer zt)"
  shows "\<exists>rc sb'. serial_sendmsg zt msg = Some (rc, zt\<lparr>sendBuffer := sb'\<rparr>)
           \<and> send_post (sendBuffer zt) (serial_frame (msg_channel msg) (msg_buf msg)) rc sb'"
proof -
  let ?cb = "sendBuffer zt" and ?ch = "msg_channel msg" and ?d = "msg_buf msg"
  let ?fr = "serial_frame ?ch ?d"
  let ?hd = "serial_header (length ?ch) (length ?d)"
  note fl = length_serial_frame[of ?ch ?d] length_esc_bytes[of ?d]
  have hl: "length ?hd \<le> cb_room ?cb" using fits by (simp add: FRAME_BYTES_def)
  from cb.push_all[OF inv hl] obtain cb0 where c0:
    "fold_opt cb_push_back ?hd ?cb = Some cb0" "cb_inv cb0" "cb_bytes cb0 = cb_bytes ?cb @ ?hd"
    "cb_room cb0 = cb_room ?cb - 7" by auto
  have cap0: "cb_capacity cb0 = cb_capacity ?cb"
    using cb_capacity_room[OF c0(2)] cb_capacity_room[OF inv] c0 hl by (simp del: length_cb_bytes)
  have room0: "length ?ch + length ?d + 2 \<le> cb_room cb0" using fits c0 by (simp add: FRAME_BYTES_def)
  from serial_push_loop_spec[OF c0(2) room0, of 7 "0xffff"] obtain r1 where
    r1: "serial_push_loop (length ?d) ?ch cb0 7 0xffff = Some r1" "push_loop_post (length ?d) ?ch cb0 7 0xffff r1"
    by blast
  have start: "serial_sendmsg zt msg = (case r1 of
      Inl (cb, nPushed) \<Rightarrow> Some (ZCM_EAGAIN, zt\<lparr>sendBuffer := cb_pop_back cb nPushed\<rparr>)
    | Inr (cb, nPushed, checksum) \<Rightarrow> do {
        r \<leftarrow> serial_push_loop 0 ?d cb nPushed checksum;
        case r of
          Inl (cb, nPushed) \<Rightarrow> Some (ZCM_EAGAIN, zt\<lparr>sendBuffer := cb_pop_back cb nPushed\<rparr>)
        | Inr (cb, nPushed, checksum) \<Rightarrow> do {
            cb \<leftarrow> cb_push_back (ucast (drop_bit 8 checksum AND 0xff)) cb;
            cb \<leftarrow> cb_push_back (ucast (checksum AND 0xff)) cb;
            Some (ZCM_EOK, zt\<lparr>sendBuffer := cb\<rparr>) } })"
    unfolding serial_sendmsg_def Let_def serial_header_def[symmetric] using lim fits c0(1) r1(1) by simp
  show ?thesis
  proof (cases "length (esc_bytes ?ch) + length ?d + 2 \<le> cb_room cb0")
    case False
    then obtain cb1 p where e: "r1 = Inl (cb1, 7 + length p)" "cb_inv cb1" "cb_bytes cb1 = cb_bytes cb0 @ p"
        "cb_capacity cb1 = cb_capacity cb0" using r1(2) by (auto simp: push_loop_post_def)
    have "\<not> length ?fr \<le> cb_room ?cb" using False fl c0(4) by simp
    from send_post_rollback[OF inv this e(2), of "?hd @ p" "7 + length p"]
    show ?thesis using start e c0 cap0 by (intro exI[of _ ZCM_EAGAIN] exI conjI) simp_all
  next
    case True
    then obtain cb1 where e: "r1 = Inr (cb1, 7 + length (esc_bytes ?ch), fletcher ?ch 0xffff)" "cb_inv cb1"
        "cb_bytes cb1 = cb_bytes cb0 @ esc_bytes ?ch" "cb_capacity cb1 = cb_capacity cb0"
        "cb_room cb1 = cb_room cb0 - length (esc_bytes ?ch)" using r1(2) by (auto simp: push_loop_post_def)
    have room1: "length ?d + 0 + 2 \<le> cb_room cb1" using True e by simp
    let ?n1 = "7 + length (esc_bytes ?ch)"
    from serial_push_loop_spec[OF e(2) room1, of ?n1 "fletcher ?ch 0xffff"] obtain r2 where
      r2: "serial_push_loop 0 ?d cb1 ?n1 (fletcher ?ch 0xffff) = Some r2"
          "push_loop_post 0 ?d cb1 ?n1 (fletcher ?ch 0xffff) r2" by blast
    show ?thesis
    proof (cases "length (esc_bytes ?d) + 0 + 2 \<le> cb_room cb1")
      case False
      then obtain cb2 p where e2: "r2 = Inl (cb2, ?n1 + length p)" "cb_inv cb2" "cb_bytes cb2 = cb_bytes cb1 @ p"
          "cb_capacity cb2 = cb_capacity cb1" using r2(2) by (auto simp: push_loop_post_def)
      have "\<not> length ?fr \<le> cb_room ?cb" using False fl c0(4) e(5) by simp
      from send_post_rollback[OF inv this e2(2), of "?hd @ esc_bytes ?ch @ p" "?n1 + length p"]
      show ?thesis using start e e2 r2(1) c0 cap0 by (intro exI[of _ ZCM_EAGAIN] exI conjI) simp_all
    next
      case fit2: True
      then obtain cb2 where e2: "r2 = Inr (cb2, ?n1 + length (esc_bytes ?d), fletcher (?ch @ ?d) 0xffff)"
          "cb_inv cb2" "cb_bytes cb2 = cb_bytes cb1 @ esc_bytes ?d" "cb_capacity cb2 = cb_capacity cb1"
          "cb_room cb2 = cb_room cb1 - length (esc_bytes ?d)" using r2(2) by (auto simp: push_loop_post_def)
      have "2 \<le> cb_room cb2" using fit2 e2 by simp
      from serial_send_tail[OF e2(2) this, of "fletcher (?ch @ ?d) 0xffff"] obtain cba cb3 where
        t: "cb_push_back (ucast (drop_bit 8 (fletcher (?ch @ ?d) 0xffff) AND 0xff)) cb2 = Some cba"
           "cb_push_back (ucast (fletcher (?ch @ ?d) 0xffff AND 0xff)) cba = Some cb3" "cb_inv cb3"
           "cb_bytes cb3 = cb_bytes cb2 @ cs_bytes (fletcher (?ch @ ?d) 0xffff)"
           "cb_capacity cb3 = cb_capacity cb2" by blast
      have "length ?fr \<le> cb_room ?cb" using fit2 True fl c0(4) e(5) hl by simp
      then have "send_post ?cb ?fr ZCM_EOK cb3"
        using t e e2 c0 cap0 by (simp add: send_post_def serial_frame_def)
      moreover have "serial_sendmsg zt msg = Some (ZCM_EOK, zt\<lparr>sendBuffer := cb3\<rparr>)"
        using start e(1) e2(1) r2(1) t(1,2) by (simp del: fletcher_simps)
      ultimately show ?thesis by blast
    qed
  qed
qed

text \<open>
  \<^verbatim>\<open>serial_sendmsg\<close>, on every branch: it never writes outside the send buffer; a message within the
  limits is framed and appended exactly when its whole frame fits, and otherwise the buffered bytes
  are as before, also when bytes had been pushed already.
\<close>

lemma serial_sendmsg_spec:
  assumes inv: "cb_inv (sendBuffer zt)" and lim: "msg_within_limits zt msg"
  shows "\<exists>rc sb'. serial_sendmsg zt msg = Some (rc, zt\<lparr>sendBuffer := sb'\<rparr>)
           \<and> send_post (sendBuffer zt) (serial_frame (msg_channel msg) (msg_buf msg)) rc sb'"
proof (cases "FRAME_BYTES + length (msg_channel msg) + msg_len msg \<le> cb_room (sendBuffer zt)")
  case True
  with serial_sendmsg_go[OF inv lim] show ?thesis by blast
next
  case False
  have "send_post (sendBuffer zt) (serial_frame (msg_channel msg) (msg_buf msg)) ZCM_EAGAIN (sendBuffer zt)"
    using False inv length_serial_frame[of "msg_channel msg" "msg_buf msg"]
      length_esc_bytes[of "msg_channel msg"] length_esc_bytes[of "msg_buf msg"]
    by (simp add: send_post_def FRAME_BYTES_def)
  with serial_sendmsg_no_room[OF lim] False show ?thesis
    by (intro exI[of _ ZCM_EAGAIN] exI[of _ "sendBuffer zt"]) simp
qed

end
