(* ===== verification/Serial_Receive.thy ===== *)
theory Serial_Receive
  imports Generic_Serial
begin

text \<open>
  The receive side of the generic serial transport. A parser on byte lists (\<open>serial_parse\<close>,
  \<open>serial_receive\<close>) states what a receive buffer holds; \<^verbatim>\<open>serial_recvmsg\<close> is proved to implement it on
  the ring buffer without leaving the buffers, and to return. The parser accepts exactly the frames
  that the sender writes, waits on every proper prefix of a frame, and recovers after garbage.
\<close>

section \<open>Unstuffing\<close>

fun flow_cons :: "u8 \<Rightarrow> (u8 list \<times> u8 list) flow \<Rightarrow> (u8 list \<times> u8 list) flow" where
  "flow_cons c (Done (p, rest)) = Done (c # p, rest)"
| "flow_cons c Again = Again"
| "flow_cons c Fail = Fail"

text \<open>
  \<open>k\<close> bytes of payload are to be read off a stuffed stream behind which at least \<open>extra + 2\<close> bytes
  must follow.
\<close>

fun read_stuffed :: "nat \<Rightarrow> nat \<Rightarrow> u8 list \<Rightarrow> (u8 list \<times> u8 list) flow" where
  "read_stuffed extra 0 bs = Done ([], bs)"
| "read_stuffed extra (Suc k) [] = Again"
| "read_stuffed extra (Suc k) (c # bs) =
     (if c = ESC then
        if length bs < Suc k + extra + 2 then Again
        else if hd bs \<noteq> ESC then Fail
        else flow_cons c (read_stuffed extra k (tl bs))
      else flow_cons c (read_stuffed extra k bs))"

lemma flow_cons_eq_Done:
  "flow_cons c f = Done x \<longleftrightarrow> (\<exists>p. f = Done (p, snd x) \<and> fst x = c # p)"
  by (cases "(c, f)" rule: flow_cons.cases) (auto simp: prod_eq_iff)

lemma read_stuffed_sound:
  assumes "read_stuffed extra k bs = Done (p, rest)" "k + extra + 2 \<le> length bs"
  shows "length p = k \<and> bs = esc_bytes p @ rest \<and> extra + 2 \<le> length rest"
  using assms
proof (induction extra k bs arbitrary: p rule: read_stuffed.induct)
  case (3 extra k c bs)
  show ?case
  proof (cases "c = ESC")
    case False
    with "3.prems" obtain q where "read_stuffed extra k bs = Done (q, rest)" "p = c # q"
      by (auto simp: flow_cons_eq_Done)
    with "3.IH"(2)[OF False this(1)] "3.prems" False show ?thesis by simp
  next
    case True
    with "3.prems" obtain q where q: "read_stuffed extra k (tl bs) = Done (q, rest)" "p = c # q"
        "\<not> length bs < Suc k + extra + 2" "hd bs = ESC"
      by (auto simp: flow_cons_eq_Done split: if_splits)
    then have bs: "bs = ESC # tl bs" by (cases bs) auto
    from q(3) have "k + extra + 2 \<le> length (tl bs)" by simp
    from "3.IH"(1)[OF True q(3) _ q(1) this] q bs True show ?thesis by simp
  qed
qed auto

text \<open>A truncated stuffed stream is waited on unless all that is needed is there.\<close>

lemma read_stuffed_prefix:
  assumes "length p + extra + 2 \<le> m" "m \<le> length (esc_bytes p @ rest)"
  shows "read_stuffed extra (length p) (take m (esc_bytes p @ rest)) =
    (if m < length (esc_bytes p) + extra + 2 then Again
     else Done (p, take (m - length (esc_bytes p)) rest))"
  using assms
proof (induction p arbitrary: m)
  case (Cons c p)
  show ?case
  proof (cases "c = ESC")
    case False
    then obtain m' where m: "m = Suc m'" using Cons.prems by (cases m) auto
    with Cons.IH[of m'] Cons.prems False show ?thesis by auto
  next
    case True
    then obtain m' where m: "m = Suc (Suc m')" using Cons.prems
      by (cases m; cases "m - 1") auto
    show ?thesis
    proof (cases "m' < length p + extra + 2")
      case True
      with m \<open>c = ESC\<close> Cons.prems length_esc_bytes[of p] show ?thesis by auto
    next
      case False
      with m \<open>c = ESC\<close> Cons.IH[of m'] Cons.prems show ?thesis by auto
    qed
  qed
qed simp

corollary read_stuffed_complete:
  assumes "extra + 2 \<le> length rest"
  shows "read_stuffed extra (length p) (esc_bytes p @ rest) = Done (p, rest)"
  using read_stuffed_prefix[of p extra "length (esc_bytes p @ rest)" rest] assms length_esc_bytes[of p]
  by simp

section \<open>The two receive loops\<close>

text \<open>
  Under the length check that precedes it, the data loop is the channel loop with nothing to follow;
  its own bound check never fires.
\<close>

lemma serial_read_data_chan:
  assumes "consumed + k + 2 \<le> n"
  shows "serial_read_data rb n k i consumed m ck = serial_read_chan rb n 0 k i consumed m ck"
  using assms
proof (induction k arbitrary: i consumed m ck)
  case (Suc k)
  then have "\<And>i m ck. serial_read_data rb n k i (consumed + 1) m ck = serial_read_chan rb n 0 k i (consumed + 1) m ck"
    "\<And>i m ck. consumed + 1 + Suc k + 2 \<le> n \<Longrightarrow>
      serial_read_data rb n k i (consumed + 1 + 1) m ck = serial_read_chan rb n 0 k i (consumed + 1 + 1) m ck"
    by simp_all
  with Suc.prems show ?case by (cases "consumed + 1 + Suc k + 2 \<le> n") (simp_all add: Let_def cong: if_cong)
qed simp

definition read_post ::
    "nat \<Rightarrow> nat \<Rightarrow> u8 list \<Rightarrow> nat \<Rightarrow> nat \<Rightarrow> u8 list \<Rightarrow> u16 \<Rightarrow> (nat \<times> u16) flow \<times> u8 list \<Rightarrow> bool" where
  "read_post extra k bs n i m ck r \<longleftrightarrow> length (snd r) = length m
     \<and> (case read_stuffed extra k bs of
          Again \<Rightarrow> fst r = Again
        | Fail \<Rightarrow> fst r = Fail
        | Done (p, rest) \<Rightarrow> r = (Done (n - length rest, fletcher p ck), take i m @ p @ drop (i + k) m))"

lemma read_post_step:
  assumes "read_post extra k bs n (Suc i) (m[i := c]) (fletcherUpdate c ck) r" "i < length m"
    "read_stuffed extra (Suc k) bs' = flow_cons c (read_stuffed extra k bs)"
  shows "read_post extra (Suc k) bs' n i m ck r"
proof -
  have "take (Suc i) (m[i := c]) = take i m @ [c]" using assms(2) by (simp add: take_Suc_conv_app_nth)
  with assms show ?thesis by (auto simp: read_post_def split: flow.splits)
qed

lemma drop_Cons_bytes:
  assumes "cb_inv rb" "j < cb_size rb"
  shows "cb_front rb j = Some (cb_bytes rb ! j)" "drop j (cb_bytes rb) = cb_bytes rb ! j # drop (Suc j) (cb_bytes rb)"
  using cb_front_ok[OF assms] assms by (simp_all add: Cons_nth_drop_Suc)

lemma serial_read_chan_spec:
  assumes "cb_inv rb" "consumed + k + extra + 2 \<le> cb_size rb" "i + k \<le> length m"
  shows "\<exists>r. serial_read_chan rb (cb_size rb) extra k i consumed m ck = Some r
           \<and> read_post extra k (drop consumed (cb_bytes rb)) (cb_size rb) i m ck r"
  using assms(2,3)
proof (induction k arbitrary: i consumed m ck)
  case 0
  then show ?case by (simp add: read_post_def)
next
  case (Suc k)
  define c where "c = cb_bytes rb ! consumed"
  define c2 where "c2 = cb_bytes rb ! Suc consumed"
  let ?bs = "drop (Suc consumed) (cb_bytes rb)"
  note f1 = drop_Cons_bytes[OF assms(1), of consumed, folded c_def]
  have i: "i < length m" using Suc.prems by simp
  show ?case
  proof (cases "c = ESC")
    case False
    from Suc.IH[of "consumed + 1" "Suc i" "m[i := c]" "fletcherUpdate c ck"] Suc.prems obtain r where
      r: "serial_read_chan rb (cb_size rb) extra k (Suc i) (consumed + 1) (m[i := c]) (fletcherUpdate c ck) = Some r"
         "read_post extra k ?bs (cb_size rb) (Suc i) (m[i := c]) (fletcherUpdate c ck) r" by auto
    have "read_post extra (Suc k) (drop consumed (cb_bytes rb)) (cb_size rb) i m ck r"
      by (rule read_post_step[OF r(2) i]) (use f1 False Suc.prems in simp)
    with r f1 False i Suc.prems show ?thesis by (auto simp: mem_put_def)
  next
    case esc: True
    show ?thesis
    proof (cases "consumed + 1 + Suc k + extra + 2 > cb_size rb")
      case True
      then have "cb_size rb - Suc consumed < Suc k + extra + 2" by arith
      then have "read_post extra (Suc k) (drop consumed (cb_bytes rb)) (cb_size rb) i m ck (Again, m)"
        using f1 esc Suc.prems by (simp add: read_post_def)
      with True f1 esc Suc.prems show ?thesis by (intro exI[of _ "(Again, m)"]) simp
    next
      case room: False
      note f2 = drop_Cons_bytes[OF assms(1), of "Suc consumed", folded c2_def]
      show ?thesis
      proof (cases "c2 = ESC")
        case False
        then have "read_post extra (Suc k) (drop consumed (cb_bytes rb)) (cb_size rb) i m ck (Fail, m)"
          using f1 f2 esc room Suc.prems by (simp add: read_post_def)
        with False room f1 f2 esc Suc.prems show ?thesis by (intro exI[of _ "(Fail, m)"]) simp
      next
        case True
        from Suc.IH[of "consumed + 2" "Suc i" "m[i := c]" "fletcherUpdate c ck"] Suc.prems room obtain r where
          r: "serial_read_chan rb (cb_size rb) extra k (Suc i) (consumed + 2) (m[i := c]) (fletcherUpdate c ck) = Some r"
             "read_post extra k (drop (consumed + 2) (cb_bytes rb)) (cb_size rb) (Suc i) (m[i := c]) (fletcherUpdate c ck) r"
          by auto
        have "\<not> cb_size rb - Suc (Suc consumed) < Suc (Suc (k + extra))" using room by arith
        then have "read_post extra (Suc k) (drop consumed (cb_bytes rb)) (cb_size rb) i m ck r"
          by (intro read_post_step[OF r(2) i]) (use f1 f2 esc True room Suc.prems in simp)
        with r f1 f2 esc True i room Suc.prems show ?thesis by (auto simp: mem_put_def)
      qed
    qed
  qed
qed

section \<open>The parser\<close>

lemma len_bytes_be32 [simp]: "len_bytes (be32 a b c d) = [a, b, c, d]"
  by (simp add: len_bytes_def ucast_and_ff be32_byte)

lemma cs_bytes_be16 [simp]: "cs_bytes (be16 a b) = [a, b]"
  by (simp add: cs_bytes_def ucast_and_ff be16_byte)

definition serial_parse_body :: "nat \<Rightarrow> nat \<Rightarrow> u8 list \<Rightarrow> ((u8 list \<times> u8 list) \<times> u8 list) flow" where
  "serial_parse_body chan_len len bs =
     (case read_stuffed len chan_len bs of
        Again \<Rightarrow> Again
      | Fail \<Rightarrow> Fail
      | Done (ch, bs1) \<Rightarrow>
          (case read_stuffed 0 len bs1 of
             Again \<Rightarrow> Again
           | Fail \<Rightarrow> Fail
           | Done (d, bs2) \<Rightarrow>
               if be16 (bs2 ! 0) (bs2 ! 1) = fletcher (ch @ d) 0xffff then Done ((ch, d), drop 2 bs2)
               else Fail))"

definition serial_parse :: "nat \<Rightarrow> u8 list \<Rightarrow> ((u8 list \<times> u8 list) \<times> u8 list) flow" where
  "serial_parse mtu bs =
     (if length bs < 9 then Again
      else if bs ! 0 \<noteq> ESC \<or> bs ! 1 \<noteq> 0 then Fail
      else let chan_len = unat (bs ! 2); len = unat (be32 (bs ! 3) (bs ! 4) (bs ! 5) (bs ! 6)) in
        if chan_len > ZCM_CHANNEL_MAXLEN \<or> len > mtu then Fail
        else if length bs < 9 + chan_len + len then Again
        else serial_parse_body chan_len len (drop 7 bs))"

definition recv_inv :: "'e zcm_trans_generic_serial_t \<Rightarrow> bool" where
  "recv_inv zt \<longleftrightarrow> cb_inv (recvBuffer zt) \<and> length (recvChanName zt) = Suc ZCM_CHANNEL_MAXLEN
     \<and> length (recvMsgData zt) = ser_mtu zt"

text \<open>The message that \<^verbatim>\<open>serial_recvmsg\<close> hands out: the channel name is used as a C string.\<close>

definition recv_msg :: "u64 \<Rightarrow> u8 list \<Rightarrow> u8 list \<Rightarrow> zcm_msg_t" where
  "recv_msg utime ch d = \<lparr>msg_utime = utime, msg_channel = takeWhile (\<lambda>c. c \<noteq> 0) ch, msg_buf = d\<rparr>"

text \<open>What one attempt leaves: a message and the bytes behind its frame, or the same bytes.\<close>

definition attempt_post ::
    "'e zcm_trans_generic_serial_t \<Rightarrow> u64 \<Rightarrow> ((u8 list \<times> u8 list) \<times> u8 list) flow \<Rightarrow>
       zcm_msg_t flow \<Rightarrow> 'e zcm_trans_generic_serial_t \<Rightarrow> bool" where
  "attempt_post zt utime out r zt' \<longleftrightarrow> recv_inv zt' \<and> sendBuffer zt' = sendBuffer zt
     \<and> ser_mtu zt' = ser_mtu zt \<and> ser_env zt' = ser_env zt
     \<and> (case out of
          Again \<Rightarrow> r = Again \<and> recvBuffer zt' = recvBuffer zt
        | Fail \<Rightarrow> r = Fail \<and> recvBuffer zt' = recvBuffer zt
        | Done ((ch, d), rest) \<Rightarrow> r = Done (recv_msg utime ch d) \<and> cb_bytes (recvBuffer zt') = rest
            \<and> cb_capacity (recvBuffer zt') = cb_capacity (recvBuffer zt))"

lemma takeWhile_chan: "takeWhile (\<lambda>c. c \<noteq> 0) (ch @ (0 :: u8) # m) = takeWhile (\<lambda>c. c \<noteq> 0) ch"
  by (induction ch) auto

text \<open>The part of an attempt behind the header checks.\<close>

definition serial_recv_body ::
    "'e zcm_trans_generic_serial_t \<Rightarrow> u64 \<Rightarrow> nat \<Rightarrow> nat \<Rightarrow>
       (zcm_msg_t flow \<times> 'e zcm_trans_generic_serial_t) option" where
  "serial_recv_body zt utime chan_len len =
     (let rb = recvBuffer zt; incomingSize = cb_size rb in
      do {
        chan \<leftarrow> mem_blit (recvChanName zt) 0 (replicate ZCM_CHANNEL_MAXLEN 0);
        (r, chan) \<leftarrow> serial_read_chan rb incomingSize len chan_len 0 7 chan 0xffff;
        let zt = zt\<lparr>recvChanName := chan\<rparr>;
        case r of
          Again \<Rightarrow> Some (Again, zt)
        | Fail \<Rightarrow> Some (Fail, zt)
        | Done (consumed, checksum) \<Rightarrow> do {
            chan \<leftarrow> mem_put chan chan_len 0;
            (r, dat) \<leftarrow> serial_read_data rb incomingSize len 0 consumed (recvMsgData zt) checksum;
            let zt = zt\<lparr>recvChanName := chan, recvMsgData := dat\<rparr>;
            case r of
              Again \<Rightarrow> Some (Again, zt)
            | Fail \<Rightarrow> Some (Fail, zt)
            | Done (consumed, checksum) \<Rightarrow> do {
                hi \<leftarrow> cb_front rb consumed;
                lo \<leftarrow> cb_front rb (consumed + 1);
                if be16 hi lo = checksum then
                  Some (Done \<lparr>msg_utime = utime,
                              msg_channel = takeWhile (\<lambda>c. c \<noteq> 0) chan,
                              msg_buf = take len dat\<rparr>,
                        zt\<lparr>recvBuffer := cb_pop_front rb (consumed + 2)\<rparr>)
                else Some (Fail, zt)
              }
          }
      })"

lemma serial_recv_attempt_headers:
  assumes inv: "cb_inv (recvBuffer zt)"
  defines "bs \<equiv> cb_bytes (recvBuffer zt)"
  defines "cl \<equiv> unat (bs ! 2)" and "len \<equiv> unat (be32 (bs ! 3) (bs ! 4) (bs ! 5) (bs ! 6))"
  shows "serial_recv_attempt zt utime =
    (if length bs < 9 then Some (Again, zt)
     else if bs ! 0 \<noteq> ESC \<or> bs ! 1 \<noteq> 0 then Some (Fail, zt)
     else if cl > ZCM_CHANNEL_MAXLEN \<or> len > ser_mtu zt then Some (Fail, zt)
     else if length bs < 9 + cl + len then Some (Again, zt)
     else serial_recv_body zt utime cl len)"
proof (cases "length bs < 9")
  case True
  then show ?thesis by (simp add: serial_recv_attempt_def bs_def FRAME_BYTES_def Let_def)
next
  case False
  then have f: "\<And>i. i < 9 \<Longrightarrow> cb_front (recvBuffer zt) i = Some (bs ! i)"
    using cb_front_ok[OF inv] by (simp add: bs_def)
  have sz: "cb_size (recvBuffer zt) = length bs" by (simp add: bs_def)
  show ?thesis
    unfolding serial_recv_attempt_def serial_recv_body_def Let_def cl_def len_def be32_def be16_def FRAME_BYTES_def sz
    using False f[of 0] f[of 1] f[of 2] f[of 3] f[of 4] f[of 5] f[of 6] by simp
qed

lemma attempt_post_same:
  assumes "recv_inv zt" "length ch = length (recvChanName zt)" "length d = length (recvMsgData zt)"
  shows "attempt_post zt utime Again Again (zt\<lparr>recvChanName := ch, recvMsgData := d\<rparr>)"
    "attempt_post zt utime Fail Fail (zt\<lparr>recvChanName := ch, recvMsgData := d\<rparr>)"
    "attempt_post zt utime Again Again (zt\<lparr>recvChanName := ch\<rparr>)"
    "attempt_post zt utime Fail Fail (zt\<lparr>recvChanName := ch\<rparr>)"
  using assms by (simp_all add: attempt_post_def recv_inv_def)

lemma suffix_position:
  assumes "cb_bytes rb = pre @ bs"
  shows "drop (cb_size rb - length bs) (cb_bytes rb) = bs"
    "m \<le> length bs \<Longrightarrow> cb_size rb - length bs + m \<le> cb_size rb"
proof -
  have "cb_size rb = length pre + length bs" using assms by (metis length_append length_cb_bytes)
  then show "drop (cb_size rb - length bs) (cb_bytes rb) = bs"
    "m \<le> length bs \<Longrightarrow> cb_size rb - length bs + m \<le> cb_size rb" using assms by simp_all
qed

lemma serial_recv_body_spec:
  assumes inv: "recv_inv zt" and lim: "cl \<le> ZCM_CHANNEL_MAXLEN" "len \<le> ser_mtu zt"
    and sz: "9 + cl + len \<le> cb_size (recvBuffer zt)"
  shows "\<exists>r zt'. serial_recv_body zt utime cl len = Some (r, zt')
    \<and> attempt_post zt utime (serial_parse_body cl len (drop 7 (cb_bytes (recvBuffer zt)))) r zt'"
proof -
  define rb where "rb = recvBuffer zt"
  define n where "n = cb_size rb"
  define bs where "bs = drop 7 (cb_bytes rb)"
  define chan0 where "chan0 = replicate ZCM_CHANNEL_MAXLEN (0::u8) @ drop ZCM_CHANNEL_MAXLEN (recvChanName zt)"
  have rb: "cb_inv rb" using inv by (simp add: recv_inv_def rb_def)
  have l0: "length chan0 = Suc ZCM_CHANNEL_MAXLEN" using inv by (simp add: chan0_def recv_inv_def)
  have ld: "length (recvMsgData zt) = ser_mtu zt" using inv by (simp add: recv_inv_def)
  have c0: "mem_blit (recvChanName zt) 0 (replicate ZCM_CHANNEL_MAXLEN 0) = Some chan0"
    using inv by (simp add: mem_blit_def chan0_def recv_inv_def)
  from serial_read_chan_spec[OF rb, where consumed = 7 and k = cl and extra = len and i = 0 and m = chan0 and ck = "0xffff"] sz lim l0 obtain r1 chan1 where
    r1: "serial_read_chan rb n len cl 0 7 chan0 0xffff = Some (r1, chan1)"
        "read_post len cl bs n 0 chan0 0xffff (r1, chan1)" by (auto simp: rb_def bs_def n_def)
  have l1: "length chan1 = length (recvChanName zt)" using r1(2) l0 inv by (simp add: read_post_def recv_inv_def)
  note go = serial_recv_body_def[of zt utime cl len, folded rb_def, unfolded Let_def, folded n_def, unfolded c0]
  show ?thesis
  proof (cases "read_stuffed len cl bs")
    case Again
    with r1 attempt_post_same(3)[OF inv l1 refl, of utime] show ?thesis
      by (auto simp: go serial_parse_body_def read_post_def simp flip: rb_def bs_def)
  next
    case Fail
    with r1 attempt_post_same(4)[OF inv l1 refl, of utime] show ?thesis
      by (auto simp: go serial_parse_body_def read_post_def simp flip: rb_def bs_def)
  next
    case (Done x)
    obtain ch bs1 where x: "x = (ch, bs1)" by (cases x)
    have bl: "cl + len + 2 \<le> length bs" using sz by (simp add: bs_def rb_def)
    from read_stuffed_sound[OF Done[unfolded x] bl] have ch: "length ch = cl" "bs = esc_bytes ch @ bs1"
        "len + 2 \<le> length bs1" by auto
    define chan2 where "chan2 = ch @ 0 # drop (Suc cl) chan0"
    have r1': "r1 = Done (n - length bs1, fletcher ch 0xffff)" "chan1 = ch @ drop cl chan0"
      using r1(2) Done x by (simp_all add: read_post_def)
    have c2: "mem_put chan1 cl 0 = Some chan2" "length chan2 = length (recvChanName zt)"
      using ch(1) lim l0 inv
      by (auto simp: r1' chan2_def list_update_append recv_inv_def simp flip: Cons_nth_drop_Suc)
    have suf: "cb_bytes rb = (take 7 (cb_bytes rb) @ esc_bytes ch) @ bs1"
      using ch(2) append_take_drop_id[of 7 "cb_bytes rb"] by (simp add: bs_def)
    note n1 = suffix_position(2)[OF suf, of "len + 2", folded n_def, OF ch(3), simplified add.assoc[symmetric]]
    note d1 = suffix_position(1)[OF suf, folded n_def]
    from serial_read_chan_spec[OF rb, where consumed = "n - length bs1" and k = len and extra = 0 and i = 0 and m = "recvMsgData zt" and ck = "fletcher ch 0xffff"] n1 lim ld d1
      serial_read_data_chan[OF n1, where i = 0 and m = "recvMsgData zt"] obtain r2 dat where
      r2: "serial_read_data rb n len 0 (n - length bs1) (recvMsgData zt) (fletcher ch 0xffff) = Some (r2, dat)"
          "read_post 0 len bs1 n 0 (recvMsgData zt) (fletcher ch 0xffff) (r2, dat)" by (auto simp: n_def)
    have l2: "length dat = length (recvMsgData zt)" using r2(2) by (simp add: read_post_def)
    note same = attempt_post_same(1,2)[OF inv c2(2) l2, of utime]
    show ?thesis
    proof (cases "read_stuffed 0 len bs1")
      case Again
      with r1 r1' c2 r2 same Done x show ?thesis
        by (auto simp: go serial_parse_body_def read_post_def simp del: mem_put_eq_Some simp flip: rb_def bs_def)
    next
      case Fail
      with r1 r1' c2 r2 same Done x show ?thesis
        by (auto simp: go serial_parse_body_def read_post_def simp del: mem_put_eq_Some simp flip: rb_def bs_def)
    next
      case (Done y)
      obtain d bs2 where y: "y = (d, bs2)" by (cases y)
      have bl1: "len + 0 + 2 \<le> length bs1" using ch(3) by simp
      from read_stuffed_sound[OF Done[unfolded y] bl1] have d: "length d = len" "bs1 = esc_bytes d @ bs2"
        "2 \<le> length bs2" by auto
      have suf2: "cb_bytes rb = (take 7 (cb_bytes rb) @ esc_bytes ch @ esc_bytes d) @ bs2" using suf d(2) by simp
      note d2 = suffix_position(1)[OF suf2, folded n_def] and n2 = suffix_position(2)[OF suf2, folded n_def, OF d(3)]
      define c where "c = n - length bs2"
      have fr: "cb_front rb c = Some (bs2 ! 0)" "cb_front rb (c + 1) = Some (bs2 ! 1)"
        using cb_front_ok[OF rb, of c] cb_front_ok[OF rb, of "c + 1"] n2 arg_cong[OF d2, of "\<lambda>l. l ! 0"]
          arg_cong[OF d2, of "\<lambda>l. l ! 1"] by (simp_all add: c_def n_def)
      have r2': "r2 = Done (c, fletcher (ch @ d) 0xffff)" "dat = d @ drop len (recvMsgData zt)"
        using r2(2) Done y by (simp_all add: read_post_def c_def)
      define rb' where "rb' = cb_pop_front rb (c + 2)"
      have rb': "cb_inv rb'" "cb_bytes rb' = drop 2 bs2" "cb_capacity rb' = cb_capacity rb"
        using cb_pops(1-3)[OF rb, of "c + 2"] n2 arg_cong[OF d2, of "drop 2"]
        by (simp_all add: rb'_def c_def n_def)
      have msg: "takeWhile (\<lambda>c. c \<noteq> 0) chan2 = takeWhile (\<lambda>c. c \<noteq> 0) ch" "take len dat = d"
        using d(1) by (simp_all add: chan2_def takeWhile_chan r2')
      have pb: "serial_parse_body cl len bs = (if be16 (bs2 ! 0) (bs2 ! 1) = fletcher (ch @ d) 0xffff
          then Done ((ch, d), drop 2 bs2) else Fail)"
        using Done y \<open>read_stuffed len cl bs = Done x\<close> x by (simp add: serial_parse_body_def)
      have res: "serial_recv_body zt utime cl len = Some
          (if be16 (bs2 ! 0) (bs2 ! 1) = fletcher (ch @ d) 0xffff
           then (Done (recv_msg utime ch d), zt\<lparr>recvChanName := chan2, recvMsgData := dat, recvBuffer := rb'\<rparr>)
           else (Fail, zt\<lparr>recvChanName := chan2, recvMsgData := dat\<rparr>))"
        using r1(1) r1'(1) c2(1) r2(1) r2'(1) fr msg by (simp add: go recv_msg_def rb'_def del: mem_put_eq_Some)
      show ?thesis unfolding rb_def[symmetric] bs_def[symmetric] pb res using same rb' inv c2(2) l2
        by (auto simp: attempt_post_def recv_inv_def rb_def)
    qed
  qed
qed

lemma serial_recv_attempt_spec:
  assumes inv: "recv_inv zt"
  shows "\<exists>r zt'. serial_recv_attempt zt utime = Some (r, zt')
    \<and> attempt_post zt utime (serial_parse (ser_mtu zt) (cb_bytes (recvBuffer zt))) r zt'"
proof -
  define bs where "bs = cb_bytes (recvBuffer zt)"
  define cl where "cl = unat (bs ! 2)"
  define len where "len = unat (be32 (bs ! 3) (bs ! 4) (bs ! 5) (bs ! 6))"
  have cbi: "cb_inv (recvBuffer zt)" using inv by (simp add: recv_inv_def)
  have same: "attempt_post zt utime Again Again zt" "attempt_post zt utime Fail Fail zt"
    using inv by (simp_all add: attempt_post_def)
  have sz: "length bs = cb_size (recvBuffer zt)" by (simp add: bs_def)
  note hd = serial_recv_attempt_headers[OF cbi, of utime, folded bs_def, folded cl_def len_def]
  note pr = serial_parse_def[of "ser_mtu zt" bs, unfolded Let_def, folded cl_def len_def]
  show ?thesis unfolding hd pr bs_def[symmetric]
    using same serial_recv_body_spec[OF inv, of cl len utime, folded bs_def] sz by simp
qed

section \<open>Resynchronisation and the whole receive\<close>

lemma serial_resync_spec:
  assumes "cb_inv cb" "0 < cb_size cb"
  shows "\<exists>cb'. serial_resync cb = Some cb' \<and> cb_inv cb' \<and> cb_capacity cb' = cb_capacity cb
           \<and> cb_bytes cb' = dropWhile (\<lambda>c. c \<noteq> ESC) (tl (cb_bytes cb))"
  using assms
proof (induction "cb_size cb" arbitrary: cb rule: less_induct)
  case less
  define cb1 where "cb1 = cb_pop_front cb 1"
  have c1: "cb_inv cb1" "cb_bytes cb1 = tl (cb_bytes cb)" "cb_capacity cb1 = cb_capacity cb"
    using cb_pop_front_ok[of cb 1] less.prems by (simp_all add: cb1_def drop_Suc)
  have sz: "cb_size cb1 = cb_size cb - 1" using arg_cong[OF c1(2), of length] by simp
  have unf: "serial_resync cb = (if cb_size cb1 = 0 then Some cb1
      else Option.bind (cb_front cb1 0) (\<lambda>c. if c \<noteq> ESC then serial_resync cb1 else Some cb1))"
    unfolding cb1_def by (subst serial_resync.simps) (simp only: Let_def)
  show ?case
  proof (cases "cb_bytes cb1")
    case Nil
    then have "cb_size cb1 = 0" by (simp flip: length_cb_bytes)
    with unf c1 Nil show ?thesis by auto
  next
    case (Cons b bs)
    then have pos: "0 < cb_size cb1" by (simp flip: length_cb_bytes)
    then have "cb_front cb1 0 = Some b" using cb_front_ok[OF c1(1), of 0] Cons by simp
    moreover have "dropWhile (\<lambda>c. c \<noteq> ESC) (tl (cb_bytes cb)) =
        (if b = ESC then cb_bytes cb1 else dropWhile (\<lambda>c. c \<noteq> ESC) (tl (cb_bytes cb1)))"
      unfolding c1(2)[symmetric] Cons by simp
    moreover have "cb_size cb1 < cb_size cb" using sz less.prems by simp
    ultimately show ?thesis using unf pos c1(1,3) less.hyps[of cb1] by (cases "b = ESC") auto
  qed
qed

lemma serial_parse_Fail_nonempty: "serial_parse mtu bs = Fail \<Longrightarrow> bs \<noteq> []"
  by (auto simp: serial_parse_def)

text \<open>What a receive makes of the buffered bytes: the message, if any, and the bytes that are left.\<close>

function serial_receive :: "nat \<Rightarrow> u8 list \<Rightarrow> (u8 list \<times> u8 list) option \<times> u8 list" where
  "serial_receive mtu bs =
     (case serial_parse mtu bs of
        Again \<Rightarrow> (None, bs)
      | Done (m, rest) \<Rightarrow> (Some m, rest)
      | Fail \<Rightarrow> serial_receive mtu (dropWhile (\<lambda>c. c \<noteq> ESC) (tl bs)))"
  by pat_completeness auto
termination
proof (relation "measure (length \<circ> snd)")
  fix mtu bs assume "serial_parse mtu bs = Fail"
  then have "bs \<noteq> []" by (rule serial_parse_Fail_nonempty)
  with length_dropWhile_le[of "\<lambda>c. c \<noteq> ESC" "tl bs"]
  show "((mtu, dropWhile (\<lambda>c. c \<noteq> ESC) (tl bs)), (mtu, bs)) \<in> measure (length \<circ> snd)"
    by (cases bs) auto
qed simp

declare serial_receive.simps [simp del]

definition recv_post ::
    "'e zcm_trans_generic_serial_t \<Rightarrow> int \<Rightarrow> zcm_msg_t option \<Rightarrow> 'e zcm_trans_generic_serial_t \<Rightarrow> bool" where
  "recv_post zt rc m zt' \<longleftrightarrow> recv_inv zt' \<and> sendBuffer zt' = sendBuffer zt \<and> ser_mtu zt' = ser_mtu zt
     \<and> cb_capacity (recvBuffer zt') = cb_capacity (recvBuffer zt)
     \<and> cb_bytes (recvBuffer zt') = snd (serial_receive (ser_mtu zt) (cb_bytes (recvBuffer zt)))
     \<and> (case fst (serial_receive (ser_mtu zt) (cb_bytes (recvBuffer zt))) of
          None \<Rightarrow> rc = ZCM_EAGAIN \<and> m = None
        | Some (ch, d) \<Rightarrow> rc = ZCM_EOK \<and> (\<exists>utime. m = Some (recv_msg utime ch d)))"

text \<open>
  The receive, with any view of the callbacks' environment that reading the clock keeps.
\<close>

lemma serial_recvmsg_view:
  assumes "recv_inv zt" and clock: "\<And>e. view (snd (time e)) = view e"
  shows "\<exists>rc m zt'. serial_recvmsg time zt = Some (rc, m, zt') \<and> recv_post zt rc m zt'
    \<and> view (ser_env zt') = view (ser_env zt)"
  using assms(1)
proof (induction "cb_size (recvBuffer zt)" arbitrary: zt rule: less_induct)
  case less
  define bs where "bs = cb_bytes (recvBuffer zt)"
  obtain utime e where t: "time (ser_env zt) = (utime, e)" by fastforce
  define z0 where "z0 = zt\<lparr>ser_env := e\<rparr>"
  have z0: "recv_inv z0" "recvBuffer z0 = recvBuffer zt" "sendBuffer z0 = sendBuffer zt" "ser_mtu z0 = ser_mtu zt"
    "view (ser_env z0) = view (ser_env zt)"
    using less.prems clock[of "ser_env zt"] t by (simp_all add: z0_def recv_inv_def)
  from serial_recv_attempt_spec[OF z0(1), of utime] obtain r z1 where
    a: "serial_recv_attempt z0 utime = Some (r, z1)" "attempt_post z0 utime (serial_parse (ser_mtu zt) bs) r z1"
    by (auto simp: z0 bs_def)
  have unf: "serial_recvmsg time zt = (case r of
            Again \<Rightarrow> Some (ZCM_EAGAIN, None, z1)
          | Done msg \<Rightarrow> Some (ZCM_EOK, Some msg, z1)
          | Fail \<Rightarrow> Option.bind (serial_resync (recvBuffer z1))
                     (\<lambda>rb. serial_recvmsg time (z1\<lparr>recvBuffer := rb\<rparr>)))"
    by (subst serial_recvmsg.simps) (simp add: t a(1) flip: z0_def)
  note sr = serial_receive.simps[of "ser_mtu zt" bs]
  show ?case
  proof (cases "serial_parse (ser_mtu zt) bs")
    case Again
    then have "recv_post zt ZCM_EAGAIN None z1" using a(2) sr
      by (simp add: recv_post_def attempt_post_def z0 flip: bs_def)
    with unf a(2) Again z0 show ?thesis by (simp add: attempt_post_def)
  next
    case (Done y)
    obtain ch d rest where y: "y = ((ch, d), rest)" by (metis surj_pair)
    then have "recv_post zt ZCM_EOK (Some (recv_msg utime ch d)) z1" using a(2) sr Done
      by (auto simp: recv_post_def attempt_post_def z0 simp flip: bs_def)
    with unf a(2) Done y z0 show ?thesis by (simp add: attempt_post_def)
  next
    case Fail
    then have ne: "bs \<noteq> []" by (rule serial_parse_Fail_nonempty)
    then have pos: "0 < cb_size (recvBuffer zt)" by (simp add: bs_def flip: length_cb_bytes)
    have z1: "r = Fail" "recvBuffer z1 = recvBuffer zt" "recv_inv z1" "sendBuffer z1 = sendBuffer zt"
      "ser_mtu z1 = ser_mtu zt" "view (ser_env z1) = view (ser_env zt)" using a(2) Fail by (simp_all add: attempt_post_def z0)
    have "cb_inv (recvBuffer zt)" using less.prems by (simp add: recv_inv_def)
    from serial_resync_spec[OF this pos, folded bs_def] obtain rb where rb: "serial_resync (recvBuffer zt) = Some rb"
        "cb_inv rb" "cb_capacity rb = cb_capacity (recvBuffer zt)" "cb_bytes rb = dropWhile (\<lambda>c. c \<noteq> ESC) (tl bs)"
      by blast
    define z2 where "z2 = z1\<lparr>recvBuffer := rb\<rparr>"
    have z2: "recvBuffer z2 = rb" "recv_inv z2" "sendBuffer z2 = sendBuffer zt" "ser_mtu z2 = ser_mtu zt"
      "view (ser_env z2) = view (ser_env zt)" using z1 rb by (simp_all add: z2_def recv_inv_def)
    have "cb_size rb < cb_size (recvBuffer zt)"
      using arg_cong[OF rb(4), of length] length_dropWhile_le[of "\<lambda>c. c \<noteq> ESC" "tl bs"] pos by (simp add: bs_def)
    from less.hyps[of z2, unfolded z2(1), OF this z2(2)] obtain rc m zt' where
      ih: "serial_recvmsg time z2 = Some (rc, m, zt')" "recv_post z2 rc m zt'" "view (ser_env zt') = view (ser_env z2)" by blast
    have "recv_post zt rc m zt'" using ih(2) sr Fail by (simp add: recv_post_def z2 rb flip: bs_def)
    moreover have "serial_recvmsg time zt = Some (rc, m, zt')"
      using unf z1 rb(1) ih(1) by (simp flip: z2_def)
    ultimately show ?thesis using ih(3) z2(5) by simp
  qed
qed

corollary serial_recvmsg_spec:
  assumes "recv_inv zt"
  shows "\<exists>rc m zt'. serial_recvmsg time zt = Some (rc, m, zt') \<and> recv_post zt rc m zt'"
  using serial_recvmsg_view[OF assms, of "\<lambda>_. ()" time] by simp

section \<open>Frames\<close>

lemma serial_header_bytes:
  assumes "length ch \<le> ZCM_CHANNEL_MAXLEN" "length d < 2 ^ 32"
  defines "h \<equiv> serial_header (length ch) (length d)"
  shows "h ! 0 = ESC" "h ! 1 = 0" "unat (h ! 2) = length ch"
    "unat (be32 (h ! 3) (h ! 4) (h ! 5) (h ! 6)) = length d"
proof -
  have "unat (word_of_nat (length d) :: u32) = length d" using assms(2) by (simp add: unat_of_nat)
  then show "unat (be32 (h ! 3) (h ! 4) (h ! 5) (h ! 6)) = length d"
    by (simp add: h_def serial_header_def len_bytes_def ucast_and_ff be32_bytes)
  show "h ! 0 = ESC" "h ! 1 = 0" "unat (h ! 2) = length ch"
    using assms(1) by (simp_all add: h_def serial_header_def unat_of_nat ZCM_CHANNEL_MAXLEN_def)
qed

text \<open>Any stream that starts with the header of a frame is parsed with the frame's lengths.\<close>

lemma serial_parse_header:
  assumes "length ch \<le> ZCM_CHANNEL_MAXLEN" "length d < 2 ^ 32" "length d \<le> mtu"
    "9 \<le> length (serial_header (length ch) (length d) @ bs)"
  shows "serial_parse mtu (serial_header (length ch) (length d) @ bs) =
    (if length bs < 2 + length ch + length d then Again else serial_parse_body (length ch) (length d) bs)"
  using assms(3,4) serial_header_bytes[OF assms(1,2)] assms(1)
  by (auto simp: serial_parse_def nth_append Let_def)

lemma serial_parse_frame:
  assumes "length ch \<le> ZCM_CHANNEL_MAXLEN" "length d < 2 ^ 32" "length d \<le> mtu"
  shows "serial_parse mtu (serial_frame ch d @ rest) = Done ((ch, d), rest)"
proof -
  let ?cs = "cs_bytes (fletcher (ch @ d) 0xffff)"
  define bs where "bs = esc_bytes ch @ esc_bytes d @ ?cs @ rest"
  have body: "serial_parse_body (length ch) (length d) bs = Done ((ch, d), rest)"
    using length_esc_bytes[of d] read_stuffed_complete[of "length d" "esc_bytes d @ ?cs @ rest" ch]
      read_stuffed_complete[of 0 "?cs @ rest" d]
    by (simp add: serial_parse_body_def cs_bytes_def ucast_and_ff be16_bytes bs_def)
  have len: "2 + length ch + length d \<le> length bs"
    using length_esc_bytes[of ch] length_esc_bytes[of d] by (simp add: bs_def)
  then have "9 \<le> length (serial_header (length ch) (length d) @ bs)" by simp
  from serial_parse_header[OF assms this] body len show ?thesis
    by (simp add: serial_frame_def bs_def)
qed

text \<open>On every proper prefix of a frame the receiver waits for more.\<close>

lemma serial_parse_prefix:
  assumes lim: "length ch \<le> ZCM_CHANNEL_MAXLEN" "length d < 2 ^ 32" "length d \<le> mtu"
    and m: "m < length (serial_frame ch d)"
  shows "serial_parse mtu (take m (serial_frame ch d)) = Again"
proof (cases "m < 9")
  case True
  then show ?thesis by (auto simp: serial_parse_def)
next
  case False
  define tail where "tail = esc_bytes d @ cs_bytes (fletcher (ch @ d) 0xffff)"
  define bs where "bs = take (m - 7) (esc_bytes ch @ tail)"
  have eq: "take m (serial_frame ch d) = serial_header (length ch) (length d) @ bs"
    using False by (simp add: serial_frame_def bs_def tail_def)
  have lb: "length bs = m - 7" using m by (simp add: bs_def tail_def length_serial_frame)
  have "9 \<le> length (serial_header (length ch) (length d) @ bs)" using False lb by simp
  note hd = serial_parse_header[OF lim this]
  show ?thesis
  proof (cases "length bs < 2 + length ch + length d")
    case True
    with hd eq show ?thesis by simp
  next
    case len: False
    let ?m = "m - 7 - length (esc_bytes ch)"
    have b: "length ch + length d + 2 \<le> m - 7" "m - 7 \<le> length (esc_bytes ch @ tail)"
      using len lb m by (auto simp: tail_def length_serial_frame)
    have "read_stuffed (length d) (length ch) bs = Again
      \<or> length d + 2 \<le> ?m \<and> read_stuffed (length d) (length ch) bs = Done (ch, take ?m tail)"
      unfolding bs_def read_stuffed_prefix[OF b] by auto
    moreover have "length d + 2 \<le> ?m \<Longrightarrow> read_stuffed 0 (length d) (take ?m tail) = Again"
      using read_stuffed_prefix[of d 0 ?m "cs_bytes (fletcher (ch @ d) 0xffff)"] m
      by (simp add: tail_def length_serial_frame)
    ultimately have "serial_parse_body (length ch) (length d) bs = Again"
      by (auto simp: serial_parse_body_def)
    with hd eq len show ?thesis by simp
  qed
qed

text \<open>Nothing but a frame is accepted.\<close>

lemma header_eq:
  assumes "9 \<le> length bs" "bs ! 0 = ESC" "bs ! 1 = 0"
  shows "take 7 bs = serial_header (unat (bs ! 2)) (unat (be32 (bs ! 3) (bs ! 4) (bs ! 5) (bs ! 6)))"
proof -
  have "take 7 bs = map ((!) bs) [0..<7]" using assms(1) by (intro nth_equalityI) auto
  then show ?thesis using assms(2,3) by (simp add: serial_header_def upt_rec numeral_eq_Suc)
qed

lemma serial_parse_sound:
  assumes "serial_parse mtu bs = Done ((ch, d), rest)"
  shows "bs = serial_frame ch d @ rest \<and> length ch \<le> ZCM_CHANNEL_MAXLEN \<and> length d \<le> mtu \<and> length d < 2 ^ 32"
proof -
  define cl where "cl = unat (bs ! 2)"
  define len where "len = unat (be32 (bs ! 3) (bs ! 4) (bs ! 5) (bs ! 6))"
  have h: "9 \<le> length bs" "bs ! 0 = ESC" "bs ! 1 = 0" "cl \<le> ZCM_CHANNEL_MAXLEN" "len \<le> mtu"
      "9 + cl + len \<le> length bs" "serial_parse_body cl len (drop 7 bs) = Done ((ch, d), rest)"
    using assms by (auto simp: serial_parse_def Let_def cl_def len_def split: if_splits)
  from h(7) obtain bs1 bs2 where b: "read_stuffed len cl (drop 7 bs) = Done (ch, bs1)"
      "read_stuffed 0 len bs1 = Done (d, bs2)" "be16 (bs2 ! 0) (bs2 ! 1) = fletcher (ch @ d) 0xffff" "rest = drop 2 bs2"
    by (auto simp: serial_parse_body_def split: flow.splits prod.splits if_splits)
  from read_stuffed_sound[OF b(1)] h(6) have s1: "length ch = cl" "drop 7 bs = esc_bytes ch @ bs1" "len + 2 \<le> length bs1"
    by auto
  from read_stuffed_sound[OF b(2)] s1(3) have s2: "length d = len" "bs1 = esc_bytes d @ bs2" "2 \<le> length bs2"
    by auto
  have "bs2 = [bs2 ! 0, bs2 ! 1] @ rest" using s2(3) b(4) by (metis Cons_nth_drop_Suc One_nat_def Suc_1 Suc_le_lessD append_Cons append_Nil drop0 less_Suc_eq order_less_le_trans zero_less_Suc)
  also have "[bs2 ! 0, bs2 ! 1] = cs_bytes (fletcher (ch @ d) 0xffff)" unfolding b(3)[symmetric] by simp
  finally have "drop 7 bs = esc_bytes ch @ esc_bytes d @ cs_bytes (fletcher (ch @ d) 0xffff) @ rest" using s1 s2 by simp
  then have "bs = serial_frame ch d @ rest"
    using append_take_drop_id[of 7 bs] header_eq[OF h(1-3), folded cl_def len_def] s1(1) s2(1)
    by (simp add: serial_frame_def)
  moreover have "len < 2 ^ 32" using unsigned_less[of "be32 (bs ! 3) (bs ! 4) (bs ! 5) (bs ! 6)", where 'a=nat] by (simp add: len_def)
  ultimately show ?thesis using h s1 s2 by simp
qed

abbreviation frame_ok :: "nat \<Rightarrow> u8 list \<times> u8 list \<Rightarrow> bool" where
  "frame_ok mtu m \<equiv> length (fst m) \<le> ZCM_CHANNEL_MAXLEN \<and> length (snd m) < 2 ^ 32 \<and> length (snd m) \<le> mtu"

lemma serial_receive_frame:
  assumes "frame_ok mtu (ch, d)"
  shows "serial_receive mtu (serial_frame ch d @ rest) = (Some (ch, d), rest)"
  using serial_parse_frame[of ch d mtu rest] assms by (simp add: serial_receive.simps)

lemma serial_receive_prefix:
  assumes "frame_ok mtu (ch, d)" "m < length (serial_frame ch d)"
  shows "serial_receive mtu (take m (serial_frame ch d)) = (None, take m (serial_frame ch d))"
  using serial_parse_prefix[of ch d mtu m] assms by (simp add: serial_receive.simps)

text \<open>Bytes that hold no escape character are skipped in front of a frame.\<close>

lemma serial_receive_garbage:
  assumes "ESC \<notin> set g" "frame_ok mtu (ch, d)"
  shows "serial_receive mtu (g @ serial_frame ch d @ rest) = (Some (ch, d), rest)"
proof (cases g)
  case Nil
  then show ?thesis using serial_receive_frame[OF assms(2)] by simp
next
  case (Cons b g')
  have "serial_parse mtu (g @ serial_frame ch d @ rest) = Fail"
    using assms(1) Cons by (auto simp: serial_parse_def length_serial_frame)
  moreover have "dropWhile (\<lambda>c. c \<noteq> ESC) (tl (g @ serial_frame ch d @ rest)) = serial_frame ch d @ rest"
  proof -
    have "dropWhile (\<lambda>c. c \<noteq> ESC) (g' @ serial_frame ch d @ rest) = dropWhile (\<lambda>c. c \<noteq> ESC) (serial_frame ch d @ rest)"
      using assms(1) Cons by (intro dropWhile_append2) auto
    then show ?thesis by (simp add: Cons serial_frame_def serial_header_def)
  qed
  ultimately show ?thesis using serial_receive_frame[OF assms(2)] by (simp add: serial_receive.simps[of mtu "g @ _"])
qed

text \<open>Whatever is received was framed in the stream, behind bytes that were skipped.\<close>

lemma serial_receive_sound:
  assumes "serial_receive mtu bs = (Some (ch, d), rest)"
  shows "\<exists>g. bs = g @ serial_frame ch d @ rest \<and> frame_ok mtu (ch, d)"
  using assms
proof (induction mtu bs rule: serial_receive.induct)
  case (1 mtu bs)
  show ?case
  proof (cases "serial_parse mtu bs")
    case Again
    with "1.prems" show ?thesis by (simp add: serial_receive.simps)
  next
    case (Done x)
    with "1.prems" have "serial_parse mtu bs = Done ((ch, d), rest)" by (cases x) (simp add: serial_receive.simps)
    from serial_parse_sound[OF this] show ?thesis by (intro exI[of _ "[]"]) auto
  next
    case Fail
    let ?bs = "dropWhile (\<lambda>c. c \<noteq> ESC) (tl bs)"
    from Fail "1.prems" have "serial_receive mtu ?bs = (Some (ch, d), rest)"
      by (simp add: serial_receive.simps[of mtu bs])
    from "1.IH"[OF Fail this] obtain g where "?bs = g @ serial_frame ch d @ rest" "frame_ok mtu (ch, d)" by blast
    moreover have "bs = take 1 bs @ takeWhile (\<lambda>c. c \<noteq> ESC) (tl bs) @ ?bs"
      by (cases bs) simp_all
    ultimately show ?thesis
      by (intro exI[of _ "take 1 bs @ takeWhile (\<lambda>c. c \<noteq> ESC) (tl bs) @ g"]) simp
  qed
qed

section \<open>The serial transport as a transport\<close>

definition callbacks_ok :: "'e serial_callbacks \<Rightarrow> bool" where
  "callbacks_ok cbs \<longleftrightarrow> (\<exists>sent. put_contract (ser_put cbs) sent) \<and> (\<exists>input. get_contract (ser_get cbs) input)"

definition serial_inv :: "'e zcm_trans_generic_serial_t \<Rightarrow> bool" where
  "serial_inv zt \<longleftrightarrow> cb_inv (sendBuffer zt) \<and> recv_inv zt"

lemma serial_send_total:
  assumes "serial_inv zt"
  shows "\<exists>rc zt'. serial_sendmsg zt msg = Some (rc, zt') \<and> serial_inv zt' \<and> rc \<in> {ZCM_EOK, ZCM_EINVALID, ZCM_EAGAIN}
    \<and> (rc = ZCM_EINVALID \<longleftrightarrow> \<not> msg_within_limits zt msg)"
proof (cases "msg_within_limits zt msg")
  case True
  from assms have "cb_inv (sendBuffer zt)" by (simp add: serial_inv_def)
  from serial_sendmsg_spec[OF this True] obtain rc sb' where
    s: "serial_sendmsg zt msg = Some (rc, zt\<lparr>sendBuffer := sb'\<rparr>)"
      "send_post (sendBuffer zt) (serial_frame (msg_channel msg) (msg_buf msg)) rc sb'" by blast
  from s(2) have "cb_inv sb'" "rc \<in> {ZCM_EOK, ZCM_EAGAIN}" by (auto simp: send_post_def split: if_splits)
  with s(1) assms True show ?thesis by (auto simp: serial_inv_def recv_inv_def)
next
  case False
  from serial_sendmsg_invalid[OF False] assms False show ?thesis by auto
qed

lemma serial_update_total:
  assumes "serial_inv zt" "callbacks_ok cbs"
  shows "\<exists>zt'. serial_update cbs zt = Some (ZCM_EOK, zt') \<and> serial_inv zt'"
proof -
  obtain sent input where c: "put_contract (ser_put cbs) sent" "get_contract (ser_get cbs) input"
    using assms(2) by (auto simp: callbacks_ok_def)
  have rb: "cb_inv (recvBuffer zt)" and sb: "cb_inv (sendBuffer zt)"
    using assms(1) by (auto simp: serial_inv_def recv_inv_def)
  from cb_flush_in_conserves[OF rb c(2), of "ser_env zt"] obtain n rb' e1 where
    i: "cb_flush_in (ser_get cbs) (recvBuffer zt) (ser_env zt) = Some (n, rb', e1)" "cb_inv rb'" by blast
  from cb_flush_out_conserves[OF sb c(1), of e1] obtain n2 sb' e2 where
    o: "cb_flush_out (ser_put cbs) (sendBuffer zt) e1 = Some (n2, sb', e2)" "cb_inv sb'" by blast
  from i o assms(1) show ?thesis
    by (simp add: serial_update_def serial_update_rx_def serial_update_tx_def serial_inv_def recv_inv_def)
qed

interpretation ser: nonblocking_transport "serial_methods cbs" "\<lambda>zt. serial_inv zt \<and> callbacks_ok cbs" for cbs
proof (unfold_locales, goal_cases)
  case (1 s m)
  then show ?case using serial_send_total[of s m] by (fastforce simp: serial_methods_def serial_get_mtu_def)
next
  case (2 s c b)
  then show ?case by (simp add: serial_methods_def serial_recvmsg_enable_def)
next
  case (3 s t)
  then obtain rc m s' where "serial_recvmsg (ser_time cbs) s = Some (rc, m, s')" "recv_post s rc m s'"
    using serial_recvmsg_spec[of s "ser_time cbs"] by (auto simp: serial_inv_def)
  with 3 show ?case by (fastforce simp: serial_methods_def serial_inv_def recv_post_def split: option.splits)
next
  case (4 s)
  then show ?case using serial_update_total[of s cbs] by (auto simp: serial_methods_def)
qed

end
