(* ===== verification/Serial_Link.thy ===== *)
theory Serial_Link
  imports Serial_Receive
begin

text \<open>
  Two generic serial transports joined by a byte stream: the sender's \<^verbatim>\<open>put\<close> callback appends to the
  stream and the receiver's \<^verbatim>\<open>get\<close> callback takes from its front, each call moving as many bytes as
  the device pleases. The steps are the operations of the transports in any order; the theorems say
  that whatever the order and the chunking, the messages handed out are those accepted, in order.
\<close>

record 'e serial_link =
  lk_tx :: "'e zcm_trans_generic_serial_t"
  lk_rx :: "'e zcm_trans_generic_serial_t"
  lk_env :: 'e
  lk_accepted :: "zcm_msg_t list"
  lk_delivered :: "zcm_msg_t list"

inductive link_step :: "'e serial_callbacks \<Rightarrow> 'e serial_link \<Rightarrow> 'e serial_link \<Rightarrow> bool" for cbs where
  link_send: "serial_sendmsg (lk_tx s) m = Some (rc, tx) \<Longrightarrow> is_cstring (msg_channel m) \<Longrightarrow> msg_len m < 2 ^ 32 \<Longrightarrow>
    link_step cbs s (s\<lparr>lk_tx := tx, lk_accepted := lk_accepted s @ (if rc = ZCM_EOK then [m] else [])\<rparr>)"
| link_tx: "serial_update_tx cbs ((lk_tx s)\<lparr>ser_env := lk_env s\<rparr>) = Some (rc, tx) \<Longrightarrow>
    link_step cbs s (s\<lparr>lk_tx := tx, lk_env := ser_env tx\<rparr>)"
| link_rx: "serial_update_rx cbs ((lk_rx s)\<lparr>ser_env := lk_env s\<rparr>) = Some (rc, rx) \<Longrightarrow>
    link_step cbs s (s\<lparr>lk_rx := rx, lk_env := ser_env rx\<rparr>)"
| link_recv: "serial_recvmsg (ser_time cbs) ((lk_rx s)\<lparr>ser_env := lk_env s\<rparr>) = Some (rc, mo, rx) \<Longrightarrow>
    link_step cbs s (s\<lparr>lk_rx := rx, lk_env := ser_env rx,
                       lk_delivered := lk_delivered s @ (case mo of None \<Rightarrow> [] | Some m \<Rightarrow> [m])\<rparr>)"

abbreviation msg_key :: "zcm_msg_t \<Rightarrow> u8 list \<times> u8 list" where
  "msg_key m \<equiv> (msg_channel m, msg_buf m)"

abbreviation frames :: "(u8 list \<times> u8 list) list \<Rightarrow> u8 list" where
  "frames ms \<equiv> concat (map (\<lambda>(ch, d). serial_frame ch d) ms)"

definition link_ok :: "('e \<Rightarrow> u8 list) \<Rightarrow> 'e serial_callbacks \<Rightarrow> bool" where
  "link_ok wire cbs \<longleftrightarrow> put_contract (ser_put cbs) wire \<and> get_contract (ser_get cbs) wire
     \<and> (\<forall>e. wire (snd (ser_time cbs e)) = wire e)"

text \<open>
  The invariant: what the receive buffer, the wire and the send buffer hold together are the frames of
  the messages accepted and not yet delivered.
\<close>

definition link_stream :: "('e \<Rightarrow> u8 list) \<Rightarrow> 'e serial_link \<Rightarrow> u8 list" where
  "link_stream wire s = cb_bytes (recvBuffer (lk_rx s)) @ wire (lk_env s) @ cb_bytes (sendBuffer (lk_tx s))"

definition link_inv :: "('e \<Rightarrow> u8 list) \<Rightarrow> 'e serial_link \<Rightarrow> bool" where
  "link_inv wire s \<longleftrightarrow> cb_inv (sendBuffer (lk_tx s)) \<and> recv_inv (lk_rx s) \<and> ser_mtu (lk_tx s) \<le> ser_mtu (lk_rx s)
     \<and> (\<exists>pending. link_stream wire s = frames pending
          \<and> map msg_key (lk_accepted s) = map msg_key (lk_delivered s) @ pending
          \<and> (\<forall>m \<in> set pending. frame_ok (ser_mtu (lk_rx s)) m \<and> is_cstring (fst m)))"

lemma prefix_of_frames:
  assumes "bs @ w = f @ r"
  shows "(\<exists>bs'. bs = f @ bs' \<and> bs' @ w = r) \<or> (length bs < length f \<and> bs = take (length bs) f)"
proof (cases "length f \<le> length bs")
  case True
  then obtain bs' where "bs = f @ bs'" using assms
    by (metis append_eq_append_conv_if append_take_drop_id)
  with assms show ?thesis by auto
next
  case False
  with assms show ?thesis by (metis append_eq_append_conv_if linorder_le_less_linear)
qed

lemma recv_msg_key: "is_cstring ch \<Longrightarrow> msg_key (recv_msg utime ch d) = (ch, d)"
proof -
  assume "is_cstring ch"
  then have "takeWhile (\<lambda>c. c \<noteq> 0) ch = ch" by (subst takeWhile_eq_all_conv) (auto simp: is_cstring_def)
  then show ?thesis by (simp add: recv_msg_def)
qed

text \<open>What a receive does when the buffered bytes begin a sequence of frames.\<close>

lemma serial_receive_frames:
  assumes "bs @ w = frames pending" "\<forall>m \<in> set pending. frame_ok mtu m"
  shows "(serial_receive mtu bs = (None, bs) \<and> (w = [] \<longrightarrow> pending = []))
    \<or> (\<exists>ch d ms bs'. pending = (ch, d) # ms \<and> serial_receive mtu bs = (Some (ch, d), bs') \<and> bs' @ w = frames ms)"
proof (cases pending)
  case Nil
  with assms show ?thesis by (simp add: serial_receive.simps serial_parse_def)
next
  case (Cons m ms)
  obtain ch d where m: "m = (ch, d)" by (cases m)
  have ok: "frame_ok mtu (ch, d)" using assms(2) Cons m by auto
  have eq: "bs @ w = serial_frame ch d @ frames ms" using assms(1) Cons m by simp
  from prefix_of_frames[OF this] show ?thesis
  proof
    assume "\<exists>bs'. bs = serial_frame ch d @ bs' \<and> bs' @ w = frames ms"
    then show ?thesis using serial_receive_frame[OF ok] Cons m by auto
  next
    assume p: "length bs < length (serial_frame ch d) \<and> bs = take (length bs) (serial_frame ch d)"
    then have "serial_receive mtu bs = (None, bs)" using serial_receive_prefix[OF ok, of "length bs"] by simp
    moreover have "w \<noteq> []" using p eq by (metis append_Nil2 length_append not_add_less1)
    ultimately show ?thesis by blast
  qed
qed

lemma link_inv_send:
  assumes "link_inv wire s" "serial_sendmsg (lk_tx s) m = Some (rc, tx)" "is_cstring (msg_channel m)" "msg_len m < 2 ^ 32"
  shows "link_inv wire (s\<lparr>lk_tx := tx, lk_accepted := lk_accepted s @ (if rc = ZCM_EOK then [m] else [])\<rparr>)"
proof (cases "msg_within_limits (lk_tx s) m")
  case False
  with serial_sendmsg_invalid[OF False] assms show ?thesis by (simp add: link_inv_def link_stream_def)
next
  case True
  have inv: "cb_inv (sendBuffer (lk_tx s))" using assms(1) by (simp add: link_inv_def)
  from serial_sendmsg_spec[OF inv True] assms(2) obtain sb where
    sb: "tx = (lk_tx s)\<lparr>sendBuffer := sb\<rparr>" "send_post (sendBuffer (lk_tx s)) (serial_frame (msg_channel m) (msg_buf m)) rc sb"
    by auto
  have cap: "rc = ZCM_EOK \<and> cb_bytes sb = cb_bytes (sendBuffer (lk_tx s)) @ serial_frame (msg_channel m) (msg_buf m)
      \<or> rc = ZCM_EAGAIN \<and> cb_bytes sb = cb_bytes (sendBuffer (lk_tx s))" "cb_inv sb"
    using sb(2) by (auto simp: send_post_def split: if_splits)
  from assms(1) obtain pending where p: "link_stream wire s = frames pending"
      "map msg_key (lk_accepted s) = map msg_key (lk_delivered s) @ pending"
      "\<forall>m \<in> set pending. frame_ok (ser_mtu (lk_rx s)) m \<and> is_cstring (fst m)"
    by (auto simp: link_inv_def)
  have ok: "frame_ok (ser_mtu (lk_rx s)) (msg_key m)" using True assms(1,4) by (auto simp: link_inv_def)
  from cap(1) show ?thesis
  proof
    assume *: "rc = ZCM_EOK \<and> cb_bytes sb = cb_bytes (sendBuffer (lk_tx s)) @ serial_frame (msg_channel m) (msg_buf m)"
    then show ?thesis using assms(1,3) sb(1) cap(2) p ok
      by (auto simp: link_inv_def link_stream_def intro!: exI[of _ "pending @ [msg_key m]"])
  next
    assume "rc = ZCM_EAGAIN \<and> cb_bytes sb = cb_bytes (sendBuffer (lk_tx s))"
    then show ?thesis using assms(1) sb(1) cap(2) by (simp add: link_inv_def link_stream_def)
  qed
qed

lemma link_inv_view:
  assumes "link_inv wire s" "link_stream wire s' = link_stream wire s" "cb_inv (sendBuffer (lk_tx s'))"
    "recv_inv (lk_rx s')" "ser_mtu (lk_tx s') = ser_mtu (lk_tx s)" "ser_mtu (lk_rx s') = ser_mtu (lk_rx s)"
    "lk_accepted s' = lk_accepted s" "lk_delivered s' = lk_delivered s"
  shows "link_inv wire s'"
  using assms by (simp add: link_inv_def)

lemma link_inv_tx:
  assumes inv: "link_inv wire s" and ok: "link_ok wire cbs"
    and op: "serial_update_tx cbs ((lk_tx s)\<lparr>ser_env := lk_env s\<rparr>) = Some (rc, tx)"
  shows "link_inv wire (s\<lparr>lk_tx := tx, lk_env := ser_env tx\<rparr>)"
proof -
  have "cb_inv (sendBuffer (lk_tx s))" "put_contract (ser_put cbs) wire"
    using inv ok by (auto simp: link_inv_def link_ok_def)
  from cb_flush_out_conserves[OF this, of "lk_env s"] obtain n sb e where
    f: "cb_flush_out (ser_put cbs) (sendBuffer (lk_tx s)) (lk_env s) = Some (n, sb, e)" "cb_inv sb"
       "wire e @ cb_bytes sb = wire (lk_env s) @ cb_bytes (sendBuffer (lk_tx s))" by blast
  from op f(1) have "tx = (lk_tx s)\<lparr>sendBuffer := sb, ser_env := e\<rparr>" by (auto simp: serial_update_tx_def)
  with f(2,3) inv show ?thesis
    by (intro link_inv_view[OF inv]) (auto simp: link_stream_def link_inv_def)
qed

lemma link_inv_rx:
  assumes inv: "link_inv wire s" and ok: "link_ok wire cbs"
    and op: "serial_update_rx cbs ((lk_rx s)\<lparr>ser_env := lk_env s\<rparr>) = Some (rc, rx)"
  shows "link_inv wire (s\<lparr>lk_rx := rx, lk_env := ser_env rx\<rparr>)"
proof -
  have "cb_inv (recvBuffer (lk_rx s))" "get_contract (ser_get cbs) wire"
    using inv ok by (auto simp: link_inv_def link_ok_def recv_inv_def)
  from cb_flush_in_conserves[OF this, of "lk_env s"] obtain n rb e where
    f: "cb_flush_in (ser_get cbs) (recvBuffer (lk_rx s)) (lk_env s) = Some (n, rb, e)" "cb_inv rb"
       "cb_bytes rb @ wire e = cb_bytes (recvBuffer (lk_rx s)) @ wire (lk_env s)" by blast
  from op f(1) have "rx = (lk_rx s)\<lparr>recvBuffer := rb, ser_env := e\<rparr>" by (auto simp: serial_update_rx_def)
  with f(2,3) inv show ?thesis
    by (intro link_inv_view[OF inv]) (auto simp: link_stream_def link_inv_def recv_inv_def simp flip: append_assoc)
qed

text \<open>A receive on a link: the next accepted message, if its frame has arrived.\<close>

lemma link_recv_cases:
  assumes inv: "link_inv wire s" and ok: "link_ok wire cbs"
  shows "\<exists>rc mo rx. serial_recvmsg (ser_time cbs) ((lk_rx s)\<lparr>ser_env := lk_env s\<rparr>) = Some (rc, mo, rx)
    \<and> link_inv wire (s\<lparr>lk_rx := rx, lk_env := ser_env rx,
                       lk_delivered := lk_delivered s @ (case mo of None \<Rightarrow> [] | Some m \<Rightarrow> [m])\<rparr>)
    \<and> (rc = ZCM_EOK \<longleftrightarrow> mo \<noteq> None) \<and> sendBuffer rx = sendBuffer (lk_rx s)
    \<and> (wire (lk_env s) @ cb_bytes (sendBuffer (lk_tx s)) = [] \<and> mo = None \<longrightarrow>
         map msg_key (lk_delivered s) = map msg_key (lk_accepted s))"
proof -
  define z where "z = (lk_rx s)\<lparr>ser_env := lk_env s\<rparr>"
  define bs where "bs = cb_bytes (recvBuffer (lk_rx s))"
  define w where "w = wire (lk_env s) @ cb_bytes (sendBuffer (lk_tx s))"
  have z: "recv_inv z" "ser_env z = lk_env s" "recvBuffer z = recvBuffer (lk_rx s)" "ser_mtu z = ser_mtu (lk_rx s)"
      "sendBuffer z = sendBuffer (lk_rx s)"
    using inv by (simp_all add: z_def link_inv_def recv_inv_def)
  have "wire (snd (ser_time cbs e)) = wire e" for e using ok by (simp add: link_ok_def)
  from serial_recvmsg_view[where time = "ser_time cbs" and view = wire, OF z(1) this] obtain rc mo rx where
    r: "serial_recvmsg (ser_time cbs) z = Some (rc, mo, rx)" "recv_post z rc mo rx" "wire (ser_env rx) = wire (lk_env s)"
    by (auto simp: z)
  define s' where "s' = s\<lparr>lk_rx := rx, lk_env := ser_env rx,
                       lk_delivered := lk_delivered s @ (case mo of None \<Rightarrow> [] | Some m \<Rightarrow> [m])\<rparr>"
  from inv obtain pending where p: "bs @ w = frames pending"
      "map msg_key (lk_accepted s) = map msg_key (lk_delivered s) @ pending"
      "\<forall>m \<in> set pending. frame_ok (ser_mtu (lk_rx s)) m \<and> is_cstring (fst m)"
    by (auto simp: link_inv_def link_stream_def bs_def w_def)
  from r(2) have post: "recv_inv rx" "ser_mtu rx = ser_mtu (lk_rx s)" "sendBuffer rx = sendBuffer (lk_rx s)"
    by (simp_all add: recv_post_def z)
  have strm: "link_stream wire s' = cb_bytes (recvBuffer rx) @ w"
    by (simp add: s'_def link_stream_def w_def r(3))
  note rec = r(2)[unfolded recv_post_def z, folded bs_def]
  have fok: "\<forall>m \<in> set pending. frame_ok (ser_mtu (lk_rx s)) m" using p(3) by blast
  have "link_inv wire s' \<and> (rc = ZCM_EOK \<longleftrightarrow> mo \<noteq> None) \<and> (w = [] \<and> mo = None \<longrightarrow> pending = [])"
    using serial_receive_frames[OF p(1) fok]
  proof (elim disjE)
    assume c: "serial_receive (ser_mtu (lk_rx s)) bs = (None, bs) \<and> (w = [] \<longrightarrow> pending = [])"
    then have n: "rc = ZCM_EAGAIN" "mo = None" "cb_bytes (recvBuffer rx) = bs" using rec by auto
    with c strm p post inv show ?thesis by (auto simp: link_inv_def s'_def)
  next
    assume "\<exists>ch d ms bs'. pending = (ch, d) # ms \<and> serial_receive (ser_mtu (lk_rx s)) bs = (Some (ch, d), bs')
      \<and> bs' @ w = frames ms"
    then obtain ch d ms bs' where c: "pending = (ch, d) # ms" "serial_receive (ser_mtu (lk_rx s)) bs = (Some (ch, d), bs')"
      "bs' @ w = frames ms" by blast
    then obtain u where n: "rc = ZCM_EOK" "mo = Some (recv_msg u ch d)" "cb_bytes (recvBuffer rx) = bs'" using rec by auto
    have "msg_key (recv_msg u ch d) = (ch, d)" using recv_msg_key p(3) c(1) by simp
    then show ?thesis using n c strm p post inv by (auto simp: link_inv_def s'_def)
  qed
  with r(1) post(3) p(2) show ?thesis unfolding z_def[symmetric] s'_def w_def by auto
qed

lemma link_step_inv:
  assumes "link_step cbs s s'" "link_ok wire cbs" "link_inv wire s"
  shows "link_inv wire s'"
  using assms
proof (induction rule: link_step.induct)
  case (link_send s m rc tx)
  then show ?case by (intro link_inv_send) auto
next
  case (link_tx s rc tx)
  then show ?case by (intro link_inv_tx)
next
  case (link_rx s rc rx)
  then show ?case by (intro link_inv_rx)
next
  case (link_recv s rc mo rx)
  with link_recv_cases[of wire s cbs] show ?case by auto
qed

lemma link_reachable_inv:
  assumes "(link_step cbs)\<^sup>*\<^sup>* s s'" "link_ok wire cbs" "link_inv wire s"
  shows "link_inv wire s'"
  using assms(1,3) by (induction rule: rtranclp_induct) (auto intro: link_step_inv[OF _ assms(2)])

section \<open>Properties of the serial transport\<close>

text \<open>
  A concrete link, used in the witnesses: the environment is the wire itself, and both callbacks move
  all the bytes that they can.
\<close>

definition wire_callbacks :: "u8 list serial_callbacks" where
  "wire_callbacks = \<lparr>ser_get = (\<lambda>n e. (take n e, drop n e)), ser_put = (\<lambda>blk e. (length blk, e @ blk)),
                     ser_time = (\<lambda>e. (0, e))\<rparr>"

definition small_serial :: "u8 list zcm_trans_generic_serial_t" where
  "small_serial =
     \<lparr>sendBuffer = \<lparr>cb_data = replicate 20 0, cb_capacity = 20, cb_frontIdx = 0, cb_backIdx = 0\<rparr>,
      recvBuffer = \<lparr>cb_data = replicate 20 0, cb_capacity = 20, cb_frontIdx = 0, cb_backIdx = 0\<rparr>,
      recvChanName = replicate 33 0, ser_mtu = 4, recvMsgData = replicate 4 0, ser_env = []\<rparr>"

definition small_link :: "u8 list serial_link" where
  "small_link = \<lparr>lk_tx = small_serial, lk_rx = small_serial, lk_env = [], lk_accepted = [], lk_delivered = []\<rparr>"

lemma wire_callbacks_ok: "link_ok (\<lambda>e. e) wire_callbacks"
  by (simp add: link_ok_def put_contract_def get_contract_def wire_callbacks_def)

lemma small_serial_inv: "cb_inv (sendBuffer small_serial)" "recv_inv small_serial"
  by (simp_all add: small_serial_def cb_inv_def recv_inv_def ZCM_CHANNEL_MAXLEN_def)

lemma small_link_inv: "link_inv (\<lambda>e. e) small_link"
proof -
  have "cb_bytes (sendBuffer small_serial) = []" "cb_bytes (recvBuffer small_serial) = []"
    by (simp_all add: small_serial_def cb_bytes_def cb_size_def)
  then show ?thesis
    using small_serial_inv by (auto simp: link_inv_def link_stream_def small_link_def intro!: exI[of _ "[]"])
qed

lemma small_serial_empty: "cb_bytes (sendBuffer small_serial) = []" "cb_room (sendBuffer small_serial) = 19"
    "ser_mtu small_serial = 4"
  by (simp_all add: small_serial_def cb_bytes_def cb_size_def cb_room_def)

text \<open>
  The receive buffer of \<open>small_serial\<close> with some bytes in it.
\<close>

definition small_received :: "u8 list \<Rightarrow> u8 list zcm_trans_generic_serial_t" where
  "small_received bs = small_serial\<lparr>recvBuffer := \<lparr>cb_data = bs @ replicate (20 - length bs) 0, cb_capacity = 20,
     cb_frontIdx = 0, cb_backIdx = length bs\<rparr>\<rparr>"

lemma small_received_inv:
  assumes "length bs < 20"
  shows "recv_inv (small_received bs)" "cb_bytes (recvBuffer (small_received bs)) = bs" "ser_mtu (small_received bs) = 4"
proof -
  have "ring_list (bs @ replicate (20 - length bs) 0) 20 0 (length bs) = bs"
    using assms by (subst ring_list_contiguous) auto
  then show "cb_bytes (recvBuffer (small_received bs)) = bs"
    using assms by (simp add: small_received_def cb_bytes_def cb_size_def)
  show "recv_inv (small_received bs)" "ser_mtu (small_received bs) = 4"
    using assms by (simp_all add: small_received_def small_serial_def recv_inv_def cb_inv_def ZCM_CHANNEL_MAXLEN_def)
qed

text \<open>
  C23. \<^verbatim>\<open>serial_sendmsg\<close> on a message within the limits: it never writes outside of the send buffer; it
  returns \<^verbatim>\<open>ZCM_EOK\<close> exactly when the whole escaped frame fits, and then appends exactly that frame;
  otherwise it returns \<^verbatim>\<open>ZCM_EAGAIN\<close> and the buffered bytes are what they were, also when it had
  pushed part of the frame before running out of room.
\<close>

theorem serial_sendmsg_all_or_nothing:
  assumes "cb_inv (sendBuffer zt)" "length (msg_channel msg) \<le> ZCM_CHANNEL_MAXLEN" "msg_len msg \<le> ser_mtu zt"
  shows "\<exists>rc sb. serial_sendmsg zt msg = Some (rc, zt\<lparr>sendBuffer := sb\<rparr>) \<and> cb_inv sb
    \<and> (if length (serial_frame (msg_channel msg) (msg_buf msg)) \<le> cb_room (sendBuffer zt)
       then rc = ZCM_EOK \<and> cb_bytes sb = cb_bytes (sendBuffer zt) @ serial_frame (msg_channel msg) (msg_buf msg)
       else rc = ZCM_EAGAIN \<and> cb_bytes sb = cb_bytes (sendBuffer zt))"
proof -
  have "msg_within_limits zt msg" using assms by simp
  from serial_sendmsg_spec[OF assms(1) this] show ?thesis unfolding send_post_def by blast
qed

theorem serial_sendmsg_all_or_nothing_witness:
  "\<exists>sb. serial_sendmsg small_serial \<lparr>msg_utime = 0, msg_channel = [65], msg_buf = [1, 2]\<rparr>
       = Some (ZCM_EOK, small_serial\<lparr>sendBuffer := sb\<rparr>) \<and> cb_bytes sb = serial_frame [65] [1, 2]"
proof -
  have "length (serial_frame [65] [1, 2]) \<le> 19"
    by (simp add: length_serial_frame ZCM_GENERIC_SERIAL_ESCAPE_CHAR_def)
  then show ?thesis
    using serial_sendmsg_all_or_nothing[of small_serial "\<lparr>msg_utime = 0, msg_channel = [65], msg_buf = [1, 2]\<rparr>"]
      small_serial_inv small_serial_empty by (auto simp: ZCM_CHANNEL_MAXLEN_def)
qed

text \<open>
  C5. \<^verbatim>\<open>serial_recvmsg\<close> is total and safe on every receive buffer, whatever bytes are in it: it
  terminates, stays inside its buffers, keeps the invariant and the send side, and its result and
  the bytes it leaves are those of the parser on the buffered bytes.
\<close>

theorem serial_recvmsg_refines:
  assumes "recv_inv zt"
  shows "\<exists>rc m zt'. serial_recvmsg time zt = Some (rc, m, zt') \<and> recv_inv zt' \<and> sendBuffer zt' = sendBuffer zt
    \<and> cb_bytes (recvBuffer zt') = snd (serial_receive (ser_mtu zt) (cb_bytes (recvBuffer zt)))
    \<and> (case fst (serial_receive (ser_mtu zt) (cb_bytes (recvBuffer zt))) of
         None \<Rightarrow> rc = ZCM_EAGAIN \<and> m = None
       | Some (ch, d) \<Rightarrow> rc = ZCM_EOK \<and> (\<exists>utime. m = Some (recv_msg utime ch d)))"
  using serial_recvmsg_spec[OF assms, of time] unfolding recv_post_def by blast

theorem serial_recvmsg_refines_witness:
  "\<exists>m zt'. serial_recvmsg (\<lambda>e. (7, e)) (small_received (serial_frame [65] [1, 0xcc])) = Some (ZCM_EOK, Some m, zt')
     \<and> msg_channel m = [65] \<and> msg_buf m = [1, 0xcc]"
proof -
  have l: "length (serial_frame [65] [1, 0xcc]) < 20"
    by (simp add: length_serial_frame ZCM_GENERIC_SERIAL_ESCAPE_CHAR_def)
  have "serial_receive 4 (serial_frame [65] [1, 0xcc] @ []) = (Some ([65], [1, 0xcc]), [])"
    by (rule serial_receive_frame) (simp add: ZCM_CHANNEL_MAXLEN_def)
  then show ?thesis
    using serial_recvmsg_refines[OF small_received_inv(1)[OF l], of "\<lambda>e. (7, e)"] small_received_inv[OF l]
    by (auto simp: recv_msg_def)
qed

text \<open>
  Nothing is made up: a message that \<^verbatim>\<open>serial_recvmsg\<close> hands out was in the receive buffer as one
  well-formed frame, with its checksum, within the limits; the bytes in front of it are discarded
  and those behind it are left.
\<close>

theorem serial_recvmsg_sound:
  assumes "recv_inv zt" "serial_recvmsg time zt = Some (ZCM_EOK, Some m, zt')"
  shows "\<exists>skipped ch d. cb_bytes (recvBuffer zt) = skipped @ serial_frame ch d @ cb_bytes (recvBuffer zt')
    \<and> msg_channel m = takeWhile (\<lambda>c. c \<noteq> 0) ch \<and> msg_buf m = d
    \<and> length ch \<le> ZCM_CHANNEL_MAXLEN \<and> length d \<le> ser_mtu zt"
proof -
  have post: "recv_post zt ZCM_EOK (Some m) zt'" using serial_recvmsg_spec[OF assms(1), of time] assms(2) by auto
  then obtain ch d utime where "serial_receive (ser_mtu zt) (cb_bytes (recvBuffer zt)) = (Some (ch, d), cb_bytes (recvBuffer zt'))"
      "m = recv_msg utime ch d"
    by (cases "serial_receive (ser_mtu zt) (cb_bytes (recvBuffer zt))") (auto simp: recv_post_def split: option.splits)
  with serial_receive_sound[OF this(1)] show ?thesis by (auto simp: recv_msg_def)
qed

theorem serial_recvmsg_sound_witness:
  "\<exists>m zt' skipped ch d. serial_recvmsg (\<lambda>e. (7, e)) (small_received (serial_frame [65] [3])) = Some (ZCM_EOK, Some m, zt')
     \<and> serial_frame [65] [3] = skipped @ serial_frame ch d @ cb_bytes (recvBuffer zt') \<and> msg_buf m = d"
proof -
  let ?zt = "small_received (serial_frame [65] [3])"
  have l: "length (serial_frame [65] [3]) < 20"
    by (simp add: length_serial_frame ZCM_GENERIC_SERIAL_ESCAPE_CHAR_def)
  note z = small_received_inv[OF l]
  have "serial_receive 4 (serial_frame [65] [3] @ []) = (Some ([65], [3]), [])"
    by (rule serial_receive_frame) (simp add: ZCM_CHANNEL_MAXLEN_def)
  then obtain m zt' where "serial_recvmsg (\<lambda>e. (7, e)) ?zt = Some (ZCM_EOK, Some m, zt')"
    using serial_recvmsg_spec[OF z(1), of "\<lambda>e. (7, e)"] z(2,3) by (auto simp: recv_post_def)
  with serial_recvmsg_sound[OF z(1) this] z(2) show ?thesis by auto
qed

text \<open>
  A frame behind line noise without escape characters is received, and exactly its bytes and the
  noise leave the buffer.
\<close>

theorem serial_recvmsg_recovers:
  assumes "recv_inv zt" "cb_bytes (recvBuffer zt) = noise @ serial_frame ch d @ rest" "ESC \<notin> set noise"
    "is_cstring ch" "length ch \<le> ZCM_CHANNEL_MAXLEN" "length d \<le> ser_mtu zt" "length d < 2 ^ 32"
  shows "\<exists>m zt'. serial_recvmsg time zt = Some (ZCM_EOK, Some m, zt') \<and> recv_inv zt'
    \<and> msg_channel m = ch \<and> msg_buf m = d \<and> cb_bytes (recvBuffer zt') = rest"
proof -
  have "frame_ok (ser_mtu zt) (ch, d)" using assms by simp
  from serial_receive_garbage[OF assms(3) this, of rest]
  have "serial_receive (ser_mtu zt) (cb_bytes (recvBuffer zt)) = (Some (ch, d), rest)" using assms(2) by simp
  with serial_recvmsg_spec[OF assms(1), of time] recv_msg_key[OF assms(4)] show ?thesis
    by (auto simp: recv_post_def)
qed

theorem serial_recvmsg_recovers_witness:
  "\<exists>m zt'. serial_recvmsg (\<lambda>e. (7, e)) (small_received ([1, 2] @ serial_frame [65] [3] @ [9])) = Some (ZCM_EOK, Some m, zt')
     \<and> msg_channel m = [65] \<and> msg_buf m = [3] \<and> cb_bytes (recvBuffer zt') = [9]"
proof -
  have l: "length ([1, 2] @ serial_frame [65] [3] @ [9]) < 20"
    by (simp add: length_serial_frame ZCM_GENERIC_SERIAL_ESCAPE_CHAR_def)
  note z = small_received_inv[OF l]
  have "ESC \<notin> set [1, 2]" by (simp add: ZCM_GENERIC_SERIAL_ESCAPE_CHAR_def)
  from serial_recvmsg_recovers[OF z(1,2) this, of "\<lambda>e. (7, e)"] z(3) show ?thesis
    by (auto simp: is_cstring_def ZCM_CHANNEL_MAXLEN_def)
qed

text \<open>
  On a receive buffer that holds a proper prefix of a frame \<^verbatim>\<open>serial_recvmsg\<close> returns
  \<^verbatim>\<open>ZCM_EAGAIN\<close> and discards nothing, so that the frame is received once the rest arrives.
\<close>

theorem serial_recvmsg_waits:
  assumes "recv_inv zt" "n < length (serial_frame ch d)" "cb_bytes (recvBuffer zt) = take n (serial_frame ch d)"
    "length ch \<le> ZCM_CHANNEL_MAXLEN" "length d \<le> ser_mtu zt" "length d < 2 ^ 32"
  shows "\<exists>zt'. serial_recvmsg time zt = Some (ZCM_EAGAIN, None, zt') \<and> recv_inv zt'
    \<and> cb_bytes (recvBuffer zt') = cb_bytes (recvBuffer zt)"
proof -
  have "frame_ok (ser_mtu zt) (ch, d)" using assms by simp
  from serial_receive_prefix[OF this assms(2)] assms(3)
  have "serial_receive (ser_mtu zt) (cb_bytes (recvBuffer zt)) = (None, cb_bytes (recvBuffer zt))" by simp
  with serial_recvmsg_spec[OF assms(1), of time] show ?thesis by (auto simp: recv_post_def)
qed

theorem serial_recvmsg_waits_witness:
  "\<exists>zt'. serial_recvmsg (\<lambda>e. (7, e)) (small_received (take 10 (serial_frame [65] [3]))) = Some (ZCM_EAGAIN, None, zt')
     \<and> cb_bytes (recvBuffer zt') = take 10 (serial_frame [65] [3])"
proof -
  have l: "length (take 10 (serial_frame [65] [3])) < 20" "10 < length (serial_frame [65] [3])"
    by (simp_all add: length_serial_frame ZCM_GENERIC_SERIAL_ESCAPE_CHAR_def)
  note z = small_received_inv[OF l(1)]
  from serial_recvmsg_waits[OF z(1) l(2) z(2), of "\<lambda>e. (7, e)"] z show ?thesis
    by (auto simp: ZCM_CHANNEL_MAXLEN_def)
qed

text \<open>
  A transport created with the smallest buffer that \<^verbatim>\<open>zcm_trans_generic_serial_create\<close> accepts can
  never send a message of MTU size: the ring buffer keeps one byte unused, so that every attempt
  ends with \<^verbatim>\<open>ZCM_EAGAIN\<close>, even on an empty buffer.
\<close>

theorem serial_smallest_buffer_rejects_mtu:
  assumes "cb_inv (sendBuffer zt)" "cb_capacity (sendBuffer zt) = FRAME_BYTES + ser_mtu zt"
    "length (msg_channel msg) \<le> ZCM_CHANNEL_MAXLEN" "msg_len msg = ser_mtu zt"
  shows "serial_sendmsg zt msg = Some (ZCM_EAGAIN, zt)"
proof -
  have "FRAME_BYTES + length (msg_channel msg) + msg_len msg > cb_room (sendBuffer zt)"
    using assms(2,4) cb_capacity_room[OF assms(1)] by simp
  with serial_sendmsg_no_room[of msg zt] assms show ?thesis by simp
qed

theorem serial_smallest_buffer_rejects_mtu_witness:
  "map_option fst (serial_sendmsg (small_serial\<lparr>ser_mtu := 11\<rparr>)
      \<lparr>msg_utime = 0, msg_channel = [], msg_buf = replicate 11 0\<rparr>) = Some ZCM_EAGAIN"
  using serial_smallest_buffer_rejects_mtu[of "small_serial\<lparr>ser_mtu := 11\<rparr>"
      "\<lparr>msg_utime = 0, msg_channel = [], msg_buf = replicate 11 0\<rparr>"] small_serial_inv(1)
  by (simp add: small_serial_def FRAME_BYTES_def)

end
