(* ===== verification/Coretypes.thy ===== *)
theory Coretypes
  imports Zcm_Prelude
begin

text \<open>
  The primitive encoders and decoders of \<^verbatim>\<open>zcm/zcm_coretypes.h\<close>, on which every generated message
  type is built: arrays of integers and floating point numbers in both byte orders, bytes and
  strings. An encoder takes the buffer, the offset and the room in bytes, the array and the number
  of elements; it returns the C return value and the new buffer, and \<open>None\<close> when it would touch a
  cell outside of the buffer or the array. All sizes and positions are 32-bit and wrap around.
  Floating point values are represented by the bits that the source reads through a \<^verbatim>\<open>union\<close>.
\<close>

section \<open>Element loops\<close>

text \<open>A run of \<^verbatim>\<open>buf[pos++] = b\<close>.\<close>

fun put_seq :: "u8 list \<Rightarrow> u32 \<Rightarrow> u8 list \<Rightarrow> (u8 list \<times> u32) option" where
  "put_seq buf pos [] = Some (buf, pos)"
| "put_seq buf pos (b # bs) =
     do {
       buf \<leftarrow> mem_put buf (unat pos) b;
       put_seq buf (pos + 1) bs
     }"

text \<open>The bytes \<^verbatim>\<open>buf[pos + 0]\<close>, \<^verbatim>\<open>buf[pos + 1]\<close>, ...\<close>

fun get_seq :: "u8 list \<Rightarrow> u32 \<Rightarrow> nat \<Rightarrow> u8 list option" where
  "get_seq buf pos 0 = Some []"
| "get_seq buf pos (Suc n) =
     do {
       b \<leftarrow> mem_get buf (unat pos);
       bs \<leftarrow> get_seq buf (pos + 1) n;
       Some (b # bs)
     }"

text \<open>\<^verbatim>\<open>for (element = i; element < elements; ++element)\<close> with \<open>k\<close> elements to go.\<close>

fun encode_loop :: "('a \<Rightarrow> u8 list) \<Rightarrow> 'a list \<Rightarrow> nat \<Rightarrow> nat \<Rightarrow> u8 list \<Rightarrow> u32 \<Rightarrow> u8 list option" where
  "encode_loop enc p element 0 buf pos = Some buf"
| "encode_loop enc p element (Suc k) buf pos =
     do {
       v \<leftarrow> mem_get p element;
       (buf, pos) \<leftarrow> put_seq buf pos (enc v);
       encode_loop enc p (Suc element) k buf pos
     }"

fun decode_loop :: "(u8 list \<Rightarrow> 'a) \<Rightarrow> nat \<Rightarrow> u8 list \<Rightarrow> nat \<Rightarrow> nat \<Rightarrow> 'a list \<Rightarrow> u32 \<Rightarrow> 'a list option" where
  "decode_loop dec w buf element 0 p pos = Some p"
| "decode_loop dec w buf element (Suc k) p pos =
     do {
       bs \<leftarrow> get_seq buf pos w;
       p \<leftarrow> mem_put p element (dec bs);
       decode_loop dec w buf (Suc element) k p (pos + of_nat w)
     }"

text \<open>
  The frame that the multi-byte encoders and decoders share: the size, which wraps around, is
  checked against \<^verbatim>\<open>maxlen\<close> first; the \<^verbatim>\<open>uint32_t\<close> size is returned as an \<^verbatim>\<open>int\<close>.
\<close>

definition encode_array ::
    "('a \<Rightarrow> u8 list) \<Rightarrow> u32 \<Rightarrow> u8 list \<Rightarrow> u32 \<Rightarrow> u32 \<Rightarrow> 'a list \<Rightarrow> u32 \<Rightarrow> (int \<times> u8 list) option" where
  "encode_array enc total_size buf offset maxlen p elements =
     (if maxlen < total_size then Some (-1, buf)
      else map_option (\<lambda>buf. (sint total_size, buf)) (encode_loop enc p 0 (unat elements) buf offset))"

definition decode_array ::
    "(u8 list \<Rightarrow> 'a) \<Rightarrow> nat \<Rightarrow> u32 \<Rightarrow> u8 list \<Rightarrow> u32 \<Rightarrow> u32 \<Rightarrow> 'a list \<Rightarrow> u32 \<Rightarrow> (int \<times> 'a list) option" where
  "decode_array dec w total_size buf offset maxlen p elements =
     (if maxlen < total_size then Some (-1, p)
      else map_option (\<lambda>p. (sint total_size, p)) (decode_loop dec w buf 0 (unat elements) p offset))"

text \<open>\<^verbatim>\<open>memcpy(q, p, n)\<close> on arrays of elements of \<open>w\<close> bytes.\<close>

definition clone_array :: "nat \<Rightarrow> 'a list \<Rightarrow> 'a list \<Rightarrow> u32 \<Rightarrow> (u32 \<times> 'a list) option" where
  "clone_array w p q elements =
     (let n = elements * of_nat w
      in do {
        xs \<leftarrow> mem_slice p 0 (unat n div w);
        q \<leftarrow> mem_blit q 0 xs;
        Some (n, q)
      })"

section \<open>Bytes\<close>

definition byte_encoded_array_size :: "u32 \<Rightarrow> u32" where
  "byte_encoded_array_size elements = 1 * elements"

definition byte_encode_array :: "u8 list \<Rightarrow> u32 \<Rightarrow> u32 \<Rightarrow> u8 list \<Rightarrow> u32 \<Rightarrow> (int \<times> u8 list) option" where
  "byte_encode_array buf offset maxlen p elements =
     (if maxlen < byte_encoded_array_size elements then Some (-1, buf)
      else do {
        xs \<leftarrow> mem_slice p 0 (unat elements);
        buf \<leftarrow> mem_blit buf (unat offset) xs;
        Some (sint elements, buf)
      })"

definition byte_decode_array :: "u8 list \<Rightarrow> u32 \<Rightarrow> u32 \<Rightarrow> u8 list \<Rightarrow> u32 \<Rightarrow> (int \<times> u8 list) option" where
  "byte_decode_array buf offset maxlen p elements =
     (if maxlen < byte_encoded_array_size elements then Some (-1, p)
      else do {
        xs \<leftarrow> mem_slice buf (unat offset) (unat elements);
        p \<leftarrow> mem_blit p 0 xs;
        Some (sint elements, p)
      })"

definition byte_encode_little_endian_array :: "u8 list \<Rightarrow> u32 \<Rightarrow> u32 \<Rightarrow> u8 list \<Rightarrow> u32 \<Rightarrow> (int \<times> u8 list) option" where
  "byte_encode_little_endian_array = byte_encode_array"

definition byte_decode_little_endian_array :: "u8 list \<Rightarrow> u32 \<Rightarrow> u32 \<Rightarrow> u8 list \<Rightarrow> u32 \<Rightarrow> (int \<times> u8 list) option" where
  "byte_decode_little_endian_array = byte_decode_array"

definition byte_clone_array :: "u8 list \<Rightarrow> u8 list \<Rightarrow> u32 \<Rightarrow> (u32 \<times> u8 list) option" where
  "byte_clone_array = clone_array 1"

text \<open>\<^verbatim>\<open>int8_t\<close> cells are the same bytes; booleans are \<^verbatim>\<open>int8_t\<close>.\<close>

definition int8_t_encoded_array_size :: "u32 \<Rightarrow> u32" where
  "int8_t_encoded_array_size elements = 1 * elements"

definition int8_t_encode_array :: "u8 list \<Rightarrow> u32 \<Rightarrow> u32 \<Rightarrow> u8 list \<Rightarrow> u32 \<Rightarrow> (int \<times> u8 list) option" where
  "int8_t_encode_array buf offset maxlen p elements =
     (if maxlen < int8_t_encoded_array_size elements then Some (-1, buf)
      else do {
        xs \<leftarrow> mem_slice p 0 (unat elements);
        buf \<leftarrow> mem_blit buf (unat offset) xs;
        Some (sint elements, buf)
      })"

definition int8_t_decode_array :: "u8 list \<Rightarrow> u32 \<Rightarrow> u32 \<Rightarrow> u8 list \<Rightarrow> u32 \<Rightarrow> (int \<times> u8 list) option" where
  "int8_t_decode_array buf offset maxlen p elements =
     (if maxlen < int8_t_encoded_array_size elements then Some (-1, p)
      else do {
        xs \<leftarrow> mem_slice buf (unat offset) (unat elements);
        p \<leftarrow> mem_blit p 0 xs;
        Some (sint elements, p)
      })"

definition int8_t_encode_little_endian_array :: "u8 list \<Rightarrow> u32 \<Rightarrow> u32 \<Rightarrow> u8 list \<Rightarrow> u32 \<Rightarrow> (int \<times> u8 list) option" where
  "int8_t_encode_little_endian_array = int8_t_encode_array"

definition int8_t_decode_little_endian_array :: "u8 list \<Rightarrow> u32 \<Rightarrow> u32 \<Rightarrow> u8 list \<Rightarrow> u32 \<Rightarrow> (int \<times> u8 list) option" where
  "int8_t_decode_little_endian_array = int8_t_decode_array"

definition int8_t_clone_array :: "u8 list \<Rightarrow> u8 list \<Rightarrow> u32 \<Rightarrow> (u32 \<times> u8 list) option" where
  "int8_t_clone_array = clone_array 1"

section \<open>Integers\<close>

definition int16_t_encoded_array_size :: "u32 \<Rightarrow> u32" where
  "int16_t_encoded_array_size elements = 2 * elements"

definition int16_put :: "u16 \<Rightarrow> u8 list" where
  "int16_put v = [ucast (drop_bit 8 v AND 0xff), ucast (v AND 0xff)]"

definition int16_get :: "u8 list \<Rightarrow> u16" where
  "int16_get b = push_bit 8 (ucast (b ! 0)) + ucast (b ! 1)"

definition int16_put_le :: "u16 \<Rightarrow> u8 list" where
  "int16_put_le v = [ucast (v AND 0xff), ucast (drop_bit 8 v AND 0xff)]"

definition int16_get_le :: "u8 list \<Rightarrow> u16" where
  "int16_get_le b = push_bit 8 (ucast (b ! 1)) + ucast (b ! 0)"

definition int16_t_encode_array :: "u8 list \<Rightarrow> u32 \<Rightarrow> u32 \<Rightarrow> u16 list \<Rightarrow> u32 \<Rightarrow> (int \<times> u8 list) option" where
  "int16_t_encode_array buf offset maxlen p elements =
     encode_array int16_put (int16_t_encoded_array_size elements) buf offset maxlen p elements"

definition int16_t_decode_array :: "u8 list \<Rightarrow> u32 \<Rightarrow> u32 \<Rightarrow> u16 list \<Rightarrow> u32 \<Rightarrow> (int \<times> u16 list) option" where
  "int16_t_decode_array buf offset maxlen p elements =
     decode_array int16_get 2 (int16_t_encoded_array_size elements) buf offset maxlen p elements"

definition int16_t_encode_little_endian_array :: "u8 list \<Rightarrow> u32 \<Rightarrow> u32 \<Rightarrow> u16 list \<Rightarrow> u32 \<Rightarrow> (int \<times> u8 list) option" where
  "int16_t_encode_little_endian_array buf offset maxlen p elements =
     encode_array int16_put_le (int16_t_encoded_array_size elements) buf offset maxlen p elements"

definition int16_t_decode_little_endian_array :: "u8 list \<Rightarrow> u32 \<Rightarrow> u32 \<Rightarrow> u16 list \<Rightarrow> u32 \<Rightarrow> (int \<times> u16 list) option" where
  "int16_t_decode_little_endian_array buf offset maxlen p elements =
     decode_array int16_get_le 2 (int16_t_encoded_array_size elements) buf offset maxlen p elements"

definition int16_t_clone_array :: "u16 list \<Rightarrow> u16 list \<Rightarrow> u32 \<Rightarrow> (u32 \<times> u16 list) option" where
  "int16_t_clone_array = clone_array 2"

definition int32_t_encoded_array_size :: "u32 \<Rightarrow> u32" where
  "int32_t_encoded_array_size elements = 4 * elements"

definition int32_put :: "u32 \<Rightarrow> u8 list" where
  "int32_put v = [ucast (drop_bit 24 v AND 0xff), ucast (drop_bit 16 v AND 0xff),
                  ucast (drop_bit 8 v AND 0xff), ucast (v AND 0xff)]"

definition int32_get :: "u8 list \<Rightarrow> u32" where
  "int32_get b = push_bit 24 (ucast (b ! 0)) + push_bit 16 (ucast (b ! 1))
                 + push_bit 8 (ucast (b ! 2)) + ucast (b ! 3)"

definition int32_put_le :: "u32 \<Rightarrow> u8 list" where
  "int32_put_le v = [ucast (v AND 0xff), ucast (drop_bit 8 v AND 0xff),
                     ucast (drop_bit 16 v AND 0xff), ucast (drop_bit 24 v AND 0xff)]"

definition int32_get_le :: "u8 list \<Rightarrow> u32" where
  "int32_get_le b = push_bit 24 (ucast (b ! 3)) + push_bit 16 (ucast (b ! 2))
                    + push_bit 8 (ucast (b ! 1)) + ucast (b ! 0)"

definition int32_t_encode_array :: "u8 list \<Rightarrow> u32 \<Rightarrow> u32 \<Rightarrow> u32 list \<Rightarrow> u32 \<Rightarrow> (int \<times> u8 list) option" where
  "int32_t_encode_array buf offset maxlen p elements =
     encode_array int32_put (int32_t_encoded_array_size elements) buf offset maxlen p elements"

definition int32_t_decode_array :: "u8 list \<Rightarrow> u32 \<Rightarrow> u32 \<Rightarrow> u32 list \<Rightarrow> u32 \<Rightarrow> (int \<times> u32 list) option" where
  "int32_t_decode_array buf offset maxlen p elements =
     decode_array int32_get 4 (int32_t_encoded_array_size elements) buf offset maxlen p elements"

definition int32_t_encode_little_endian_array :: "u8 list \<Rightarrow> u32 \<Rightarrow> u32 \<Rightarrow> u32 list \<Rightarrow> u32 \<Rightarrow> (int \<times> u8 list) option" where
  "int32_t_encode_little_endian_array buf offset maxlen p elements =
     encode_array int32_put_le (int32_t_encoded_array_size elements) buf offset maxlen p elements"

definition int32_t_decode_little_endian_array :: "u8 list \<Rightarrow> u32 \<Rightarrow> u32 \<Rightarrow> u32 list \<Rightarrow> u32 \<Rightarrow> (int \<times> u32 list) option" where
  "int32_t_decode_little_endian_array buf offset maxlen p elements =
     decode_array int32_get_le 4 (int32_t_encoded_array_size elements) buf offset maxlen p elements"

definition int32_t_clone_array :: "u32 list \<Rightarrow> u32 list \<Rightarrow> u32 \<Rightarrow> (u32 \<times> u32 list) option" where
  "int32_t_clone_array = clone_array 4"

definition int64_t_encoded_array_size :: "u32 \<Rightarrow> u32" where
  "int64_t_encoded_array_size elements = 8 * elements"

definition int64_put :: "u64 \<Rightarrow> u8 list" where
  "int64_put v = [ucast (drop_bit 56 v AND 0xff), ucast (drop_bit 48 v AND 0xff),
                  ucast (drop_bit 40 v AND 0xff), ucast (drop_bit 32 v AND 0xff),
                  ucast (drop_bit 24 v AND 0xff), ucast (drop_bit 16 v AND 0xff),
                  ucast (drop_bit 8 v AND 0xff), ucast (v AND 0xff)]"

definition int64_get :: "u8 list \<Rightarrow> u64" where
  "int64_get b =
     (let a = ucast (push_bit 24 (ucast (b ! 0)) + push_bit 16 (ucast (b ! 1))
                     + push_bit 8 (ucast (b ! 2)) + ucast (b ! 3) :: u32);
          c = ucast (push_bit 24 (ucast (b ! 4)) + push_bit 16 (ucast (b ! 5))
                     + push_bit 8 (ucast (b ! 6)) + ucast (b ! 7) :: u32)
      in push_bit 32 a + (c AND 0xffffffff))"

definition int64_put_le :: "u64 \<Rightarrow> u8 list" where
  "int64_put_le v = [ucast (v AND 0xff), ucast (drop_bit 8 v AND 0xff),
                     ucast (drop_bit 16 v AND 0xff), ucast (drop_bit 24 v AND 0xff),
                     ucast (drop_bit 32 v AND 0xff), ucast (drop_bit 40 v AND 0xff),
                     ucast (drop_bit 48 v AND 0xff), ucast (drop_bit 56 v AND 0xff)]"

definition int64_get_le :: "u8 list \<Rightarrow> u64" where
  "int64_get_le b =
     (let c = ucast (push_bit 24 (ucast (b ! 3)) + push_bit 16 (ucast (b ! 2))
                     + push_bit 8 (ucast (b ! 1)) + ucast (b ! 0) :: u32);
          a = ucast (push_bit 24 (ucast (b ! 7)) + push_bit 16 (ucast (b ! 6))
                     + push_bit 8 (ucast (b ! 5)) + ucast (b ! 4) :: u32)
      in push_bit 32 a + (c AND 0xffffffff))"

definition int64_t_encode_array :: "u8 list \<Rightarrow> u32 \<Rightarrow> u32 \<Rightarrow> u64 list \<Rightarrow> u32 \<Rightarrow> (int \<times> u8 list) option" where
  "int64_t_encode_array buf offset maxlen p elements =
     encode_array int64_put (int64_t_encoded_array_size elements) buf offset maxlen p elements"

definition int64_t_decode_array :: "u8 list \<Rightarrow> u32 \<Rightarrow> u32 \<Rightarrow> u64 list \<Rightarrow> u32 \<Rightarrow> (int \<times> u64 list) option" where
  "int64_t_decode_array buf offset maxlen p elements =
     decode_array int64_get 8 (int64_t_encoded_array_size elements) buf offset maxlen p elements"

definition int64_t_encode_little_endian_array :: "u8 list \<Rightarrow> u32 \<Rightarrow> u32 \<Rightarrow> u64 list \<Rightarrow> u32 \<Rightarrow> (int \<times> u8 list) option" where
  "int64_t_encode_little_endian_array buf offset maxlen p elements =
     encode_array int64_put_le (int64_t_encoded_array_size elements) buf offset maxlen p elements"

definition int64_t_decode_little_endian_array :: "u8 list \<Rightarrow> u32 \<Rightarrow> u32 \<Rightarrow> u64 list \<Rightarrow> u32 \<Rightarrow> (int \<times> u64 list) option" where
  "int64_t_decode_little_endian_array buf offset maxlen p elements =
     decode_array int64_get_le 8 (int64_t_encoded_array_size elements) buf offset maxlen p elements"

definition int64_t_clone_array :: "u64 list \<Rightarrow> u64 list \<Rightarrow> u32 \<Rightarrow> (u32 \<times> u64 list) option" where
  "int64_t_clone_array = clone_array 8"

section \<open>Floating point numbers\<close>

definition float_encoded_array_size :: "u32 \<Rightarrow> u32" where
  "float_encoded_array_size elements = 4 * elements"

definition float_get :: "u8 list \<Rightarrow> u32" where
  "float_get b = push_bit 24 (ucast (b ! 0)) OR push_bit 16 (ucast (b ! 1))
                 OR push_bit 8 (ucast (b ! 2)) OR ucast (b ! 3)"

definition float_get_le :: "u8 list \<Rightarrow> u32" where
  "float_get_le b = push_bit 24 (ucast (b ! 3)) OR push_bit 16 (ucast (b ! 2))
                    OR push_bit 8 (ucast (b ! 1)) OR ucast (b ! 0)"

definition float_encode_array :: "u8 list \<Rightarrow> u32 \<Rightarrow> u32 \<Rightarrow> u32 list \<Rightarrow> u32 \<Rightarrow> (int \<times> u8 list) option" where
  "float_encode_array buf offset maxlen p elements =
     encode_array int32_put (float_encoded_array_size elements) buf offset maxlen p elements"

definition float_decode_array :: "u8 list \<Rightarrow> u32 \<Rightarrow> u32 \<Rightarrow> u32 list \<Rightarrow> u32 \<Rightarrow> (int \<times> u32 list) option" where
  "float_decode_array buf offset maxlen p elements =
     decode_array float_get 4 (float_encoded_array_size elements) buf offset maxlen p elements"

definition float_encode_little_endian_array :: "u8 list \<Rightarrow> u32 \<Rightarrow> u32 \<Rightarrow> u32 list \<Rightarrow> u32 \<Rightarrow> (int \<times> u8 list) option" where
  "float_encode_little_endian_array buf offset maxlen p elements =
     encode_array int32_put_le (float_encoded_array_size elements) buf offset maxlen p elements"

definition float_decode_little_endian_array :: "u8 list \<Rightarrow> u32 \<Rightarrow> u32 \<Rightarrow> u32 list \<Rightarrow> u32 \<Rightarrow> (int \<times> u32 list) option" where
  "float_decode_little_endian_array buf offset maxlen p elements =
     decode_array float_get_le 4 (float_encoded_array_size elements) buf offset maxlen p elements"

definition float_clone_array :: "u32 list \<Rightarrow> u32 list \<Rightarrow> u32 \<Rightarrow> (u32 \<times> u32 list) option" where
  "float_clone_array = clone_array 4"

definition double_encoded_array_size :: "u32 \<Rightarrow> u32" where
  "double_encoded_array_size elements = 8 * elements"

definition double_encode_array :: "u8 list \<Rightarrow> u32 \<Rightarrow> u32 \<Rightarrow> u64 list \<Rightarrow> u32 \<Rightarrow> (int \<times> u8 list) option" where
  "double_encode_array buf offset maxlen p elements =
     encode_array int64_put (double_encoded_array_size elements) buf offset maxlen p elements"

definition double_decode_array :: "u8 list \<Rightarrow> u32 \<Rightarrow> u32 \<Rightarrow> u64 list \<Rightarrow> u32 \<Rightarrow> (int \<times> u64 list) option" where
  "double_decode_array buf offset maxlen p elements =
     decode_array int64_get 8 (double_encoded_array_size elements) buf offset maxlen p elements"

definition double_encode_little_endian_array :: "u8 list \<Rightarrow> u32 \<Rightarrow> u32 \<Rightarrow> u64 list \<Rightarrow> u32 \<Rightarrow> (int \<times> u8 list) option" where
  "double_encode_little_endian_array buf offset maxlen p elements =
     encode_array int64_put_le (double_encoded_array_size elements) buf offset maxlen p elements"

definition double_decode_little_endian_array :: "u8 list \<Rightarrow> u32 \<Rightarrow> u32 \<Rightarrow> u64 list \<Rightarrow> u32 \<Rightarrow> (int \<times> u64 list) option" where
  "double_decode_little_endian_array buf offset maxlen p elements =
     decode_array int64_get_le 8 (double_encoded_array_size elements) buf offset maxlen p elements"

definition double_clone_array :: "u64 list \<Rightarrow> u64 list \<Rightarrow> u32 \<Rightarrow> (u32 \<times> u64 list) option" where
  "double_clone_array = clone_array 8"

section \<open>Strings\<close>

text \<open>
  A string argument is the list of its bytes before the terminator; the block it lives in has the
  terminator behind them. A decoded string is a block of its own, \<open>None\<close> for the null pointer.
\<close>

definition zcm_malloc :: "(nat \<Rightarrow> u8 list option) \<Rightarrow> u32 \<Rightarrow> u8 list option" where
  "zcm_malloc malloc sz = (if sz \<noteq> 0 then malloc (unat sz) else None)"

fun string_size_loop :: "u8 list list \<Rightarrow> nat \<Rightarrow> nat \<Rightarrow> u32 \<Rightarrow> u32 option" where
  "string_size_loop s element 0 sz = Some sz"
| "string_size_loop s element (Suc k) sz =
     do {
       str \<leftarrow> mem_get s element;
       string_size_loop s (Suc element) k (sz + (4 + of_nat (length str) + 1))
     }"

definition string_encoded_array_size :: "u8 list list \<Rightarrow> u32 \<Rightarrow> u32 option" where
  "string_encoded_array_size s elements = string_size_loop s 0 (unat elements) 0"

type_synonym 'a array_codec = "u8 list \<Rightarrow> u32 \<Rightarrow> u32 \<Rightarrow> 'a list \<Rightarrow> u32 \<Rightarrow> (int \<times> u8 list) option"

fun string_encode_loop ::
    "u32 array_codec \<Rightarrow> u8 array_codec \<Rightarrow> u32 \<Rightarrow> u32 \<Rightarrow> u8 list list \<Rightarrow> nat \<Rightarrow> nat \<Rightarrow> u8 list \<Rightarrow> u32 \<Rightarrow>
       (int \<times> u8 list) option" where
  "string_encode_loop enc32 enc8 offset maxlen p element 0 buf pos = Some (sint pos, buf)"
| "string_encode_loop enc32 enc8 offset maxlen p element (Suc k) buf pos =
     do {
       s \<leftarrow> mem_get p element;
       let len = of_nat (length s + 1);
       (thislen, buf) \<leftarrow> enc32 buf (offset + pos) (maxlen - pos) [len] 1;
       if thislen < 0 then Some (thislen, buf)
       else do {
         let pos = pos + of_int thislen;
         (thislen, buf) \<leftarrow> enc8 buf (offset + pos) (maxlen - pos) (s @ [0]) len;
         if thislen < 0 then Some (thislen, buf)
         else string_encode_loop enc32 enc8 offset maxlen p (Suc element) k buf (pos + of_int thislen)
       }
     }"

definition string_encode_array :: "u8 list array_codec" where
  "string_encode_array buf offset maxlen p elements =
     string_encode_loop int32_t_encode_array int8_t_encode_array offset maxlen p 0 (unat elements) buf 0"

definition string_encode_little_endian_array :: "u8 list array_codec" where
  "string_encode_little_endian_array buf offset maxlen p elements =
     string_encode_loop int32_t_encode_little_endian_array int8_t_encode_little_endian_array
       offset maxlen p 0 (unat elements) buf 0"

text \<open>
  The block that \<^verbatim>\<open>p[element]\<close> points to; reading into a null pointer is a fault unless nothing is read.
\<close>

definition deref :: "u8 list option \<Rightarrow> u8 list" where
  "deref blk = (case blk of None \<Rightarrow> [] | Some b \<Rightarrow> b)"

fun string_decode_loop ::
    "(u8 list \<Rightarrow> u32 \<Rightarrow> u32 \<Rightarrow> u32 list \<Rightarrow> u32 \<Rightarrow> (int \<times> u32 list) option) \<Rightarrow> u8 array_codec \<Rightarrow>
     (nat \<Rightarrow> u8 list option) \<Rightarrow> u8 list \<Rightarrow> u32 \<Rightarrow> u32 \<Rightarrow> nat \<Rightarrow> nat \<Rightarrow> u8 list option list \<Rightarrow> u32 \<Rightarrow>
       (int \<times> u8 list option list) option" where
  "string_decode_loop dec32 dec8 malloc buf offset maxlen element 0 p pos = Some (sint pos, p)"
| "string_decode_loop dec32 dec8 malloc buf offset maxlen element (Suc k) p pos =
     do {
       (thislen, lenv) \<leftarrow> dec32 buf (offset + pos) (maxlen - pos) [0] 1;
       if thislen < 0 then Some (thislen, p)
       else do {
         let pos = pos + of_int thislen;
         len \<leftarrow> mem_get lenv 0;
         let blk = zcm_malloc malloc len;
         p \<leftarrow> mem_put p element blk;
         (thislen, blk') \<leftarrow> dec8 buf (offset + pos) (maxlen - pos) (deref blk) len;
         p \<leftarrow> mem_put p element (map_option (\<lambda>_. blk') blk);
         if thislen < 0 then Some (thislen, p)
         else string_decode_loop dec32 dec8 malloc buf offset maxlen (Suc element) k p (pos + of_int thislen)
       }
     }"

definition string_decode_array ::
    "(nat \<Rightarrow> u8 list option) \<Rightarrow> u8 list \<Rightarrow> u32 \<Rightarrow> u32 \<Rightarrow> u8 list option list \<Rightarrow> u32 \<Rightarrow> (int \<times> u8 list option list) option" where
  "string_decode_array malloc buf offset maxlen p elements =
     string_decode_loop int32_t_decode_array int8_t_decode_array malloc buf offset maxlen 0 (unat elements) p 0"

definition string_decode_little_endian_array ::
    "(nat \<Rightarrow> u8 list option) \<Rightarrow> u8 list \<Rightarrow> u32 \<Rightarrow> u32 \<Rightarrow> u8 list option list \<Rightarrow> u32 \<Rightarrow> (int \<times> u8 list option list) option" where
  "string_decode_little_endian_array malloc buf offset maxlen p elements =
     string_decode_loop int32_t_decode_little_endian_array int8_t_decode_little_endian_array
       malloc buf offset maxlen 0 (unat elements) p 0"

text \<open>\<^verbatim>\<open>free(s[element])\<close> for every element: afterwards the pointers are dangling, here absent.\<close>

definition string_decode_array_cleanup :: "u8 list option list \<Rightarrow> u32 \<Rightarrow> u8 list option list option" where
  "string_decode_array_cleanup s elements =
     (if unat elements \<le> length s then Some (replicate (unat elements) None @ drop (unat elements) s) else None)"

fun string_clone_loop ::
    "(nat \<Rightarrow> u8 list option) \<Rightarrow> u8 list list \<Rightarrow> nat \<Rightarrow> nat \<Rightarrow> u8 list option list \<Rightarrow> u32 \<Rightarrow> (u32 \<times> u8 list option list) option" where
  "string_clone_loop malloc p element 0 q ret = Some (ret, q)"
| "string_clone_loop malloc p element (Suc k) q ret =
     do {
       s \<leftarrow> mem_get p element;
       let len = of_nat (length s + 1);
       let blk = zcm_malloc malloc len;
       xs \<leftarrow> mem_slice (s @ [0]) 0 (unat len);
       blk' \<leftarrow> mem_blit (deref blk) 0 xs;
       q \<leftarrow> mem_put q element (map_option (\<lambda>_. blk') blk);
       string_clone_loop malloc p (Suc element) k q (ret + len)
     }"

definition string_clone_array ::
    "(nat \<Rightarrow> u8 list option) \<Rightarrow> u8 list list \<Rightarrow> u8 list option list \<Rightarrow> u32 \<Rightarrow> (u32 \<times> u8 list option list) option" where
  "string_clone_array malloc p q elements = string_clone_loop malloc p 0 (unat elements) q 0"

section \<open>Codecs\<close>

text \<open>
  The contract of an element codec: a fixed number of bytes per element, and decoding and encoding
  are inverse to each other. Everything about arrays is proved once from it.
\<close>

locale codec =
  fixes enc :: "'a \<Rightarrow> u8 list" and dec :: "u8 list \<Rightarrow> 'a" and w :: nat
  assumes width: "length (enc v) = w" and w_pos: "0 < w" and w_small: "w < 2 ^ 32"
    and dec_enc: "dec (enc v) = v"
    and enc_dec: "length bs = w \<Longrightarrow> enc (dec bs) = bs"
begin

lemma length_concat_enc [simp]: "length (concat (map enc vs)) = length vs * w"
  by (induction vs) (simp_all add: width)

end

lemma put_seq_ok:
  assumes "unat pos + length bs \<le> length buf" "length buf < 2 ^ 32"
  shows "put_seq buf pos bs = Some (take (unat pos) buf @ bs @ drop (unat pos + length bs) buf, pos + of_nat (length bs))"
  using assms
proof (induction bs arbitrary: buf pos)
  case (Cons b bs)
  have u: "unat (pos + 1) = unat pos + 1" using Cons.prems by (subst unat_word_ariths(1)) simp
  have "put_seq (buf[unat pos := b]) (pos + 1) bs =
      Some (take (unat pos + 1) (buf[unat pos := b]) @ bs @ drop (unat pos + 1 + length bs) (buf[unat pos := b]),
            pos + 1 + of_nat (length bs))"
    using Cons.IH[of "pos + 1" "buf[unat pos := b]"] Cons.prems u by simp
  moreover have "take (unat pos + 1) (buf[unat pos := b]) = take (unat pos) buf @ [b]"
    using Cons.prems by (simp add: take_Suc_conv_app_nth)
  ultimately show ?case using Cons.prems by (simp add: mem_put_def algebra_simps)
qed simp

lemma get_seq_ok:
  assumes "unat pos + n \<le> length buf" "length buf < 2 ^ 32"
  shows "get_seq buf pos n = Some (take n (drop (unat pos) buf))"
  using assms
proof (induction n arbitrary: pos)
  case (Suc n)
  have u: "unat (pos + 1) = unat pos + 1" using Suc.prems by (subst unat_word_ariths(1)) simp
  have "get_seq buf (pos + 1) n = Some (take n (drop (unat pos + 1) buf))"
    using Suc.IH[of "pos + 1"] Suc.prems u by simp
  then show ?case using Suc.prems by (simp add: mem_get_def take_Suc_conv_app_nth flip: Cons_nth_drop_Suc)
qed simp

text \<open>The buffer with a block of it overwritten.\<close>

abbreviation overwrite :: "'a list \<Rightarrow> nat \<Rightarrow> 'a list \<Rightarrow> 'a list" where
  "overwrite m i xs \<equiv> take i m @ xs @ drop (i + length xs) m"

lemma overwrite_append:
  assumes "i + length xs + length ys \<le> length m"
  shows "overwrite (overwrite m i xs) (i + length xs) ys = overwrite m i (xs @ ys)"
  using assms by (simp add: ac_simps)

lemma overwrite_update:
  assumes "i < length m" "Suc i + length xs \<le> length m"
  shows "overwrite (m[i := x]) (Suc i) xs = overwrite m i (x # xs)"
  using assms by (simp add: take_Suc_conv_app_nth)

lemma unat_add_of_nat: "unat pos + n < 2 ^ 32 \<Longrightarrow> unat (pos + of_nat n :: u32) = unat pos + n"
  by (subst unat_word_ariths(1)) (simp add: unat_of_nat)

text \<open>The \<open>k\<close> values that lie in a buffer from position \<open>i\<close> on.\<close>

definition read_values :: "(u8 list \<Rightarrow> 'a) \<Rightarrow> nat \<Rightarrow> u8 list \<Rightarrow> nat \<Rightarrow> nat \<Rightarrow> 'a list" where
  "read_values dec w buf i k = map (\<lambda>j. dec (take w (drop (i + j * w) buf))) [0..<k]"

lemma length_read_values [simp]: "length (read_values dec w buf i k) = k"
  by (simp add: read_values_def)

lemma read_values_Suc: "read_values dec w buf i (Suc k) = dec (take w (drop i buf)) # read_values dec w buf (i + w) k"
  by (simp add: read_values_def upt_conv_Cons map_Suc_upt[symmetric] comp_def algebra_simps del: upt_Suc)

context codec
begin

lemma encode_loop_ok:
  assumes "element + k \<le> length p" "unat pos + k * w \<le> length buf" "length buf < 2 ^ 32"
  shows "encode_loop enc p element k buf pos
    = Some (overwrite buf (unat pos) (concat (map enc (take k (drop element p)))))"
  using assms
proof (induction k arbitrary: element buf pos)
  case (Suc k)
  let ?v = "p ! element" and ?buf = "overwrite buf (unat pos) (enc (p ! element))"
  have v: "mem_get p element = Some ?v" using Suc.prems by (simp add: mem_get_def)
  have put: "put_seq buf pos (enc ?v) = Some (?buf, pos + of_nat w)"
    using put_seq_ok[of pos "enc ?v" buf] Suc.prems by (simp add: width)
  have k: "unat pos + w < 2 ^ 32" using Suc.prems by (auto intro: le_less_trans[of _ "length buf"])
  have up: "unat (pos + of_nat w) = unat pos + w"  by (rule unat_add_of_nat[OF k])
  have "encode_loop enc p (Suc element) k ?buf (pos + of_nat w)
      = Some (overwrite ?buf (unat pos + w) (concat (map enc (take k (drop (Suc element) p)))))"
    using Suc.IH[of "Suc element" "pos + of_nat w" ?buf] Suc.prems by (simp add: up width)
  moreover have "overwrite ?buf (unat pos + w) (concat (map enc (take k (drop (Suc element) p))))
      = overwrite buf (unat pos) (concat (map enc (take (Suc k) (drop element p))))"
    using overwrite_append[of "unat pos" "enc ?v" "concat (map enc (take k (drop (Suc element) p)))" buf] Suc.prems
    by (simp add: width flip: Cons_nth_drop_Suc)
  ultimately show ?case by (simp add: v put)
qed simp

lemma decode_loop_ok:
  assumes "element + k \<le> length p" "unat pos + k * w \<le> length buf" "length buf < 2 ^ 32"
  shows "decode_loop dec w buf element k p pos = Some (overwrite p element (read_values dec w buf (unat pos) k))"
  using assms
proof (induction k arbitrary: element p pos)
  case 0
  then show ?case by (simp add: read_values_def)
next
  case (Suc k)
  let ?v = "dec (take w (drop (unat pos) buf))"
  have k: "unat pos + w < 2 ^ 32" using Suc.prems by (auto intro: le_less_trans[of _ "length buf"])
  have up: "unat (pos + of_nat w) = unat pos + w"  by (rule unat_add_of_nat[OF k])
  have "get_seq buf pos w = Some (take w (drop (unat pos) buf))" using get_seq_ok Suc.prems by simp
  moreover have "decode_loop dec w buf (Suc element) k (p[element := ?v]) (pos + of_nat w)
      = Some (overwrite (p[element := ?v]) (Suc element) (read_values dec w buf (unat pos + w) k))"
    using Suc.IH[of "Suc element" "p[element := ?v]" "pos + of_nat w"] Suc.prems by (simp add: up)
  ultimately show ?case
    using Suc.prems overwrite_update[of element p "read_values dec w buf (unat pos + w) k" ?v]
    by (simp add: mem_put_def read_values_Suc)
qed

text \<open>Decoding what was encoded, and encoding what was decoded.\<close>

lemma read_values_written:
  "read_values dec w (xs @ concat (map enc vs) @ ys) (length xs) (length vs) = vs"
proof (induction vs arbitrary: xs)
  case Nil
  show ?case by (simp add: read_values_def)
next
  case (Cons v vs)
  from Cons.IH[of "xs @ enc v"] show ?case by (simp add: read_values_Suc width dec_enc)
qed

lemma written_read_values:
  "i + k * w \<le> length buf \<Longrightarrow> concat (map enc (read_values dec w buf i k)) = take (k * w) (drop i buf)"
proof (induction k arbitrary: i)
  case 0
  show ?case by (simp add: read_values_def)
next
  case (Suc k)
  have "enc (dec (take w (drop i buf))) = take w (drop i buf)" using Suc.prems by (intro enc_dec) simp
  moreover have "take w (drop i buf) @ take (k * w) (drop (i + w) buf) = take (w + k * w) (drop i buf)"
    by (simp add: take_add add.commute)
  ultimately show ?case using Suc.IH[of "i + w"] Suc.prems by (simp add: read_values_Suc)
qed

lemma total_size:
  assumes "unat elements * w < 2 ^ 32"
  shows "unat (of_nat w * elements :: u32) = unat elements * w"
  using assms w_small by (subst unat_word_ariths(2)) (simp add: unat_of_nat mult.commute)

lemma encode_array_ok:
  assumes "unat elements \<le> length p" "unat offset + unat elements * w \<le> length buf" "length buf < 2 ^ 32"
    and sz: "tot = of_nat w * elements" and fits: "unat elements * w \<le> unat maxlen"
  shows "encode_array enc tot buf offset maxlen p elements =
    Some (sint tot, overwrite buf (unat offset) (concat (map enc (take (unat elements) p))))"
proof -
  have "unat tot = unat elements * w" unfolding sz by (rule total_size) (use assms in linarith)
  then have "\<not> maxlen < tot" using fits by (simp add: word_less_nat_alt)
  with encode_loop_ok[of 0 "unat elements" p offset buf] assms show ?thesis by (simp add: encode_array_def)
qed

lemma decode_array_ok:
  assumes "unat elements \<le> length p" "unat offset + unat elements * w \<le> length buf" "length buf < 2 ^ 32"
    and sz: "tot = of_nat w * elements" and fits: "unat elements * w \<le> unat maxlen"
  shows "decode_array dec w tot buf offset maxlen p elements =
    Some (sint tot, overwrite p 0 (read_values dec w buf (unat offset) (unat elements)))"
proof -
  have "unat tot = unat elements * w" unfolding sz by (rule total_size) (use assms in linarith)
  then have "\<not> maxlen < tot" using fits by (simp add: word_less_nat_alt)
  with decode_loop_ok[of 0 "unat elements" p offset buf] assms show ?thesis by (simp add: decode_array_def)
qed

lemma array_roundtrip:
  assumes "length p = unat elements" "length q = unat elements"
    "unat offset + unat elements * w \<le> length buf" "length buf < 2 ^ 32"
    "tot = of_nat w * elements" "unat elements * w \<le> unat maxlen"
  shows "\<exists>buf'. encode_array enc tot buf offset maxlen p elements = Some (sint tot, buf')
    \<and> length buf' = length buf
    \<and> take (unat offset) buf' = take (unat offset) buf
    \<and> drop (unat offset + unat elements * w) buf' = drop (unat offset + unat elements * w) buf
    \<and> decode_array dec w tot buf' offset maxlen q elements = Some (sint tot, p)"
proof -
  let ?buf = "overwrite buf (unat offset) (concat (map enc p))"
  have e: "encode_array enc tot buf offset maxlen p elements = Some (sint tot, ?buf)"
    using encode_array_ok[of elements p offset buf tot maxlen] assms by simp
  have off: "unat offset \<le> length buf" using assms by linarith
  then have lb: "length ?buf = length buf" "length (take (unat offset) buf) = unat offset" using assms by simp_all
  have rv: "read_values dec w ?buf (unat offset) (unat elements) = p"
    using read_values_written[of "take (unat offset) buf" p "drop (unat offset + length p * w) buf"] assms(1) lb(2)
    by simp
  have "decode_array dec w tot ?buf offset maxlen q elements
      = Some (sint tot, overwrite q 0 (read_values dec w ?buf (unat offset) (unat elements)))"
    by (rule decode_array_ok) (use assms lb in simp_all)
  then have "decode_array dec w tot ?buf offset maxlen q elements = Some (sint tot, p)"
    unfolding rv using assms by simp
  with e assms show ?thesis by (intro exI[of _ ?buf]) simp
qed

end

section \<open>The codecs of the core types\<close>

lemma length2: "length bs = 2 \<longleftrightarrow> (\<exists>a b. bs = [a, b])"
  by (auto simp: numeral_eq_Suc length_Suc_conv)

lemma length4: "length bs = 4 \<longleftrightarrow> (\<exists>a b c d. bs = [a, b, c, d])"
  by (auto simp: numeral_eq_Suc length_Suc_conv)

lemma int16_get_be: "int16_get [a, b] = be16 a b" "int16_get_le [b, a] = be16 a b"
  by (simp_all add: int16_get_def int16_get_le_def be16_sum)

lemma int32_get_be: "int32_get [a, b, c, d] = be32 a b c d" "int32_get_le [d, c, b, a] = be32 a b c d"
  by (simp_all add: int32_get_def int32_get_le_def be32_sum)

lemma float_get_be: "float_get [a, b, c, d] = be32 a b c d" "float_get_le [d, c, b, a] = be32 a b c d"
  by (simp_all add: float_get_def float_get_le_def be32_def)

interpretation int16_be: codec int16_put int16_get 2
  by unfold_locales (auto simp: int16_put_def ucast_and_ff int16_get_be be16_bytes be16_byte length2)

interpretation int16_le: codec int16_put_le int16_get_le 2
  by unfold_locales (auto simp: int16_put_le_def ucast_and_ff int16_get_be be16_bytes be16_byte length2)

interpretation int32_be: codec int32_put int32_get 4
  by unfold_locales (auto simp: int32_put_def ucast_and_ff int32_get_be be32_bytes be32_byte length4)

interpretation int32_le: codec int32_put_le int32_get_le 4
  by unfold_locales (auto simp: int32_put_le_def ucast_and_ff int32_get_be be32_bytes be32_byte length4)

interpretation float_be: codec int32_put float_get 4
  by unfold_locales (auto simp: int32_put_def ucast_and_ff float_get_be be32_bytes be32_byte length4)

interpretation float_le: codec int32_put_le float_get_le 4
  by unfold_locales (auto simp: int32_put_le_def ucast_and_ff float_get_be be32_bytes be32_byte length4)

text \<open>The 64-bit codecs are two 32-bit ones.\<close>

lemma int64_put_split: "int64_put v = int32_put (ucast (drop_bit 32 v)) @ int32_put (ucast v)"
  "int64_put_le v = int32_put_le (ucast v) @ int32_put_le (ucast (drop_bit 32 v))"
  by (auto simp: int64_put_def int32_put_def int64_put_le_def int32_put_le_def ucast_and_ff bit_eq_iff bit_simps)

lemma int64_get_split:
  assumes "length xs = 4" "length ys = 4"
  shows "int64_get (xs @ ys) = be64 (int32_get xs) (int32_get ys)"
    "int64_get_le (xs @ ys) = be64 (int32_get_le ys) (int32_get_le xs)"
proof -
  from assms obtain a b c d e f g h where xs: "xs = [a, b, c, d]" and ys: "ys = [e, f, g, h]"
    by (auto simp: length4)
  show "int64_get (xs @ ys) = be64 (int32_get xs) (int32_get ys)"
    "int64_get_le (xs @ ys) = be64 (int32_get_le ys) (int32_get_le xs)"
    unfolding int64_get_def int64_get_le_def int32_get_def int32_get_le_def xs ys Let_def be64_sum
    by simp_all
qed

lemma length8_split: "length bs = 8 \<Longrightarrow> \<exists>xs ys. bs = xs @ ys \<and> length xs = 4 \<and> length ys = 4"
  by (intro exI[of _ "take 4 bs"] exI[of _ "drop 4 bs"]) simp

interpretation int64_be: codec int64_put int64_get 8
proof (unfold_locales, goal_cases)
  case (4 v)
  then show ?case by (simp add: int64_put_split int64_get_split int32_be.width int32_be.dec_enc be64_words)
next
  case (5 bs)
  from length8_split[OF this] obtain xs ys where "bs = xs @ ys" "length xs = 4" "length ys = 4" by blast
  then show ?case by (simp add: int64_put_split int64_get_split be64_word int32_be.enc_dec)
qed (simp_all add: int64_put_def)

interpretation int64_le: codec int64_put_le int64_get_le 8
proof (unfold_locales, goal_cases)
  case (4 v)
  then show ?case by (simp add: int64_put_split int64_get_split int32_le.width int32_le.dec_enc be64_words)
next
  case (5 bs)
  from length8_split[OF this] obtain xs ys where "bs = xs @ ys" "length xs = 4" "length ys = 4" by blast
  then show ?case by (simp add: int64_put_split int64_get_split be64_word int32_le.enc_dec)
qed (simp_all add: int64_put_le_def)

section \<open>Strings on the bus\<close>

lemma int8_encode_ok:
  assumes "n \<le> length p" "unat offset + n \<le> length buf" "n \<le> unat maxlen" "n < 2 ^ 31"
  shows "int8_t_encode_array buf offset maxlen p (of_nat n) = Some (int n, overwrite buf (unat offset) (take n p))"
  using assms
  by (simp add: int8_t_encode_array_def int8_t_encoded_array_size_def word_less_nat_alt unat_of_nat_small
      sint_of_nat_small mem_slice_def mem_blit_def min_def)

lemma int8_decode_ok:
  assumes "n \<le> length p" "unat offset + n \<le> length buf" "n \<le> unat maxlen" "n < 2 ^ 31"
  shows "int8_t_decode_array buf offset maxlen p (of_nat n)
    = Some (int n, overwrite p 0 (take n (drop (unat offset) buf)))"
  using assms
  by (simp add: int8_t_decode_array_def int8_t_encoded_array_size_def word_less_nat_alt unat_of_nat_small
      sint_of_nat_small mem_slice_def mem_blit_def min_def)

text \<open>The string functions of both byte orders, over the codec of the length.\<close>

locale string_codec = codec put get 4
  for put :: "u32 \<Rightarrow> u8 list" and get :: "u8 list \<Rightarrow> u32" +
  fixes enc32 :: "u32 array_codec"
    and dec32 :: "u8 list \<Rightarrow> u32 \<Rightarrow> u32 \<Rightarrow> u32 list \<Rightarrow> u32 \<Rightarrow> (int \<times> u32 list) option"
  assumes enc32_eq: "enc32 buf offset maxlen p elements = encode_array put (4 * elements) buf offset maxlen p elements"
    and dec32_eq: "dec32 buf offset maxlen p elements = decode_array get 4 (4 * elements) buf offset maxlen p elements"
begin

definition string_bytes :: "u8 list \<Rightarrow> u8 list" where
  "string_bytes s = put (of_nat (length s + 1)) @ s @ [0]"

lemma length_string_bytes [simp]: "length (string_bytes s) = length s + 5"
  by (simp add: string_bytes_def width)

lemma enc32_one:
  assumes "unat offset + 4 \<le> length buf" "length buf < 2 ^ 32" "4 \<le> unat maxlen"
  shows "enc32 buf offset maxlen [v] 1 = Some (4, overwrite buf (unat offset) (put v))"
  using encode_array_ok[of 1 "[v]" offset buf 4 maxlen] assms by (simp add: enc32_eq sint_small)

lemma dec32_one:
  assumes "unat offset + 4 \<le> length buf" "length buf < 2 ^ 32" "4 \<le> unat maxlen"
  shows "dec32 buf offset maxlen [v0] 1 = Some (4, [get (take 4 (drop (unat offset) buf))])"
  using decode_array_ok[of 1 "[v0]" offset buf 4 maxlen] assms
  by (simp add: dec32_eq sint_small read_values_def)

lemma unat_off:
  assumes "unat offset + n < 2 ^ 31"
  shows "unat (offset + of_nat n :: u32) = unat offset + n" "unat (of_nat n :: u32) = n"
  using assms by (auto simp: unat_of_nat intro: unat_add_of_nat)

lemma unat_room: "n \<le> unat maxlen \<Longrightarrow> unat (maxlen - of_nat n :: u32) = unat maxlen - n"
proof -
  assume n: "n \<le> unat maxlen"
  then have "unat (of_nat n :: u32) = n"
    using unsigned_less[of maxlen, where 'a=nat] by (simp add: unat_of_nat)
  with n show ?thesis by (subst unat_sub) (simp_all add: word_le_nat_alt)
qed

lemma string_encode_loop_ok:
  assumes "element + k = length p" "unat offset + n + length (concat (map string_bytes (drop element p))) \<le> length buf"
    "length buf < 2 ^ 31" "n + length (concat (map string_bytes (drop element p))) \<le> unat maxlen"
  shows "string_encode_loop enc32 int8_t_encode_array offset maxlen p element k buf (of_nat n) =
    Some (int (n + length (concat (map string_bytes (drop element p)))),
          overwrite buf (unat offset + n) (concat (map string_bytes (drop element p))))"
  using assms
proof (induction k arbitrary: element n buf)
  case 0
  then show ?case by (simp add: sint_of_nat_small)
next
  case (Suc k)
  define s where "s = p ! element"
  define rest where "rest = concat (map string_bytes (drop (Suc element) p))"
  define len where "len = length s + 1"
  have get: "mem_get p element = Some s" using Suc.prems by (simp add: mem_get_def s_def)
  have all: "concat (map string_bytes (drop element p)) = string_bytes s @ rest"
    using Suc.prems by (simp add: s_def rest_def flip: Cons_nth_drop_Suc)
  have b: "unat offset + n + (len + 4 + length rest) \<le> length buf" "n + (len + 4 + length rest) \<le> unat maxlen"
    "length buf < 2 ^ 31" using Suc.prems by (simp_all add: all len_def)
  define buf1 where "buf1 = overwrite buf (unat offset + n) (put (of_nat len))"
  define buf2 where "buf2 = overwrite buf1 (unat offset + (n + 4)) (s @ [0])"
  have l1: "length buf1 = length buf" "length buf2 = length buf" using b by (simp_all add: buf1_def buf2_def width len_def)
  have o1: "unat (offset + of_nat n) = unat offset + n" "unat (offset + of_nat (n + 4)) = unat offset + (n + 4)"
    by (rule unat_off(1), use b in simp)+
  have r1: "unat (maxlen - of_nat n) = unat maxlen - n" "unat (maxlen - of_nat (n + 4)) = unat maxlen - (n + 4)"
    by (rule unat_room, use b in simp)+
  have e1: "enc32 buf (offset + of_nat n) (maxlen - of_nat n) [of_nat len] 1 = Some (4, buf1)"
    unfolding buf1_def o1(1)[symmetric] by (rule enc32_one) (use b o1 r1 in simp_all)
  have e2: "int8_t_encode_array buf1 (offset + of_nat (n + 4)) (maxlen - of_nat (n + 4)) (s @ [0]) (of_nat len)
      = Some (int len, buf2)"
    using int8_encode_ok[of len "s @ [0]" "offset + of_nat (n + 4)" buf1 "maxlen - of_nat (n + 4)"] b o1 r1 l1
    by (simp add: buf2_def len_def)
  have p1: "of_nat n + of_int 4 = (of_nat (n + 4) :: u32)" "of_nat (n + 4) + of_int (int len) = (of_nat (n + 4 + len) :: u32)"
    by simp_all
  have ih: "string_encode_loop enc32 int8_t_encode_array offset maxlen p (Suc element) k buf2 (of_nat (n + 4 + len))
    = Some (int (n + 4 + len + length rest), overwrite buf2 (unat offset + (n + 4 + len)) rest)"
    unfolding rest_def by (rule Suc.IH) (use Suc.prems b l1 in \<open>simp_all add: rest_def[symmetric]\<close>)
  have o2: "overwrite buf2 (unat offset + (n + 4 + len)) rest = overwrite buf (unat offset + n) (string_bytes s @ rest)"
  proof -
    have eq: "buf2 = overwrite buf (unat offset + n) (string_bytes s)"
      using overwrite_append[of "unat offset + n" "put (of_nat len)" "s @ [0]" buf] b
      by (simp add: buf2_def buf1_def string_bytes_def len_def width add.assoc)
    have l: "unat offset + (n + 4 + len) = unat offset + n + length (string_bytes s)" by (simp add: len_def)
    have "unat offset + n + length (string_bytes s) + length rest \<le> length buf" using b by (simp add: len_def)
    from overwrite_append[OF this] show ?thesis unfolding eq l .
  qed
  have lb: "length (string_bytes s @ rest) = 4 + len + length rest" by (simp add: len_def)
  note unf = string_encode_loop.simps(2) get Option.bind.bind_lunit Let_def len_def[symmetric] e1 e2 prod.case p1 ih
  have "string_encode_loop enc32 int8_t_encode_array offset maxlen p element (Suc k) buf (of_nat n)
      = Some (int (n + 4 + len + length rest), overwrite buf2 (unat offset + (n + 4 + len)) rest)"
    by (simp only: unf) simp
  then show ?case unfolding all lb o2 by (simp only: add.assoc)
qed

end

text \<open>An allocator that never fails.\<close>

definition malloc_ok :: "(nat \<Rightarrow> u8 list option) \<Rightarrow> bool" where
  "malloc_ok malloc \<longleftrightarrow> (\<forall>n. \<exists>blk. malloc n = Some blk \<and> length blk = n)"

context string_codec
begin

lemma dec32_short: "unat maxlen < 4 \<Longrightarrow> dec32 buf offset maxlen [v0] 1 = Some (-1, [v0])"
  by (simp add: dec32_eq decode_array_def word_less_nat_alt)

lemma int8_decode_short: "unat maxlen < unat len \<Longrightarrow> int8_t_decode_array buf offset maxlen blk len = Some (-1, blk)"
  by (simp add: int8_t_decode_array_def int8_t_encoded_array_size_def word_less_nat_alt)

lemma string_decode_loop_ok:
  assumes "malloc_ok malloc" "element + length strs \<le> length q" "length buf < 2 ^ 31"
    "unat offset + n \<le> length buf" "drop (unat offset + n) buf = concat (map string_bytes strs) @ tail"
    "n + length (concat (map string_bytes strs)) \<le> unat maxlen"
  shows "string_decode_loop dec32 int8_t_decode_array malloc buf offset maxlen element (length strs) q (of_nat n) =
    Some (int (n + length (concat (map string_bytes strs))), overwrite q element (map (\<lambda>s. Some (s @ [0])) strs))"
  using assms(2,4,5,6)
proof (induction strs arbitrary: element n q)
  case Nil
  then show ?case using assms(3) by (simp add: sint_of_nat_small)
next
  case (Cons s strs)
  define rest where "rest = concat (map string_bytes strs)"
  define len where "len = length s + 1"
  have dr: "drop (unat offset + n) buf = put (of_nat len) @ (s @ [0]) @ rest @ tail"
    using Cons.prems(3) by (simp add: rest_def len_def string_bytes_def[of s])
  have b: "unat offset + n + (4 + len + length rest) \<le> length buf" "n + (4 + len + length rest) \<le> unat maxlen"
    using arg_cong[OF dr, of length] Cons.prems(2,4) by (simp_all add: width len_def rest_def)
  have o1: "unat (offset + of_nat n) = unat offset + n" "unat (offset + of_nat (n + 4)) = unat offset + (n + 4)"
    by (rule unat_off(1), use b assms(3) in simp)+
  have r1: "unat (maxlen - of_nat n) = unat maxlen - n" "unat (maxlen - of_nat (n + 4)) = unat maxlen - (n + 4)"
    by (rule unat_room, use b in simp)+
  have d1: "dec32 buf (offset + of_nat n) (maxlen - of_nat n) [0] 1 = Some (4, [of_nat len])"
    using dec32_one[of "offset + of_nat n" buf "maxlen - of_nat n" 0] b o1 r1 assms(3) dr
    by (simp add: width dec_enc)
  have lenw: "(of_nat len :: u32) \<noteq> 0" "unat (of_nat len :: u32) = len"
  proof -
    show u: "unat (of_nat len :: u32) = len" using b assms(3) by (intro unat_of_nat_small) simp
    then show "(of_nat len :: u32) \<noteq> 0" by (metis len_def add_is_0 one_neq_zero unat_0)
  qed
  obtain blk where blk: "malloc len = Some blk" "length blk = len" using assms(1) by (auto simp: malloc_ok_def)
  then have zm: "zcm_malloc malloc (of_nat len) = Some blk" by (simp add: zcm_malloc_def lenw)
  have "drop (unat offset + (n + 4)) buf = (s @ [0]) @ rest @ tail"
    using arg_cong[OF dr, of "drop 4"] by (simp add: width ac_simps)
  then have sl: "take len (drop (unat offset + (n + 4)) buf) = s @ [0]" by (simp add: len_def)
  have d2: "int8_t_decode_array buf (offset + of_nat (n + 4)) (maxlen - of_nat (n + 4)) (deref (Some blk)) (of_nat len)
      = Some (int len, s @ [0])"
    using int8_decode_ok[of len blk "offset + of_nat (n + 4)" buf "maxlen - of_nat (n + 4)"] b o1 r1 blk assms(3) sl
    by (simp add: deref_def len_def)
  have p1: "of_nat n + of_int 4 = (of_nat (n + 4) :: u32)" "of_nat (n + 4) + of_int (int len) = (of_nat (n + 4 + len) :: u32)"
    by simp_all
  define q2 where "q2 = q[element := Some (s @ [0])]"
  have q: "mem_put q element (Some blk) = Some (q[element := Some blk])"
    "mem_put (q[element := Some blk]) element (Some (s @ [0])) = Some q2"
    using Cons.prems(1) by (simp_all add: q2_def)
  have ih: "string_decode_loop dec32 int8_t_decode_array malloc buf offset maxlen (Suc element) (length strs) q2
        (of_nat (n + 4 + len))
    = Some (int (n + 4 + len + length rest), overwrite q2 (Suc element) (map (\<lambda>s. Some (s @ [0])) strs))"
    unfolding rest_def
  proof (rule Cons.IH)
    show "Suc element + length strs \<le> length q2" using Cons.prems(1) by (simp add: q2_def)
    show "unat offset + (n + 4 + len) \<le> length buf" "n + 4 + len + length (concat (map string_bytes strs)) \<le> unat maxlen"
      using b by (simp_all add: rest_def)
    show "drop (unat offset + (n + 4 + len)) buf = concat (map string_bytes strs) @ tail"
      using arg_cong[OF dr, of "drop (4 + len)"] by (simp add: width len_def rest_def add.assoc add.commute add.left_commute)
  qed
  have lb: "length (concat (map string_bytes (s # strs))) = 4 + len + length rest" by (simp add: len_def rest_def)
  note unf = string_decode_loop.simps(2) Option.bind.bind_lunit Let_def d1 d2 zm q prod.case p1 ih option.map
  have "string_decode_loop dec32 int8_t_decode_array malloc buf offset maxlen element (length (s # strs)) q (of_nat n)
      = Some (int (n + 4 + len + length rest), overwrite q2 (Suc element) (map (\<lambda>s. Some (s @ [0])) strs))"
    unfolding length_Cons unf by (simp add: mem_get_def zm q d2 ih[unfolded of_nat_add[of "n + 4" len]] del: of_nat_add of_nat_Suc mem_put_eq_Some)
  moreover have "overwrite q2 (Suc element) (map (\<lambda>s. Some (s @ [0])) strs)
      = overwrite q element (map (\<lambda>s. Some (s @ [0])) (s # strs))"
    unfolding q2_def using Cons.prems(1) by (subst overwrite_update) simp_all
  ultimately show ?case unfolding lb by (simp only: add.assoc)
qed

end

context string_codec
begin

text \<open>Whatever the bytes are, decoding strings stays inside the buffer.\<close>

lemma string_decode_loop_total:
  assumes "malloc_ok malloc" "length buf < 2 ^ 31" "unat offset + unat maxlen \<le> length buf"
    "element + k \<le> length q" "n \<le> unat maxlen"
  shows "\<exists>ret q'. string_decode_loop dec32 int8_t_decode_array malloc buf offset maxlen element k q (of_nat n) = Some (ret, q')
    \<and> length q' = length q \<and> (ret = -1 \<or> (0 \<le> ret \<and> nat ret \<le> unat maxlen))"
  using assms(4,5)
proof (induction k arbitrary: element n q)
  case 0
  then show ?case using assms(2,3) by (simp add: sint_of_nat_small)
next
  case (Suc k)
  have o1: "unat (offset + of_nat n) = unat offset + n" by (rule unat_off(1)) (use Suc.prems assms in simp)
  have r1: "unat (maxlen - of_nat n) = unat maxlen - n" by (rule unat_room) (use Suc.prems in simp)
  show ?case
  proof (cases "unat maxlen - n < 4")
    case True
    then show ?thesis using dec32_short[of "maxlen - of_nat n"] r1 by simp
  next
    case fit: False
    define len where "len = get (take 4 (drop (unat offset + n) buf))"
    have d1: "dec32 buf (offset + of_nat n) (maxlen - of_nat n) [0] 1 = Some (4, [len])"
      using dec32_one[of "offset + of_nat n" buf "maxlen - of_nat n" 0] fit assms o1 r1 Suc.prems
      by (simp add: len_def)
    define blk where "blk = zcm_malloc malloc len"
    have o2: "unat (offset + of_nat (n + 4)) = unat offset + (n + 4)" by (rule unat_off(1)) (use fit assms in simp)
    have r2: "unat (maxlen - of_nat (n + 4)) = unat maxlen - (n + 4)" by (rule unat_room) (use fit in simp)
    have lb: "length (deref blk) = unat len"
      using assms(1) by (auto simp: blk_def zcm_malloc_def deref_def malloc_ok_def split: option.splits)
        (metis option.distinct(1), metis option.inject)
    let ?q = "\<lambda>b. q[element := map_option (\<lambda>_. b) blk]"
    have put: "mem_put q element blk = Some (q[element := blk])" "\<And>b. mem_put (q[element := blk]) element b = Some (q[element := b])"
      using Suc.prems by simp_all
    have step: "string_decode_loop dec32 int8_t_decode_array malloc buf offset maxlen element (Suc k) q (of_nat n) =
      Option.bind (int8_t_decode_array buf (offset + of_nat (n + 4)) (maxlen - of_nat (n + 4)) (deref blk) len)
        (\<lambda>(thislen, blk'). if thislen < 0 then Some (thislen, ?q blk')
           else string_decode_loop dec32 int8_t_decode_array malloc buf offset maxlen (Suc element) k (?q blk')
                  (of_nat (n + 4) + of_int thislen))"
      using d1 put by (simp add: mem_get_def Let_def blk_def del: mem_put_eq_Some cong: if_cong)
    show ?thesis
    proof (cases "unat maxlen - (n + 4) < unat len")
      case True
      then show ?thesis
        using int8_decode_short[of "maxlen - of_nat (n + 4)" len] r2 step by simp
    next
      case False
      define m where "m = unat len"
      have len: "len = of_nat m" by (simp add: m_def)
      have m: "n + 4 + m \<le> unat maxlen" "m < 2 ^ 31" using False fit assms by (auto simp: m_def)
      have "int8_t_decode_array buf (offset + of_nat (n + 4)) (maxlen - of_nat (n + 4)) (deref blk) len
          = Some (int m, overwrite (deref blk) 0 (take m (drop (unat offset + (n + 4)) buf)))"
        unfolding len using int8_decode_ok[of m "deref blk" "offset + of_nat (n + 4)" buf "maxlen - of_nat (n + 4)"]
          m lb o2 r2 assms(3) by (simp add: m_def)
      with step Suc.IH[of "Suc element" "?q (overwrite (deref blk) 0 (take m (drop (unat offset + (n + 4)) buf)))" "n + 4 + m"]
        Suc.prems m show ?thesis by (simp add: algebra_simps)
    qed
  qed
qed

end

interpretation str_be: string_codec int32_put int32_get int32_t_encode_array int32_t_decode_array
  by unfold_locales
    (simp_all add: int32_t_encode_array_def int32_t_decode_array_def int32_t_encoded_array_size_def)

interpretation str_le: string_codec int32_put_le int32_get_le int32_t_encode_little_endian_array
  int32_t_decode_little_endian_array
  by unfold_locales
    (simp_all add: int32_t_encode_little_endian_array_def int32_t_decode_little_endian_array_def
      int32_t_encoded_array_size_def)

section \<open>Properties of the core types\<close>

definition test_malloc :: "nat \<Rightarrow> u8 list option" where "test_malloc n = Some (replicate n 0)"

lemma test_malloc_ok: "malloc_ok test_malloc"
  by (simp add: malloc_ok_def test_malloc_def)

text \<open>
  C22. Round trip of the fixed-width arrays, big endian. When the encoded array fits (the size
  does not wrap around, the room \<^verbatim>\<open>maxlen\<close> and the buffer are large enough), the encoder returns the
  size, changes nothing in front of the array and behind it, and the decoder reads the same
  elements back, for every integer and floating point type.
\<close>

theorem big_endian_arrays_roundtrip:
  assumes "length buf < 2 ^ 32" "unat offset + unat elements * 8 \<le> length buf" "unat elements * 8 \<le> unat maxlen"
    "length p16 = unat elements" "length p32 = unat elements" "length p64 = unat elements"
    "length q16 = unat elements" "length q32 = unat elements" "length q64 = unat elements"
  shows "(\<exists>b. int16_t_encode_array buf offset maxlen p16 elements = Some (sint (2 * elements), b) \<and> length b = length buf
           \<and> take (unat offset) b = take (unat offset) buf
           \<and> drop (unat offset + unat elements * 2) b = drop (unat offset + unat elements * 2) buf
           \<and> int16_t_decode_array b offset maxlen q16 elements = Some (sint (2 * elements), p16))
    \<and> (\<exists>b. int32_t_encode_array buf offset maxlen p32 elements = Some (sint (4 * elements), b) \<and> length b = length buf
           \<and> take (unat offset) b = take (unat offset) buf
           \<and> drop (unat offset + unat elements * 4) b = drop (unat offset + unat elements * 4) buf
           \<and> int32_t_decode_array b offset maxlen q32 elements = Some (sint (4 * elements), p32))
    \<and> (\<exists>b. int64_t_encode_array buf offset maxlen p64 elements = Some (sint (8 * elements), b) \<and> length b = length buf
           \<and> take (unat offset) b = take (unat offset) buf
           \<and> drop (unat offset + unat elements * 8) b = drop (unat offset + unat elements * 8) buf
           \<and> int64_t_decode_array b offset maxlen q64 elements = Some (sint (8 * elements), p64))
    \<and> (\<exists>b. float_encode_array buf offset maxlen p32 elements = Some (sint (4 * elements), b) \<and> length b = length buf
           \<and> take (unat offset) b = take (unat offset) buf
           \<and> drop (unat offset + unat elements * 4) b = drop (unat offset + unat elements * 4) buf
           \<and> float_decode_array b offset maxlen q32 elements = Some (sint (4 * elements), p32))
    \<and> (\<exists>b. double_encode_array buf offset maxlen p64 elements = Some (sint (8 * elements), b) \<and> length b = length buf
           \<and> take (unat offset) b = take (unat offset) buf
           \<and> drop (unat offset + unat elements * 8) b = drop (unat offset + unat elements * 8) buf
           \<and> double_decode_array b offset maxlen q64 elements = Some (sint (8 * elements), p64))"
proof (intro conjI, goal_cases)
  case 1
  show ?case unfolding int16_t_encode_array_def int16_t_decode_array_def int16_t_encoded_array_size_def
    by (rule int16_be.array_roundtrip) (use assms in simp_all)
next
  case 2
  show ?case unfolding int32_t_encode_array_def int32_t_decode_array_def int32_t_encoded_array_size_def
    by (rule int32_be.array_roundtrip) (use assms in simp_all)
next
  case 3
  show ?case unfolding int64_t_encode_array_def int64_t_decode_array_def int64_t_encoded_array_size_def
    by (rule int64_be.array_roundtrip) (use assms in simp_all)
next
  case 4
  show ?case unfolding float_encode_array_def float_decode_array_def float_encoded_array_size_def
    by (rule float_be.array_roundtrip) (use assms in simp_all)
next
  case 5
  show ?case unfolding double_encode_array_def double_decode_array_def double_encoded_array_size_def
    by (rule int64_be.array_roundtrip) (use assms in simp_all)
qed

theorem big_endian_arrays_roundtrip_witness:
  "\<exists>b. int16_t_encode_array (replicate 20 0) 3 17 [1, 0xfffe] 2 = Some (4, b)
    \<and> int16_t_decode_array b 3 17 [0, 0] 2 = Some (4, [1, 0xfffe])"
proof -
  have "sint (4 :: u32) = 4" by (simp add: sint_small)
  then show ?thesis
    using big_endian_arrays_roundtrip[of "replicate 20 0" 3 2 17 "[1, 0xfffe]" "[1, 2]" "[1, 2]" "[0, 0]" "[0, 0]" "[0, 0]"]
    by auto
qed

text \<open>
  Round trip of the fixed-width arrays, little endian, under the same conditions.
\<close>

theorem little_endian_arrays_roundtrip:
  assumes "length buf < 2 ^ 32" "unat offset + unat elements * 8 \<le> length buf" "unat elements * 8 \<le> unat maxlen"
    "length p16 = unat elements" "length p32 = unat elements" "length p64 = unat elements"
    "length q16 = unat elements" "length q32 = unat elements" "length q64 = unat elements"
  shows "(\<exists>b. int16_t_encode_little_endian_array buf offset maxlen p16 elements = Some (sint (2 * elements), b) \<and> length b = length buf
           \<and> take (unat offset) b = take (unat offset) buf
           \<and> drop (unat offset + unat elements * 2) b = drop (unat offset + unat elements * 2) buf
           \<and> int16_t_decode_little_endian_array b offset maxlen q16 elements = Some (sint (2 * elements), p16))
    \<and> (\<exists>b. int32_t_encode_little_endian_array buf offset maxlen p32 elements = Some (sint (4 * elements), b) \<and> length b = length buf
           \<and> take (unat offset) b = take (unat offset) buf
           \<and> drop (unat offset + unat elements * 4) b = drop (unat offset + unat elements * 4) buf
           \<and> int32_t_decode_little_endian_array b offset maxlen q32 elements = Some (sint (4 * elements), p32))
    \<and> (\<exists>b. int64_t_encode_little_endian_array buf offset maxlen p64 elements = Some (sint (8 * elements), b) \<and> length b = length buf
           \<and> take (unat offset) b = take (unat offset) buf
           \<and> drop (unat offset + unat elements * 8) b = drop (unat offset + unat elements * 8) buf
           \<and> int64_t_decode_little_endian_array b offset maxlen q64 elements = Some (sint (8 * elements), p64))
    \<and> (\<exists>b. float_encode_little_endian_array buf offset maxlen p32 elements = Some (sint (4 * elements), b) \<and> length b = length buf
           \<and> take (unat offset) b = take (unat offset) buf
           \<and> drop (unat offset + unat elements * 4) b = drop (unat offset + unat elements * 4) buf
           \<and> float_decode_little_endian_array b offset maxlen q32 elements = Some (sint (4 * elements), p32))
    \<and> (\<exists>b. double_encode_little_endian_array buf offset maxlen p64 elements = Some (sint (8 * elements), b) \<and> length b = length buf
           \<and> take (unat offset) b = take (unat offset) buf
           \<and> drop (unat offset + unat elements * 8) b = drop (unat offset + unat elements * 8) buf
           \<and> double_decode_little_endian_array b offset maxlen q64 elements = Some (sint (8 * elements), p64))"
proof (intro conjI, goal_cases)
  case 1
  show ?case unfolding int16_t_encode_little_endian_array_def int16_t_decode_little_endian_array_def int16_t_encoded_array_size_def
    by (rule int16_le.array_roundtrip) (use assms in simp_all)
next
  case 2
  show ?case unfolding int32_t_encode_little_endian_array_def int32_t_decode_little_endian_array_def int32_t_encoded_array_size_def
    by (rule int32_le.array_roundtrip) (use assms in simp_all)
next
  case 3
  show ?case unfolding int64_t_encode_little_endian_array_def int64_t_decode_little_endian_array_def int64_t_encoded_array_size_def
    by (rule int64_le.array_roundtrip) (use assms in simp_all)
next
  case 4
  show ?case unfolding float_encode_little_endian_array_def float_decode_little_endian_array_def float_encoded_array_size_def
    by (rule float_le.array_roundtrip) (use assms in simp_all)
next
  case 5
  show ?case unfolding double_encode_little_endian_array_def double_decode_little_endian_array_def double_encoded_array_size_def
    by (rule int64_le.array_roundtrip) (use assms in simp_all)
qed

theorem little_endian_arrays_roundtrip_witness:
  "\<exists>b. int16_t_encode_little_endian_array (replicate 20 0) 3 17 [1, 0xfffe] 2 = Some (4, b)
    \<and> int16_t_decode_little_endian_array b 3 17 [0, 0] 2 = Some (4, [1, 0xfffe])"
proof -
  have "sint (4 :: u32) = 4" by (simp add: sint_small)
  then show ?thesis
    using little_endian_arrays_roundtrip[of "replicate 20 0" 3 2 17 "[1, 0xfffe]" "[1, 2]" "[1, 2]" "[0, 0]" "[0, 0]" "[0, 0]"]
    by auto
qed

text \<open>
  C21. Strings survive the bus: encoding an array of strings and decoding the buffer gives blocks
  with the same characters and their terminators, and both return the number of bytes on the bus.
\<close>

theorem string_array_roundtrip:
  assumes "malloc_ok malloc" "length p = unat elements" "length q = unat elements" "length buf < 2 ^ 31"
    "unat offset + sum_list (map (\<lambda>s. length s + 5) p) \<le> length buf" "sum_list (map (\<lambda>s. length s + 5) p) \<le> unat maxlen"
  shows "\<exists>b. string_encode_array buf offset maxlen p elements = Some (int (sum_list (map (\<lambda>s. length s + 5) p)), b)
    \<and> length b = length buf
    \<and> string_decode_array malloc b offset maxlen q elements
        = Some (int (sum_list (map (\<lambda>s. length s + 5) p)), map (\<lambda>s. Some (s @ [0])) p)"
proof -
  define bs where "bs = concat (map str_be.string_bytes p)"
  define b where "b = overwrite buf (unat offset) bs"
  have l: "length bs = sum_list (map (\<lambda>s. length s + 5) p)" by (simp add: bs_def length_concat comp_def)
  have lb: "length b = length buf" "unat offset \<le> length b" using assms(5) l by (simp_all add: b_def)
  have "string_encode_array buf offset maxlen p elements = Some (int (length bs), b)"
    using str_be.string_encode_loop_ok[of 0 "unat elements" p offset 0 buf maxlen] assms l
    by (simp add: string_encode_array_def b_def flip: bs_def)
  moreover have "string_decode_array malloc b offset maxlen q elements = Some (int (length bs), map (\<lambda>s. Some (s @ [0])) p)"
    using str_be.string_decode_loop_ok[OF assms(1), of 0 p q b offset 0 "drop (unat offset + length bs) buf" maxlen]
      assms(2,3,4,6) l lb
    by (simp add: string_decode_array_def b_def flip: bs_def)
  ultimately show ?thesis using lb(1) l by auto
qed

theorem string_array_roundtrip_witness:
  "\<exists>b. string_encode_array (replicate 20 0) 1 19 [[65, 66], []] 2 = Some (12, b)
    \<and> string_decode_array test_malloc b 1 19 [None, None] 2 = Some (12, [Some [65, 66, 0], Some [0]])"
  using string_array_roundtrip[OF test_malloc_ok, of "[[65, 66], []]" 2 "[None, None]" "replicate 20 0" 1 19]
  by auto

text \<open>
  C24. Decoding strings from any bytes, also malicious ones, never reads outside the
  \<^verbatim>\<open>maxlen\<close> bytes it is given: it returns -1 or the number of bytes consumed.
\<close>

theorem string_decode_in_bounds:
  assumes "malloc_ok malloc" "length buf < 2 ^ 31" "unat offset + unat maxlen \<le> length buf" "unat elements \<le> length p"
  shows "\<exists>ret p'. string_decode_array malloc buf offset maxlen p elements = Some (ret, p') \<and> length p' = length p
    \<and> (ret = -1 \<or> 0 \<le> ret \<and> nat ret \<le> unat maxlen)"
  using str_be.string_decode_loop_total[OF assms(1-3), of 0 "unat elements" p 0] assms(4)
  by (simp add: string_decode_array_def)

theorem string_decode_in_bounds_witness:
  "\<exists>ret p'. string_decode_array test_malloc [0xff, 0xff, 0xff, 0xff, 1] 0 5 [None] 1 = Some (ret, p')
    \<and> (ret = -1 \<or> 0 \<le> ret \<and> nat ret \<le> 5)"
  using string_decode_in_bounds[OF test_malloc_ok, of "[0xff, 0xff, 0xff, 0xff, 1]" 0 5 1 "[None]"] by auto

text \<open>
  C25. The size check of the array encoders can be passed by a size that wraps around: for
  \<open>2 ^ 29\<close> 64-bit elements the 32-bit size is 0, so the check passes with no room at all and the loop
  writes outside the buffer.
\<close>

theorem int64_encode_size_wraps:
  "int64_t_encoded_array_size (2 ^ 29) = 0 \<and> int64_t_encode_array [] 0 0 (v # p) (2 ^ 29) = None"
proof -
  have z: "int64_t_encoded_array_size (2 ^ 29) = 0" by (simp add: int64_t_encoded_array_size_def)
  obtain k where k: "unat (2 ^ 29 :: u32) = Suc k" by (cases "unat (2 ^ 29 :: u32)") (simp_all add: unat_eq_0)
  have "put_seq [] 0 (int64_put v) = None" by (simp add: int64_put_def mem_put_def)
  then have "int64_t_encode_array [] 0 0 (v # p) (2 ^ 29) = None"
    unfolding int64_t_encode_array_def encode_array_def z k by (simp add: mem_get_def)
  with z show ?thesis by simp
qed

text \<open>
  A string length of 0 on the bus is accepted and leaves a null pointer in the decoded message:
  the decoder reports success, and the other functions of the file read through that pointer.
\<close>

theorem string_decode_null:
  "string_decode_array malloc [0, 0, 0, 0] 0 4 [q] 1 = Some (4, [None])"
proof -
  have "int32_t_decode_array [0, 0, 0, 0] 0 4 [0] 1 = Some (4, [0])"
    using str_be.dec32_one[of 0 "[0, 0, 0, 0]" 4 0] by (simp add: int32_get_def)
  moreover have "int8_t_decode_array [0, 0, 0, 0] 4 0 [] 0 = Some (0, [])"
    by (simp add: int8_t_decode_array_def int8_t_encoded_array_size_def mem_slice_def mem_blit_def)
  ultimately show ?thesis
    by (simp add: string_decode_array_def zcm_malloc_def deref_def mem_get_def mem_put_def sint_small)
qed

end
