(* ===== verification/Bitfield.thy ===== *)
theory Bitfield
  imports Zcm_Prelude
begin

text \<open>
  The bit-packed arrays of \<^verbatim>\<open>zcm/zcm_coretypes.h\<close>: elements of any width are laid out one behind the
  other, most significant bit first, and need not start at a byte. The functions are macros in the
  source, instantiated per type; here the type is the width of the word. An operation returns
  \<open>None\<close> when it leaves the buffer or the array, or shifts by an amount that C leaves undefined.
\<close>

section \<open>Sizes and offsets\<close>

definition bitfield_encoded_size :: "u32 \<Rightarrow> u32" where
  "bitfield_encoded_size numbits =
     (let sz = numbits div 8
      in if numbits - sz * 8 \<noteq> 0 then sz + 1 else sz)"

definition bitfield_advance_offset :: "u32 \<times> u32 \<Rightarrow> u32 \<Rightarrow> u32 \<times> u32" where
  "bitfield_advance_offset off numbits =
     (let (offset_byte, offset_bit) = off;
          tmp_num_bytes = numbits div 8;
          tmp_num_bits = numbits - tmp_num_bytes * 8;
          offset_byte = offset_byte + tmp_num_bytes;
          offset_bit = offset_bit + tmp_num_bits
      in if offset_bit \<ge> 8 then (offset_byte + 1, offset_bit - 8) else (offset_byte, offset_bit))"

section \<open>Encoding\<close>

text \<open>
  The \<^verbatim>\<open>while\<close> loop on one element \<open>v\<close>. Small unsigned types are promoted to \<^verbatim>\<open>int\<close> before they are
  shifted, hence the bound on \<^verbatim>\<open>shift\<close>.
\<close>

function bits_put_loop ::
    "'a::len word \<Rightarrow> u8 list \<Rightarrow> u32 \<Rightarrow> nat \<Rightarrow> nat \<Rightarrow> (u8 list \<times> u32 \<times> nat) option" where
  "bits_put_loop v buf pos_byte pos_bit bits_left =
     (if bits_left = 0 then Some (buf, pos_byte, pos_bit)
      else do {
        buf \<leftarrow> (if pos_bit = 0 then mem_put buf (unat pos_byte) 0 else Some buf);
        b \<leftarrow> mem_get buf (unat pos_byte);
        if pos_bit + bits_left < 8 then do {
          buf \<leftarrow> mem_put buf (unat pos_byte)
                  (b OR push_bit (8 - (pos_bit + bits_left)) (ucast v AND mask bits_left));
          Some (buf, pos_byte, pos_bit + bits_left)
        }
        else if pos_bit > 8 \<or> pos_bit + bits_left - 8 \<ge> max 32 LENGTH('a) then None
        else do {
          let shift = pos_bit + bits_left - 8;
          buf \<leftarrow> mem_put buf (unat pos_byte) (b OR (ucast (drop_bit shift v) AND mask (bits_left - shift)));
          bits_put_loop v buf (pos_byte + 1) 0 shift
        }
      })"
  by pat_completeness auto
termination
  by (relation "measure (\<lambda>(v, buf, pos_byte, pos_bit, bits_left). 2 * bits_left + (if pos_bit = 0 then 0 else 1))")
    auto

fun bits_encode_loop ::
    "'a::len word list \<Rightarrow> nat \<Rightarrow> nat \<Rightarrow> nat \<Rightarrow> u8 list \<Rightarrow> u32 \<Rightarrow> nat \<Rightarrow> u8 list option" where
  "bits_encode_loop p numbits element 0 buf pos_byte pos_bit = Some buf"
| "bits_encode_loop p numbits element (Suc k) buf pos_byte pos_bit =
     do {
       v \<leftarrow> mem_get p element;
       (buf, pos_byte, pos_bit) \<leftarrow> bits_put_loop v buf pos_byte pos_bit numbits;
       bits_encode_loop p numbits (Suc element) k buf pos_byte pos_bit
     }"

definition encode_array_bits ::
    "u8 list \<Rightarrow> u32 \<Rightarrow> u32 \<Rightarrow> u32 \<Rightarrow> 'a::len word list \<Rightarrow> u32 \<Rightarrow> u32 \<Rightarrow> (int \<times> u8 list) option" where
  "encode_array_bits buf offset_bytes offset_bits maxbytes p elements numbits =
     (let total_bits = elements * numbits
      in if maxbytes < bitfield_encoded_size (total_bits + offset_bits) then Some (-1, buf)
         else map_option (\<lambda>buf. (sint total_bits, buf))
                (bits_encode_loop p (unat numbits) 0 (unat elements) buf offset_bytes (unat offset_bits)))"

section \<open>Decoding\<close>

text \<open>
  The \<^verbatim>\<open>while\<close> loop on one element, \<open>v\<close> being \<^verbatim>\<open>p[element]\<close>. \<open>sext\<close> tells the sign extending variant
  (\<^verbatim>\<open>INT8_SIGN_TYPE\<close> is \<^verbatim>\<open>int8_t\<close>) from the other one.
\<close>

function bits_get_loop ::
    "bool \<Rightarrow> nat \<Rightarrow> u8 list \<Rightarrow> u32 \<Rightarrow> nat \<Rightarrow> nat \<Rightarrow> 'a::len word \<Rightarrow> ('a word \<times> u32 \<times> nat) option" where
  "bits_get_loop sext numbits buf pos_byte pos_bit bits_left v =
     (if bits_left = 0 then Some (v, pos_byte, pos_bit)
      else if pos_bit > 8 \<or> bits_left \<ge> 64 + 8 then None
      else do {
        let available_bits = 8 - pos_bit;
        let bits_covered = (if available_bits < bits_left then available_bits else bits_left);
        b \<leftarrow> mem_get buf (unat pos_byte);
        let payload = push_bit pos_bit (b AND push_bit (8 - bits_covered - pos_bit) (mask bits_covered));
        let v = (if bits_left = numbits then
                   let ext = (if sext then scast payload else ucast payload :: u64)
                   in if 8 < bits_left then ucast (push_bit (bits_left - 8) ext)
                      else ucast (signed_drop_bit (8 - bits_left) ext)
                 else if 8 < bits_left then v OR ucast (push_bit (bits_left - 8) (ucast payload :: u64))
                 else v OR ucast (drop_bit (8 - bits_left) payload));
        bits_get_loop sext numbits buf
          (if pos_bit + bits_covered = 8 then pos_byte + 1 else pos_byte)
          (if pos_bit + bits_covered = 8 then 0 else pos_bit + bits_covered)
          (bits_left - bits_covered) v
      })"
  by pat_completeness auto
termination
  by (relation "measure (\<lambda>(sext, numbits, buf, pos_byte, pos_bit, bits_left, v). 2 * bits_left + (if pos_bit = 0 then 0 else 1))")
    (auto split: if_splits)

fun bits_decode_loop ::
    "bool \<Rightarrow> nat \<Rightarrow> u8 list \<Rightarrow> nat \<Rightarrow> nat \<Rightarrow> 'a::len word list \<Rightarrow> u32 \<Rightarrow> nat \<Rightarrow> 'a word list option" where
  "bits_decode_loop sext numbits buf element 0 p pos_byte pos_bit = Some p"
| "bits_decode_loop sext numbits buf element (Suc k) p pos_byte pos_bit =
     do {
       v \<leftarrow> mem_get p element;
       (v, pos_byte, pos_bit) \<leftarrow> bits_get_loop sext numbits buf pos_byte pos_bit numbits v;
       p \<leftarrow> mem_put p element v;
       bits_decode_loop sext numbits buf (Suc element) k p pos_byte pos_bit
     }"

definition decode_array_bits ::
    "bool \<Rightarrow> u8 list \<Rightarrow> u32 \<Rightarrow> u32 \<Rightarrow> u32 \<Rightarrow> 'a::len word list \<Rightarrow> u32 \<Rightarrow> u32 \<Rightarrow> (int \<times> 'a word list) option" where
  "decode_array_bits sext buf offset_bytes offset_bits maxbytes p elements numbits =
     (let total_bits = elements * numbits
      in if maxbytes < bitfield_encoded_size (total_bits + offset_bits) then Some (-1, p)
         else map_option (\<lambda>p. (sint total_bits, p))
                (bits_decode_loop sext (unat numbits) buf 0 (unat elements) p offset_bytes (unat offset_bits)))"

declare bits_put_loop.simps [simp del] bits_get_loop.simps [simp del]

section \<open>The stream of bits\<close>

text \<open>Bit \<open>k\<close> of a buffer, counted from the most significant bit of the first byte.\<close>

definition sbit :: "u8 list \<Rightarrow> nat \<Rightarrow> bool" where
  "sbit buf k = bit (buf ! (k div 8)) (7 - k mod 8)"

text \<open>The bits behind the write position, in the byte that has been begun, are still zero.\<close>

definition clean :: "u8 list \<Rightarrow> nat \<Rightarrow> nat \<Rightarrow> bool" where
  "clean buf pos_byte pos_bit \<longleftrightarrow> (pos_bit \<noteq> 0 \<longrightarrow> (\<forall>i. pos_bit \<le> i \<and> i < 8 \<longrightarrow> \<not> bit (buf ! pos_byte) (7 - i)))"

lemma sbit_pos: "i < 8 \<Longrightarrow> sbit buf (8 * j + i) = bit (buf ! j) (7 - i)"
  by (simp add: sbit_def)

lemma bit_mask_u8: "bit (mask n :: u8) j \<longleftrightarrow> j < n \<and> j < 8"
  by (auto simp: bit_simps)

lemma put_last:
  fixes v :: "'a::len word"
  assumes "pos + bl < 8" "i < 8"
  shows "bit (push_bit (8 - (pos + bl)) (ucast v AND mask bl) :: u8) (7 - i)
    \<longleftrightarrow> pos \<le> i \<and> i < pos + bl \<and> bit v (bl - 1 - (i - pos))"
proof -
  have "7 - i - (8 - (pos + bl)) = bl - 1 - (i - pos)" if "pos \<le> i" "i < pos + bl" using that assms by arith
  moreover have "8 - (pos + bl) \<le> 7 - i \<longleftrightarrow> i < pos + bl" using assms by arith
  moreover have "7 - i - (8 - (pos + bl)) < bl \<Longrightarrow> i < pos + bl \<Longrightarrow> pos \<le> i" using assms by arith
  ultimately show ?thesis using assms by (auto simp: bit_simps)
qed

lemma put_full:
  fixes v :: "'a::len word"
  assumes "\<not> pos + bl < 8" "pos < 8" "i < 8" "shift = pos + bl - 8"
  shows "bit (ucast (drop_bit shift v) AND mask (bl - shift) :: u8) (7 - i)
    \<longleftrightarrow> pos \<le> i \<and> bit v (bl - 1 - (i - pos))"
proof -
  have "7 - i < bl - shift \<longleftrightarrow> pos \<le> i" using assms by arith
  moreover have "pos \<le> i \<Longrightarrow> shift + (7 - i) = bl - 1 - (i - pos)" using assms by arith
  ultimately show ?thesis using assms by (auto simp: bit_simps)
qed

definition put_post :: "'a::len word \<Rightarrow> nat \<Rightarrow> u8 list \<Rightarrow> nat \<Rightarrow> u8 list \<Rightarrow> u32 \<Rightarrow> nat \<Rightarrow> bool" where
  "put_post v bl buf P buf' pb' pbit' \<longleftrightarrow> length buf' = length buf \<and> pbit' < 8 \<and> 8 * unat pb' + pbit' = P + bl
     \<and> clean buf' (unat pb') pbit'
     \<and> (\<forall>k < P + bl. sbit buf' k = (if k < P then sbit buf k else bit v (bl - 1 - (k - P))))
     \<and> (\<forall>j. P + bl \<le> 8 * j \<longrightarrow> buf' ! j = buf ! j)"

lemma byte_written:
  assumes b: "\<And>i. i < 8 \<Longrightarrow> bit b (7 - i) \<longleftrightarrow> (i < pos \<and> bit (buf ! pb) (7 - i))
      \<or> (pos \<le> i \<and> i < pos + c \<and> bit v (bl - 1 - (i - pos)))"
    and pb: "pb < length buf" and c: "pos + c \<le> 8" and P: "P = 8 * pb + pos" and k: "k < P + c"
  shows "sbit (buf[pb := b]) k = (if k < P then sbit buf k else bit v (bl - 1 - (k - P)))"
proof (cases "k div 8 = pb")
  case True
  define i where "i = k mod 8"
  have ki: "k = 8 * pb + i" "i < 8" using True by (auto simp: i_def)
  have "sbit (buf[pb := b]) k = bit b (7 - i)" using ki pb by (simp add: sbit_pos)
  also have "\<dots> = (if k < P then sbit buf k else bit v (bl - 1 - (k - P)))"
    unfolding b[OF ki(2)] using ki k P by (auto simp: sbit_pos)
  finally show ?thesis .
next
  case False
  moreover have "k < (pb + 1) * 8" using k c P by simp
  then have "k div 8 < pb + 1" by (rule less_mult_imp_div_less)
  ultimately have "k div 8 < pb" by simp
  then have "k < P" unfolding P by (simp add: div_less_iff_less_mult)
  with False show ?thesis by (simp add: sbit_def)
qed

lemma bits_put_loop_ok:
  fixes v :: "'a::len word"
  assumes "pos < 8" "8 * unat pb + pos + bl \<le> 8 * length buf" "length buf < 2 ^ 32" "bl \<le> max 32 LENGTH('a)"
    "clean buf (unat pb) pos"
  shows "\<exists>buf' pb' pbit'. bits_put_loop v buf pb pos bl = Some (buf', pb', pbit')
    \<and> put_post v bl buf (8 * unat pb + pos) buf' pb' pbit'"
  using assms
proof (induction bl arbitrary: buf pb pos rule: less_induct)
  case (less bl)
  let ?P = "8 * unat pb + pos"
  show ?case
  proof (cases "bl = 0")
    case True
    with less.prems show ?thesis by (simp add: bits_put_loop.simps put_post_def)
  next
    case False
    define buf0 where "buf0 = (if pos = 0 then buf[unat pb := 0] else buf)"
    define b where "b = buf0 ! unat pb"
    have pb: "unat pb < length buf" using less.prems False by simp
    have m0: "(if pos = 0 then mem_put buf (unat pb) 0 else Some buf) = Some buf0" "mem_get buf0 (unat pb) = Some b"
      using pb by (simp_all add: buf0_def b_def)
    have l0: "length buf0 = length buf" by (simp add: buf0_def)
    have b: "bit b (7 - i) \<longleftrightarrow> i < pos \<and> bit (buf ! unat pb) (7 - i)" if "i < 8" for i
      using less.prems(5) pb that by (auto simp: b_def buf0_def clean_def not_less)
    have upd: "buf0[unat pb := x] = buf[unat pb := x]" for x by (simp add: buf0_def)
    show ?thesis
    proof (cases "pos + bl < 8")
      case True
      define b' where "b' = b OR push_bit (8 - (pos + bl)) (ucast v AND mask bl)"
      have res: "bits_put_loop v buf pb pos bl = Some (buf[unat pb := b'], pb, pos + bl)"
        using m0 True pb l0 False upd[of b']
        by (subst bits_put_loop.simps) (simp add: b'_def mem_put_def del: mem_get_eq_Some)
      have b': "bit b' (7 - i) \<longleftrightarrow> (i < pos \<and> bit (buf ! unat pb) (7 - i))
          \<or> (pos \<le> i \<and> i < pos + bl \<and> bit v (bl - 1 - (i - pos)))" if "i < 8" for i
        using b[OF that] put_last[OF True that, of v] by (simp add: b'_def bit_or_iff)
      have "put_post v bl buf ?P (buf[unat pb := b']) pb (pos + bl)"
        unfolding put_post_def
      proof (intro conjI allI impI)
        show "clean (buf[unat pb := b']) (unat pb) (pos + bl)"
          using b' pb True by (auto simp: clean_def)
        fix k assume "k < ?P + bl"
        then show "sbit (buf[unat pb := b']) k = (if k < ?P then sbit buf k else bit v (bl - 1 - (k - ?P)))"
          using True pb by (intro byte_written[OF b']) auto
      qed (use True False in auto)
      with res show ?thesis by blast
    next
      case full: False
      define shift where "shift = pos + bl - 8"
      define b' where "b' = b OR (ucast (drop_bit shift v) AND mask (bl - shift))"
      have sh: "shift < bl" "shift < max 32 LENGTH('a)" using less.prems(1,4) False full by (auto simp: shift_def)
      have up: "unat (pb + 1) = unat pb + 1" using pb less.prems(3) by (subst unat_word_ariths(1)) simp
      have ns: "\<not> (32 \<le> pos + bl - 8 \<and> LENGTH('a) \<le> pos + bl - 8)" using sh by (auto simp: shift_def)
      have res: "bits_put_loop v buf pb pos bl = bits_put_loop v (buf[unat pb := b']) (pb + 1) 0 shift"
        using ns m0 full pb l0 False upd[of b'] sh(2) less.prems(1)
        by (subst bits_put_loop.simps, simp add: b'_def mem_put_def shift_def Let_def del: mem_get_eq_Some, blast)
      have b': "bit b' (7 - i) \<longleftrightarrow> (i < pos \<and> bit (buf ! unat pb) (7 - i))
          \<or> (pos \<le> i \<and> i < pos + (8 - pos) \<and> bit v (bl - 1 - (i - pos)))" if "i < 8" for i
        using b[OF that] put_full[OF full less.prems(1) that shift_def, of v] that by (auto simp: b'_def bit_or_iff)
      have Pb: "8 * unat (pb + 1) + 0 + shift = ?P + bl" using full less.prems(1) by (simp add: up shift_def)
      have "\<exists>buf' pb' pbit'. bits_put_loop v (buf[unat pb := b']) (pb + 1) 0 shift = Some (buf', pb', pbit')
          \<and> put_post v shift (buf[unat pb := b']) (8 * unat (pb + 1) + 0) buf' pb' pbit'"
      proof (rule less.IH[OF sh(1)])
        show "8 * unat (pb + 1) + 0 + shift \<le> 8 * length (buf[unat pb := b'])"
          unfolding Pb using less.prems(2) by simp
      qed (use sh less.prems in \<open>auto simp: clean_def\<close>)
      then obtain buf' pb' pbit' where r: "bits_put_loop v (buf[unat pb := b']) (pb + 1) 0 shift = Some (buf', pb', pbit')"
          "put_post v shift (buf[unat pb := b']) (8 * unat (pb + 1)) buf' pb' pbit'" by auto
      have "put_post v bl buf ?P buf' pb' pbit'"
        unfolding put_post_def
      proof (intro conjI allI impI)
        fix k assume k: "k < ?P + bl"
        show "sbit buf' k = (if k < ?P then sbit buf k else bit v (bl - 1 - (k - ?P)))"
        proof (cases "k < 8 * unat (pb + 1)")
          case True
          then have "sbit buf' k = sbit (buf[unat pb := b']) k" using r(2) k Pb by (simp add: put_post_def)
          also have "\<dots> = (if k < ?P then sbit buf k else bit v (bl - 1 - (k - ?P)))"
            using True less.prems(1) pb up by (intro byte_written[OF b']) auto
          finally show ?thesis .
        next
          case False
          then have "sbit buf' k = bit v (shift - 1 - (k - 8 * unat (pb + 1)))" using r(2) k Pb by (simp add: put_post_def)
          moreover have "shift - 1 - (k - 8 * unat (pb + 1)) = bl - 1 - (k - ?P)" "\<not> k < ?P"
            using False full less.prems(1) k by (auto simp: up shift_def)
          ultimately show ?thesis by simp
        qed
      next
        fix j assume "?P + bl \<le> 8 * j"
        then show "buf' ! j = buf ! j" using r(2) Pb full by (auto simp: put_post_def)
      qed (use r(2) Pb in \<open>auto simp: put_post_def\<close>)
      with res r(1) show ?thesis by auto
    qed
  qed
qed

text \<open>All elements of an array.\<close>

definition element_bit :: "'a::len word list \<Rightarrow> nat \<Rightarrow> nat \<Rightarrow> bool" where
  "element_bit vs nb j = bit (vs ! (j div nb)) (nb - 1 - j mod nb)"

lemma element_bit_Cons:
  "0 < nb \<Longrightarrow> element_bit (v # vs) nb j = (if j < nb then bit v (nb - 1 - j) else element_bit vs nb (j - nb))"
  by (auto simp: element_bit_def not_less le_div_geq le_mod_geq)

lemma bits_encode_loop_ok:
  fixes p :: "'a::len word list"
  assumes "pos < 8" "8 * unat pb + pos + k * nb \<le> 8 * length buf" "length buf < 2 ^ 32" "nb \<le> max 32 LENGTH('a)"
    "clean buf (unat pb) pos" "element + k \<le> length p" "0 < nb"
  shows "\<exists>buf'. bits_encode_loop p nb element k buf pb pos = Some buf' \<and> length buf' = length buf
    \<and> (\<forall>j < 8 * unat pb + pos + k * nb. sbit buf' j =
          (if j < 8 * unat pb + pos then sbit buf j else element_bit (drop element p) nb (j - (8 * unat pb + pos))))
    \<and> (\<forall>j. 8 * unat pb + pos + k * nb \<le> 8 * j \<longrightarrow> buf' ! j = buf ! j)"
  using assms(1,2,3,5,6)
proof (induction k arbitrary: buf pb pos element)
  case 0
  then show ?case by simp
next
  case (Suc k)
  let ?P = "8 * unat pb + pos"
  define v where "v = p ! element"
  have v: "mem_get p element = Some v" "drop element p = v # drop (Suc element) p"
    using Suc.prems by (simp_all add: v_def Cons_nth_drop_Suc)
  have "?P + nb \<le> 8 * length buf" using Suc.prems by simp
  from bits_put_loop_ok[OF Suc.prems(1) this Suc.prems(3) assms(4) Suc.prems(4), of v] obtain b1 pb1 pos1 where
    r1: "bits_put_loop v buf pb pos nb = Some (b1, pb1, pos1)" "put_post v nb buf ?P b1 pb1 pos1" by blast
  then have P1: "8 * unat pb1 + pos1 = ?P + nb" and l1: "length b1 = length buf" and s1: "pos1 < 8" "clean b1 (unat pb1) pos1"
    by (simp_all add: put_post_def)
  have "8 * unat pb1 + pos1 + k * nb \<le> 8 * length b1" using Suc.prems(2) P1 l1 by simp
  from Suc.IH[OF s1(1) this _ s1(2), of "Suc element"] Suc.prems l1 obtain b2 where
    r2: "bits_encode_loop p nb (Suc element) k b1 pb1 pos1 = Some b2" "length b2 = length buf"
      "\<And>j. j < ?P + nb + k * nb \<Longrightarrow> sbit b2 j = (if j < ?P + nb then sbit b1 j
          else element_bit (drop (Suc element) p) nb (j - (?P + nb)))"
      "\<And>j. ?P + nb + k * nb \<le> 8 * j \<Longrightarrow> b2 ! j = b1 ! j"
    unfolding P1 by auto
  have "sbit b2 j = (if j < ?P then sbit buf j else element_bit (drop element p) nb (j - ?P))"
    if "j < ?P + nb + k * nb" for j
    using r2(3)[OF that] r1(2) by (auto simp: put_post_def v(2) element_bit_Cons[OF assms(7)])
  moreover have "b2 ! j = buf ! j" if "?P + nb + k * nb \<le> 8 * j" for j
    using r2(4)[OF that] r1(2) that by (auto simp: put_post_def)
  ultimately show ?case using v(1) r1(1) r2(1,2) by (simp add: add.assoc del: mem_get_eq_Some)
qed

section \<open>Reading back\<close>

lemma payload_bit:
  assumes "pos + c \<le> 8" "i < 8"
  shows "bit (push_bit pos (b AND push_bit (8 - c - pos) (mask c)) :: u8) (7 - i) \<longleftrightarrow> i < c \<and> bit b (7 - (pos + i))"
proof -
  have "pos \<le> 7 - i \<and> 8 - c - pos \<le> 7 - i - pos \<and> 7 - i - pos - (8 - c - pos) < c \<longleftrightarrow> i < c"
    if "pos + i < 8" using assms that by arith
  moreover have "\<not> pos \<le> 7 - i" "\<not> i < c" if "\<not> pos + i < 8" using assms that by arith+
  moreover have "7 - i - pos = 7 - (pos + i)" by simp
  ultimately show ?thesis using assms by (cases "pos + i < 8") (auto simp: bit_simps)
qed

definition payload :: "u8 list \<Rightarrow> u32 \<Rightarrow> nat \<Rightarrow> nat \<Rightarrow> u8" where
  "payload buf pb pos c = push_bit pos (buf ! unat pb AND push_bit (8 - c - pos) (mask c))"

lemma payload_sbit:
  assumes "pos + c \<le> 8" "j < 8"
  shows "bit (payload buf pb pos c) j \<longleftrightarrow> 7 - j < c \<and> sbit buf (8 * unat pb + pos + (7 - j))"
proof -
  have "bit (payload buf pb pos c) (7 - (7 - j)) \<longleftrightarrow> 7 - j < c \<and> bit (buf ! unat pb) (7 - (pos + (7 - j)))"
    unfolding payload_def by (rule payload_bit) (use assms in auto)
  moreover have "7 - j < c \<Longrightarrow> sbit buf (8 * unat pb + (pos + (7 - j))) = bit (buf ! unat pb) (7 - (pos + (7 - j)))"
    using assms by (intro sbit_pos) simp
  ultimately show ?thesis using assms by (auto simp: add.assoc)
qed

definition first_value :: "bool \<Rightarrow> nat \<Rightarrow> u8 \<Rightarrow> 'a::len word" where
  "first_value sext bl pl =
     (let ext = (if sext then scast pl else ucast pl :: u64)
      in if 8 < bl then ucast (push_bit (bl - 8) ext) else ucast (signed_drop_bit (8 - bl) ext))"

definition next_value :: "nat \<Rightarrow> u8 \<Rightarrow> 'a::len word \<Rightarrow> 'a word" where
  "next_value bl pl v =
     (if 8 < bl then v OR ucast (push_bit (bl - 8) (ucast pl :: u64)) else v OR ucast (drop_bit (8 - bl) pl))"

lemma bits_get_step:
  assumes "bl \<noteq> 0" "pos < 8" "bl \<le> 64" "unat pb < length buf"
  defines "c \<equiv> min (8 - pos) bl"
  shows "bits_get_loop sext nb buf pb pos bl v =
    bits_get_loop sext nb buf (if pos + c = 8 then pb + 1 else pb) (if pos + c = 8 then 0 else pos + c) (bl - c)
      (if bl = nb then first_value sext bl (payload buf pb pos c) else next_value bl (payload buf pb pos c) v)"
proof -
  have c: "(if 8 - pos < bl then 8 - pos else bl) = c" by (simp add: c_def min_def)
  have g: "mem_get buf (unat pb) = Some (buf ! unat pb)" using assms by simp
  have n: "\<not> (pos > 8 \<or> bl \<ge> 64 + 8)" using assms by simp
  show ?thesis
    unfolding bits_get_loop.simps[of sext nb buf pb pos bl v] Let_def c g Option.bind.bind_lunit
      payload_def[symmetric] first_value_def[unfolded Let_def, symmetric] next_value_def[symmetric]
    using assms(1) n by (simp add: first_value_def next_value_def)
qed

lemma bit_ucast64: "LENGTH('a::len) \<le> 64 \<Longrightarrow> n < LENGTH('a) \<Longrightarrow> bit (ucast (x :: u64) :: 'a word) n = bit x n"
  by (simp add: bit_simps)

lemma first_value_bit:
  assumes "LENGTH('a::len) \<le> 64" "n < LENGTH('a)" "bl \<le> LENGTH('a)" "0 < bl"
  shows "bit (first_value sext bl pl :: 'a word) n =
    (if n < bl then bl \<le> n + 8 \<and> bit pl (n + 8 - bl) else sext \<and> bit pl 7)"
proof -
  let ?ext = "(if sext then scast pl else ucast pl) :: u64"
  have e: "bit ?ext j = (if j < 8 then bit pl j else sext \<and> bit pl 7)" if "j < 64" for j
    using that by (cases "j = 7") (auto simp: bit_simps bit_signed_iff min_def)
  show ?thesis
  proof (cases "8 < bl")
    case True
    then have "bit (first_value sext bl pl :: 'a word) n = (bl - 8 \<le> n \<and> bit ?ext (n - (bl - 8)))"
      using assms by (simp add: first_value_def bit_ucast64 bit_push_bit_iff)
    with True assms e[of "n - (bl - 8)"] show ?thesis by auto
  next
    case False
    then have "bit (first_value sext bl pl :: 'a word) n
        = bit ?ext (if 64 - (8 - bl) \<le> n \<and> n < 64 then 63 else 8 - bl + n)"
      using assms(1,2) by (simp only: first_value_def Let_def if_False bit_ucast64 bit_signed_drop_bit_iff) simp
    with False assms e[of "8 - bl + n"] e[of 63] show ?thesis by (auto simp: add.commute)
  qed
qed

lemma next_value_bit:
  assumes "LENGTH('a::len) \<le> 64" "n < LENGTH('a)"
  shows "bit (next_value bl pl v :: 'a word) n \<longleftrightarrow> bit v n \<or> (n < bl \<and> bl \<le> n + 8 \<and> bit pl (n + 8 - bl))"
proof -
  have "bit pl (n + 8 - bl) \<Longrightarrow> n + 8 - bl < 8" using bit_imp_le_length[of pl "n + 8 - bl"] by simp
  moreover have "8 + n - bl = n + 8 - bl" by simp
  ultimately show ?thesis using assms by (auto simp: next_value_def bit_simps)
qed

text \<open>The loop behind the first byte fills in the lower bits.\<close>

definition get_post :: "u8 list \<Rightarrow> nat \<Rightarrow> nat \<Rightarrow> (nat \<Rightarrow> bool) \<Rightarrow> 'a::len word \<Rightarrow> u32 \<Rightarrow> nat \<Rightarrow> bool" where
  "get_post buf P bl high v' pb' pos' \<longleftrightarrow> pos' < 8 \<and> 8 * unat pb' + pos' = P + bl
     \<and> (\<forall>n < LENGTH('a). bit v' n = (if n < bl then sbit buf (P + bl - 1 - n) else high n))"

lemma next_position:
  fixes pb :: u32
  assumes "pos < 8" "8 * unat pb + pos + bl \<le> 8 * length buf" "length buf < 2 ^ 32" "0 < bl"
  defines "c \<equiv> min (8 - pos) bl"
  shows "8 * unat (if pos + c = 8 then pb + 1 else pb) + (if pos + c = 8 then 0 else pos + c) = 8 * unat pb + pos + c"
    "(if pos + c = 8 then 0 else pos + c) < 8" "pos + c \<le> 8" "0 < c" "c \<le> bl"
proof -
  have "unat pb < length buf" using assms by simp
  then have "unat (pb + 1) = unat pb + 1" using assms(3) by (subst unat_word_ariths(1)) simp
  then show "8 * unat (if pos + c = 8 then pb + 1 else pb) + (if pos + c = 8 then 0 else pos + c) = 8 * unat pb + pos + c"
    by auto
qed (use assms in \<open>auto simp: c_def\<close>)

lemma bits_get_rest:
  fixes v :: "'a::len word"
  assumes "pos < 8" "8 * unat pb + pos + bl \<le> 8 * length buf" "length buf < 2 ^ 32" "bl < nb" "nb \<le> LENGTH('a)"
    "LENGTH('a) \<le> 64" "\<And>n. n < bl \<Longrightarrow> \<not> bit v n"
  shows "\<exists>v' pb' pos'. bits_get_loop sext nb buf pb pos bl v = Some (v', pb', pos')
    \<and> get_post buf (8 * unat pb + pos) bl (bit v) v' pb' pos'"
  using assms
proof (induction bl arbitrary: pb pos v rule: less_induct)
  case (less bl)
  let ?P = "8 * unat pb + pos"
  show ?case
  proof (cases "bl = 0")
    case True
    with less.prems(1) show ?thesis by (simp add: bits_get_loop.simps get_post_def)
  next
    case False
    define c where "c = min (8 - pos) bl"
    define pb1 where "pb1 = (if pos + c = 8 then pb + 1 else pb)"
    define pos1 where "pos1 = (if pos + c = 8 then 0 else pos + c)"
    define v1 where "v1 = next_value bl (payload buf pb pos c) v"
    have bl: "0 < bl" using False by simp
    note np = next_position[OF less.prems(1-3) bl, folded c_def, folded pb1_def pos1_def]
    have pb: "unat pb < length buf" "bl \<le> 64" using less.prems bl by simp_all
    have step: "bits_get_loop sext nb buf pb pos bl v = bits_get_loop sext nb buf pb1 pos1 (bl - c) v1"
      using bits_get_step[OF False less.prems(1) pb(2,1), of sext nb v] less.prems(4)
      by (simp add: pb1_def pos1_def v1_def flip: c_def)
    have v1: "bit v1 n \<longleftrightarrow> bit v n \<or> (n < bl \<and> bl - c \<le> n \<and> sbit buf (?P + bl - 1 - n))" if "n < LENGTH('a)" for n
    proof -
      have "bit (payload buf pb pos c) (n + 8 - bl) \<longleftrightarrow> bl - c \<le> n \<and> sbit buf (?P + bl - 1 - n)"
        if "n < bl" "bl \<le> n + 8"
      proof -
        have "7 - (n + 8 - bl) = bl - 1 - n" "bl - 1 - n < c \<longleftrightarrow> bl - c \<le> n" using that np(4,5) by arith+
        moreover have "?P + (bl - 1 - n) = ?P + bl - 1 - n" using that by simp
        ultimately show ?thesis using payload_sbit[OF np(3), of "n + 8 - bl" buf pb] that by simp
      qed
      moreover have "n < bl \<Longrightarrow> bl - c \<le> n \<Longrightarrow> bl \<le> n + 8" using np(3) by arith
      ultimately show ?thesis unfolding v1_def next_value_bit[OF less.prems(6) that] by auto
    qed
    have "\<exists>v' pb' pos'. bits_get_loop sext nb buf pb1 pos1 (bl - c) v1 = Some (v', pb', pos')
        \<and> get_post buf (8 * unat pb1 + pos1) (bl - c) (bit v1) v' pb' pos'"
    proof (rule less.IH)
      fix n assume "n < bl - c"
      then show "\<not> bit v1 n" using v1[of n] less.prems(4,5,7) by auto
    qed (use np less.prems in auto)
    then obtain v' pb' pos' where r: "bits_get_loop sext nb buf pb1 pos1 (bl - c) v1 = Some (v', pb', pos')"
      "get_post buf (?P + c) (bl - c) (bit v1) v' pb' pos'" unfolding np(1) by blast
    have "get_post buf ?P bl (bit v) v' pb' pos'"
      unfolding get_post_def
    proof (intro conjI allI impI)
      fix n assume n: "n < LENGTH('a)"
      have e: "?P + c + (bl - c) = ?P + bl" using np(5) by simp
      from r(2) n have "bit v' n = (if n < bl - c then sbit buf (?P + bl - 1 - n) else bit v1 n)"
        unfolding get_post_def e by blast
      then show "bit v' n = (if n < bl then sbit buf (?P + bl - 1 - n) else bit v n)"
        using v1[OF n] less.prems(7)[of n] by auto
    qed (use r(2) np(5) in \<open>auto simp: get_post_def\<close>)
    with step r(1) show ?thesis by auto
  qed
qed

lemma bits_get_element:
  fixes v :: "'a::len word"
  assumes "pos < 8" "8 * unat pb + pos + nb \<le> 8 * length buf" "length buf < 2 ^ 32" "0 < nb" "nb \<le> LENGTH('a)"
    "LENGTH('a) \<le> 64"
  shows "\<exists>v' pb' pos'. bits_get_loop sext nb buf pb pos nb v = Some (v', pb', pos')
    \<and> get_post buf (8 * unat pb + pos) nb (\<lambda>_. sext \<and> sbit buf (8 * unat pb + pos)) v' pb' pos'"
proof -
  let ?P = "8 * unat pb + pos"
  define c where "c = min (8 - pos) nb"
  define pb1 where "pb1 = (if pos + c = 8 then pb + 1 else pb)"
  define pos1 where "pos1 = (if pos + c = 8 then 0 else pos + c)"
  define v1 where "v1 = (first_value sext nb (payload buf pb pos c) :: 'a word)"
  note np = next_position[OF assms(1-4), folded c_def, folded pb1_def pos1_def]
  have nb: "nb \<noteq> 0" "nb \<le> 64" "unat pb < length buf" using assms by simp_all
  have step: "bits_get_loop sext nb buf pb pos nb v = bits_get_loop sext nb buf pb1 pos1 (nb - c) v1"
    using bits_get_step[OF nb(1) assms(1) nb(2,3), of sext nb v]
    by (simp add: pb1_def pos1_def v1_def flip: c_def)
  have v1: "bit v1 n = (if n < nb then nb - c \<le> n \<and> sbit buf (?P + nb - 1 - n) else sext \<and> sbit buf ?P)"
    if "n < LENGTH('a)" for n
  proof (cases "n < nb \<and> nb \<le> n + 8")
    case True
    then have "7 - (n + 8 - nb) = nb - 1 - n" "nb - 1 - n < c \<longleftrightarrow> nb - c \<le> n" "?P + (nb - 1 - n) = ?P + nb - 1 - n"
        "n + 8 - nb < 8" using np(4,5) by arith+
    with True payload_sbit[OF np(3), of "n + 8 - nb" buf pb] show ?thesis
      unfolding v1_def first_value_bit[OF assms(6) that assms(5,4)] by simp
  next
    case False
    moreover have "\<not> n < nb \<Longrightarrow> bit (payload buf pb pos c) 7 = sbit buf ?P"
      using payload_sbit[OF np(3), of 7 buf pb] np(4) by simp
    moreover have "n < nb \<Longrightarrow> nb - c \<le> n \<Longrightarrow> nb \<le> n + 8" using np(3) by arith
    ultimately show ?thesis unfolding v1_def first_value_bit[OF assms(6) that assms(5,4)] by auto
  qed
  have "\<exists>v' pb' pos'. bits_get_loop sext nb buf pb1 pos1 (nb - c) v1 = Some (v', pb', pos')
      \<and> get_post buf (8 * unat pb1 + pos1) (nb - c) (bit v1) v' pb' pos'"
  proof (rule bits_get_rest)
    fix n assume "n < nb - c"
    then show "\<not> bit v1 n" using v1[of n] assms(5) by auto
  qed (use np assms in auto)
  then obtain v' pb' pos' where r: "bits_get_loop sext nb buf pb1 pos1 (nb - c) v1 = Some (v', pb', pos')"
    "get_post buf (?P + c) (nb - c) (bit v1) v' pb' pos'" unfolding np(1) by blast
  have "get_post buf ?P nb (\<lambda>_. sext \<and> sbit buf ?P) v' pb' pos'"
    unfolding get_post_def
  proof (intro conjI allI impI)
    fix n assume n: "n < LENGTH('a)"
    have e: "?P + c + (nb - c) = ?P + nb" using np(5) by simp
    from r(2) n have "bit v' n = (if n < nb - c then sbit buf (?P + nb - 1 - n) else bit v1 n)"
      unfolding get_post_def e by blast
    then show "bit v' n = (if n < nb then sbit buf (?P + nb - 1 - n) else sext \<and> sbit buf ?P)"
      using v1[OF n] by auto
  qed (use r(2) np(5) in \<open>auto simp: get_post_def\<close>)
  with step r(1) show ?thesis by auto
qed

text \<open>What is left of a value that was packed into \<open>nb\<close> bits.\<close>

definition narrow :: "bool \<Rightarrow> nat \<Rightarrow> 'a::len word \<Rightarrow> 'a word" where
  "narrow sext nb v = (if sext then signed_take_bit (nb - 1) v else take_bit nb v)"

lemma narrow_bit:
  assumes "0 < nb" "nb \<le> LENGTH('a::len)" "n < LENGTH('a)"
  shows "bit (narrow sext nb (v :: 'a word)) n = (if n < nb then bit v n else sext \<and> bit v (nb - 1))"
proof -
  have "min (nb - 1) n = (if n < nb then n else nb - 1)" using assms(1) by auto
  with assms(3) show ?thesis by (simp add: narrow_def bit_signed_take_bit_iff bit_take_bit_iff)
qed

lemma bits_decode_loop_ok:
  fixes vs :: "'a::len word list"
  assumes "pos < 8" "8 * unat pb + pos + length vs * nb \<le> 8 * length buf" "length buf < 2 ^ 32" "0 < nb" "nb \<le> LENGTH('a)"
    "LENGTH('a) \<le> 64" "element + length vs \<le> length q"
    "\<And>j. j < length vs * nb \<Longrightarrow> sbit buf (8 * unat pb + pos + j) = element_bit vs nb j"
  shows "bits_decode_loop sext nb buf element (length vs) q pb pos
    = Some (take element q @ map (narrow sext nb) vs @ drop (element + length vs) q)"
  using assms(1,2,7,8)
proof (induction vs arbitrary: element q pb pos)
  case Nil
  then show ?case by simp
next
  case (Cons v vs)
  let ?P = "8 * unat pb + pos"
  have "?P + nb \<le> 8 * length buf" using Cons.prems(2) by simp
  from bits_get_element[OF Cons.prems(1) this assms(3-6), of sext "q ! element"] obtain v' pb' pos' where
    r: "bits_get_loop sext nb buf pb pos nb (q ! element) = Some (v', pb', pos')"
       "get_post buf ?P nb (\<lambda>_. sext \<and> sbit buf ?P) v' pb' pos'" by blast
  have first: "sbit buf (?P + j) = bit v (nb - 1 - j)" if "j < nb" for j
    using Cons.prems(4)[of j] that by (simp add: element_bit_Cons[OF assms(4)])
  have v': "v' = narrow sext nb v"
  proof (rule bit_word_eqI)
    fix n assume n: "n < LENGTH('a)"
    have "n < nb \<Longrightarrow> sbit buf (?P + nb - 1 - n) = bit v n" using first[of "nb - 1 - n"] by simp
    moreover have "sbit buf ?P = bit v (nb - 1)" using first[of 0] assms(4) by simp
    ultimately show "bit v' n = bit (narrow sext nb v) n"
      using r(2) n narrow_bit[OF assms(4,5) n, of sext v] by (simp add: get_post_def)
  qed
  have P': "8 * unat pb' + pos' = ?P + nb" and pos': "pos' < 8" using r(2) by (simp_all add: get_post_def)
  have el: "element < length q" using Cons.prems(3) by simp
  have "bits_decode_loop sext nb buf (Suc element) (length vs) (q[element := v']) pb' pos'
      = Some (take (Suc element) (q[element := v']) @ map (narrow sext nb) vs @ drop (Suc element + length vs) (q[element := v']))"
  proof (rule Cons.IH[OF pos'])
    fix j assume "j < length vs * nb"
    then show "sbit buf (8 * unat pb' + pos' + j) = element_bit vs nb j"
      unfolding P' using Cons.prems(4)[of "nb + j"] by (simp add: element_bit_Cons[OF assms(4)] add.assoc)
  qed (use Cons.prems P' in auto)
  then show ?case using r(1) el by (simp add: mem_get_def mem_put_def v' take_Suc_conv_app_nth)
qed

section \<open>Properties of the bit fields\<close>

lemma unat_div8: "unat (n div 8 :: u32) = unat n div 8"
  by (simp add: unat_div_distrib)

lemma rem8: "n - (n div 8) * 8 = (n mod 8 :: u32)"
  by (simp add: minus_div_mult_eq_mod)

lemma unat_mod8: "unat (n mod 8 :: u32) = unat n mod 8"
  by (simp add: unat_mod_distrib)

lemma bitfield_encoded_size_ceil: "unat (bitfield_encoded_size n) = (unat n + 7) div 8"
proof -
  have lt: "unat n div 8 + 1 < 2 ^ 32" using unsigned_less[of n, where 'a=nat] by simp
  have s: "unat (n div 8 + 1) = unat n div 8 + 1" using lt by (subst unat_word_ariths(1)) (simp add: unat_div8)
  have "n mod 8 = 0 \<longleftrightarrow> unat n mod 8 = 0" by (simp add: word_unat_eq_iff unat_mod8)
  then have z: "(n mod 8 \<noteq> 0) = (unat n mod 8 \<noteq> 0)" by simp
  have "unat (bitfield_encoded_size n) = (if unat n mod 8 \<noteq> 0 then unat n div 8 + 1 else unat n div 8)"
    unfolding bitfield_encoded_size_def Let_def rem8 z using s unat_div8 by simp
  also have "\<dots> = (unat n + 7) div 8"
  proof -
    define q where "q = unat n div 8"
    define r where "r = unat n mod 8"
    have qr: "unat n = 8 * q + r" "r < 8" by (simp_all add: q_def r_def)
    have "(8 * q + r + 7) div 8 = q + (r + 7) div 8" by simp
    moreover have "(r + 7) div 8 = (if r \<noteq> 0 then 1 else 0)" using qr(2) by (auto simp: div_if)
    ultimately show ?thesis unfolding qr(1) using qr(2) by simp
  qed
  finally show ?thesis .
qed

text \<open>
  \<^verbatim>\<open>__bitfield_advance_offset\<close> moves a position in the bit stream by exactly \<^verbatim>\<open>numbits\<close> and keeps the
  bit offset inside of a byte, as long as the byte offset does not wrap around.
\<close>

theorem bitfield_advance_offset_correct:
  assumes "unat offset_bit < 8" "unat offset_byte + unat numbits div 8 + 1 < 2 ^ 32"
    "bitfield_advance_offset (offset_byte, offset_bit) numbits = (byte', bit')"
  shows "8 * unat byte' + unat bit' = 8 * unat offset_byte + unat offset_bit + unat numbits \<and> unat bit' < 8"
proof -
  have ob: "unat (offset_byte + numbits div 8) = unat offset_byte + unat numbits div 8"
    using assms(2) by (subst unat_word_ariths(1)) (simp add: unat_div8)
  have ob1: "unat (offset_byte + numbits div 8 + 1) = unat offset_byte + unat numbits div 8 + 1"
    using assms(2) by (subst unat_word_ariths(1)) (simp add: ob)
  have bt: "unat (offset_bit + numbits mod 8) = unat offset_bit + unat numbits mod 8"
    using assms(1) by (subst unat_word_ariths(1)) (simp add: unat_mod8)
  have b8: "8 \<le> offset_bit + numbits mod 8 \<Longrightarrow>
      unat (offset_bit + numbits mod 8 - 8) = unat offset_bit + unat numbits mod 8 - 8"
    by (subst unat_sub) (simp_all add: bt)
  have c: "8 \<le> offset_bit + numbits mod 8 \<longleftrightarrow> 8 \<le> unat offset_bit + unat numbits mod 8"
    by (simp add: word_le_nat_alt bt)
  show ?thesis
  proof (cases "8 \<le> offset_bit + numbits mod 8")
    case True
    then have "byte' = offset_byte + numbits div 8 + 1" "bit' = offset_bit + numbits mod 8 - 8"
      using assms(3) by (simp_all add: bitfield_advance_offset_def Let_def rem8)
    with True ob1 b8 c assms(1) show ?thesis by simp
  next
    case False
    then have "byte' = offset_byte + numbits div 8" "bit' = offset_bit + numbits mod 8"
      using assms(3) by (simp_all add: bitfield_advance_offset_def Let_def rem8)
    with False ob bt c assms(1) show ?thesis by simp
  qed
qed

theorem bitfield_advance_offset_correct_witness:
  "\<exists>byte' bit'. bitfield_advance_offset (3, 5) 12 = (byte', bit') \<and> 8 * unat byte' + unat bit' = 41 \<and> unat bit' < 8"
proof -
  obtain byte' bit' where r: "bitfield_advance_offset (3, 5) 12 = (byte', bit')" by fastforce
  from bitfield_advance_offset_correct[OF _ _ this] r show ?thesis by simp
qed

text \<open>
  C16. Round trip of the bit-packed arrays, for elements of every width up to that of their type, at
  any bit offset: the encoder keeps all bits in front of the field and all bytes behind it, and
  the decoder reads back every element cut to \<^verbatim>\<open>numbits\<close> bits, sign extended in the signed variant.
\<close>

theorem bits_roundtrip:
  fixes p :: "'a::len word list"
  assumes "LENGTH('a) \<le> 64" "0 < unat numbits" "unat numbits \<le> LENGTH('a)" "unat offset_bits < 8"
    "length p = unat elements" "length q = unat elements" "length buf < 2 ^ 32"
    "unat elements * unat numbits + unat offset_bits < 2 ^ 32"
    "8 * unat offset_bytes + unat offset_bits + unat elements * unat numbits \<le> 8 * length buf"
    "(unat elements * unat numbits + unat offset_bits + 7) div 8 \<le> unat maxbytes"
    "clean buf (unat offset_bytes) (unat offset_bits)"
  shows "\<exists>b. encode_array_bits buf offset_bytes offset_bits maxbytes p elements numbits = Some (sint (elements * numbits), b)
    \<and> length b = length buf
    \<and> (\<forall>k < 8 * unat offset_bytes + unat offset_bits. sbit b k = sbit buf k)
    \<and> (\<forall>j. 8 * unat offset_bytes + unat offset_bits + unat elements * unat numbits \<le> 8 * j \<longrightarrow> b ! j = buf ! j)
    \<and> decode_array_bits sext b offset_bytes offset_bits maxbytes q elements numbits
        = Some (sint (elements * numbits), map (narrow sext (unat numbits)) p)"
proof -
  let ?P = "8 * unat offset_bytes + unat offset_bits" and ?nb = "unat numbits"
  have t: "unat (elements * numbits) = unat elements * ?nb"
    using assms(8) by (subst unat_word_ariths(2)) simp
  have "unat (elements * numbits + offset_bits) = unat elements * ?nb + unat offset_bits"
    using assms(8) by (subst unat_word_ariths(1)) (simp add: t)
  then have sz: "\<not> maxbytes < bitfield_encoded_size (elements * numbits + offset_bits)"
    using assms(10) by (simp add: word_less_nat_alt bitfield_encoded_size_ceil)
  have "?nb \<le> max 32 LENGTH('a)" using assms(3) by simp
  from bits_encode_loop_ok[OF assms(4,9,7) this assms(11) _ assms(2), of 0 p] assms(5) obtain b where
    e: "bits_encode_loop p ?nb 0 (unat elements) buf offset_bytes (unat offset_bits) = Some b" "length b = length buf"
       "\<And>j. j < ?P + unat elements * ?nb \<Longrightarrow> sbit b j = (if j < ?P then sbit buf j else element_bit p ?nb (j - ?P))"
       "\<And>j. ?P + unat elements * ?nb \<le> 8 * j \<Longrightarrow> b ! j = buf ! j"
    by auto
  have "bits_decode_loop sext ?nb b 0 (length p) q offset_bytes (unat offset_bits)
      = Some (take 0 q @ map (narrow sext ?nb) p @ drop (0 + length p) q)"
    by (rule bits_decode_loop_ok) (use assms e in auto)
  then have "decode_array_bits sext b offset_bytes offset_bits maxbytes q elements numbits
      = Some (sint (elements * numbits), map (narrow sext ?nb) p)"
    using sz assms(5,6) by (simp add: decode_array_bits_def Let_def)
  moreover have "encode_array_bits buf offset_bytes offset_bits maxbytes p elements numbits = Some (sint (elements * numbits), b)"
    using sz e(1) by (simp add: encode_array_bits_def Let_def)
  ultimately show ?thesis using e by auto
qed

theorem bits_roundtrip_witness:
  "\<exists>b. encode_array_bits [0xff, 0xe0, 0xff, 0xff] 1 3 3 [5, 0x3f :: u16] 2 6 = Some (sint (12 :: u32), b)
    \<and> decode_array_bits True b 1 3 3 [0, 0 :: u16] 2 6 = Some (sint (12 :: u32), [5, 0xffff])"
proof -
  have "clean [0xff, 0xe0, 0xff, 0xff] 1 3"
  proof -
    have "bit (0xe0 :: u8) 0 = False" "bit (0xe0 :: u8) 1 = False" "bit (0xe0 :: u8) 2 = False"
      "bit (0xe0 :: u8) 3 = False" "bit (0xe0 :: u8) 4 = False" by simp_all
    moreover have "7 - i = 0 \<or> 7 - i = 1 \<or> 7 - i = 2 \<or> 7 - i = 3 \<or> 7 - i = 4" if "3 \<le> i" for i :: nat
      using that by arith
    ultimately have "\<not> bit (0xe0 :: u8) (7 - i)" if "3 \<le> i" for i using that by metis
    then show ?thesis by (simp add: clean_def)
  qed
  moreover have "narrow True 6 (5 :: u16) = 5" "narrow True 6 (0x3f :: u16) = 0xffff"
    by (simp_all add: narrow_def)
  ultimately show ?thesis
    using bits_roundtrip[of 6 3 "[5, 0x3f :: u16]" 2 "[0, 0]" "[0xff, 0xe0, 0xff, 0xff]" 1 3 True] by auto
qed

end
