(* ===== verification/Msg_Queue.thy ===== *)
theory Msg_Queue
  imports Zcm_Prelude
begin

text \<open>
  The message queue of the core (\<^verbatim>\<open>zcm/util/queue.hpp\<close>), its thread-safe wrapper
  (\<^verbatim>\<open>zcm/util/threadsafe_queue.hpp\<close>) and the pool of message buffers
  (\<^verbatim>\<open>zcm/util/message_buffer_pool.hpp\<close>). A cell of the queue's raw memory is \<open>None\<close> while no object is
  constructed in it. A failed \<^verbatim>\<open>assert\<close>, an access outside the array and a use of an unconstructed cell
  are faults (\<open>None\<close>).
\<close>

section \<open>Queue\<close>

record 'a Queue =
  q_cells :: "'a option list"
  q_capacity :: nat
  q_front :: nat
  q_back :: nat

definition q_incIdx :: "'a Queue \<Rightarrow> nat \<Rightarrow> nat" where
  "q_incIdx q i = (let nextIdx = i + 1 in if nextIdx = q_capacity q then 0 else nextIdx)"

definition q_new :: "nat \<Rightarrow> 'a Queue" where
  "q_new capacity = \<lparr>q_cells = replicate capacity None, q_capacity = capacity, q_front = 0, q_back = 0\<rparr>"

definition q_hasFreeSpace :: "'a Queue \<Rightarrow> bool" where
  "q_hasFreeSpace q \<longleftrightarrow> q_front q \<noteq> q_incIdx q (q_back q)"

definition q_hasMessage :: "'a Queue \<Rightarrow> bool" where
  "q_hasMessage q \<longleftrightarrow> q_front q \<noteq> q_back q"

definition q_numMessages :: "'a Queue \<Rightarrow> nat" where
  "q_numMessages q =
     (if q_back q \<ge> q_front q then q_back q - q_front q
      else size_sub (q_capacity q) (q_front q - q_back q))"

definition q_push :: "'a \<Rightarrow> 'a Queue \<Rightarrow> 'a Queue option" where
  "q_push x q =
     (if \<not> q_hasFreeSpace q then None
      else do {
        cells \<leftarrow> mem_put (q_cells q) (q_back q) (Some x);
        Some (q\<lparr>q_cells := cells, q_back := q_incIdx q (q_back q)\<rparr>)
      })"

definition q_top :: "'a Queue \<Rightarrow> 'a option" where
  "q_top q = (if \<not> q_hasMessage q then None else Option.bind (mem_get (q_cells q) (q_front q)) (\<lambda>c. c))"

definition q_pop :: "'a Queue \<Rightarrow> 'a Queue option" where
  "q_pop q =
     (if \<not> q_hasMessage q then None
      else do {
        c \<leftarrow> mem_get (q_cells q) (q_front q);
        x \<leftarrow> c;
        cells \<leftarrow> mem_put (q_cells q) (q_front q) None;
        Some (q\<lparr>q_cells := cells, q_front := q_incIdx q (q_front q)\<rparr>)
      })"

text \<open>The copying loop of \<^verbatim>\<open>setCapacity\<close>; \<open>k = capacity - newBack\<close>.\<close>

fun q_move_loop :: "nat \<Rightarrow> 'a Queue \<Rightarrow> 'a option list \<Rightarrow> nat \<Rightarrow> ('a option list \<times> nat) option" where
  "q_move_loop 0 q newQueue newBack = Some (newQueue, newBack)"
| "q_move_loop (Suc k) q newQueue newBack =
     (if \<not> q_hasMessage q then Some (newQueue, newBack)
      else do {
        msg \<leftarrow> mem_get (q_cells q) (q_front q);
        newQueue \<leftarrow> mem_put newQueue newBack msg;
        q_move_loop k (q\<lparr>q_front := q_incIdx q (q_front q)\<rparr>) newQueue (newBack + 1)
      })"

definition q_setCapacity :: "nat \<Rightarrow> 'a Queue \<Rightarrow> 'a Queue option" where
  "q_setCapacity capacity q =
     map_option (\<lambda>(newQueue, newBack).
         \<lparr>q_cells = newQueue, q_capacity = capacity, q_front = 0, q_back = newBack\<rparr>)
       (q_move_loop capacity q (replicate capacity None) 0)"

text \<open>The destructor pops what is left; \<open>n\<close> bounds the number of messages.\<close>

fun q_destroy :: "nat \<Rightarrow> 'a Queue \<Rightarrow> 'a Queue option" where
  "q_destroy 0 q = (if q_hasMessage q then None else Some q)"
| "q_destroy (Suc n) q = (if q_hasMessage q then Option.bind (q_pop q) (q_destroy n) else Some q)"

section \<open>The queue is a bounded FIFO\<close>

definition q_contents :: "'a Queue \<Rightarrow> 'a list" where
  "q_contents q = map the (ring_list (q_cells q) (q_capacity q) (q_front q) (q_numMessages q))"

definition q_inv :: "'a Queue \<Rightarrow> bool" where
  "q_inv q \<longleftrightarrow> length (q_cells q) = q_capacity q \<and> q_front q < q_capacity q \<and> q_back q < q_capacity q
     \<and> (\<forall>c \<in> set (ring_list (q_cells q) (q_capacity q) (q_front q) (q_numMessages q)). c \<noteq> None)"

definition q_room :: "'a Queue \<Rightarrow> nat" where
  "q_room q = q_capacity q - 1 - q_numMessages q"

lemma q_num_ring: "q_front q < q_capacity q \<Longrightarrow> q_back q < q_capacity q \<Longrightarrow>
    q_numMessages q = ring_count (q_capacity q) (q_front q) (q_back q)"
  by (auto simp: q_numMessages_def ring_count_def)

lemma length_q_contents [simp]: "length (q_contents q) = q_numMessages q"
  by (simp add: q_contents_def)

lemma q_new_inv:
  "0 < n \<Longrightarrow> q_inv (q_new n :: 'a Queue) \<and> q_contents (q_new n :: 'a Queue) = [] \<and> q_room (q_new n :: 'a Queue) = n - 1"
  by (simp add: q_inv_def q_new_def q_numMessages_def q_contents_def q_room_def)

lemma q_num_from_ring:
  assumes "f < cap" "n < cap" "q_capacity q = cap" "q_front q = f" "q_back q = (f + n) mod cap"
  shows "q_numMessages q = n"
  using assms by (auto simp: q_numMessages_def mod_if split: if_splits)

lemma q_inc_mod: "i < q_capacity q \<Longrightarrow> q_incIdx q i = Suc i mod q_capacity q"
  by (auto simp: q_incIdx_def Let_def)

lemma q_back_ring:
  assumes "q_inv q"
  shows "q_back q = (q_front q + q_numMessages q) mod q_capacity q" "q_numMessages q < q_capacity q"
  using assms ring_back[of "q_front q" "q_capacity q" "q_back q"] ring_count_less[of "q_front q" "q_capacity q" "q_back q"]
  by (simp_all add: q_inv_def q_num_ring)

lemma q_hasMessage_iff: "q_inv q \<Longrightarrow> q_hasMessage q \<longleftrightarrow> q_contents q \<noteq> []"
  by (auto simp: q_hasMessage_def q_inv_def q_numMessages_def simp flip: length_0_conv split: if_splits)

lemma q_hasFreeSpace_iff: "q_inv q \<Longrightarrow> q_hasFreeSpace q \<longleftrightarrow> 0 < q_room q"
  by (auto simp: q_hasFreeSpace_def q_inv_def q_room_def q_incIdx_def q_numMessages_def Let_def split: if_splits)

text \<open>A queue whose cells hold \<open>xs\<close> from index \<open>f\<close> on.\<close>

lemma q_from_ring:
  assumes "length (q_cells q) = cap" "q_capacity q = cap" "q_front q = f" "f < cap" "length xs < cap"
    "q_back q = (f + length xs) mod cap" "ring_list (q_cells q) cap f (length xs) = map Some xs"
  shows "q_inv q \<and> q_contents q = xs \<and> q_room q = cap - 1 - length xs"
proof -
  have n: "q_numMessages q = length xs" by (rule q_num_from_ring[OF assms(4,5,2,3,6)])
  with assms show ?thesis by (auto simp: q_inv_def q_contents_def q_room_def comp_def)
qed

lemma q_ring:
  assumes "q_inv q"
  shows "ring_list (q_cells q) (q_capacity q) (q_front q) (q_numMessages q) = map Some (q_contents q)"
  using assms by (auto simp: q_inv_def q_contents_def map_idI)

lemma q_push_ok:
  assumes inv: "q_inv q" and room: "0 < q_room q"
  shows "\<exists>q'. q_push x q = Some q' \<and> q_inv q' \<and> q_contents q' = q_contents q @ [x] \<and> q_room q' = q_room q - 1"
proof -
  let ?cap = "q_capacity q" and ?f = "q_front q" and ?n = "q_numMessages q"
  define q' where "q' = q\<lparr>q_cells := (q_cells q)[q_back q := Some x], q_back := q_incIdx q (q_back q)\<rparr>"
  have i: "length (q_cells q) = ?cap" "?f < ?cap" "q_back q < ?cap" using inv by (simp_all add: q_inv_def)
  have n: "Suc ?n < ?cap" using room by (simp add: q_room_def)
  have b: "q_back q = (?f + ?n) mod ?cap" by (rule q_back_ring(1)[OF inv])
  have "ring_list (q_cells q') ?cap ?f (Suc ?n) = map Some (q_contents q @ [x])"
    using ring_list_push[of ?f ?cap "q_cells q" ?n "Some x"] i n q_ring[OF inv] by (simp add: q'_def b)
  moreover have "q_back q' = (?f + Suc ?n) mod ?cap" using q_inc_mod[OF i(3)] b by (simp add: q'_def mod_Suc_eq)
  ultimately have "q_inv q' \<and> q_contents q' = q_contents q @ [x] \<and> q_room q' = ?cap - 1 - Suc ?n"
    using q_from_ring[of q' ?cap ?f "q_contents q @ [x]"] i n by (simp add: q'_def)
  moreover have "q_push x q = Some q'"
    using q_hasFreeSpace_iff[OF inv] room i by (simp add: q_push_def q'_def mem_put_def)
  ultimately show ?thesis by (simp add: q_room_def)
qed

lemma q_top_pop_ok:
  assumes inv: "q_inv q" and ne: "q_contents q \<noteq> []"
  shows "q_top q = Some (hd (q_contents q))"
    "\<exists>q'. q_pop q = Some q' \<and> q_inv q' \<and> q_contents q' = tl (q_contents q) \<and> q_room q' = Suc (q_room q)"
proof -
  let ?cap = "q_capacity q" and ?f = "q_front q" and ?n = "q_numMessages q"
  have i: "length (q_cells q) = ?cap" "?f < ?cap" "q_back q < ?cap" using inv by (simp_all add: q_inv_def)
  have n: "0 < ?n" "?n < ?cap" using ne q_back_ring(2)[OF inv] by (simp_all flip: length_q_contents)
  have hm: "q_hasMessage q" using q_hasMessage_iff[OF inv] ne by simp
  have top: "q_cells q ! ?f = Some (hd (q_contents q))"
    using arg_cong[OF q_ring[OF inv], of "\<lambda>l. l ! 0"] n i ne by (simp add: hd_conv_nth)
  then show "q_top q = Some (hd (q_contents q))" using hm i by (simp add: q_top_def mem_get_def)
  define q' where "q' = q\<lparr>q_cells := (q_cells q)[?f := None], q_front := q_incIdx q ?f\<rparr>"
  have f': "q_front q' = (?f + 1) mod ?cap" using q_inc_mod[OF i(2)] by (simp add: q'_def)
  have "ring_list (q_cells q') ?cap ((?f + 1) mod ?cap) (?n - 1)
      = ring_list (q_cells q) ?cap ((?f + 1) mod ?cap) (?n - 1)"
  proof (intro nth_equalityI)
    fix j assume j: "j < length (ring_list (q_cells q') ?cap ((?f + 1) mod ?cap) (?n - 1))"
    then have "((?f + 1) mod ?cap + j) mod ?cap \<noteq> ?f" using n i(2) by (auto simp: mod_if split: if_splits)
    with j show "ring_list (q_cells q') ?cap ((?f + 1) mod ?cap) (?n - 1) ! j
        = ring_list (q_cells q) ?cap ((?f + 1) mod ?cap) (?n - 1) ! j" by (simp add: q'_def)
  qed simp
  also have "\<dots> = map Some (tl (q_contents q))"
    using ring_list_drop[of 1 ?n "q_cells q" ?cap ?f] n q_ring[OF inv] by (simp add: drop_Suc map_tl)
  finally have ring: "ring_list (q_cells q') ?cap (q_front q') (length (tl (q_contents q))) = map Some (tl (q_contents q))"
    by (simp add: f')
  have "q_back q' = (q_front q' + length (tl (q_contents q))) mod ?cap"
  proof -
    have "((?f + 1) mod ?cap + (?n - 1)) mod ?cap = (?f + ?n) mod ?cap" using n by (subst mod_add_left_eq) simp
    then show ?thesis unfolding f' using q_back_ring(1)[OF inv] by (simp add: q'_def)
  qed
  with q_from_ring[of q' ?cap "q_front q'" "tl (q_contents q)"] ring i n f'
  have "q_inv q' \<and> q_contents q' = tl (q_contents q) \<and> q_room q' = ?cap - 1 - (?n - 1)" by (simp add: q'_def)
  moreover have "q_pop q = Some q'" using hm i top by (simp add: q_pop_def q'_def mem_get_def mem_put_def)
  moreover have "?cap - 1 - (?n - 1) = Suc (q_room q)" using n by (simp add: q_room_def)
  ultimately show "\<exists>q'. q_pop q = Some q' \<and> q_inv q' \<and> q_contents q' = tl (q_contents q) \<and> q_room q' = Suc (q_room q)"
    by auto
qed

interpretation mq: bounded_fifo q_inv q_contents q_room q_push q_pop
  by unfold_locales (erule (1) q_push_ok, erule (1) q_top_pop_ok(2))

lemma q_destroy_ok: "q_inv q \<Longrightarrow> q_numMessages q \<le> n \<Longrightarrow> \<exists>q'. q_destroy n q = Some q' \<and> q_inv q' \<and> q_contents q' = []"
proof (induction n arbitrary: q)
  case 0
  then show ?case using q_hasMessage_iff[of q] by (simp flip: length_0_conv)
next
  case (Suc n)
  show ?case
  proof (cases "q_contents q = []")
    case True
    then show ?thesis using Suc.prems q_hasMessage_iff[of q] by simp
  next
    case False
    with q_top_pop_ok(2)[OF Suc.prems(1)] obtain q' where
      q': "q_pop q = Some q'" "q_inv q'" "q_contents q' = tl (q_contents q)" by blast
    have "q_numMessages q' \<le> n" using arg_cong[OF q'(3), of length] Suc.prems by simp
    with Suc.IH[OF q'(2)] q'(1) q_hasMessage_iff[OF Suc.prems(1)] False show ?thesis by auto
  qed
qed

section \<open>Changing the capacity\<close>

lemma q_advance:
  assumes inv: "q_inv q" and ne: "q_contents q \<noteq> []"
  defines "q' \<equiv> q\<lparr>q_front := q_incIdx q (q_front q)\<rparr>"
  shows "q_inv q'" "q_contents q' = tl (q_contents q)" "mem_get (q_cells q) (q_front q) = Some (Some (hd (q_contents q)))"
proof -
  let ?cap = "q_capacity q" and ?f = "q_front q" and ?n = "q_numMessages q"
  have i: "length (q_cells q) = ?cap" "?f < ?cap" "q_back q < ?cap" using inv by (simp_all add: q_inv_def)
  have n: "0 < ?n" "?n < ?cap" using ne q_back_ring(2)[OF inv] by (simp_all flip: length_q_contents)
  show "mem_get (q_cells q) ?f = Some (Some (hd (q_contents q)))"
    using arg_cong[OF q_ring[OF inv], of "\<lambda>l. l ! 0"] n i ne by (simp add: hd_conv_nth)
  have f': "q_front q' = (?f + 1) mod ?cap" using q_inc_mod[OF i(2)] by (simp add: q'_def)
  have "ring_list (q_cells q) ?cap (q_front q') (length (tl (q_contents q))) = map Some (tl (q_contents q))"
    using ring_list_drop[of 1 ?n "q_cells q" ?cap ?f] n q_ring[OF inv] by (simp add: drop_Suc map_tl f')
  moreover have "((?f + 1) mod ?cap + (?n - 1)) mod ?cap = (?f + ?n) mod ?cap" using n by (subst mod_add_left_eq) simp
  ultimately have "q_inv q' \<and> q_contents q' = tl (q_contents q) \<and> q_room q' = ?cap - 1 - length (tl (q_contents q))"
    using q_back_ring(1)[OF inv] i n f' by (intro q_from_ring[where f = "q_front q'"]) (simp_all add: q'_def)
  then show "q_inv q'" "q_contents q' = tl (q_contents q)" by simp_all
qed

lemma q_move_loop_ok:
  assumes "q_inv q" "length new = length xs + k" "take (length xs) new = map Some xs"
  shows "\<exists>new'. q_move_loop k q new (length xs) = Some (new', length xs + min k (q_numMessages q))
    \<and> length new' = length new
    \<and> take (length xs + min k (q_numMessages q)) new' = map Some (xs @ take k (q_contents q))"
  using assms
proof (induction k arbitrary: q new xs)
  case 0
  then show ?case by simp
next
  case (Suc k)
  show ?case
  proof (cases "q_contents q = []")
    case True
    then have "q_numMessages q = 0" by (simp flip: length_q_contents)
    with True Suc.prems q_hasMessage_iff[OF Suc.prems(1)] show ?thesis by simp
  next
    case False
    define q1 where "q1 = q\<lparr>q_front := q_incIdx q (q_front q)\<rparr>"
    define x where "x = hd (q_contents q)"
    note adv = q_advance[OF Suc.prems(1) False, folded q1_def x_def]
    have num: "q_numMessages q1 = q_numMessages q - 1" "0 < q_numMessages q"
      using arg_cong[OF adv(2), of length] False by (simp_all flip: length_greater_0_conv)
    define new1 where "new1 = new[length xs := Some x]"
    have "take (length (xs @ [x])) new1 = map Some (xs @ [x])"
      using Suc.prems(2,3) by (simp add: new1_def take_Suc_conv_app_nth)
    from Suc.IH[OF adv(1) _ this] Suc.prems(2) obtain new' where
      r: "q_move_loop k q1 new1 (length xs + 1) = Some (new', length xs + 1 + min k (q_numMessages q1))"
         "length new' = length new1"
         "take (length xs + 1 + min k (q_numMessages q1)) new' = map Some (xs @ x # take k (q_contents q1))"
      by (auto simp: new1_def)
    have "x # take k (q_contents q1) = take (Suc k) (q_contents q)"
      using False adv(2) by (cases "q_contents q") (auto simp: x_def)
    moreover have "length xs + 1 + min k (q_numMessages q1) = length xs + min (Suc k) (q_numMessages q)" using num by simp
    moreover have "q_move_loop (Suc k) q new (length xs) = q_move_loop k q1 new1 (length xs + 1)"
      using q_hasMessage_iff[OF Suc.prems(1)] False adv(3) Suc.prems(2)
      by (simp add: q1_def new1_def mem_put_def del: mem_get_eq_Some)
    moreover have "length new1 = length new" by (simp add: new1_def)
    ultimately show ?thesis using r by (simp only: map_append) auto
  qed
qed

lemma q_setCapacity_ok:
  assumes "q_inv q"
  shows "\<exists>q'. q_setCapacity c q = Some q' \<and> q_capacity q' = c \<and> length (q_cells q') = c \<and> q_front q' = 0
    \<and> q_back q' = min c (q_numMessages q) \<and> take (min c (q_numMessages q)) (q_cells q') = map Some (take c (q_contents q))"
proof -
  from q_move_loop_ok[OF assms, of "replicate c None" "[]" c] obtain new' where
    "q_move_loop c q (replicate c None) 0 = Some (new', min c (q_numMessages q))" "length new' = c"
    "take (min c (q_numMessages q)) new' = map Some (take c (q_contents q))" by auto
  then show ?thesis by (simp add: q_setCapacity_def)
qed

section \<open>The thread-safe queue\<close>

text \<open>
  Every method holds the mutex, so that each is one atomic step; a method that waits for a condition
  takes its step when the condition holds and is \<open>Blocks\<close> until then.
\<close>

datatype 'r outcome = Blocks | Faults | Returns 'r

record 'a ThreadsafeQueue =
  ts_queue :: "'a Queue"
  ts_disabled :: bool

definition ts_push :: "'a \<Rightarrow> 'a ThreadsafeQueue \<Rightarrow> (bool \<times> 'a ThreadsafeQueue) outcome" where
  "ts_push x t =
     (if \<not> (ts_disabled t \<or> q_hasFreeSpace (ts_queue t)) then Blocks
      else if \<not> q_hasFreeSpace (ts_queue t) then Returns (False, t)
      else case q_push x (ts_queue t) of
        None \<Rightarrow> Faults
      | Some q \<Rightarrow> Returns (True, t\<lparr>ts_queue := q\<rparr>))"

definition ts_pushIfRoom :: "'a \<Rightarrow> 'a ThreadsafeQueue \<Rightarrow> (bool \<times> 'a ThreadsafeQueue) outcome" where
  "ts_pushIfRoom x t =
     (if \<not> q_hasFreeSpace (ts_queue t) then Returns (False, t)
      else case q_push x (ts_queue t) of
        None \<Rightarrow> Faults
      | Some q \<Rightarrow> Returns (True, t\<lparr>ts_queue := q\<rparr>))"

text \<open>\<open>None\<close> is the null pointer.\<close>

definition ts_top :: "'a ThreadsafeQueue \<Rightarrow> 'a option outcome" where
  "ts_top t =
     (if \<not> (ts_disabled t \<or> q_hasMessage (ts_queue t)) then Blocks
      else if ts_disabled t then Returns None
      else case q_top (ts_queue t) of None \<Rightarrow> Faults | Some x \<Rightarrow> Returns (Some x))"

definition ts_pop :: "'a ThreadsafeQueue \<Rightarrow> 'a ThreadsafeQueue outcome" where
  "ts_pop t = (case q_pop (ts_queue t) of None \<Rightarrow> Faults | Some q \<Rightarrow> Returns (t\<lparr>ts_queue := q\<rparr>))"

definition ts_getCapacity :: "'a ThreadsafeQueue \<Rightarrow> nat" where
  "ts_getCapacity t = q_capacity (ts_queue t)"

definition ts_setCapacity :: "nat \<Rightarrow> 'a ThreadsafeQueue \<Rightarrow> 'a ThreadsafeQueue outcome" where
  "ts_setCapacity c t =
     (case q_setCapacity c (ts_queue t) of None \<Rightarrow> Faults | Some q \<Rightarrow> Returns (t\<lparr>ts_queue := q\<rparr>))"

definition ts_hasFreeSpace :: "'a ThreadsafeQueue \<Rightarrow> bool" where
  "ts_hasFreeSpace t = q_hasFreeSpace (ts_queue t)"

definition ts_hasMessage :: "'a ThreadsafeQueue \<Rightarrow> bool" where
  "ts_hasMessage t = q_hasMessage (ts_queue t)"

definition ts_numMessages :: "'a ThreadsafeQueue \<Rightarrow> nat" where
  "ts_numMessages t = q_numMessages (ts_queue t)"

definition ts_disable :: "'a ThreadsafeQueue \<Rightarrow> 'a ThreadsafeQueue" where
  "ts_disable t = t\<lparr>ts_disabled := True\<rparr>"

definition ts_enable :: "'a ThreadsafeQueue \<Rightarrow> 'a ThreadsafeQueue" where
  "ts_enable t = t\<lparr>ts_disabled := False\<rparr>"

definition ts_isEnabled :: "'a ThreadsafeQueue \<Rightarrow> bool" where
  "ts_isEnabled t = (\<not> ts_disabled t)"

text \<open>
  Any interleaving of the methods by any number of threads, with the values pushed and the values
  popped so far. Changing the capacity is a step while the messages fit with a cell to spare.
\<close>

inductive tsq_step :: "'a ThreadsafeQueue \<times> 'a list \<times> 'a list \<Rightarrow> 'a ThreadsafeQueue \<times> 'a list \<times> 'a list \<Rightarrow> bool" where
  step_push: "ts_push x t = Returns (True, t') \<Longrightarrow> tsq_step (t, pushed, popped) (t', pushed @ [x], popped)"
| step_push_failed: "ts_push x t = Returns (False, t') \<Longrightarrow> tsq_step (t, pushed, popped) (t', pushed, popped)"
| step_pushIfRoom: "ts_pushIfRoom x t = Returns (ok, t') \<Longrightarrow>
    tsq_step (t, pushed, popped) (t', if ok then pushed @ [x] else pushed, popped)"
| step_pop: "q_top (ts_queue t) = Some x \<Longrightarrow> ts_pop t = Returns t' \<Longrightarrow>
    tsq_step (t, pushed, popped) (t', pushed, popped @ [x])"
| step_disable: "tsq_step (t, pushed, popped) (ts_disable t, pushed, popped)"
| step_enable: "tsq_step (t, pushed, popped) (ts_enable t, pushed, popped)"
| step_setCapacity: "ts_numMessages t < c \<Longrightarrow> ts_setCapacity c t = Returns t' \<Longrightarrow>
    tsq_step (t, pushed, popped) (t', pushed, popped)"

definition tsq_inv :: "'a ThreadsafeQueue \<times> 'a list \<times> 'a list \<Rightarrow> bool" where
  "tsq_inv s \<longleftrightarrow> (case s of (t, pushed, popped) \<Rightarrow> q_inv (ts_queue t) \<and> pushed = popped @ q_contents (ts_queue t))"

lemma ts_push_cases:
  assumes "q_inv (ts_queue t)"
  shows "ts_push x t = (if 0 < q_room (ts_queue t) then Returns (True, t\<lparr>ts_queue := the (q_push x (ts_queue t))\<rparr>)
      else if ts_disabled t then Returns (False, t) else Blocks)"
    "ts_pushIfRoom x t = (if 0 < q_room (ts_queue t) then Returns (True, t\<lparr>ts_queue := the (q_push x (ts_queue t))\<rparr>)
      else Returns (False, t))"
  using q_push_ok[OF assms, of x] q_hasFreeSpace_iff[OF assms]
  by (auto simp: ts_push_def ts_pushIfRoom_def)

lemma tsq_inv_push:
  assumes "tsq_inv (t, pushed, popped)" "0 < q_room (ts_queue t)"
  shows "tsq_inv (t\<lparr>ts_queue := the (q_push x (ts_queue t))\<rparr>, pushed @ [x], popped)"
  using assms q_push_ok[of "ts_queue t" x] by (auto simp: tsq_inv_def)

lemma tsq_step_inv: "tsq_step s s' \<Longrightarrow> tsq_inv s \<Longrightarrow> tsq_inv s'"
proof (induction rule: tsq_step.induct)
  case (step_push x t t' pushed popped)
  then have "q_inv (ts_queue t)" by (simp add: tsq_inv_def)
  from ts_push_cases(1)[OF this] step_push tsq_inv_push[of t pushed popped x] show ?case by (auto split: if_splits)
next
  case (step_push_failed x t t' pushed popped)
  then have "q_inv (ts_queue t)" by (simp add: tsq_inv_def)
  from ts_push_cases(1)[OF this] step_push_failed show ?case by (auto split: if_splits)
next
  case (step_pushIfRoom x t ok t' pushed popped)
  then have "q_inv (ts_queue t)" by (simp add: tsq_inv_def)
  from ts_push_cases(2)[OF this] step_pushIfRoom tsq_inv_push[of t pushed popped x] show ?case by (auto split: if_splits)
next
  case (step_pop t x t' pushed popped)
  then have inv: "q_inv (ts_queue t)" by (simp add: tsq_inv_def)
  have ne: "q_contents (ts_queue t) \<noteq> []" using step_pop(1) q_hasMessage_iff[OF inv] by (auto simp: q_top_def split: if_splits)
  obtain y ys where "q_contents (ts_queue t) = y # ys" using ne by (cases "q_contents (ts_queue t)") auto
  with q_top_pop_ok[OF inv ne] step_pop show ?case by (auto simp: ts_pop_def tsq_inv_def)
next
  case (step_setCapacity t c t' pushed popped)
  then have inv: "q_inv (ts_queue t)" by (simp add: tsq_inv_def)
  let ?q = "ts_queue t"
  have c: "q_numMessages ?q < c" using step_setCapacity(1) by (simp add: ts_numMessages_def)
  from q_setCapacity_ok[OF inv, of c] c obtain q' where q': "q_setCapacity c ?q = Some q'" "q_capacity q' = c"
      "length (q_cells q') = c" "q_front q' = 0" "q_back q' = q_numMessages ?q"
      "take (q_numMessages ?q) (q_cells q') = map Some (q_contents ?q)" by auto
  have "ring_list (q_cells q') c 0 (length (q_contents ?q)) = map Some (q_contents ?q)"
    using q' c by (subst ring_list_contiguous) auto
  with q_from_ring[of q' c 0 "q_contents ?q"] q' c have "q_inv q' \<and> q_contents q' = q_contents ?q" by simp
  with step_setCapacity q' show ?case by (auto simp: ts_setCapacity_def tsq_inv_def)
qed (simp_all add: tsq_inv_def ts_disable_def ts_enable_def)

lemma tsq_reachable_inv: "tsq_step\<^sup>*\<^sup>* s s' \<Longrightarrow> tsq_inv s \<Longrightarrow> tsq_inv s'"
  by (induction rule: rtranclp_induct) (auto intro: tsq_step_inv)

section \<open>The pool of message buffers\<close>

text \<open>
  Of a buffer only the size and the capacity of its vector matter. How a vector grows is up to the
  library: \<open>grow old n\<close> is the capacity after a \<^verbatim>\<open>resize\<close> to \<open>n\<close>, at least \<open>n\<close>.
\<close>

record Buffer =
  buf_size :: nat
  buf_capacity :: nat

record MessageBufferPool =
  pool_idle :: "Buffer list"
  pool_cachedBytes :: nat

definition MAX_BUFFERS :: nat where "MAX_BUFFERS = 16"
definition MAX_BYTES :: nat where "MAX_BYTES = 16 * 2 ^ 20"

definition pool_acquire :: "(nat \<Rightarrow> nat \<Rightarrow> nat) \<Rightarrow> nat \<Rightarrow> MessageBufferPool \<Rightarrow> Buffer \<times> MessageBufferPool" where
  "pool_acquire grow sz pool =
     (let (buffer, pool) =
            (if pool_idle pool \<noteq> [] then
               let b = last (pool_idle pool)
               in (b, pool\<lparr>pool_idle := butlast (pool_idle pool),
                            pool_cachedBytes := size_sub (pool_cachedBytes pool) (buf_capacity b)\<rparr>)
             else (\<lparr>buf_size = 0, buf_capacity = 0\<rparr>, pool));
          sz = (if sz = 0 then 1 else sz);
          buffer = (if buf_size buffer < sz
                    then \<lparr>buf_size = sz,
                          buf_capacity = (if sz \<le> buf_capacity buffer then buf_capacity buffer
                                          else grow (buf_capacity buffer) sz)\<rparr>
                    else buffer)
      in (buffer, pool))"

definition pool_release :: "Buffer \<Rightarrow> MessageBufferPool \<Rightarrow> MessageBufferPool" where
  "pool_release buffer pool =
     (let capacity = buf_capacity buffer
      in if length (pool_idle pool) < MAX_BUFFERS \<and> capacity \<le> size_sub MAX_BYTES (pool_cachedBytes pool)
         then pool\<lparr>pool_idle := pool_idle pool @ [buffer],
                   pool_cachedBytes := pool_cachedBytes pool + capacity\<rparr>
         else pool)"

definition pool_inv :: "MessageBufferPool \<Rightarrow> bool" where
  "pool_inv pool \<longleftrightarrow> pool_cachedBytes pool = sum_list (map buf_capacity (pool_idle pool))
     \<and> length (pool_idle pool) \<le> MAX_BUFFERS \<and> pool_cachedBytes pool \<le> MAX_BYTES"

lemma pool_acquire_inv:
  assumes "pool_inv pool" "pool_acquire grow sz pool = (b, pool')"
  shows "pool_inv pool'" "sz \<le> buf_size b" "0 < buf_size b"
proof -
  have "pool_inv pool' \<and> sz \<le> buf_size b \<and> 0 < buf_size b"
  proof (cases "pool_idle pool" rule: rev_cases)
    case Nil
    with assms show ?thesis by (auto simp: pool_acquire_def split: if_splits)
  next
    case (snoc bs x)
    with assms show ?thesis by (auto simp: pool_acquire_def pool_inv_def Let_def split: if_splits)
  qed
  then show "pool_inv pool'" "sz \<le> buf_size b" "0 < buf_size b" by blast+
qed

lemma pool_release_inv: "pool_inv pool \<Longrightarrow> pool_inv (pool_release b pool)"
  by (auto simp: pool_inv_def pool_release_def Let_def)

inductive pool_reachable :: "(nat \<Rightarrow> nat \<Rightarrow> nat) \<Rightarrow> MessageBufferPool \<Rightarrow> bool" for grow where
  pool_init: "pool_reachable grow \<lparr>pool_idle = [], pool_cachedBytes = 0\<rparr>"
| pool_acq: "pool_reachable grow p \<Longrightarrow> pool_acquire grow sz p = (b, p') \<Longrightarrow> pool_reachable grow p'"
| pool_rel: "pool_reachable grow p \<Longrightarrow> pool_reachable grow (pool_release b p)"

lemma pool_reachable_inv: "pool_reachable grow p \<Longrightarrow> pool_inv p"
  by (induction rule: pool_reachable.induct)
    (auto simp: pool_inv_def[of "\<lparr>pool_idle = [], pool_cachedBytes = 0\<rparr>"] intro: pool_acquire_inv pool_release_inv)

section \<open>Properties of the queues\<close>



text \<open>
  C26. Shrinking a queue to a capacity that its messages fill leaves it broken: the write index is
  outside of the new array, the queue reports free space, and the next push writes outside of the
  array.
\<close>

theorem queue_shrink_breaks:
  assumes "q_inv q" "0 < c" "c \<le> q_numMessages q"
  shows "\<exists>q'. q_setCapacity c q = Some q' \<and> q_back q' = q_capacity q' \<and> \<not> q_inv q' \<and> q_hasFreeSpace q' \<and> q_push x q' = None"
proof -
  from q_setCapacity_ok[OF assms(1), of c] assms(3) obtain q' where q': "q_setCapacity c q = Some q'" "q_capacity q' = c"
      "length (q_cells q') = c" "q_front q' = 0" "q_back q' = c" by auto
  then have "\<not> q_inv q'" "q_hasFreeSpace q'" "q_push x q' = None"
    by (simp_all add: q_inv_def q_hasFreeSpace_def q_incIdx_def q_push_def mem_put_def Let_def)
  with q' show ?thesis by auto
qed

theorem queue_shrink_breaks_witness:
  "\<exists>q'. q_setCapacity 1 (the (q_push (5 :: nat) (q_new 2))) = Some q' \<and> q_hasFreeSpace q' \<and> q_push 6 q' = None"
proof -
  have q: "q_push (5 :: nat) (q_new 2) = Some \<lparr>q_cells = [Some 5, None], q_capacity = 2, q_front = 0, q_back = 1\<rparr>"
    by code_simp
  have inv: "q_inv (\<lparr>q_cells = [Some 5, None], q_capacity = 2, q_front = 0, q_back = 1\<rparr> :: nat Queue)"
    by (simp add: q_inv_def q_numMessages_def ring_list_def)
  from queue_shrink_breaks[OF inv, of 1 6] q show ?thesis by (auto simp: q_numMessages_def)
qed

text \<open>
  Whatever messages are queued and sent, the pool never keeps more than 16 idle buffers nor
  more than 16 MiB of idle memory, and its byte count is exact; a buffer handed out is never empty
  and has the requested size.
\<close>

theorem pool_bounded:
  assumes "pool_reachable grow p" "pool_acquire grow sz p = (b, p')"
  shows "length (pool_idle p) \<le> MAX_BUFFERS \<and> pool_cachedBytes p \<le> MAX_BYTES
    \<and> pool_cachedBytes p = sum_list (map buf_capacity (pool_idle p))
    \<and> sz \<le> buf_size b \<and> 0 < buf_size b"
  using pool_reachable_inv[OF assms(1)] pool_acquire_inv[OF _ assms(2)] by (auto simp: pool_inv_def)

theorem pool_bounded_witness:
  "5 \<le> buf_size (fst (pool_acquire (\<lambda>c n. n) 5 \<lparr>pool_idle = [], pool_cachedBytes = 0\<rparr>))"
  using pool_bounded[OF pool_init, of "\<lambda>c n. n" 5] by (metis prod.collapse)

end
