(* ===== verification/String_Util.thy ===== *)
theory String_Util
  imports Zcm_Prelude
begin

text \<open>
  The string helpers of \<^verbatim>\<open>util/StringUtil.hpp\<close> (the \<^verbatim>\<open>split\<close> of \<^verbatim>\<open>zcm/url.cpp\<close> is the same code) on lists of
  characters, with what \<^verbatim>\<open>std::getline\<close>, \<^verbatim>\<open>std::string::find\<close> and \<^verbatim>\<open>strcmp\<close> do.
\<close>

section \<open>Splitting and joining\<close>

text \<open>
  Repeated \<^verbatim>\<open>getline(ss, tok, delimiter)\<close>: a call fails when no character is left.
\<close>

function getlines :: "'c \<Rightarrow> 'c list \<Rightarrow> 'c list list" where
  "getlines delimiter s =
     (if s = [] then []
      else takeWhile (\<lambda>c. c \<noteq> delimiter) s # getlines delimiter (tl (dropWhile (\<lambda>c. c \<noteq> delimiter) s)))"
  by pat_completeness auto
termination
proof (relation "measure (\<lambda>(d, s). length s)")
  fix d :: 'c and s :: "'c list" assume "s \<noteq> []"
  then have "length (tl (dropWhile (\<lambda>c. c \<noteq> d) s)) < length s"
    using length_dropWhile_le[of "\<lambda>c. c \<noteq> d" s] by (cases s) auto
  then show "((d, tl (dropWhile (\<lambda>c. c \<noteq> d) s)), (d, s)) \<in> measure (\<lambda>(d, s). length s)" by simp
qed simp

declare getlines.simps [simp del]

definition split :: "'c list \<Rightarrow> 'c \<Rightarrow> 'c list list" where
  "split str delimiter =
     getlines delimiter str @ (if str \<noteq> [] \<and> last str = delimiter then [[]] else [])"

text \<open>\<open>i\<close> is the loop index, \<open>n\<close> the size of the vector.\<close>

fun join_loop :: "nat \<Rightarrow> nat \<Rightarrow> 'c list list \<Rightarrow> 'c list \<Rightarrow> 'c list \<Rightarrow> 'c list" where
  "join_loop i n [] sep ret = ret"
| "join_loop i n (v # vs) sep ret = join_loop (i + 1) n vs sep (ret @ v @ (if i \<noteq> n - 1 then sep else []))"

definition join :: "'c list list \<Rightarrow> 'c list \<Rightarrow> 'c list" where
  "join vec sep = join_loop 0 (length vec) vec sep []"

definition join_char :: "'c list list \<Rightarrow> 'c \<Rightarrow> 'c list" where
  "join_char vec sep = join vec [sep]"

lemma join_loop_intercalate:
  "n = i + length vs \<Longrightarrow> join_loop i n vs sep ret = ret @ concat (map (\<lambda>v. v @ sep) (butlast vs)) @ (if vs = [] then [] else last vs)"
  by (induction vs arbitrary: i ret) auto

lemma join_simps [simp]:
  "join [] sep = []"
  "join [v] sep = v"
  "join (v # w # vs) sep = v @ sep @ join (w # vs) sep"
  by (simp_all add: join_def join_loop_intercalate)

lemma split_Nil [simp]: "split [] d = []"
  by (simp add: split_def getlines.simps)

lemma getlines_no_delim: "d \<notin> set s \<Longrightarrow> s \<noteq> [] \<Longrightarrow> getlines d s = [s]"
proof -
  assume a: "d \<notin> set s" "s \<noteq> []"
  have t: "takeWhile (\<lambda>c. c \<noteq> d) s = s" by (subst takeWhile_eq_all_conv) (use a in auto)
  have dw: "dropWhile (\<lambda>c. c \<noteq> d) s = []" by (subst dropWhile_eq_Nil_conv) (use a in auto)
  have "getlines d [] = []" by (simp add: getlines.simps)
  with a(2) show ?thesis unfolding getlines.simps[of d s] t dw by simp
qed

lemma getlines_delim: "d \<notin> set v \<Longrightarrow> getlines d (v @ d # s) = v # getlines d s"
proof -
  assume a: "d \<notin> set v"
  have "takeWhile (\<lambda>c. c \<noteq> d) (v @ d # s) = v" using a by (induction v) auto
  moreover have "dropWhile (\<lambda>c. c \<noteq> d) (v @ d # s) = d # s" using a by (induction v) auto
  ultimately show ?thesis by (subst getlines.simps) simp
qed

lemma split_no_delim: "d \<notin> set v \<Longrightarrow> v \<noteq> [] \<Longrightarrow> split v d = [v]"
  using getlines_no_delim[of d v] by (auto simp: split_def dest: last_in_set)

lemma split_delim: "d \<notin> set v \<Longrightarrow> split (v @ d # s) d = v # (if s = [] then [[]] else split s d)"
  by (simp add: split_def getlines_delim) (simp add: getlines.simps)

text \<open>Splitting cuts at every delimiter: nothing is lost, and no field holds the delimiter.\<close>

lemma split_join: "join (split s d) [d] = s" "\<forall>v \<in> set (split s d). d \<notin> set v"
proof (induction "length s" arbitrary: s rule: less_induct)
  case less
  {
    case 1
    show ?case
    proof (cases "d \<in> set s")
      case True
      then obtain v s' where s: "s = v @ d # s'" "d \<notin> set v" by (meson split_list_first)
      have sp: "split s d = v # (if s' = [] then [[]] else split s' d)" by (simp add: s split_delim)
      have "s' \<noteq> [] \<Longrightarrow> split s' d \<noteq> []" by (auto simp: split_def getlines.simps[of d s'])
      with sp less(1)[of s'] s show ?thesis by (cases "split s' d") auto
    next
      case False
      then show ?thesis by (cases "s = []") (simp_all add: split_no_delim)
    qed
  next
    case 2
    show ?case
    proof (cases "d \<in> set s")
      case True
      then obtain v s' where s: "s = v @ d # s'" "d \<notin> set v" by (meson split_list_first)
      with less(2)[of s'] show ?thesis by (simp add: split_delim)
    next
      case False
      then show ?thesis by (cases "s = []") (simp_all add: split_no_delim)
    qed
  }
qed

lemma join_split:
  assumes "vs \<noteq> [[]]" "\<forall>v \<in> set vs. d \<notin> set v"
  shows "split (join vs [d]) d = vs"
proof (cases vs)
  case (Cons v ws)
  have "v # ws \<noteq> [[]] \<Longrightarrow> d \<notin> set v \<Longrightarrow> \<forall>v \<in> set ws. d \<notin> set v \<Longrightarrow> split (join (v # ws) [d]) d = v # ws"
  proof (induction ws arbitrary: v)
    case Nil
    then show ?case by (simp add: split_no_delim)
  next
    case (Cons w ws)
    show ?case
    proof (cases "join (w # ws) [d] = []")
      case True
      then have "w = []" "ws = []" by (cases ws; simp)+
      with Cons.prems show ?thesis by (simp add: split_delim)
    next
      case False
      then have "w # ws \<noteq> [[]]" by auto
      with Cons.IH[of w] Cons.prems False show ?thesis by (simp add: split_delim)
    qed
  qed
  with Cons assms show ?thesis by simp
qed simp

section \<open>The other helpers\<close>

definition toUpper :: "string \<Rightarrow> string" where
  "toUpper s = map (\<lambda>c. let k = of_char c :: nat in if 97 \<le> k \<and> k \<le> 122 then char_of (k - 32) else c) s"

fun strip_start :: "string \<Rightarrow> nat \<Rightarrow> nat" where
  "strip_start [] start = start"
| "strip_start (c # cs) start =
     (if c \<noteq> CHR '' '' \<and> c \<noteq> CHR 0x09 then start else strip_start cs (start + 1))"

fun strip_end :: "string \<Rightarrow> nat \<Rightarrow> nat" where
  "strip_end s 0 = 0"
| "strip_end s (Suc e) =
     (if s ! e \<noteq> CHR '' '' \<and> s ! e \<noteq> CHR 0x09 then Suc e else strip_end s e)"

text \<open>\<open>None\<close> is a failed assertion.\<close>

definition strip :: "string \<Rightarrow> string option" where
  "strip s =
     (let start = strip_start s 0
      in if start = length s then Some []
         else let fin = strip_end s (length s)
              in if fin = 0 \<or> \<not> start < fin then None
                 else Some (take (fin - start) (drop start s)))"

definition replace :: "string \<Rightarrow> char \<Rightarrow> char \<Rightarrow> string" where
  "replace s from to = map (\<lambda>c. if c = from then to else c) s"

definition dotsToUnderscores :: "string \<Rightarrow> string" where
  "dotsToUnderscores s = replace s (CHR ''.'') (CHR ''_'')"

definition dotsToSlashes :: "string \<Rightarrow> string" where
  "dotsToSlashes s = replace s (CHR ''.'') (CHR ''/'')"

definition c_str :: "string \<Rightarrow> string" where
  "c_str s = takeWhile (\<lambda>c. c \<noteq> CHR 0x00) s"

definition endswith :: "string \<Rightarrow> string \<Rightarrow> bool" where
  "endswith s suffix =
     (if length s < length suffix then False
      else c_str (drop (length s - length suffix) s) = c_str suffix)"

text \<open>\<^verbatim>\<open>std::string::find\<close>: the first position of a non-empty pattern.\<close>

fun find_sub :: "'c list \<Rightarrow> 'c list \<Rightarrow> nat option" where
  "find_sub pat [] = None"
| "find_sub pat (c # s) =
     (if take (length pat) (c # s) = pat then Some 0 else map_option Suc (find_sub pat s))"

lemma find_sub_first:
  assumes "hd pat \<notin> set pre" "pat \<noteq> []"
  shows "find_sub pat (pre @ pat @ rest) = Some (length pre)"
  using assms
proof (induction pre)
  case Nil
  then show ?case by (cases pat) auto
next
  case (Cons c pre)
  then have "take (length pat) (c # pre @ pat @ rest) \<noteq> pat" by (cases pat) auto
  with Cons show ?case by simp
qed

lemma find_sub_None: "hd pat \<notin> set s \<Longrightarrow> pat \<noteq> [] \<Longrightarrow> find_sub pat s = None"
proof (induction s)
  case (Cons c s)
  then have "take (length pat) (c # s) \<noteq> pat" by (cases pat) auto
  with Cons show ?case by simp
qed simp

abbreviation is_blank :: "char \<Rightarrow> bool" where "is_blank c \<equiv> c = CHR '' '' \<or> c = CHR 0x09"

lemma strip_start_eq: "strip_start s n = n + length (takeWhile is_blank s)"
  by (induction s arbitrary: n) auto

lemma strip_end_eq: "e \<le> length s \<Longrightarrow> strip_end s e = e - length (takeWhile is_blank (rev (take e s)))"
  by (induction e) (auto simp: take_Suc_conv_app_nth)

lemma strip_ok: "strip s = Some (rev (dropWhile is_blank (rev (dropWhile is_blank s))))"
proof (cases "\<forall>c \<in> set s. is_blank c")
  case True
  then have t: "takeWhile is_blank s = s" "dropWhile is_blank s = []"
    by (simp_all add: takeWhile_eq_all_conv dropWhile_eq_Nil_conv)
  then show ?thesis by (simp only: strip_def strip_start_eq Let_def) simp
next
  case False
  define a where "a = takeWhile is_blank s"
  define b where "b = dropWhile is_blank s"
  have s: "s = a @ b" by (simp add: a_def b_def)
  have bn: "b \<noteq> []" using False by (auto simp: b_def dropWhile_eq_Nil_conv)
  then have hb: "\<not> is_blank (hd b)" using hd_dropWhile[of is_blank s] by (simp add: b_def)
  define t where "t = takeWhile is_blank (rev b)"
  have "\<not> (\<forall>c \<in> set (rev b). is_blank c)" using hb bn by (metis hd_in_set set_rev)
  then have tl: "takeWhile is_blank (rev s) = t" "length t < length b"
  proof -
    assume nb: "\<not> (\<forall>c \<in> set (rev b). is_blank c)"
    then obtain x where "x \<in> set (rev b)" "\<not> is_blank x" by blast
    then show "takeWhile is_blank (rev s) = t" unfolding t_def s rev_append by (rule takeWhile_append1)
    have "dropWhile is_blank (rev b) \<noteq> []" unfolding dropWhile_eq_Nil_conv by (rule nb)
    moreover have "length (t @ dropWhile is_blank (rev b)) = length b" unfolding t_def takeWhile_dropWhile_id by simp
    ultimately show "length t < length b" by (cases "dropWhile is_blank (rev b)") simp_all
  qed
  have e: "strip_end s (length s) = length s - length t" using strip_end_eq[of "length s" s] tl(1) by simp
  have st: "strip_start s 0 = length a" by (simp add: strip_start_eq a_def)
  have "strip s = Some (take (length s - length t - length a) (drop (length a) s))"
    using bn tl(2) unfolding strip_def Let_def st e by (simp add: s)
  also have "take (length s - length t - length a) (drop (length a) s) = take (length b - length t) b"
    by (simp add: s)
  also have "\<dots> = rev (dropWhile is_blank (rev b))" by (simp add: t_def dropWhile_eq_drop rev_drop)
  finally show ?thesis by (simp add: b_def)
qed

end
