(* ===== verification/Url.thy ===== *)
theory Url
  imports String_Util
begin

text \<open>
  URLs of transports (\<^verbatim>\<open>zcm/url.cpp\<close>), \<^verbatim>\<open>protocol://address?key=value&key=value\<close>, and the table of
  transports by protocol name (\<^verbatim>\<open>zcm/transport_registrar.c\<close>).
\<close>

section \<open>URLs\<close>

definition ZCM_OPTS_MAX :: nat where "ZCM_OPTS_MAX = 128"

record Opt =
  opt_key :: string
  opt_val :: string

definition Opt_parse :: "string \<Rightarrow> Opt" where
  "Opt_parse s =
     (case find_sub ''='' s of
        None \<Rightarrow> \<lparr>opt_key = s, opt_val = []\<rparr>
      | Some sep \<Rightarrow> \<lparr>opt_key = take sep s, opt_val = drop (sep + 1) s\<rparr>)"

record zcm_url =
  url_url :: string
  url_protocol :: string
  url_address :: string
  url_opts :: "Opt list"

definition zcm_url_create :: "string \<Rightarrow> zcm_url" where
  "zcm_url_create url =
     (let u = \<lparr>url_url = url, url_protocol = [], url_address = [], url_opts = []\<rparr>
      in case find_sub ''://'' url of
        None \<Rightarrow> u\<lparr>url_protocol := url\<rparr>
      | Some sep \<Rightarrow>
          (let u = u\<lparr>url_protocol := take sep url\<rparr>;
               rest = drop (sep + 3) url
           in case find_sub ''?'' rest of
             None \<Rightarrow> u\<lparr>url_address := rest\<rparr>
           | Some sep \<Rightarrow>
               u\<lparr>url_address := take sep rest,
                 url_opts := map Opt_parse (split (drop (sep + 1) rest) (CHR ''&''))\<rparr>))"

text \<open>The options that the C interface hands out.\<close>

definition getZopts :: "zcm_url \<Rightarrow> (string \<times> string) list" where
  "getZopts u =
     (let numopts = min (length (url_opts u)) ZCM_OPTS_MAX
      in map (\<lambda>i. (opt_key (url_opts u ! i), opt_val (url_opts u ! i))) [0..<numopts])"

text \<open>The text of a URL.\<close>

definition opt_text :: "Opt \<Rightarrow> string" where
  "opt_text opt = opt_key opt @ ''='' @ opt_val opt"

definition url_text :: "string \<Rightarrow> string \<Rightarrow> Opt list \<Rightarrow> string" where
  "url_text protocol address opts = protocol @ ''://'' @ address @ ''?'' @ join (map opt_text opts) ''&''"

definition opt_ok :: "Opt \<Rightarrow> bool" where
  "opt_ok opt \<longleftrightarrow> CHR ''='' \<notin> set (opt_key opt) \<and> CHR ''&'' \<notin> set (opt_key opt) \<and> CHR ''&'' \<notin> set (opt_val opt)"

lemma Opt_parse_text: "CHR ''='' \<notin> set (opt_key opt) \<Longrightarrow> Opt_parse (opt_text opt) = opt"
  using find_sub_first[of "''=''" "opt_key opt" "opt_val opt"] by (simp add: Opt_parse_def opt_text_def)

lemma take_drop_sep: "take (length a) (a @ s @ b) = a" "drop (length a + length s) (a @ s @ b) = b"
  by simp_all

lemma zcm_url_create_text:
  assumes "CHR '':'' \<notin> set protocol" "CHR ''?'' \<notin> set address" "\<forall>opt \<in> set opts. opt_ok opt"
  shows "zcm_url_create (url_text protocol address opts) =
    \<lparr>url_url = url_text protocol address opts, url_protocol = protocol, url_address = address, url_opts = opts\<rparr>"
proof -
  let ?o = "join (map opt_text opts) ''&''" and ?url = "url_text protocol address opts"
  have f1: "find_sub ''://'' ?url = Some (length protocol)"
    unfolding url_text_def by (rule find_sub_first) (use assms in simp_all)
  have d1: "drop (length protocol + 3) ?url = address @ ''?'' @ ?o" "take (length protocol) ?url = protocol"
    by (simp_all add: url_text_def)
  have f2: "find_sub ''?'' (address @ ''?'' @ ?o) = Some (length address)"
    by (rule find_sub_first) (use assms in simp_all)
  have "split ?o (CHR ''&'') = map opt_text opts"
  proof (rule join_split)
    show "map opt_text opts \<noteq> [[]]" by (auto simp: opt_text_def)
    show "\<forall>v \<in> set (map opt_text opts). CHR ''&'' \<notin> set v" using assms(3) by (auto simp: opt_text_def opt_ok_def)
  qed
  moreover have "map Opt_parse (map opt_text opts) = opts"
    using assms(3) by (auto simp: opt_ok_def Opt_parse_text intro: map_idI)
  ultimately show ?thesis using f1 f2 d1 by (simp add: zcm_url_create_def Let_def del: find_sub.simps)
qed

section \<open>The transport registrar\<close>

definition ZCM_TRANSPORTS_MAX :: nat where "ZCM_TRANSPORTS_MAX = 128"

text \<open>The three parallel arrays up to \<^verbatim>\<open>t_index\<close>, as one list of entries.\<close>

type_synonym 'c registry = "(string \<times> string \<times> 'c) list"

definition zcm_transport_register :: "string \<Rightarrow> string \<Rightarrow> 'c \<Rightarrow> 'c registry \<Rightarrow> bool \<times> 'c registry" where
  "zcm_transport_register name desc creator reg =
     (if length reg \<ge> ZCM_TRANSPORTS_MAX then (False, reg)
      else if list_ex (\<lambda>(n, d, c). n = name) reg then (False, reg)
      else (True, reg @ [(name, desc, creator)]))"

fun zcm_transport_find :: "string \<Rightarrow> 'c registry \<Rightarrow> 'c option" where
  "zcm_transport_find name [] = None"
| "zcm_transport_find name ((n, d, c) # reg) = (if n = name then Some c else zcm_transport_find name reg)"

definition registry_inv :: "'c registry \<Rightarrow> bool" where
  "registry_inv reg \<longleftrightarrow> distinct (map fst reg) \<and> length reg \<le> ZCM_TRANSPORTS_MAX"

lemma find_append: "zcm_transport_find name (reg @ [(n, d, c)]) =
    (case zcm_transport_find name reg of Some c' \<Rightarrow> Some c' | None \<Rightarrow> if n = name then Some c else None)"
  by (induction reg) auto

lemma find_None: "zcm_transport_find name reg = None \<longleftrightarrow> name \<notin> fst ` set reg"
  by (induction reg) (auto split: if_splits)

lemma name_taken: "list_ex (\<lambda>(n, d, c). n = name) reg \<longleftrightarrow> name \<in> fst ` set reg"
  by (induction reg) auto

lemma register_inv:
  assumes "registry_inv reg" "zcm_transport_register name desc creator reg = (ok, reg')"
  shows "registry_inv reg'"
  using assms by (auto simp: zcm_transport_register_def registry_inv_def name_taken split: if_splits)

section \<open>Properties\<close>

text \<open>
  Splitting a string at a delimiter and joining the fields gives the string back, no field
  contains the delimiter, and splitting joined fields gives the fields.
\<close>

theorem split_join_inverse:
  "join (split s d) [d] = s \<and> (\<forall>v \<in> set (split s d). d \<notin> set v)
    \<and> (vs \<noteq> [[]] \<and> (\<forall>v \<in> set vs. d \<notin> set v) \<longrightarrow> split (join vs [d]) d = vs)"
  using split_join[of s d] join_split[of vs d] by blast

theorem split_join_inverse_witness:
  "split ''a&b&'' (CHR ''&'') = [''a'', ''b'', []] \<and> join (split ''a&b&'' (CHR ''&'')) ''&'' = ''a&b&''"
proof -
  have "split (join [''a'', ''b'', []] ''&'') (CHR ''&'') = [''a'', ''b'', []]"
    using split_join_inverse[of "[]" "CHR ''&''" "[''a'', ''b'', []]"] by simp
  then show ?thesis using split_join_inverse[of "''a&b&''" "CHR ''&''" "[]"] by simp
qed

text \<open>
  C27. Parsing the text of a URL gives back its protocol, its address and its options, for every
  protocol without a colon, address without a question mark, and options whose keys hold no
  separators and whose values hold no ampersand; the C interface hands out the first 128 options.
\<close>

theorem url_roundtrip:
  assumes "CHR '':'' \<notin> set protocol" "CHR ''?'' \<notin> set address" "\<forall>opt \<in> set opts. opt_ok opt"
  shows "url_protocol (zcm_url_create (url_text protocol address opts)) = protocol
    \<and> url_address (zcm_url_create (url_text protocol address opts)) = address
    \<and> getZopts (zcm_url_create (url_text protocol address opts))
        = map (\<lambda>opt. (opt_key opt, opt_val opt)) (take ZCM_OPTS_MAX opts)"
proof -
  have "map (\<lambda>i. (opt_key (opts ! i), opt_val (opts ! i))) [0..<min (length opts) ZCM_OPTS_MAX]
      = map (\<lambda>opt. (opt_key opt, opt_val opt)) (take ZCM_OPTS_MAX opts)"
    by (intro nth_equalityI) auto
  with zcm_url_create_text[OF assms] show ?thesis by (simp add: getZopts_def Let_def)
qed

theorem url_roundtrip_witness:
  "url_address (zcm_url_create ''udpm://239.255.76.67:7667?ttl=0'') = ''239.255.76.67:7667''
    \<and> getZopts (zcm_url_create ''udpm://239.255.76.67:7667?ttl=0'') = [(''ttl'', ''0'')]"
proof -
  have "url_text ''udpm'' ''239.255.76.67:7667'' [\<lparr>opt_key = ''ttl'', opt_val = ''0''\<rparr>] = ''udpm://239.255.76.67:7667?ttl=0''"
    by (simp add: url_text_def opt_text_def)
  with url_roundtrip[of "''udpm''" "''239.255.76.67:7667''" "[\<lparr>opt_key = ''ttl'', opt_val = ''0''\<rparr>]"]
  show ?thesis by (simp add: opt_ok_def ZCM_OPTS_MAX_def)
qed

text \<open>
  The registrar is a map that is never overwritten: a transport whose name is free is found
  under its name after registration unless the table is full, every other name is found as before,
  and a second registration of a name is refused.
\<close>

theorem registrar_lookup:
  assumes "registry_inv reg" "zcm_transport_register name desc creator reg = (ok, reg')"
  shows "registry_inv reg'
    \<and> (ok \<longleftrightarrow> zcm_transport_find name reg = None \<and> length reg < ZCM_TRANSPORTS_MAX)
    \<and> (ok \<longrightarrow> zcm_transport_find name reg' = Some creator)
    \<and> (\<forall>n. n \<noteq> name \<or> \<not> ok \<longrightarrow> zcm_transport_find n reg' = zcm_transport_find n reg)"
  using register_inv[OF assms] assms(2) find_None[of name reg]
  by (auto simp: zcm_transport_register_def name_taken find_append split: if_splits option.splits)

theorem registrar_lookup_witness:
  "zcm_transport_find ''inproc'' (snd (zcm_transport_register ''inproc'' ''in process'' (1 :: nat) [])) = Some 1"
proof -
  obtain ok reg' where r: "zcm_transport_register ''inproc'' ''in process'' (1 :: nat) [] = (ok, reg')" by fastforce
  have "registry_inv ([] :: nat registry)" by (simp add: registry_inv_def)
  from registrar_lookup[OF this r] r show ?thesis by (simp add: ZCM_TRANSPORTS_MAX_def)
qed

end
