(* ===== verification/Inproc.thy ===== *)
theory Inproc
  imports Transport
begin

text \<open>
  The in-process transport (\<^verbatim>\<open>zcm/transport/transport_inproc.cpp\<close>), blocking or not: a queue of copies of
  the messages. Under the lock each method is one step; a blocking receive takes its step when the
  wait for a message ends. The clock is part of the state.
\<close>

definition INPROC_MTU :: nat where "INPROC_MTU = 2 ^ 28"

record 'e inproc =
  in_type :: zcm_type
  in_msgs :: "zcm_msg_t list"
  in_inFlight :: "(cstring \<times> u8 list) option"
  in_clock :: 'e

text \<open>The scan of the channel name; \<open>chan\<close> is the string with its terminator still to come.\<close>

fun inproc_chan_len :: "u8 list \<Rightarrow> nat \<Rightarrow> nat \<Rightarrow> nat" where
  "inproc_chan_len chan chanLen 0 = chanLen"
| "inproc_chan_len chan chanLen (Suc k) =
     (if chanLen \<ge> length chan then chanLen else inproc_chan_len chan (chanLen + 1) k)"

definition inproc_new :: "bool \<Rightarrow> 'e \<Rightarrow> 'e inproc" where
  "inproc_new blocking clock =
     \<lparr>in_type = (if blocking then ZCM_BLOCKING else ZCM_NONBLOCKING), in_msgs = [], in_inFlight = None, in_clock = clock\<rparr>"

definition inproc_sendmsg :: "'e inproc \<Rightarrow> zcm_msg_t \<Rightarrow> int \<times> 'e inproc" where
  "inproc_sendmsg zt msg =
     (let chanLen = inproc_chan_len (msg_channel msg) 0 (ZCM_CHANNEL_MAXLEN + 1)
      in if chanLen > ZCM_CHANNEL_MAXLEN then (ZCM_EINVALID, zt)
         else if msg_len msg > INPROC_MTU then (ZCM_EINVALID, zt)
         else (ZCM_EOK, zt\<lparr>in_msgs := in_msgs zt @ [msg]\<rparr>))"

definition inproc_recvmsg_enable :: "'e inproc \<Rightarrow> cstring \<Rightarrow> bool \<Rightarrow> int \<times> 'e inproc" where
  "inproc_recvmsg_enable zt channel enable = (ZCM_EOK, zt)"

definition inproc_recvmsg :: "('e \<Rightarrow> u64 \<times> 'e) \<Rightarrow> 'e inproc \<Rightarrow> int \<times> zcm_msg_t option \<times> 'e inproc" where
  "inproc_recvmsg utime zt =
     (case in_msgs zt of
        [] \<Rightarrow> (ZCM_EAGAIN, None, zt)
      | m # ms \<Rightarrow>
          (let (now, clock) = utime (in_clock zt);
               msg = m\<lparr>msg_utime := now\<rparr>
           in (ZCM_EOK, Some msg,
               zt\<lparr>in_msgs := ms, in_inFlight := Some (msg_channel msg, msg_buf msg), in_clock := clock\<rparr>)))"

definition inproc_update :: "'e inproc \<Rightarrow> int \<times> 'e inproc" where
  "inproc_update zt = (ZCM_EOK, zt)"

definition inproc_methods :: "('e \<Rightarrow> u64 \<times> 'e) \<Rightarrow> 'e inproc zcm_trans_methods_t" where
  "inproc_methods utime =
     \<lparr>vt_get_mtu = (\<lambda>_. INPROC_MTU),
      vt_sendmsg = (\<lambda>zt msg. Some (inproc_sendmsg zt msg)),
      vt_recvmsg_enable = (\<lambda>zt c en. Some (inproc_recvmsg_enable zt c en)),
      vt_recvmsg = (\<lambda>zt timeout. Some (inproc_recvmsg utime zt)),
      vt_query_drops = None,
      vt_update = Some (\<lambda>zt. Some (inproc_update zt))\<rparr>"

lemma inproc_chan_len_eq: "chanLen \<le> length chan \<Longrightarrow> inproc_chan_len chan chanLen k = min (length chan) (chanLen + k)"
  by (induction k arbitrary: chanLen) auto

lemma inproc_sendmsg_eq:
  "inproc_sendmsg zt msg =
    (if length (msg_channel msg) > ZCM_CHANNEL_MAXLEN \<or> msg_len msg > INPROC_MTU then (ZCM_EINVALID, zt)
     else (ZCM_EOK, zt\<lparr>in_msgs := in_msgs zt @ [msg]\<rparr>))"
  using inproc_chan_len_eq[of 0 "msg_channel msg" "ZCM_CHANNEL_MAXLEN + 1"]
  by (auto simp: inproc_sendmsg_def Let_def simp del: inproc_chan_len.simps)

interpretation inproc: nonblocking_transport "inproc_methods utime" "\<lambda>_. True" for utime
  by unfold_locales
    (auto simp: inproc_methods_def inproc_sendmsg_eq inproc_recvmsg_enable_def inproc_recvmsg_def inproc_update_def
      split: list.splits prod.splits)

text \<open>Sending and receiving several messages.\<close>

definition inproc_send_all :: "zcm_msg_t list \<Rightarrow> 'e inproc \<Rightarrow> 'e inproc" where
  "inproc_send_all ms zt = fold (\<lambda>m zt. snd (inproc_sendmsg zt m)) ms zt"

fun inproc_recv_n :: "('e \<Rightarrow> u64 \<times> 'e) \<Rightarrow> nat \<Rightarrow> 'e inproc \<Rightarrow> (int \<times> zcm_msg_t option) list \<times> 'e inproc" where
  "inproc_recv_n utime 0 zt = ([], zt)"
| "inproc_recv_n utime (Suc n) zt =
     (let (rc, m, zt) = inproc_recvmsg utime zt; (rs, zt) = inproc_recv_n utime n zt in ((rc, m) # rs, zt))"

abbreviation inproc_msg_ok :: "zcm_msg_t \<Rightarrow> bool" where
  "inproc_msg_ok m \<equiv> length (msg_channel m) \<le> ZCM_CHANNEL_MAXLEN \<and> msg_len m \<le> INPROC_MTU"

lemma inproc_send_all_msgs: "in_msgs (inproc_send_all ms zt) = in_msgs zt @ filter inproc_msg_ok ms"
  by (induction ms arbitrary: zt) (auto simp: inproc_send_all_def inproc_sendmsg_eq)

lemma inproc_recv_n_msgs:
  assumes "n \<le> length (in_msgs zt)" "inproc_recv_n utime n zt = (rs, zt')"
  shows "in_msgs zt' = drop n (in_msgs zt)" "map fst rs = replicate n ZCM_EOK"
    "map (\<lambda>r. map_option (\<lambda>m. (msg_channel m, msg_buf m)) (snd r)) rs
      = map (\<lambda>m. Some (msg_channel m, msg_buf m)) (take n (in_msgs zt))"
proof -
  have "in_msgs zt' = drop n (in_msgs zt) \<and> map fst rs = replicate n ZCM_EOK
    \<and> map (\<lambda>r. map_option (\<lambda>m. (msg_channel m, msg_buf m)) (snd r)) rs
      = map (\<lambda>m. Some (msg_channel m, msg_buf m)) (take n (in_msgs zt))"
    using assms
  proof (induction n arbitrary: zt rs)
    case (Suc n)
    then obtain m ms where ms: "in_msgs zt = m # ms" by (cases "in_msgs zt") auto
    obtain rc mo z1 where r1: "inproc_recvmsg utime zt = (rc, mo, z1)" by (metis surj_pair)
    obtain rs' where r2: "inproc_recv_n utime n z1 = (rs', zt')" "rs = (rc, mo) # rs'"
      using Suc.prems(2) r1 by (auto split: prod.splits)
    have z1: "in_msgs z1 = ms" "rc = ZCM_EOK" "map_option (\<lambda>m. (msg_channel m, msg_buf m)) mo = Some (msg_channel m, msg_buf m)"
      using r1 ms by (auto simp: inproc_recvmsg_def split: prod.splits)
    from Suc.IH[OF _ r2(1)] Suc.prems(1) ms z1 r2(2) show ?case by auto
  qed auto
  then show "in_msgs zt' = drop n (in_msgs zt)" "map fst rs = replicate n ZCM_EOK"
    "map (\<lambda>r. map_option (\<lambda>m. (msg_channel m, msg_buf m)) (snd r)) rs
      = map (\<lambda>m. Some (msg_channel m, msg_buf m)) (take n (in_msgs zt))" by blast+
qed

section \<open>Properties\<close>

text \<open>
  C28. The in-process transport delivers the messages it accepts exactly once, in order and with
  their channel and bytes; those it rejects are the ones over the channel length or the MTU; when
  all are received the next receive returns \<^verbatim>\<open>ZCM_EAGAIN\<close>.
\<close>

theorem inproc_delivers:
  assumes "in_msgs zt = []" "inproc_recv_n utime (length (filter inproc_msg_ok ms)) (inproc_send_all ms zt) = (rs, zt')"
  shows "map fst rs = replicate (length rs) ZCM_EOK
    \<and> map (\<lambda>r. map_option (\<lambda>m. (msg_channel m, msg_buf m)) (snd r)) rs
        = map (\<lambda>m. Some (msg_channel m, msg_buf m)) (filter inproc_msg_ok ms)
    \<and> fst (inproc_recvmsg utime zt') = ZCM_EAGAIN"
proof -
  have l: "in_msgs (inproc_send_all ms zt) = filter inproc_msg_ok ms" using inproc_send_all_msgs[of ms zt] assms(1) by simp
  note r = inproc_recv_n_msgs[OF _ assms(2), unfolded l]
  have "length rs = length (filter inproc_msg_ok ms)" using arg_cong[OF r(2), of length] by simp
  with r show ?thesis by (simp add: inproc_recvmsg_def)
qed

theorem inproc_delivers_witness:
  "map fst (fst (inproc_recv_n (\<lambda>t. (t, t + 1)) 1 (inproc_send_all [\<lparr>msg_utime = 0, msg_channel = [65], msg_buf = [1]\<rparr>] (inproc_new True 5))))
    = [ZCM_EOK]"
proof -
  let ?ms = "[\<lparr>msg_utime = 0, msg_channel = [65], msg_buf = [1]\<rparr>]" and ?zt = "inproc_new True 5 :: u64 inproc"
  have f: "length (filter inproc_msg_ok ?ms) = 1" by (simp add: ZCM_CHANNEL_MAXLEN_def INPROC_MTU_def)
  obtain rs zt' where r: "inproc_recv_n (\<lambda>t. (t, t + 1)) (length (filter inproc_msg_ok ?ms)) (inproc_send_all ?ms ?zt) = (rs, zt')"
    by fastforce
  have "in_msgs ?zt = []" by (simp add: inproc_new_def)
  from inproc_delivers[OF this r] have "map fst rs = replicate (length rs) ZCM_EOK" "length rs = 1"
    using f by (auto dest: arg_cong[where f = length])
  with r f show ?thesis by simp
qed

end
