(* ===== verification/Message_Tracker.thy ===== *)
theory Message_Tracker
  imports Complex_Main Zcm_Prelude
begin

text \<open>
  Message trackers (\<^verbatim>\<open>zcm/message_tracker.hpp\<close>): a bounded buffer of the last messages of a channel that
  answers which message is closest to a point in time, and the dispatcher that pairs the messages
  of two trackers; and the second-order filter (\<^verbatim>\<open>zcm/util/Filter.hpp\<close>) with which a tracker estimates
  frequency and jitter. \<^verbatim>\<open>double\<close> values are real numbers here.
\<close>

section \<open>The filter\<close>

record Filter =
  f_obs :: real
  f_x1 :: real
  f_x2 :: real
  f_natFreq :: real
  f_damping :: real
  f_natFreq2 :: real
  f_natFreqDamping_times2 :: real
  f_initialized :: bool

definition filter_reset :: "Filter \<Rightarrow> Filter" where
  "filter_reset f = f\<lparr>f_obs := 0, f_x1 := 0, f_x2 := 0, f_initialized := False\<rparr>"

definition filter_new :: "real \<Rightarrow> real \<Rightarrow> Filter option" where
  "filter_new naturalFreq dampingFactor =
     (if naturalFreq > 0 \<and> dampingFactor > 0
      then Some (filter_reset
             \<lparr>f_obs = 0, f_x1 = 0, f_x2 = 0, f_natFreq = naturalFreq, f_damping = dampingFactor,
              f_natFreq2 = naturalFreq * naturalFreq, f_natFreqDamping_times2 = 2 * naturalFreq * dampingFactor,
              f_initialized = False\<rparr>)
      else None)"

definition convergenceTimeToNatFreq :: "real \<Rightarrow> real \<Rightarrow> real option" where
  "convergenceTimeToNatFreq riseTime damping =
     (if damping > 7 / 10
      then Some ((2230 / 1000 * damping * damping - 78 / 1000 * damping + 112 / 100) / riseTime)
      else None)"

definition filter_initialize :: "real \<Rightarrow> Filter \<Rightarrow> Filter" where
  "filter_initialize obs f = f\<lparr>f_obs := obs, f_x1 := obs / f_natFreq2 f, f_x2 := 0, f_initialized := True\<rparr>"

definition filter_newObs :: "real \<Rightarrow> real \<Rightarrow> Filter \<Rightarrow> Filter" where
  "filter_newObs obs dt f =
     (if \<not> f_initialized f then filter_initialize obs f
      else let dx1 = f_x2 f;
               dx2 = - f_natFreq2 f * f_x1 f - f_natFreqDamping_times2 f * f_x2 f + obs
           in f\<lparr>f_obs := obs, f_x1 := f_x1 f + dt * dx1, f_x2 := f_x2 f + dt * dx2\<rparr>)"

definition lowPass :: "Filter \<Rightarrow> real" where
  "lowPass f = f_natFreq2 f * f_x1 f"

definition bandPass :: "Filter \<Rightarrow> real" where
  "bandPass f = f_natFreqDamping_times2 f * f_x2 f"

definition highPass :: "Filter \<Rightarrow> real" where
  "highPass f = f_obs f - (lowPass f + bandPass f)"

section \<open>Trackers\<close>

definition UINT64_MAX :: u64 where "UINT64_MAX = - 1"

text \<open>
  A tracked message is the message with the receive time that was passed along. The tracker's type
  parameter fixes where a message's time comes from: the virtual \<^verbatim>\<open>getMsgUtime\<close> (\<open>ov_utime\<close>,
  \<^verbatim>\<open>UINT64_MAX\<close> unless overridden), the message's own \<^verbatim>\<open>utime\<close> (\<open>own_utime\<close>), or else the receive time;
  and how messages are interpolated.
\<close>

record 'm tracker_type =
  ov_utime :: "'m \<Rightarrow> u64"
  own_utime :: "'m \<Rightarrow> u64 option"
  interp :: "u64 \<Rightarrow> 'm \<Rightarrow> u64 \<Rightarrow> 'm \<Rightarrow> u64 \<Rightarrow> 'm"

type_synonym 'm tracked = "'m \<times> u64"

definition tracked_getUtime :: "'m tracker_type \<Rightarrow> 'm tracked \<Rightarrow> u64" where
  "tracked_getUtime tt m = (case own_utime tt (fst m) of Some u \<Rightarrow> u | None \<Rightarrow> snd m)"

definition getMsgUtime :: "'m tracker_type \<Rightarrow> 'm tracked \<Rightarrow> u64" where
  "getMsgUtime tt m =
     (let tmp = ov_utime tt (fst m)
      in if tmp \<noteq> UINT64_MAX then tmp else tracked_getUtime tt m)"

text \<open>The default of the virtual \<^verbatim>\<open>interpolate\<close>.\<close>

definition interpolate :: "u64 \<Rightarrow> 'm \<Rightarrow> u64 \<Rightarrow> 'm \<Rightarrow> u64 \<Rightarrow> 'm" where
  "interpolate utimeTarget A utimeA B utimeB = (if utimeTarget - utimeA < utimeB - utimeTarget then A else B)"

record 'm Tracker =
  tr_maxTimeErr_us :: u64
  tr_buf :: "'m tracked list"
  tr_lastHostUtime :: u64
  tr_bufMax :: nat
  tr_thr :: bool
  tr_callbackMsg :: "'m tracked option"
  tr_hzFilter :: Filter
  tr_jitterFilter :: Filter

text \<open>\<open>None\<close> is the failed assertion on \<^verbatim>\<open>maxMsgs\<close> or in the filters.\<close>

definition tracker_new :: "u64 \<Rightarrow> nat \<Rightarrow> bool \<Rightarrow> real \<Rightarrow> 'm Tracker option" where
  "tracker_new maxTimeErr_us maxMsgs has_callback freqEstConvergenceNumMsgs =
     do {
       w1 \<leftarrow> convergenceTimeToNatFreq freqEstConvergenceNumMsgs (8 / 10);
       hz \<leftarrow> filter_new w1 (8 / 10);
       w2 \<leftarrow> convergenceTimeToNatFreq freqEstConvergenceNumMsgs 1;
       jitter \<leftarrow> filter_new w2 1;
       if maxMsgs > 0 then
         Some \<lparr>tr_maxTimeErr_us = maxTimeErr_us, tr_buf = [], tr_lastHostUtime = UINT64_MAX, tr_bufMax = maxMsgs,
               tr_thr = has_callback, tr_callbackMsg = None, tr_hzFilter = hz, tr_jitterFilter = jitter\<rparr>
       else None
     }"

definition tracker_get_last :: "'m Tracker \<Rightarrow> 'm option" where
  "tracker_get_last t = (if tr_buf t \<noteq> [] then Some (fst (last (tr_buf t))) else None)"

text \<open>
  The linear search: the two messages that bracket \<^verbatim>\<open>utime\<close>, with their times.
\<close>

fun bracket_loop ::
    "'m tracker_type \<Rightarrow> u64 \<Rightarrow> 'm tracked list \<Rightarrow> 'm tracked option \<times> u64 \<Rightarrow> 'm tracked option \<times> u64 \<Rightarrow>
       ('m tracked option \<times> u64) \<times> ('m tracked option \<times> u64)" where
  "bracket_loop tt utime [] m0 m1 = (m0, m1)"
| "bracket_loop tt utime (m # ms) m0 m1 =
     (let mUtime = getMsgUtime tt m;
          mUtime = (if mUtime = UINT64_MAX then tracked_getUtime tt m else mUtime);
          m0 = (if mUtime \<le> utime \<and> (fst m0 = None \<or> mUtime > snd m0) then (Some m, mUtime) else m0);
          m1 = (if mUtime \<ge> utime \<and> (fst m1 = None \<or> mUtime < snd m1) then (Some m, mUtime) else m1)
      in bracket_loop tt utime ms m0 m1)"

definition tracker_get_range :: "'m tracker_type \<Rightarrow> u64 \<Rightarrow> u64 \<Rightarrow> 'm tracked list \<Rightarrow> 'm option" where
  "tracker_get_range tt maxTimeErr_us utime ms =
     (let ((m0, m0Utime), (m1, m1Utime)) = bracket_loop tt utime ms (None, 0) (None, UINT64_MAX);
          m0 = (if m0 \<noteq> None \<and> utime - m0Utime > maxTimeErr_us then None else m0);
          m1 = (if m1 \<noteq> None \<and> m1Utime - utime > maxTimeErr_us then None else m1)
      in case (m0, m1) of
        (Some a, Some b) \<Rightarrow>
          if m0Utime = m1Utime then Some (fst a)
          else Some (interp tt utime (fst a) m0Utime (fst b) m1Utime)
      | (Some a, None) \<Rightarrow> Some (fst a)
      | (None, Some b) \<Rightarrow> Some (fst b)
      | (None, None) \<Rightarrow> None)"

definition tracker_get :: "'m tracker_type \<Rightarrow> u64 \<Rightarrow> 'm Tracker \<Rightarrow> 'm option" where
  "tracker_get tt utime t = tracker_get_range tt (tr_maxTimeErr_us t) utime (tr_buf t)"

fun getRange_loop :: "'m tracker_type \<Rightarrow> u64 \<Rightarrow> u64 \<Rightarrow> 'm tracked list \<Rightarrow> 'm list \<Rightarrow> 'm list" where
  "getRange_loop tt utimeA utimeB [] ret = ret"
| "getRange_loop tt utimeA utimeB (m # ms) ret =
     (let mUtime = getMsgUtime tt m
      in getRange_loop tt utimeA utimeB ms (if utimeA \<le> mUtime \<and> mUtime \<le> utimeB then ret @ [fst m] else ret))"

definition tracker_getRange :: "'m tracker_type \<Rightarrow> u64 \<Rightarrow> u64 \<Rightarrow> 'm Tracker \<Rightarrow> 'm list" where
  "tracker_getRange tt utimeA utimeB t = getRange_loop tt utimeA utimeB (tr_buf t) []"

fun expire_front :: "'m tracker_type \<Rightarrow> u64 \<Rightarrow> 'm tracked list \<Rightarrow> nat \<Rightarrow> nat \<times> 'm tracked list" where
  "expire_front tt utime [] ret = (ret, [])"
| "expire_front tt utime (m # ms) ret =
     (if getMsgUtime tt m \<ge> utime then (ret, m # ms) else expire_front tt utime ms (ret + 1))"

fun expire_rest :: "'m tracker_type \<Rightarrow> u64 \<Rightarrow> 'm tracked list \<Rightarrow> 'm tracked list \<Rightarrow> nat \<Rightarrow> nat \<times> 'm tracked list" where
  "expire_rest tt utime kept [] ret = (ret, kept)"
| "expire_rest tt utime kept (m # ms) ret =
     (if getMsgUtime tt m < utime then expire_rest tt utime kept ms (ret + 1)
      else expire_rest tt utime (kept @ [m]) ms ret)"

definition tracker_expireBefore :: "'m tracker_type \<Rightarrow> u64 \<Rightarrow> 'm Tracker \<Rightarrow> nat \<times> 'm Tracker" where
  "tracker_expireBefore tt utime t =
     (let (ret, buf) = expire_front tt utime (tr_buf t) 0;
          (ret, buf) = expire_rest tt utime [] buf ret
      in (ret, t\<lparr>tr_buf := buf\<rparr>))"

definition tracker_filters :: "u64 \<Rightarrow> 'm Tracker \<Rightarrow> 'm Tracker" where
  "tracker_filters hostUtime t =
     (if tr_lastHostUtime t \<noteq> UINT64_MAX then
        if tr_lastHostUtime t > hostUtime then t\<lparr>tr_hzFilter := filter_reset (tr_hzFilter t)\<rparr>
        else let obs = real (unat (hostUtime - tr_lastHostUtime t));
                 hz = filter_newObs obs 1 (tr_hzFilter t);
                 jitterObs = obs - lowPass hz;
                 jitterObsSq = jitterObs * jitterObs
             in t\<lparr>tr_hzFilter := hz, tr_jitterFilter := filter_newObs jitterObsSq 1 (tr_jitterFilter t)\<rparr>
      else t)"

text \<open>\<open>lock_free\<close> tells whether \<^verbatim>\<open>callbackLock.try_lock()\<close> succeeds.\<close>

definition tracker_newMsg :: "'m tracker_type \<Rightarrow> bool \<Rightarrow> 'm \<Rightarrow> u64 \<Rightarrow> 'm Tracker \<Rightarrow> u64 \<times> 'm Tracker" where
  "tracker_newMsg tt lock_free msg hostUtime t =
     (let tmp = (msg, hostUtime);
          tmpUtime = getMsgUtime tt tmp;
          t = (if length (tr_buf t) = tr_bufMax t then t\<lparr>tr_buf := tl (tr_buf t)\<rparr> else t);
          t = tracker_filters hostUtime t;
          t = t\<lparr>tr_lastHostUtime := hostUtime, tr_buf := tr_buf t @ [tmp]\<rparr>;
          t = (if tr_thr t \<and> lock_free then t\<lparr>tr_callbackMsg := Some tmp\<rparr> else t)
      in (tmpUtime, t))"

definition tracker_getHz :: "'m Tracker \<Rightarrow> real" where
  "tracker_getHz t = (let lp = lowPass (tr_hzFilter t) in if lp \<le> 1 / 10 ^ 9 then -1 else 10 ^ 6 / lp)"

definition tracker_lastMsgHostUtime :: "'m Tracker \<Rightarrow> u64" where
  "tracker_lastMsgHostUtime t = (if tr_buf t \<noteq> [] then tr_lastHostUtime t else UINT64_MAX)"

definition tracker_getJitterUs :: "'m Tracker \<Rightarrow> real" where
  "tracker_getJitterUs t = sqrt (lowPass (tr_jitterFilter t))"

text \<open>One round of \<^verbatim>\<open>callbackThreadFunc\<close>: the message handed to the callback, if any.\<close>

definition tracker_callback_step :: "'m Tracker \<Rightarrow> 'm tracked option \<times> 'm Tracker" where
  "tracker_callback_step t = (tr_callbackMsg t, t\<lparr>tr_callbackMsg := None\<rparr>)"

section \<open>The synchronised dispatcher\<close>

record ('m, 'n) dispatcher =
  sd_t1 :: "'m Tracker"
  sd_t2 :: "'n Tracker"

text \<open>
  The loop of \<^verbatim>\<open>process\<close> over the messages of the first tracker from the iterator on: the pairs passed to
  the callback, and the messages that stay.
\<close>

fun process_loop ::
    "'m tracker_type \<Rightarrow> 'n tracker_type \<Rightarrow> 'n Tracker \<Rightarrow> u64 \<Rightarrow> 'm tracked list \<Rightarrow> ('m \<times> 'n) list \<times> 'm tracked list" where
  "process_loop tt1 tt2 t2 t2Utime [] = ([], [])"
| "process_loop tt1 tt2 t2 t2Utime (m # ms) =
     (let t1Utime = getMsgUtime tt1 m;
          (calls, rest) = process_loop tt1 tt2 t2 t2Utime ms
      in if t1Utime \<le> t2Utime then
           case tracker_get tt2 t1Utime t2 of
             Some msg2 \<Rightarrow> ((fst m, msg2) # calls, rest)
           | None \<Rightarrow> (calls, m # rest)
         else (calls, m # rest))"

definition sd_process :: "'m tracker_type \<Rightarrow> 'n tracker_type \<Rightarrow> nat \<Rightarrow> ('m, 'n) dispatcher \<Rightarrow> ('m \<times> 'n) list \<times> ('m, 'n) dispatcher" where
  "sd_process tt1 tt2 t1Begin d =
     (if tr_buf (sd_t2 d) = [] then ([], d)
      else let t2Utime = getMsgUtime tt2 (last (tr_buf (sd_t2 d)));
               buf1 = tr_buf (sd_t1 d);
               (calls, rest) = process_loop tt1 tt2 (sd_t2 d) t2Utime (drop t1Begin buf1)
           in (calls, d\<lparr>sd_t1 := (sd_t1 d)\<lparr>tr_buf := take t1Begin buf1 @ rest\<rparr>\<rparr>))"

definition sd_handle1 ::
    "'m tracker_type \<Rightarrow> 'n tracker_type \<Rightarrow> bool \<Rightarrow> 'm \<Rightarrow> u64 \<Rightarrow> ('m, 'n) dispatcher \<Rightarrow> ('m \<times> 'n) list \<times> ('m, 'n) dispatcher" where
  "sd_handle1 tt1 tt2 lock_free msg hostUtime d =
     (let (utime, t1) = tracker_newMsg tt1 lock_free msg hostUtime (sd_t1 d);
          d = d\<lparr>sd_t1 := t1\<rparr>
      in if tr_buf t1 = [] then ([], d) else sd_process tt1 tt2 (length (tr_buf t1) - 1) d)"

definition sd_handle2 ::
    "'m tracker_type \<Rightarrow> 'n tracker_type \<Rightarrow> bool \<Rightarrow> 'n \<Rightarrow> u64 \<Rightarrow> ('m, 'n) dispatcher \<Rightarrow> ('m \<times> 'n) list \<times> ('m, 'n) dispatcher" where
  "sd_handle2 tt1 tt2 lock_free msg hostUtime d =
     (let (utime, t2) = tracker_newMsg tt2 lock_free msg hostUtime (sd_t2 d)
      in sd_process tt1 tt2 0 (d\<lparr>sd_t2 := t2\<rparr>))"

section \<open>The search finds the closest message\<close>

lemma utime_fallback: "(if getMsgUtime tt m = UINT64_MAX then tracked_getUtime tt m else getMsgUtime tt m) = getMsgUtime tt m"
  by (auto simp: getMsgUtime_def Let_def)

definition is_low :: "'m tracker_type \<Rightarrow> u64 \<Rightarrow> 'm tracked list \<Rightarrow> 'm tracked option \<times> u64 \<Rightarrow> bool" where
  "is_low tt utime ms r \<longleftrightarrow> (case fst r of
       None \<Rightarrow> \<forall>m \<in> set ms. \<not> getMsgUtime tt m \<le> utime
     | Some a \<Rightarrow> a \<in> set ms \<and> snd r = getMsgUtime tt a \<and> getMsgUtime tt a \<le> utime
         \<and> (\<forall>m \<in> set ms. getMsgUtime tt m \<le> utime \<longrightarrow> getMsgUtime tt m \<le> getMsgUtime tt a))"

definition is_high :: "'m tracker_type \<Rightarrow> u64 \<Rightarrow> 'm tracked list \<Rightarrow> 'm tracked option \<times> u64 \<Rightarrow> bool" where
  "is_high tt utime ms r \<longleftrightarrow> (case fst r of
       None \<Rightarrow> \<forall>m \<in> set ms. \<not> utime \<le> getMsgUtime tt m
     | Some a \<Rightarrow> a \<in> set ms \<and> snd r = getMsgUtime tt a \<and> utime \<le> getMsgUtime tt a
         \<and> (\<forall>m \<in> set ms. utime \<le> getMsgUtime tt m \<longrightarrow> getMsgUtime tt a \<le> getMsgUtime tt m))"

lemma is_low_step:
  assumes "is_low tt utime ms r"
  shows "is_low tt utime (ms @ [m])
    (if getMsgUtime tt m \<le> utime \<and> (fst r = None \<or> getMsgUtime tt m > snd r) then (Some m, getMsgUtime tt m) else r)"
  using assms by (auto simp: is_low_def split: option.splits)

lemma is_high_step:
  assumes "is_high tt utime ms r"
  shows "is_high tt utime (ms @ [m])
    (if getMsgUtime tt m \<ge> utime \<and> (fst r = None \<or> getMsgUtime tt m < snd r) then (Some m, getMsgUtime tt m) else r)"
  using assms by (auto simp: is_high_def split: option.splits)

lemma bracket_loop_ok:
  assumes "is_low tt utime pre m0" "is_high tt utime pre m1"
  shows "is_low tt utime (pre @ ms) (fst (bracket_loop tt utime ms m0 m1))
    \<and> is_high tt utime (pre @ ms) (snd (bracket_loop tt utime ms m0 m1))"
  using assms
proof (induction ms arbitrary: pre m0 m1)
  case (Cons m ms)
  from Cons.IH[OF is_low_step[OF Cons.prems(1), of m] is_high_step[OF Cons.prems(2), of m]]
  show ?case by (simp only: bracket_loop.simps Let_def utime_fallback append_assoc append.simps)
qed simp

text \<open>The distance of two times.\<close>

definition tdist :: "u64 \<Rightarrow> u64 \<Rightarrow> u64" where
  "tdist a u = (if a \<le> u then u - a else a - u)"

lemma sub_mono_low: "a \<le> b \<Longrightarrow> b \<le> u \<Longrightarrow> u - b \<le> u - (a :: u64)"
  by (simp add: word_le_nat_alt unat_sub)

lemma sub_mono_high: "u \<le> a \<Longrightarrow> a \<le> b \<Longrightarrow> a - u \<le> b - (u :: u64)"
  by (simp add: word_le_nat_alt unat_sub)

lemma tdist_low: "a \<le> u \<Longrightarrow> tdist a u = u - a"
  by (simp add: tdist_def)

lemma tdist_high: "u \<le> a \<Longrightarrow> tdist a u = a - u"
  by (auto simp: tdist_def)

lemma is_low_dist: "is_low tt utime ms (Some a, ta) \<Longrightarrow> m \<in> set ms \<Longrightarrow> getMsgUtime tt m \<le> utime \<Longrightarrow>
    utime - ta \<le> tdist (getMsgUtime tt m) utime"
  by (auto simp: is_low_def tdist_low intro: sub_mono_low)

lemma is_high_dist: "is_high tt utime ms (Some a, ta) \<Longrightarrow> m \<in> set ms \<Longrightarrow> utime \<le> getMsgUtime tt m \<Longrightarrow>
    ta - utime \<le> tdist (getMsgUtime tt m) utime"
  by (auto simp: is_high_def tdist_high intro: sub_mono_high)

definition closest :: "'m tracker_type \<Rightarrow> u64 \<Rightarrow> u64 \<Rightarrow> 'm tracked list \<Rightarrow> 'm tracked \<Rightarrow> bool" where
  "closest tt err utime ms m \<longleftrightarrow> m \<in> set ms \<and> tdist (getMsgUtime tt m) utime \<le> err
     \<and> (\<forall>m' \<in> set ms. tdist (getMsgUtime tt m) utime \<le> tdist (getMsgUtime tt m') utime)"

text \<open>A bracket that is close enough to be used.\<close>

definition in_low :: "u64 \<Rightarrow> u64 \<Rightarrow> 'm tracked option \<times> u64 \<Rightarrow> bool" where
  "in_low err utime r \<longleftrightarrow> fst r \<noteq> None \<and> utime - snd r \<le> err"

definition in_high :: "u64 \<Rightarrow> u64 \<Rightarrow> 'm tracked option \<times> u64 \<Rightarrow> bool" where
  "in_high err utime r \<longleftrightarrow> fst r \<noteq> None \<and> snd r - utime \<le> err"

lemma low_out:
  assumes "is_low tt utime ms r" "\<not> in_low err utime r" "m \<in> set ms" "getMsgUtime tt m \<le> utime"
  shows "err < tdist (getMsgUtime tt m) utime"
proof (cases "fst r")
  case None
  with assms show ?thesis by (simp add: is_low_def)
next
  case (Some a)
  with assms(2) have "err < utime - snd r" by (simp add: in_low_def not_le)
  also have "\<dots> \<le> tdist (getMsgUtime tt m) utime"
    using is_low_dist[of tt utime ms a "snd r" m] assms Some by (cases r) simp
  finally show ?thesis .
qed

lemma high_out:
  assumes "is_high tt utime ms r" "\<not> in_high err utime r" "m \<in> set ms" "utime \<le> getMsgUtime tt m"
  shows "err < tdist (getMsgUtime tt m) utime"
proof (cases "fst r")
  case None
  with assms show ?thesis by (simp add: is_high_def)
next
  case (Some a)
  with assms(2) have "err < snd r - utime" by (simp add: in_high_def not_le)
  also have "\<dots> \<le> tdist (getMsgUtime tt m) utime"
    using is_high_dist[of tt utime ms a "snd r" m] assms Some by (cases r) simp
  finally show ?thesis .
qed

lemma low_closest:
  assumes low: "is_low tt utime ms (Some a, t0)" and high: "is_high tt utime ms r1"
    and in0: "utime - t0 \<le> err" and less: "in_high err utime r1 \<Longrightarrow> utime - t0 \<le> snd r1 - utime"
  shows "closest tt err utime ms a"
proof -
  have a: "a \<in> set ms" "tdist (getMsgUtime tt a) utime = utime - t0"
    using low by (auto simp: is_low_def tdist_low)
  have "utime - t0 \<le> tdist (getMsgUtime tt m) utime" if m: "m \<in> set ms" for m
  proof (cases "getMsgUtime tt m \<le> utime")
    case True
    then show ?thesis using is_low_dist[OF low m] by simp
  next
    case False
    then have h: "utime \<le> getMsgUtime tt m" by simp
    show ?thesis
    proof (cases "in_high err utime r1")
      case True
      then obtain b t1 where "r1 = (Some b, t1)" by (cases r1) (auto simp: in_high_def)
      with is_high_dist[of tt utime ms b t1 m] high m h less[OF True] show ?thesis by (auto intro: order_trans)
    next
      case False
      from high_out[OF high this m h] in0 show ?thesis by (meson less_imp_le order_trans)
    qed
  qed
  with a in0 show ?thesis by (simp add: closest_def)
qed

lemma high_closest:
  assumes high: "is_high tt utime ms (Some b, t1)" and low: "is_low tt utime ms r0"
    and in1: "t1 - utime \<le> err" and less: "in_low err utime r0 \<Longrightarrow> t1 - utime \<le> utime - snd r0"
  shows "closest tt err utime ms b"
proof -
  have b: "b \<in> set ms" "tdist (getMsgUtime tt b) utime = t1 - utime"
    using high by (auto simp: is_high_def tdist_high)
  have "t1 - utime \<le> tdist (getMsgUtime tt m) utime" if m: "m \<in> set ms" for m
  proof (cases "utime \<le> getMsgUtime tt m")
    case True
    then show ?thesis using is_high_dist[OF high m] by simp
  next
    case False
    then have l: "getMsgUtime tt m \<le> utime" by simp
    show ?thesis
    proof (cases "in_low err utime r0")
      case True
      then obtain a t0 where "r0 = (Some a, t0)" by (cases r0) (auto simp: in_low_def)
      with is_low_dist[of tt utime ms a t0 m] low m l less[OF True] show ?thesis by (auto intro: order_trans)
    next
      case False
      from low_out[OF low this m l] in1 show ?thesis by (meson less_imp_le order_trans)
    qed
  qed
  with b in1 show ?thesis by (simp add: closest_def)
qed

lemma tracker_get_range_cases:
  assumes "bracket_loop tt utime ms (None, 0) (None, UINT64_MAX) = (r0, r1)" "interp tt = interpolate"
  shows "tracker_get_range tt err utime ms =
    (if in_low err utime r0 then
       if in_high err utime r1 then
         if snd r0 = snd r1 then map_option fst (fst r0)
         else Some (interpolate utime (fst (the (fst r0))) (snd r0) (fst (the (fst r1))) (snd r1))
       else map_option fst (fst r0)
     else if in_high err utime r1 then map_option fst (fst r1) else None)"
  unfolding tracker_get_range_def assms(1)
  by (cases r0; cases r1; cases "fst r0"; cases "fst r1")
    (simp_all add: in_low_def in_high_def assms(2) not_less[symmetric])

lemma brackets_meet:
  assumes "is_low tt utime ms (Some a, t)" "is_high tt utime ms (Some b, t)"
  shows "t = utime"
  using assms by (auto simp: is_low_def is_high_def intro: order_antisym)

lemma tracker_get_range_closest:
  assumes "interp tt = interpolate"
  shows "case tracker_get_range tt err utime ms of
      None \<Rightarrow> \<forall>m \<in> set ms. err < tdist (getMsgUtime tt m) utime
    | Some r \<Rightarrow> \<exists>m. fst m = r \<and> closest tt err utime ms m"
proof -
  obtain r0 r1 where br: "bracket_loop tt utime ms (None, 0) (None, UINT64_MAX) = (r0, r1)"
    by (cases "bracket_loop tt utime ms (None, 0) (None, UINT64_MAX)")
  have "is_low tt utime [] (None, 0)" "is_high tt utime [] (None, UINT64_MAX)" by (simp_all add: is_low_def is_high_def)
  from bracket_loop_ok[OF this, of ms] br have low: "is_low tt utime ms r0" and high: "is_high tt utime ms r1"
    by simp_all
  note res = tracker_get_range_cases[OF br assms, of err]
  consider (none) "\<not> in_low err utime r0" "\<not> in_high err utime r1"
    | (first) a t0 where "r0 = (Some a, t0)" "in_low err utime r0"
        "in_high err utime r1 \<Longrightarrow> t0 = snd r1 \<or> utime - t0 < snd r1 - utime"
    | (second) b t1 where "r1 = (Some b, t1)" "in_high err utime r1"
        "in_low err utime r0 \<Longrightarrow> snd r0 \<noteq> t1 \<and> \<not> utime - snd r0 < t1 - utime"
    by (cases r0; cases r1; cases "fst r0"; cases "fst r1") (auto simp: in_low_def in_high_def)
  then show ?thesis
  proof cases
    case none
    have "err < tdist (getMsgUtime tt m) utime" if "m \<in> set ms" for m
      using low_out[OF low none(1) that] high_out[OF high none(2) that] linear[of "getMsgUtime tt m" utime] by blast
    with none show ?thesis by (simp add: res)
  next
    case first
    have "utime - t0 \<le> snd r1 - utime" if "in_high err utime r1"
    proof (cases "t0 = snd r1")
      case True
      with that first(1) low high have "t0 = utime"
        by (cases r1) (auto simp: in_high_def intro: brackets_meet)
      with True show ?thesis by simp
    qed (use first(3)[OF that] in simp)
    from low_closest[OF low[unfolded first(1)] high _ this] first(1,2) have "closest tt err utime ms a"
      by (simp add: in_low_def)
    moreover from first have "tracker_get_range tt err utime ms = Some (fst a)" by (auto simp: res interpolate_def)
    ultimately show ?thesis by (auto simp del: split_paired_Ex)
  next
    case second
    from high_closest[OF high[unfolded second(1)] low] second have "closest tt err utime ms b"
      by (simp add: in_high_def not_less)
    moreover from second have "tracker_get_range tt err utime ms = Some (fst b)" by (auto simp: res interpolate_def)
    ultimately show ?thesis by (auto simp del: split_paired_Ex)
  qed
qed

section \<open>Ranges and expiry\<close>

lemma getRange_loop_filter:
  "getRange_loop tt a b ms ret = ret @ map fst (filter (\<lambda>m. a \<le> getMsgUtime tt m \<and> getMsgUtime tt m \<le> b) ms)"
  by (induction ms arbitrary: ret) (auto simp: Let_def)

lemma expire_rest_filter:
  "expire_rest tt u kept ms ret =
     (ret + length (filter (\<lambda>m. getMsgUtime tt m < u) ms), kept @ filter (\<lambda>m. u \<le> getMsgUtime tt m) ms)"
  by (induction tt u kept ms ret rule: expire_rest.induct) (auto simp: not_less)

lemma expire_front_rest:
  "(case expire_front tt u ms ret of (ret, buf) \<Rightarrow> expire_rest tt u [] buf ret) =
     (ret + length (filter (\<lambda>m. getMsgUtime tt m < u) ms), filter (\<lambda>m. u \<le> getMsgUtime tt m) ms)"
  by (induction tt u ms ret rule: expire_front.induct) (auto simp: expire_rest_filter not_less not_le)

lemma expireBefore_eq:
  "tracker_expireBefore tt u t =
     (length (filter (\<lambda>m. getMsgUtime tt m < u) (tr_buf t)), t\<lparr>tr_buf := filter (\<lambda>m. u \<le> getMsgUtime tt m) (tr_buf t)\<rparr>)"
  using expire_front_rest[of tt u "tr_buf t" 0]
  by (simp add: tracker_expireBefore_def split: prod.splits)

section \<open>The buffer holds the last messages\<close>

lemma tracker_filters_frame [simp]:
  "tr_buf (tracker_filters h t) = tr_buf t" "tr_bufMax (tracker_filters h t) = tr_bufMax t"
  "tr_lastHostUtime (tracker_filters h t) = tr_lastHostUtime t" "tr_thr (tracker_filters h t) = tr_thr t"
  "tr_maxTimeErr_us (tracker_filters h t) = tr_maxTimeErr_us t"
  by (auto simp: tracker_filters_def Let_def)

lemma tracker_newMsg_frame:
  "tr_bufMax (snd (tracker_newMsg tt l m h t)) = tr_bufMax t"
  "tr_buf (snd (tracker_newMsg tt l m h t)) =
     (if length (tr_buf t) = tr_bufMax t then tl (tr_buf t) else tr_buf t) @ [(m, h)]"
  "tr_lastHostUtime (snd (tracker_newMsg tt l m h t)) = h"
  by (auto simp: tracker_newMsg_def Let_def)

definition newMsgs :: "'m tracker_type \<Rightarrow> ('m \<times> u64) list \<Rightarrow> 'm Tracker \<Rightarrow> 'm Tracker" where
  "newMsgs tt ms t = fold (\<lambda>(m, h) t. snd (tracker_newMsg tt True m h t)) ms t"

lemma newMsgs_snoc: "newMsgs tt (ms @ [(m, h)]) t = snd (tracker_newMsg tt True m h (newMsgs tt ms t))"
  by (simp add: newMsgs_def)

lemma newMsgs_buf:
  assumes "tr_bufMax t > 0" "tr_buf t = []"
  shows "tr_buf (newMsgs tt ms t) = drop (length ms - tr_bufMax t) ms \<and> tr_bufMax (newMsgs tt ms t) = tr_bufMax t"
proof (induction ms rule: rev_induct)
  case Nil
  then show ?case using assms by (simp add: newMsgs_def)
next
  case (snoc x ms)
  obtain m h where x: "x = (m, h)" by (cases x)
  have len: "length ms - (length ms - tr_bufMax t) = tr_bufMax t \<longleftrightarrow> tr_bufMax t \<le> length ms" by arith
  show ?case
  proof (cases "tr_bufMax t \<le> length ms")
    case True
    then have "Suc (length ms) - tr_bufMax t = Suc (length ms - tr_bufMax t)" by arith
    with True assms snoc x show ?thesis by (simp add: newMsgs_snoc tracker_newMsg_frame tl_drop drop_Suc)
  qed (use snoc x len in \<open>simp add: newMsgs_snoc tracker_newMsg_frame\<close>)
qed

lemma tracker_new_Some:
  assumes "tracker_new err n cb c = Some t"
  shows "tr_bufMax t = n" "n > 0" "tr_buf t = []" "tr_lastHostUtime t = UINT64_MAX" "tr_maxTimeErr_us t = err"
    "\<not> f_initialized (tr_hzFilter t)" "\<not> f_initialized (tr_jitterFilter t)"
    "f_natFreq2 (tr_hzFilter t) > 0" "f_natFreq2 (tr_jitterFilter t) > 0"
  using assms
  by (auto simp: tracker_new_def filter_new_def filter_reset_def split: Option.bind_splits if_splits)

section \<open>Frequency and jitter of periodic messages\<close>

text \<open>A filter at rest on a constant observation.\<close>

definition filter_rest :: "real \<Rightarrow> Filter \<Rightarrow> bool" where
  "filter_rest obs f \<longleftrightarrow> f_initialized f \<and> f_natFreq2 f > 0 \<and> f_x1 f = obs / f_natFreq2 f \<and> f_x2 f = 0"

lemma filter_rest_lowPass: "filter_rest obs f \<Longrightarrow> lowPass f = obs"
  by (simp add: filter_rest_def lowPass_def)

lemma filter_rest_newObs:
  assumes "filter_rest obs f \<or> \<not> f_initialized f \<and> f_natFreq2 f > 0"
  shows "filter_rest obs (filter_newObs obs dt f)"
  using assms by (auto simp: filter_rest_def filter_newObs_def filter_initialize_def Let_def)

definition periodic :: "u64 \<Rightarrow> u64 \<Rightarrow> (nat \<Rightarrow> 'm) \<Rightarrow> nat \<Rightarrow> ('m \<times> u64) list" where
  "periodic h p msg n = map (\<lambda>i. (msg i, h + of_nat i * p)) [0..<n]"

lemma periodic_Suc: "periodic h p msg (Suc n) = periodic h p msg n @ [(msg n, h + of_nat n * p)]"
  by (simp add: periodic_def)

lemma tracker_filters_rest:
  assumes "filter_rest (real (unat p)) (tr_hzFilter t) \<or> \<not> f_initialized (tr_hzFilter t) \<and> f_natFreq2 (tr_hzFilter t) > 0"
    and "filter_rest 0 (tr_jitterFilter t) \<or> \<not> f_initialized (tr_jitterFilter t) \<and> f_natFreq2 (tr_jitterFilter t) > 0"
    and "tr_lastHostUtime t \<noteq> UINT64_MAX" "tr_lastHostUtime t \<le> h" "h - tr_lastHostUtime t = p"
  shows "filter_rest (real (unat p)) (tr_hzFilter (tracker_filters h t)) \<and> filter_rest 0 (tr_jitterFilter (tracker_filters h t))"
proof -
  have hz: "filter_rest (real (unat p)) (filter_newObs (real (unat p)) 1 (tr_hzFilter t))"
    by (rule filter_rest_newObs[OF assms(1)])
  moreover have "filter_rest 0 (filter_newObs 0 1 (tr_jitterFilter t))" by (rule filter_rest_newObs[OF assms(2)])
  moreover have "\<not> tr_lastHostUtime t > h" using assms(4) by (rule leD)
  ultimately show ?thesis
    using assms(3,5) filter_rest_lowPass[OF hz] by (simp add: tracker_filters_def Let_def)
qed

lemma newMsg_filters:
  "tr_hzFilter (snd (tracker_newMsg tt l m h t)) = tr_hzFilter (tracker_filters h t)"
  "tr_jitterFilter (snd (tracker_newMsg tt l m h t)) = tr_jitterFilter (tracker_filters h t)"
  by (auto simp: tracker_newMsg_def tracker_filters_def Let_def)

lemma periodic_times:
  fixes h p :: u64
  assumes "unat h + Suc k * unat p < 2 ^ 64 - 1"
  shows "h + of_nat k * p \<noteq> UINT64_MAX" "h + of_nat k * p \<le> h + of_nat (Suc k) * p"
    "h + of_nat (Suc k) * p - (h + of_nat k * p) = p"
proof -
  have u: "unat (h + of_nat j * p) = unat h + j * unat p" if "j \<le> Suc k" for j
  proof -
    have "j * unat p \<le> Suc k * unat p" using that by (rule mult_le_mono1)
    with assms have b: "unat h + j * unat p < 2 ^ 64" by linarith
    have "h + of_nat j * p = of_nat (unat h + j * unat p)" by simp
    then show ?thesis using b by (simp add: unat_of_nat del: of_nat_add of_nat_mult word_of_nat_eq_iff)
  qed
  have m: "unat UINT64_MAX = 2 ^ 64 - 1" by (simp add: UINT64_MAX_def unsigned_minus_1_eq_mask mask_eq_exp_minus_1)
  show "h + of_nat k * p \<noteq> UINT64_MAX"
  proof
    assume "h + of_nat k * p = UINT64_MAX"
    then have "unat h + k * unat p = 2 ^ 64 - 1" using u[of k] m by simp
    with assms show False by (simp add: algebra_simps)
  qed
  show "h + of_nat k * p \<le> h + of_nat (Suc k) * p" using u[of k] u[of "Suc k"] by (simp add: word_le_nat_alt)
  show "h + of_nat (Suc k) * p - (h + of_nat k * p) = p" by (simp add: algebra_simps)
qed

lemma periodic_rest:
  assumes "tracker_new err n cb c = Some t" "unat h + k * unat p < 2 ^ 64 - 1" "k > 0"
  shows "let t' = newMsgs tt (periodic h p msg (Suc k)) t
    in filter_rest (real (unat p)) (tr_hzFilter t') \<and> filter_rest 0 (tr_jitterFilter t')
       \<and> tr_lastHostUtime t' = h + of_nat k * p"
  using assms(2,3)
proof (induction k)
  case (Suc k)
  note new = tracker_new_Some[OF assms(1)]
  let ?t = "newMsgs tt (periodic h p msg (Suc k)) t"
  note pt = periodic_times[OF Suc.prems(1)]
  have step: "newMsgs tt (periodic h p msg (Suc (Suc k))) t
      = snd (tracker_newMsg tt True (msg (Suc k)) (h + of_nat (Suc k) * p) ?t)"
    by (simp only: periodic_Suc[of _ _ _ "Suc k"] newMsgs_snoc)
  have last: "tr_lastHostUtime ?t = h + of_nat k * p"
    by (simp only: periodic_Suc newMsgs_snoc tracker_newMsg_frame)
  have "filter_rest (real (unat p)) (tr_hzFilter ?t) \<and> filter_rest 0 (tr_jitterFilter ?t)
      \<or> k = 0"
    using Suc by (cases k) (auto simp: Let_def)
  moreover have "tr_hzFilter ?t = tr_hzFilter t \<and> tr_jitterFilter ?t = tr_jitterFilter t" if "k = 0"
    using that new by (simp add: periodic_def newMsgs_def newMsg_filters tracker_filters_def)
  ultimately have "filter_rest (real (unat p)) (tr_hzFilter (tracker_filters (h + of_nat (Suc k) * p) ?t))
      \<and> filter_rest 0 (tr_jitterFilter (tracker_filters (h + of_nat (Suc k) * p) ?t))"
    using new(6-9) by (intro tracker_filters_rest) (use last pt in auto)
  then show ?case by (simp only: step newMsg_filters tracker_newMsg_frame Let_def simp_thms)
qed simp

section \<open>Properties\<close>

text \<open>C20. Closest message: with the default interpolation, \<^verbatim>\<open>get(utime)\<close> returns a buffered message whose time is
  within the tolerance and that no other buffered message beats; it returns nothing exactly when every
  message is outside the tolerance.\<close>

theorem tracker_get_closest:
  assumes "interp tt = interpolate"
  shows "case tracker_get tt utime t of
      None \<Rightarrow> \<forall>m \<in> set (tr_buf t). tr_maxTimeErr_us t < tdist (getMsgUtime tt m) utime
    | Some r \<Rightarrow> \<exists>m. fst m = r \<and> closest tt (tr_maxTimeErr_us t) utime (tr_buf t) m"
  unfolding tracker_get_def by (rule tracker_get_range_closest[OF assms])

definition plain_type :: "nat tracker_type" where
  "plain_type = \<lparr>ov_utime = (\<lambda>m. UINT64_MAX), own_utime = (\<lambda>m. None), interp = interpolate\<rparr>"

definition sample_tracker :: "nat Tracker" where
  "sample_tracker = \<lparr>tr_maxTimeErr_us = 10, tr_buf = [(1, 100), (2, 120), (3, 110)], tr_lastHostUtime = 110, tr_bufMax = 4,
     tr_thr = False, tr_callbackMsg = None,
     tr_hzFilter = \<lparr>f_obs = 0, f_x1 = 0, f_x2 = 0, f_natFreq = 1, f_damping = 1, f_natFreq2 = 1, f_natFreqDamping_times2 = 2, f_initialized = False\<rparr>,
     tr_jitterFilter = \<lparr>f_obs = 0, f_x1 = 0, f_x2 = 0, f_natFreq = 1, f_damping = 1, f_natFreq2 = 1, f_natFreqDamping_times2 = 2, f_initialized = False\<rparr>\<rparr>"

lemma plain_type_utime: "getMsgUtime plain_type m = snd m"
  by (simp add: getMsgUtime_def plain_type_def tracked_getUtime_def)

lemma sample_get: "tracker_get plain_type 107 sample_tracker = Some 3"
  unfolding tracker_get_def tracker_get_range_def
  by (simp add: sample_tracker_def plain_type_utime Let_def UINT64_MAX_def) (simp add: plain_type_def interpolate_def)

theorem tracker_get_closest_witness:
  "tracker_get plain_type 107 sample_tracker = Some 3
     \<and> (\<exists>m. fst m = 3 \<and> closest plain_type 10 107 (tr_buf sample_tracker) m)"
proof -
  have "interp plain_type = interpolate" "tr_maxTimeErr_us sample_tracker = 10"
    by (simp_all add: plain_type_def sample_tracker_def)
  with tracker_get_closest[where tt = plain_type and utime = 107 and t = sample_tracker] sample_get show ?thesis by simp
qed

text \<open>Ranges and expiry: \<^verbatim>\<open>getRange\<close> returns the messages of the closed interval in buffer order; \<^verbatim>\<open>expireBefore\<close>
  removes exactly the messages older than its argument, wherever they are in the buffer, reports how many
  those were, and afterwards \<^verbatim>\<open>getRange\<close> gives nothing before that time and everything it gave after it.\<close>

theorem tracker_range_expire:
  "tracker_getRange tt a b t = map fst (filter (\<lambda>m. a \<le> getMsgUtime tt m \<and> getMsgUtime tt m \<le> b) (tr_buf t))
   \<and> (case tracker_expireBefore tt u t of (n, t') \<Rightarrow>
        t' = t\<lparr>tr_buf := filter (\<lambda>m. u \<le> getMsgUtime tt m) (tr_buf t)\<rparr>
        \<and> n + length (tr_buf t') = length (tr_buf t)
        \<and> tracker_getRange tt a b t' = tracker_getRange tt (max a u) b t)"
proof -
  have "length (filter (\<lambda>m. getMsgUtime tt m < u) xs) + length (filter (\<lambda>m. u \<le> getMsgUtime tt m) xs) = length xs" for xs
    using sum_length_filter_compl[of "\<lambda>m. getMsgUtime tt m < u" xs] by (simp add: not_less)
  then show ?thesis
    by (auto simp: tracker_getRange_def getRange_loop_filter expireBefore_eq intro: filter_cong arg_cong[where f = "map fst"])
qed

text \<open>The buffer of a new tracker holds, after any messages, the last \<^verbatim>\<open>maxMsgs\<close> of them in order of arrival,
  and \<^verbatim>\<open>get()\<close> returns the last message.\<close>

theorem tracker_keeps_last:
  assumes "tracker_new err n cb c = Some t"
  shows "tr_buf (newMsgs tt ms t) = drop (length ms - n) ms
    \<and> tracker_get_last (newMsgs tt ms t) = (if ms = [] then None else Some (fst (last ms)))"
proof -
  note new = tracker_new_Some[OF assms]
  have "tr_buf (newMsgs tt ms t) = drop (length ms - n) ms" using newMsgs_buf[of t tt ms] new by simp
  moreover have "ms \<noteq> [] \<Longrightarrow> length ms - n < length ms" using new(2) by simp
  ultimately show ?thesis by (auto simp: tracker_get_last_def not_le)
qed

lemma tracker_new_20: "\<exists>t :: nat Tracker. tracker_new 10 2 False 20 = Some t"
  by (simp add: tracker_new_def convergenceTimeToNatFreq_def filter_new_def)

theorem tracker_keeps_last_witness:
  "\<exists>t :: nat Tracker. tracker_new 10 2 False 20 = Some t \<and> tr_buf (newMsgs plain_type [(1, 10), (2, 20), (3, 30)] t) = [(2, 20), (3, 30)]"
  using tracker_new_20 tracker_keeps_last[of 10 2 False 20 _ plain_type "[(1, 10), (2, 20), (3, 30)]"] by fastforce



text \<open>The messages of the first tracker that the dispatcher can pair now.\<close>

definition sd_ready :: "'m tracker_type \<Rightarrow> 'n tracker_type \<Rightarrow> 'n Tracker \<Rightarrow> 'm tracked \<Rightarrow> bool" where
  "sd_ready tt1 tt2 t2 m \<longleftrightarrow> getMsgUtime tt1 m \<le> getMsgUtime tt2 (last (tr_buf t2)) \<and> tracker_get tt2 (getMsgUtime tt1 m) t2 \<noteq> None"

lemma process_loop_partition:
  "process_loop tt1 tt2 t2 (getMsgUtime tt2 (last (tr_buf t2))) ms =
     (map (\<lambda>m. (fst m, the (tracker_get tt2 (getMsgUtime tt1 m) t2))) (filter (sd_ready tt1 tt2 t2) ms),
      filter (\<lambda>m. \<not> sd_ready tt1 tt2 t2 m) ms)"
  by (induction ms) (auto simp: sd_ready_def Let_def split: option.splits)

lemma process_loop_idem: "filter (sd_ready tt1 tt2 t2) (filter (\<lambda>m. \<not> sd_ready tt1 tt2 t2 m) ms) = []"
  by (induction ms) auto

text \<open>C19. Dispatch: when a message of the second type arrives, the callback gets, in order, each buffered message of the
  first type that is not newer than the second tracker's latest and has a partner, with the partner that
  \<^verbatim>\<open>get\<close> chooses; exactly the others stay buffered, so no message is paired twice and none is lost.\<close>

theorem dispatcher_pairs:
  "case sd_handle2 tt1 tt2 l msg h d of (calls, d') \<Rightarrow>
     sd_t2 d' = snd (tracker_newMsg tt2 l msg h (sd_t2 d))
     \<and> calls = map (\<lambda>m. (fst m, the (tracker_get tt2 (getMsgUtime tt1 m) (sd_t2 d')))) (filter (sd_ready tt1 tt2 (sd_t2 d')) (tr_buf (sd_t1 d)))
     \<and> tr_buf (sd_t1 d') = filter (\<lambda>m. \<not> sd_ready tt1 tt2 (sd_t2 d') m) (tr_buf (sd_t1 d))
     \<and> length calls + length (tr_buf (sd_t1 d')) = length (tr_buf (sd_t1 d))
     \<and> fst (sd_process tt1 tt2 0 d') = []"
  by (simp add: sd_handle2_def sd_process_def process_loop_partition tracker_newMsg_frame Let_def process_loop_idem
      sum_length_filter_compl split: prod.splits) (auto simp: tracker_newMsg_def Let_def)

end
