(* ===== verification/Blocking.thy ===== *)
theory Blocking
  imports Transport Msg_Queue
begin

text \<open>
  The core for blocking transports (\<^verbatim>\<open>zcm/blocking.cpp\<close>): its state and its operations. The send, receive
  and handle threads are program counters of the state; the operations are the pieces of code between
  two points where another thread can interfere, and \<^verbatim>\<open>Blocking_Step\<close> interleaves them. \<open>Blocks\<close> is a
  piece that waits for a lock, a condition or a thread, \<open>Faults\<close> one that ends the program: a fault of
  the transport or of a queue, an exception that nobody catches, or \<^verbatim>\<open>std::terminate\<close>.
\<close>

section \<open>Outcomes\<close>

fun obind :: "'a outcome \<Rightarrow> ('a \<Rightarrow> 'b outcome) \<Rightarrow> 'b outcome" where
  "obind Blocks f = Blocks"
| "obind Faults f = Faults"
| "obind (Returns x) f = f x"

fun of_opt :: "'a option \<Rightarrow> 'a outcome" where
  "of_opt None = Faults"
| "of_opt (Some x) = Returns x"

lemma obind_Returns [simp]: "obind r f = Returns y \<longleftrightarrow> (\<exists>x. r = Returns x \<and> f x = Returns y)"
  by (cases r) auto

lemma obind_Blocks [simp]: "obind r f = Blocks \<longleftrightarrow> r = Blocks \<or> (\<exists>x. r = Returns x \<and> f x = Blocks)"
  by (cases r) auto

lemma of_opt_Blocks [simp]: "of_opt r \<noteq> Blocks"
  by (cases r) auto

lemma ts_pop_Blocks [simp]: "ts_pop t \<noteq> Blocks"
  by (simp add: ts_pop_def split: option.splits)

lemma of_opt_Returns [simp]: "of_opt r = Returns y \<longleftrightarrow> r = Some y"
  by (cases r) auto

section \<open>Subscriptions\<close>

text \<open>
  A subscription is known by its address \<open>sub_ptr\<close>. A compiled regular expression is the text it was
  compiled from. The regular expressions of the standard library are a parameter of the model: \<open>rx_ok\<close>
  tells whether a text compiles (otherwise the constructor throws) and \<open>rx_match\<close> is \<^verbatim>\<open>regex_match\<close>.
\<close>

record zcm_sub_t =
  sub_ptr :: nat
  sub_channel :: cstring
  sub_regex :: bool
  sub_regexobj :: "cstring option"
  sub_callback :: nat
  sub_usr :: nat

record regex_lib =
  rx_ok :: "cstring \<Rightarrow> bool"
  rx_match :: "cstring \<Rightarrow> cstring \<Rightarrow> bool"

text \<open>The characters \<^verbatim>\<open>( ) | . * +\<close>.\<close>

definition isRegexChar :: "u8 \<Rightarrow> bool" where
  "isRegexChar c \<longleftrightarrow> c = 0x28 \<or> c = 0x29 \<or> c = 0x7C \<or> c = 0x2E \<or> c = 0x2A \<or> c = 0x2B"

fun isRegexChannel :: "cstring \<Rightarrow> bool" where
  "isRegexChannel [] = False"
| "isRegexChannel (c # cs) = (if isRegexChar c then True else isRegexChannel cs)"

text \<open>
  An \<^verbatim>\<open>unordered_map\<close> from channels to lists of subscriptions, in the order in which it iterates. That
  order is not specified; no property below depends on it.
\<close>

type_synonym submap = "(cstring \<times> zcm_sub_t list) list"

fun sm_push :: "cstring \<Rightarrow> zcm_sub_t \<Rightarrow> submap \<Rightarrow> submap" where
  "sm_push c s [] = [(c, [s])]"
| "sm_push c s ((d, ss) # m) = (if d = c then (d, ss @ [s]) # m else (d, ss) # sm_push c s m)"

fun sm_set :: "cstring \<Rightarrow> zcm_sub_t list \<Rightarrow> submap \<Rightarrow> submap" where
  "sm_set c ss [] = []"
| "sm_set c ss ((d, old) # m) = (if d = c then (d, ss) # m else (d, old) # sm_set c ss m)"

section \<open>State\<close>

datatype RecvMode_t = RECV_MODE_NONE | RECV_MODE_RUN | RECV_MODE_SPAWN | RECV_MODE_HANDLE

datatype ThreadState_t = THREAD_STATE_STOPPED | THREAD_STATE_RUNNING | THREAD_STATE_HALTING | THREAD_STATE_HALTED

text \<open>
  Where a thread is. \<open>S_Wait\<close> and \<open>H_Wait\<close> are the waits for the pause conditions, \<open>S_Lock\<close> and \<open>H_Lock\<close>
  wait for \<^verbatim>\<open>sendOneMutex\<close> and \<^verbatim>\<open>dispOneMutex\<close>, \<open>S_Run\<close> and \<open>H_Run\<close> hold them. A \<^verbatim>\<open>std::thread\<close> that has ended is
  joinable until it is joined. Inside \<^verbatim>\<open>sendOneMessage\<close> and \<^verbatim>\<open>dispatchOneMessage\<close> a thread is before the \<^verbatim>\<open>top()\<close>, has
  the message and is about to send or dispatch it, or is about to \<^verbatim>\<open>pop()\<close> it.
\<close>

datatype one_pc = One_Top | One_Work zcm_msg_t | One_Pop
datatype one_result = One_Next one_pc | One_Ret bool
datatype send_pc = S_Wait | S_Lock | S_Run one_pc | S_Exit
datatype recv_pc = R_Check | R_Recv | R_Push zcm_msg_t | R_Exit
datatype hndl_pc = H_Spawn | H_Wait | H_Lock | H_Run one_pc | H_Shutdown | H_Join | H_Exit
datatype 'p thr = NoThread | Alive 'p | Finished

datatype tid = SendThread | HndlThread | Client nat

record 't zcm_blocking =
  bl_zt :: "'t zcm_trans_t"
  bl_subs :: submap
  bl_subsRegex :: submap
  bl_next_ptr :: nat
  bl_mtu :: nat
  bl_sendQueue :: "zcm_msg_t ThreadsafeQueue"
  bl_recvQueue :: "zcm_msg_t ThreadsafeQueue"
  bl_recvMode :: RecvMode_t
  bl_sendThread :: "send_pc thr"
  bl_recvThread :: "recv_pc thr"
  bl_hndlThread :: "hndl_pc thr"
  bl_sendThreadState :: ThreadState_t
  bl_recvThreadState :: ThreadState_t
  bl_hndlThreadState :: ThreadState_t
  bl_paused :: bool
  bl_sendOneMutex :: "tid option"
  bl_dispOneMutex :: "tid option"
  bl_recvModeMutex :: "tid option"

text \<open>What an observer sees of an execution.\<close>

datatype event =
    Accepted zcm_msg_t
  | Sent zcm_msg_t
  | Queued zcm_msg_t
  | Dropped zcm_msg_t
  | Dispatched zcm_msg_t
  | Called nat zcm_msg_t

definition QUEUE_SIZE :: nat where "QUEUE_SIZE = 16"

definition blocking_new :: "'t zcm_trans_t \<Rightarrow> 't zcm_blocking" where
  "blocking_new zt =
     \<lparr>bl_zt = zt, bl_subs = [], bl_subsRegex = [], bl_next_ptr = 0, bl_mtu = zcm_trans_get_mtu zt,
      bl_sendQueue = \<lparr>ts_queue = q_new QUEUE_SIZE, ts_disabled = False\<rparr>,
      bl_recvQueue = \<lparr>ts_queue = q_new QUEUE_SIZE, ts_disabled = False\<rparr>,
      bl_recvMode = RECV_MODE_NONE,
      bl_sendThread = NoThread, bl_recvThread = NoThread, bl_hndlThread = NoThread,
      bl_sendThreadState = THREAD_STATE_STOPPED, bl_recvThreadState = THREAD_STATE_STOPPED,
      bl_hndlThreadState = THREAD_STATE_STOPPED, bl_paused = False,
      bl_sendOneMutex = None, bl_dispOneMutex = None, bl_recvModeMutex = None\<rparr>"

text \<open>\<^verbatim>\<open>zcm_blocking_try_create\<close>: the type of the \<^verbatim>\<open>zcm_t\<close> must be the blocking one.\<close>

definition zcm_blocking_try_create :: "zcm_type \<Rightarrow> 't zcm_trans_t \<Rightarrow> int \<times> 't zcm_blocking option" where
  "zcm_blocking_try_create ztype zt =
     (if ztype \<noteq> ZCM_BLOCKING then (ZCM_EINVALID, None) else (ZCM_EOK, Some (blocking_new zt)))"

text \<open>Assigning a new thread to a joinable \<^verbatim>\<open>std::thread\<close> ends the program.\<close>

fun spawn :: "'p thr \<Rightarrow> 'p \<Rightarrow> 'p thr outcome" where
  "spawn NoThread p = Returns (Alive p)"
| "spawn _ p = Faults"

fun join_thr :: "'p thr \<Rightarrow> 'p thr outcome" where
  "join_thr NoThread = Faults"
| "join_thr (Alive p) = Blocks"
| "join_thr Finished = Returns NoThread"

section \<open>Publishing and sending\<close>

text \<open>\<^verbatim>\<open>publish\<close>: the part under \<^verbatim>\<open>sendStateMutex\<close>, and then the push; \<open>now\<close> is \<^verbatim>\<open>TimeUtil::utime()\<close>.\<close>

definition publish_spawn :: "'t zcm_blocking \<Rightarrow> 't zcm_blocking outcome" where
  "publish_spawn b =
     (if bl_sendThreadState b = THREAD_STATE_STOPPED then
        obind (spawn (bl_sendThread b) S_Wait)
          (\<lambda>th. Returns (b\<lparr>bl_sendThreadState := THREAD_STATE_RUNNING, bl_sendThread := th\<rparr>))
      else Returns b)"

definition publish_push :: "u64 \<Rightarrow> cstring \<Rightarrow> u8 list \<Rightarrow> 't zcm_blocking \<Rightarrow> (int \<times> event list \<times> 't zcm_blocking) outcome" where
  "publish_push now channel data b =
     (let msg = \<lparr>msg_utime = now, msg_channel = channel, msg_buf = data\<rparr>
      in obind (ts_pushIfRoom msg (bl_sendQueue b))
           (\<lambda>(success, q).
              if \<not> success then Returns (ZCM_EAGAIN, [], b\<lparr>bl_sendQueue := q\<rparr>)
              else Returns (ZCM_EOK, [Accepted msg], b\<lparr>bl_sendQueue := q\<rparr>)))"

definition publish_valid :: "cstring \<Rightarrow> u8 list \<Rightarrow> 't zcm_blocking \<Rightarrow> bool" where
  "publish_valid channel data b \<longleftrightarrow> \<not> length data > bl_mtu b \<and> \<not> length channel > ZCM_CHANNEL_MAXLEN"

definition publish :: "u64 \<Rightarrow> cstring \<Rightarrow> u8 list \<Rightarrow> 't zcm_blocking \<Rightarrow> (int \<times> event list \<times> 't zcm_blocking) outcome" where
  "publish now channel data b =
     (if \<not> publish_valid channel data b then Returns (ZCM_EINVALID, [], b)
      else obind (publish_spawn b) (publish_push now channel data))"

text \<open>\<^verbatim>\<open>sendOneMessage\<close>, which runs with \<^verbatim>\<open>sendOneMutex\<close> held: the piece at \<open>pc\<close>.\<close>

definition sendOneMessage :: "bool \<Rightarrow> one_pc \<Rightarrow> 't zcm_blocking \<Rightarrow> (event list \<times> one_result \<times> 't zcm_blocking) outcome" where
  "sendOneMessage returnIfPaused pc b =
     (case pc of
        One_Top \<Rightarrow>
          obind (ts_top (bl_sendQueue b))
            (\<lambda>m. case m of
               None \<Rightarrow> Returns ([], One_Ret False, b)
             | Some msg \<Rightarrow>
                 if returnIfPaused \<and> (bl_paused b \<or> bl_sendThreadState b = THREAD_STATE_HALTING)
                 then Returns ([], One_Ret False, b)
                 else Returns ([], One_Next (One_Work msg), b))
      | One_Work msg \<Rightarrow>
          obind (of_opt (zcm_trans_sendmsg (bl_zt b) msg))
            (\<lambda>(ret, zt). Returns ([Sent msg], One_Next One_Pop, b\<lparr>bl_zt := zt\<rparr>))
      | One_Pop \<Rightarrow>
          obind (ts_pop (bl_sendQueue b)) (\<lambda>q. Returns ([], One_Ret True, b\<lparr>bl_sendQueue := q\<rparr>)))"

text \<open>The send thread from one point of interference to the next.\<close>

definition sendThreadFunc :: "send_pc \<Rightarrow> 't zcm_blocking \<Rightarrow> (event list \<times> 't zcm_blocking) outcome" where
  "sendThreadFunc pc b =
     (case pc of
        S_Wait \<Rightarrow>
          if \<not> (\<not> bl_paused b \<and> ts_isEnabled (bl_sendQueue b) \<or> bl_sendThreadState b = THREAD_STATE_HALTING) then Blocks
          else Returns ([], b\<lparr>bl_sendThread := Alive
                 (if bl_sendThreadState b = THREAD_STATE_HALTING then S_Exit else S_Lock)\<rparr>)
      | S_Lock \<Rightarrow>
          if bl_sendOneMutex b \<noteq> None then Blocks
          else Returns ([], b\<lparr>bl_sendOneMutex := Some SendThread, bl_sendThread := Alive (S_Run One_Top)\<rparr>)
      | S_Run p \<Rightarrow>
          obind (sendOneMessage True p b)
            (\<lambda>(evs, r, b). case r of
               One_Next p \<Rightarrow> Returns (evs, b\<lparr>bl_sendThread := Alive (S_Run p)\<rparr>)
             | One_Ret _ \<Rightarrow> Returns (evs, b\<lparr>bl_sendOneMutex := None, bl_sendThread := Alive S_Wait\<rparr>))
      | S_Exit \<Rightarrow> Returns ([], b\<lparr>bl_sendThreadState := THREAD_STATE_HALTED, bl_sendThread := Finished\<rparr>))"

section \<open>Subscribing\<close>

text \<open>
  \<open>lock_free\<close> tells whether both \<^verbatim>\<open>try_lock\<close> succeed; a blocking call waits for the two mutexes. \<^verbatim>\<open>strncpy\<close> and
  the terminator after it keep the first \<^verbatim>\<open>ZCM_CHANNEL_MAXLEN\<close> characters of the channel.
\<close>

definition subscribe ::
    "regex_lib \<Rightarrow> bool \<Rightarrow> bool \<Rightarrow> cstring \<Rightarrow> nat \<Rightarrow> nat \<Rightarrow> 't zcm_blocking \<Rightarrow> (zcm_sub_t option \<times> 't zcm_blocking) outcome" where
  "subscribe rx lock_free block channel cb usr b =
     (if \<not> lock_free then if block then Blocks else Returns (None, b)
      else obind (of_opt (zcm_trans_recvmsg_enable (bl_zt b) channel True))
        (\<lambda>(rc, zt).
           let b = b\<lparr>bl_zt := zt\<rparr>
           in if rc \<noteq> ZCM_EOK then Returns (None, b)
              else let rgx = isRegexChannel channel;
                       sub = \<lparr>sub_ptr = bl_next_ptr b, sub_channel = take ZCM_CHANNEL_MAXLEN channel, sub_regex = rgx,
                              sub_regexobj = (if rgx then Some channel else None), sub_callback = cb, sub_usr = usr\<rparr>;
                       b = b\<lparr>bl_next_ptr := bl_next_ptr b + 1\<rparr>
                   in if rgx then
                        if \<not> rx_ok rx channel then Faults
                        else Returns (Some sub, b\<lparr>bl_subsRegex := sm_push channel sub (bl_subsRegex b)\<rparr>)
                      else Returns (Some sub, b\<lparr>bl_subs := sm_push channel sub (bl_subs b)\<rparr>)))"

definition deleteSubEntry :: "zcm_sub_t \<Rightarrow> nat \<Rightarrow> 't zcm_blocking \<Rightarrow> (bool \<times> 't zcm_blocking) outcome" where
  "deleteSubEntry sub nentriesleft b =
     (if nentriesleft = 0 then
        obind (of_opt (zcm_trans_recvmsg_enable (bl_zt b) (sub_channel sub) False))
          (\<lambda>(rc, zt). Returns (rc = ZCM_EOK, b\<lparr>bl_zt := zt\<rparr>))
      else Returns (True, b))"

text \<open>The search of \<^verbatim>\<open>deleteFromSubList\<close>: the list without the entry, its place taken by the last one.\<close>

fun sub_index :: "nat \<Rightarrow> zcm_sub_t list \<Rightarrow> nat option" where
  "sub_index p [] = None"
| "sub_index p (s # ss) = (if sub_ptr s = p then Some 0 else map_option Suc (sub_index p ss))"

definition unsubscribe :: "bool \<Rightarrow> bool \<Rightarrow> zcm_sub_t \<Rightarrow> 't zcm_blocking \<Rightarrow> (int \<times> 't zcm_blocking) outcome" where
  "unsubscribe lock_free block sub b =
     (if \<not> lock_free then if block then Blocks else Returns (ZCM_EAGAIN, b)
      else let subsSelected = (if sub_regex sub then bl_subsRegex b else bl_subs b)
           in case map_of subsSelected (sub_channel sub) of
                None \<Rightarrow> Returns (ZCM_EINVALID, b)
              | Some slist \<Rightarrow>
                  (case sub_index (sub_ptr sub) slist of
                     None \<Rightarrow> Returns (ZCM_EINVALID, b)
                   | Some i \<Rightarrow>
                       let slist = remove_swap i slist;
                           subsSelected = sm_set (sub_channel sub) slist subsSelected;
                           b = (if sub_regex sub then b\<lparr>bl_subsRegex := subsSelected\<rparr> else b\<lparr>bl_subs := subsSelected\<rparr>)
                       in obind (deleteSubEntry sub (length slist) b)
                            (\<lambda>(success, b). Returns (if \<not> success then ZCM_EINVALID else ZCM_EOK, b))))"

section \<open>Receiving and dispatching\<close>

definition sub_matches :: "regex_lib \<Rightarrow> cstring \<Rightarrow> zcm_sub_t \<Rightarrow> bool" where
  "sub_matches rx channel sub = (case sub_regexobj sub of Some r \<Rightarrow> rx_match rx channel r | None \<Rightarrow> False)"

definition recv_wanted :: "regex_lib \<Rightarrow> cstring \<Rightarrow> 't zcm_blocking \<Rightarrow> bool" where
  "recv_wanted rx channel b \<longleftrightarrow>
     map_of (bl_subs b) channel \<noteq> None \<or> (\<exists>(c, ss) \<in> set (bl_subsRegex b). \<exists>sub \<in> set ss. sub_matches rx channel sub)"

definition RECV_TIMEOUT :: nat where "RECV_TIMEOUT = 100"

text \<open>
  The receive thread. A message that is pushed on a full queue waits for room or for the queue to be
  disabled, and is dropped in the second case.
\<close>

definition recvThreadFunc :: "regex_lib \<Rightarrow> recv_pc \<Rightarrow> 't zcm_blocking \<Rightarrow> (event list \<times> 't zcm_blocking) outcome" where
  "recvThreadFunc rx pc b =
     (case pc of
        R_Check \<Rightarrow>
          Returns ([], b\<lparr>bl_recvThread := Alive (if bl_recvThreadState b = THREAD_STATE_HALTING then R_Exit else R_Recv)\<rparr>)
      | R_Recv \<Rightarrow>
          obind (of_opt (zcm_trans_recvmsg (bl_zt b) RECV_TIMEOUT))
            (\<lambda>(rc, m, zt).
               let b = b\<lparr>bl_zt := zt\<rparr>
               in if rc = ZCM_EOK then
                    case m of
                      None \<Rightarrow> Faults
                    | Some msg \<Rightarrow>
                        Returns ([], b\<lparr>bl_recvThread := Alive (if recv_wanted rx (msg_channel msg) b then R_Push msg else R_Check)\<rparr>)
                  else Returns ([], b\<lparr>bl_recvThread := Alive R_Check\<rparr>))
      | R_Push msg \<Rightarrow>
          obind (ts_push msg (bl_recvQueue b))
            (\<lambda>(pushed, q). Returns ([if pushed then Queued msg else Dropped msg], b\<lparr>bl_recvQueue := q, bl_recvThread := Alive R_Check\<rparr>))
      | R_Exit \<Rightarrow> Returns ([], b\<lparr>bl_recvThreadState := THREAD_STATE_HALTED, bl_recvThread := Finished\<rparr>))"

text \<open>The subscriptions that a message is passed to: those of its channel, then the matching regular expressions.\<close>

definition dispatchMsg :: "regex_lib \<Rightarrow> zcm_msg_t \<Rightarrow> 't zcm_blocking \<Rightarrow> zcm_sub_t list" where
  "dispatchMsg rx msg b =
     (case map_of (bl_subs b) (msg_channel msg) of Some ss \<Rightarrow> ss | None \<Rightarrow> [])
     @ concat (map (\<lambda>(c, ss). filter (sub_matches rx (msg_channel msg)) ss) (bl_subsRegex b))"

definition dispatchOneMessage :: "regex_lib \<Rightarrow> bool \<Rightarrow> one_pc \<Rightarrow> 't zcm_blocking \<Rightarrow> (event list \<times> one_result \<times> 't zcm_blocking) outcome" where
  "dispatchOneMessage rx returnIfPaused pc b =
     (case pc of
        One_Top \<Rightarrow>
          obind (ts_top (bl_recvQueue b))
            (\<lambda>m. case m of
               None \<Rightarrow> Returns ([], One_Ret False, b)
             | Some msg \<Rightarrow>
                 if returnIfPaused \<and> (bl_paused b \<or> bl_hndlThreadState b = THREAD_STATE_HALTING)
                 then Returns ([], One_Ret False, b)
                 else Returns ([], One_Next (One_Work msg), b))
      | One_Work msg \<Rightarrow>
          Returns (Dispatched msg # map (\<lambda>s. Called (sub_ptr s) msg) (dispatchMsg rx msg b), One_Next One_Pop, b)
      | One_Pop \<Rightarrow>
          obind (ts_pop (bl_recvQueue b)) (\<lambda>q. Returns ([], One_Ret True, b\<lparr>bl_recvQueue := q\<rparr>)))"

text \<open>
  The handle thread runs on the thread of \<^verbatim>\<open>start\<close> or on the caller of \<^verbatim>\<open>run\<close>, which \<open>me\<close> names for the mutex. The
  result has the next program counter, \<open>None\<close> at the end.
\<close>

definition hndlThreadFunc ::
    "regex_lib \<Rightarrow> tid \<Rightarrow> hndl_pc \<Rightarrow> 't zcm_blocking \<Rightarrow> (event list \<times> hndl_pc option \<times> 't zcm_blocking) outcome" where
  "hndlThreadFunc rx me pc b =
     (case pc of
        H_Spawn \<Rightarrow>
          obind (spawn (bl_recvThread b) R_Check)
            (\<lambda>th. Returns ([], Some H_Wait, b\<lparr>bl_recvThreadState := THREAD_STATE_RUNNING, bl_recvThread := th\<rparr>))
      | H_Wait \<Rightarrow>
          if \<not> (\<not> bl_paused b \<and> ts_isEnabled (bl_recvQueue b) \<or> bl_hndlThreadState b = THREAD_STATE_HALTING) then Blocks
          else Returns ([], Some (if bl_hndlThreadState b = THREAD_STATE_HALTING then H_Shutdown else H_Lock), b)
      | H_Lock \<Rightarrow>
          if bl_dispOneMutex b \<noteq> None then Blocks
          else Returns ([], Some (H_Run One_Top), b\<lparr>bl_dispOneMutex := Some me\<rparr>)
      | H_Run p \<Rightarrow>
          obind (dispatchOneMessage rx True p b)
            (\<lambda>(evs, r, b). case r of
               One_Next p \<Rightarrow> Returns (evs, Some (H_Run p), b)
             | One_Ret _ \<Rightarrow> Returns (evs, Some H_Wait, b\<lparr>bl_dispOneMutex := None\<rparr>))
      | H_Shutdown \<Rightarrow>
          Returns ([], Some H_Join, b\<lparr>bl_recvThreadState := THREAD_STATE_HALTING, bl_recvQueue := ts_disable (bl_recvQueue b)\<rparr>)
      | H_Join \<Rightarrow>
          obind (join_thr (bl_recvThread b)) (\<lambda>th. Returns ([], Some H_Exit, b\<lparr>bl_recvThread := th\<rparr>))
      | H_Exit \<Rightarrow> Returns ([], None, b\<lparr>bl_hndlThreadState := THREAD_STATE_HALTED\<rparr>))"

section \<open>Calls of the interface\<close>

text \<open>
  A call runs on a client thread. It returns a code (functions without a result return \<^verbatim>\<open>ZCM_EOK\<close>) or goes on
  at a program counter: after the first part of \<^verbatim>\<open>publish\<close>; waiting for or holding \<^verbatim>\<open>dispOneMutex\<close> in \<^verbatim>\<open>handle\<close>;
  with the number of messages left in \<^verbatim>\<open>flush\<close>; in the joins of \<^verbatim>\<open>stop\<close>, which holds \<^verbatim>\<open>recvModeMutex\<close> throughout;
  in \<^verbatim>\<open>run\<close>, as the handle thread.
\<close>

datatype client_pc =
    C_Publish u64 cstring "u8 list"
  | C_HandleLock bool
  | C_HandleRun one_pc
  | C_FlushSendLock bool
  | C_FlushSend bool nat one_pc
  | C_FlushDispLock bool
  | C_FlushDisp nat one_pc
  | C_SizeSendLock nat bool
  | C_SizeRecv nat bool
  | C_SizeRecvLock nat bool
  | C_StopJoinHndl
  | C_StopJoinRecv
  | C_StopSend bool
  | C_StopJoinSend
  | C_StopEnd bool
  | C_Run hndl_pc
  | C_RunEnd

datatype cont = Return int | Continue client_pc

definition publish_call :: "u64 \<Rightarrow> cstring \<Rightarrow> u8 list \<Rightarrow> 't zcm_blocking \<Rightarrow> (cont \<times> 't zcm_blocking) outcome" where
  "publish_call now channel data b =
     (if \<not> publish_valid channel data b then Returns (Return ZCM_EINVALID, b)
      else obind (publish_spawn b) (\<lambda>b. Returns (Continue (C_Publish now channel data), b)))"

definition run_call :: "'t zcm_blocking \<Rightarrow> (cont \<times> 't zcm_blocking) outcome" where
  "run_call b =
     (if bl_recvModeMutex b \<noteq> None then Blocks
      else if bl_recvMode b \<noteq> RECV_MODE_NONE then Returns (Return ZCM_EOK, b)
      else Returns (Continue (C_Run H_Spawn),
        b\<lparr>bl_recvMode := RECV_MODE_RUN, bl_hndlThreadState := THREAD_STATE_RUNNING, bl_recvQueue := ts_enable (bl_recvQueue b)\<rparr>))"

definition start_call :: "'t zcm_blocking \<Rightarrow> (cont \<times> 't zcm_blocking) outcome" where
  "start_call b =
     (if bl_recvModeMutex b \<noteq> None then Blocks
      else if bl_recvMode b \<noteq> RECV_MODE_NONE then Returns (Return ZCM_EOK, b)
      else obind (spawn (bl_hndlThread b) H_Spawn)
        (\<lambda>th. Returns (Return ZCM_EOK,
           b\<lparr>bl_recvMode := RECV_MODE_SPAWN, bl_hndlThreadState := THREAD_STATE_RUNNING,
             bl_recvQueue := ts_enable (bl_recvQueue b), bl_hndlThread := th\<rparr>)))"

definition startRecvThread :: "'t zcm_blocking \<Rightarrow> (bool \<times> 't zcm_blocking) outcome" where
  "startRecvThread b =
     (if bl_recvModeMutex b \<noteq> None then Blocks
      else if bl_recvMode b \<noteq> RECV_MODE_NONE \<and> bl_recvMode b \<noteq> RECV_MODE_HANDLE then Returns (False, b)
      else if bl_recvMode b = RECV_MODE_NONE then
        obind (spawn (bl_recvThread b) R_Check)
          (\<lambda>th. Returns (True,
             b\<lparr>bl_recvMode := RECV_MODE_HANDLE, bl_recvThreadState := THREAD_STATE_RUNNING,
               bl_recvQueue := ts_enable (bl_recvQueue b), bl_recvThread := th\<rparr>))
      else Returns (True, b))"

definition handle_call :: "bool \<Rightarrow> 't zcm_blocking \<Rightarrow> (cont \<times> 't zcm_blocking) outcome" where
  "handle_call nonblock b =
     obind (startRecvThread b)
       (\<lambda>(ok, b). Returns (if \<not> ok then Return ZCM_EINVALID else Continue (C_HandleLock nonblock), b))"

definition pause_call :: "'t zcm_blocking \<Rightarrow> (cont \<times> 't zcm_blocking) outcome" where
  "pause_call b = Returns (Return ZCM_EOK, b\<lparr>bl_paused := True\<rparr>)"

definition resume_call :: "'t zcm_blocking \<Rightarrow> (cont \<times> 't zcm_blocking) outcome" where
  "resume_call b = Returns (Return ZCM_EOK, b\<lparr>bl_paused := False\<rparr>)"

definition flush_call :: "bool \<Rightarrow> 't zcm_blocking \<Rightarrow> (cont \<times> 't zcm_blocking) outcome" where
  "flush_call block b = Returns (Continue (C_FlushSendLock block), b\<lparr>bl_sendQueue := ts_disable (bl_sendQueue b)\<rparr>)"

definition setQueueSize_call :: "nat \<Rightarrow> bool \<Rightarrow> 't zcm_blocking \<Rightarrow> (cont \<times> 't zcm_blocking) outcome" where
  "setQueueSize_call numMsgs block b =
     (if ts_getCapacity (bl_sendQueue b) \<noteq> numMsgs
      then Returns (Continue (C_SizeSendLock numMsgs block), b\<lparr>bl_sendQueue := ts_disable (bl_sendQueue b)\<rparr>)
      else Returns (Continue (C_SizeRecv numMsgs block), b))"

definition queryDrops :: "u64 \<Rightarrow> 't zcm_blocking \<Rightarrow> (int \<times> u64 \<times> 't zcm_blocking) outcome" where
  "queryDrops out_drops b =
     obind (of_opt (zcm_trans_query_drops (bl_zt b) out_drops)) (\<lambda>(rc, d, zt). Returns (rc, d, b\<lparr>bl_zt := zt\<rparr>))"

text \<open>\<^verbatim>\<open>stop\<close>: first the handle or receive thread, then (in \<open>stop_send\<close>) the send thread, then (in \<open>stop_end\<close>) the result.\<close>

definition stop_call :: "nat \<Rightarrow> bool \<Rightarrow> 't zcm_blocking \<Rightarrow> (cont \<times> 't zcm_blocking) outcome" where
  "stop_call i block b =
     (if bl_recvModeMutex b \<noteq> None then Blocks
      else let b = b\<lparr>bl_recvModeMutex := Some (Client i)\<rparr>
           in if bl_recvMode b = RECV_MODE_RUN \<or> bl_recvMode b = RECV_MODE_SPAWN then
                if bl_hndlThreadState b = THREAD_STATE_RUNNING then
                  Returns (Continue (if block \<and> bl_recvMode b = RECV_MODE_SPAWN then C_StopJoinHndl else C_StopSend block),
                    b\<lparr>bl_hndlThreadState := THREAD_STATE_HALTING, bl_recvQueue := ts_disable (bl_recvQueue b)\<rparr>)
                else Returns (Continue (C_StopSend block), b)
              else if bl_recvMode b = RECV_MODE_HANDLE then
                if bl_recvThreadState b = THREAD_STATE_RUNNING then
                  Returns (Continue (if block then C_StopJoinRecv else C_StopSend block),
                    b\<lparr>bl_recvThreadState := THREAD_STATE_HALTING, bl_recvQueue := ts_disable (bl_recvQueue b)\<rparr>)
                else Returns (Continue (C_StopSend block), b)
              else Returns (Continue (C_StopSend block), b))"

definition stop_send :: "bool \<Rightarrow> 't zcm_blocking \<Rightarrow> (cont \<times> 't zcm_blocking) outcome" where
  "stop_send block b =
     (if bl_sendThreadState b = THREAD_STATE_RUNNING then
        Returns (Continue (if block then C_StopJoinSend else C_StopEnd block),
          b\<lparr>bl_sendThreadState := THREAD_STATE_HALTING, bl_sendQueue := ts_disable (bl_sendQueue b)\<rparr>)
      else Returns (Continue (C_StopEnd block), b))"

definition stop_reap_recv :: "'t zcm_blocking \<Rightarrow> (bool \<times> 't zcm_blocking) outcome" where
  "stop_reap_recv b =
     (case bl_recvMode b of
        RECV_MODE_SPAWN \<Rightarrow>
          if bl_hndlThreadState b = THREAD_STATE_HALTING then Returns (False, b)
          else if bl_hndlThreadState b = THREAD_STATE_HALTED then
            obind (join_thr (bl_hndlThread b))
              (\<lambda>th. Returns (True, b\<lparr>bl_hndlThread := th, bl_hndlThreadState := THREAD_STATE_STOPPED\<rparr>))
          else Returns (True, b)
      | RECV_MODE_HANDLE \<Rightarrow>
          if bl_recvThreadState b = THREAD_STATE_HALTING then Returns (False, b)
          else if bl_recvThreadState b = THREAD_STATE_HALTED then
            obind (join_thr (bl_recvThread b))
              (\<lambda>th. Returns (True, b\<lparr>bl_recvThread := th, bl_recvThreadState := THREAD_STATE_STOPPED\<rparr>))
          else Returns (True, b)
      | _ \<Rightarrow> Returns (True, b))"

definition stop_reap_send :: "'t zcm_blocking \<Rightarrow> (bool \<times> 't zcm_blocking) outcome" where
  "stop_reap_send b =
     (if bl_sendThreadState b = THREAD_STATE_HALTING then Returns (False, b)
      else if bl_sendThreadState b = THREAD_STATE_HALTED then
        obind (join_thr (bl_sendThread b))
          (\<lambda>th. Returns (True, b\<lparr>bl_sendThread := th, bl_sendThreadState := THREAD_STATE_STOPPED\<rparr>))
      else Returns (True, b))"

definition stop_end :: "bool \<Rightarrow> 't zcm_blocking \<Rightarrow> (cont \<times> 't zcm_blocking) outcome" where
  "stop_end block b =
     (let finish = (\<lambda>b. Returns (Return ZCM_EOK, b\<lparr>bl_recvMode := RECV_MODE_NONE, bl_recvModeMutex := None\<rparr>));
          again = (\<lambda>b. Returns (Return ZCM_EAGAIN, b\<lparr>bl_recvModeMutex := None\<rparr>))
      in if block then finish b
         else obind (stop_reap_recv b)
           (\<lambda>(ok, b). if \<not> ok then again b
              else obind (stop_reap_send b) (\<lambda>(ok, b). if \<not> ok then again b else finish b)))"

text \<open>The continuation of a call of client \<open>i\<close>.\<close>

definition client_step ::
    "regex_lib \<Rightarrow> nat \<Rightarrow> client_pc \<Rightarrow> 't zcm_blocking \<Rightarrow> (event list \<times> cont \<times> 't zcm_blocking) outcome" where
  "client_step rx i pc b =
     (let quiet = (\<lambda>r. obind r (\<lambda>(c, b). Returns ([], c, b)))
      in case pc of
        C_Publish now channel data \<Rightarrow>
          obind (publish_push now channel data b) (\<lambda>(rc, evs, b). Returns (evs, Return rc, b))
      | C_HandleLock nonblock \<Rightarrow>
          if bl_dispOneMutex b \<noteq> None then Blocks
          else if nonblock \<and> \<not> ts_hasMessage (bl_recvQueue b) then Returns ([], Return ZCM_EAGAIN, b)
          else Returns ([], Continue (C_HandleRun One_Top), b\<lparr>bl_dispOneMutex := Some (Client i)\<rparr>)
      | C_HandleRun p \<Rightarrow>
          obind (dispatchOneMessage rx True p b)
            (\<lambda>(evs, r, b). case r of
               One_Next p \<Rightarrow> Returns (evs, Continue (C_HandleRun p), b)
             | One_Ret ok \<Rightarrow> Returns (evs, Return (if ok then ZCM_EOK else ZCM_EAGAIN), b\<lparr>bl_dispOneMutex := None\<rparr>))
      | C_FlushSendLock block \<Rightarrow>
          if bl_sendOneMutex b \<noteq> None then
            if block then Blocks
            else Returns ([], Return ZCM_EAGAIN, b\<lparr>bl_sendQueue := ts_enable (bl_sendQueue b)\<rparr>)
          else Returns ([], Continue (C_FlushSend block (ts_numMessages (bl_sendQueue b)) One_Top),
                 b\<lparr>bl_sendOneMutex := Some (Client i), bl_sendQueue := ts_enable (bl_sendQueue b)\<rparr>)
      | C_FlushSend block n p \<Rightarrow>
          if n = 0 \<and> p = One_Top then
            Returns ([], Continue (C_FlushDispLock block),
              b\<lparr>bl_sendOneMutex := None, bl_recvQueue := ts_disable (bl_recvQueue b)\<rparr>)
          else obind (sendOneMessage False p b)
            (\<lambda>(evs, r, b). case r of
               One_Next p \<Rightarrow> Returns (evs, Continue (C_FlushSend block n p), b)
             | One_Ret _ \<Rightarrow> Returns (evs, Continue (C_FlushSend block (n - 1) One_Top), b))
      | C_FlushDispLock block \<Rightarrow>
          if bl_dispOneMutex b \<noteq> None then
            if block then Blocks
            else Returns ([], Return ZCM_EAGAIN, b\<lparr>bl_recvQueue := ts_enable (bl_recvQueue b)\<rparr>)
          else Returns ([], Continue (C_FlushDisp (ts_numMessages (bl_recvQueue b)) One_Top),
                 b\<lparr>bl_dispOneMutex := Some (Client i), bl_recvQueue := ts_enable (bl_recvQueue b)\<rparr>)
      | C_FlushDisp n p \<Rightarrow>
          if n = 0 \<and> p = One_Top then Returns ([], Return ZCM_EOK, b\<lparr>bl_dispOneMutex := None\<rparr>)
          else obind (dispatchOneMessage rx False p b)
            (\<lambda>(evs, r, b). case r of
               One_Next p \<Rightarrow> Returns (evs, Continue (C_FlushDisp n p), b)
             | One_Ret _ \<Rightarrow> Returns (evs, Continue (C_FlushDisp (n - 1) One_Top), b))
      | C_SizeSendLock numMsgs block \<Rightarrow>
          if bl_sendOneMutex b \<noteq> None then
            if block then Blocks
            else Returns ([], Return ZCM_EAGAIN, b\<lparr>bl_sendQueue := ts_enable (bl_sendQueue b)\<rparr>)
          else obind (ts_setCapacity numMsgs (bl_sendQueue b))
            (\<lambda>q. Returns ([], Continue (C_SizeRecv numMsgs block), b\<lparr>bl_sendQueue := ts_enable q\<rparr>))
      | C_SizeRecv numMsgs block \<Rightarrow>
          if ts_getCapacity (bl_recvQueue b) \<noteq> numMsgs
          then Returns ([], Continue (C_SizeRecvLock numMsgs block), b\<lparr>bl_recvQueue := ts_disable (bl_recvQueue b)\<rparr>)
          else Returns ([], Return ZCM_EOK, b)
      | C_SizeRecvLock numMsgs block \<Rightarrow>
          if bl_dispOneMutex b \<noteq> None then
            if block then Blocks
            else Returns ([], Return ZCM_EAGAIN, b\<lparr>bl_recvQueue := ts_enable (bl_recvQueue b)\<rparr>)
          else obind (ts_setCapacity numMsgs (bl_recvQueue b))
            (\<lambda>q. Returns ([], Return ZCM_EOK, b\<lparr>bl_recvQueue := ts_enable q\<rparr>))
      | C_StopJoinHndl \<Rightarrow>
          obind (join_thr (bl_hndlThread b))
            (\<lambda>th. Returns ([], Continue (C_StopSend True), b\<lparr>bl_hndlThread := th, bl_hndlThreadState := THREAD_STATE_STOPPED\<rparr>))
      | C_StopJoinRecv \<Rightarrow>
          obind (join_thr (bl_recvThread b))
            (\<lambda>th. Returns ([], Continue (C_StopSend True), b\<lparr>bl_recvThread := th, bl_recvThreadState := THREAD_STATE_STOPPED\<rparr>))
      | C_StopSend block \<Rightarrow> quiet (stop_send block b)
      | C_StopJoinSend \<Rightarrow>
          obind (join_thr (bl_sendThread b))
            (\<lambda>th. Returns ([], Continue (C_StopEnd True), b\<lparr>bl_sendThread := th, bl_sendThreadState := THREAD_STATE_STOPPED\<rparr>))
      | C_StopEnd block \<Rightarrow> quiet (stop_end block b)
      | C_Run hpc \<Rightarrow>
          obind (hndlThreadFunc rx (Client i) hpc b)
            (\<lambda>(evs, hpc, b). Returns (evs, Continue (case hpc of Some hpc \<Rightarrow> C_Run hpc | None \<Rightarrow> C_RunEnd), b))
      | C_RunEnd \<Rightarrow>
          if bl_recvModeMutex b \<noteq> None then Blocks
          else Returns ([], Return ZCM_EOK, b\<lparr>bl_recvMode := RECV_MODE_NONE\<rparr>))"

end
