(* ===== verification/Blocking_Step.thy ===== *)
theory Blocking_Step
  imports Blocking
begin

text \<open>
  Executions of the blocking core: the send, receive and handle threads and any number of client threads,
  interleaved. Both message queues are then shown to implement one abstract specification: a list of messages
  that one worker at a time, the holder of a lock, takes from the front.
\<close>

section \<open>Executions\<close>

datatype api_call =
    Publish u64 cstring "u8 list"
  | Subscribe bool bool cstring nat nat
  | Unsubscribe bool bool zcm_sub_t
  | Flush bool
  | Run
  | Start
  | Stop bool
  | Handle bool
  | Pause
  | Resume
  | SetQueueSize nat bool
  | QueryDrops u64

definition api_call :: "regex_lib \<Rightarrow> nat \<Rightarrow> api_call \<Rightarrow> 't zcm_blocking \<Rightarrow> (cont \<times> 't zcm_blocking) outcome" where
  "api_call rx i c b =
     (case c of
        Publish now channel data \<Rightarrow> publish_call now channel data b
      | Subscribe lock_free block channel cb usr \<Rightarrow>
          obind (subscribe rx lock_free block channel cb usr b) (\<lambda>(sub, b). Returns (Return ZCM_EOK, b))
      | Unsubscribe lock_free block sub \<Rightarrow>
          obind (unsubscribe lock_free block sub b) (\<lambda>(rc, b). Returns (Return rc, b))
      | Flush block \<Rightarrow> flush_call block b
      | Run \<Rightarrow> run_call b
      | Start \<Rightarrow> start_call b
      | Stop block \<Rightarrow> stop_call i block b
      | Handle nonblock \<Rightarrow> handle_call nonblock b
      | Pause \<Rightarrow> pause_call b
      | Resume \<Rightarrow> resume_call b
      | SetQueueSize n block \<Rightarrow> setQueueSize_call n block b
      | QueryDrops d \<Rightarrow> obind (queryDrops d b) (\<lambda>(rc, d, b). Returns (Return rc, b)))"

type_synonym clients = "nat \<Rightarrow> client_pc option"

text \<open>A queue is resized only to a capacity that its messages leave a cell of: smaller ones break the queue.\<close>

definition resize_fits :: "client_pc \<Rightarrow> 't zcm_blocking \<Rightarrow> bool" where
  "resize_fits pc b =
     (case pc of
        C_SizeSendLock n block \<Rightarrow> ts_numMessages (bl_sendQueue b) < n
      | C_SizeRecvLock n block \<Rightarrow> ts_numMessages (bl_recvQueue b) < n
      | _ \<Rightarrow> True)"

fun cont_pc :: "cont \<Rightarrow> client_pc option" where
  "cont_pc (Return rc) = None"
| "cont_pc (Continue pc) = Some pc"

inductive bl_step ::
    "regex_lib \<Rightarrow> 't zcm_blocking \<times> clients \<Rightarrow> event list \<Rightarrow> 't zcm_blocking \<times> clients \<Rightarrow> bool"
  for rx where
  step_send: "bl_sendThread b = Alive pc \<Longrightarrow> sendThreadFunc pc b = Returns (evs, b') \<Longrightarrow> bl_step rx (b, cs) evs (b', cs)"
| step_recv: "bl_recvThread b = Alive pc \<Longrightarrow> recvThreadFunc rx pc b = Returns (evs, b') \<Longrightarrow> bl_step rx (b, cs) evs (b', cs)"
| step_hndl: "bl_hndlThread b = Alive pc \<Longrightarrow> hndlThreadFunc rx HndlThread pc b = Returns (evs, pc', b') \<Longrightarrow>
    bl_step rx (b, cs) evs (b'\<lparr>bl_hndlThread := (case pc' of Some p \<Rightarrow> Alive p | None \<Rightarrow> Finished)\<rparr>, cs)"
| step_call: "cs i = None \<Longrightarrow> api_call rx i c b = Returns (k, b') \<Longrightarrow> bl_step rx (b, cs) [] (b', cs(i := cont_pc k))"
| step_client: "cs i = Some pc \<Longrightarrow> resize_fits pc b \<Longrightarrow> client_step rx i pc b = Returns (evs, k, b') \<Longrightarrow>
    bl_step rx (b, cs) evs (b', cs(i := cont_pc k))"

text \<open>An execution from the start, with everything observed in it.\<close>

inductive bl_exec :: "regex_lib \<Rightarrow> 't zcm_trans_t \<Rightarrow> event list \<Rightarrow> 't zcm_blocking \<times> clients \<Rightarrow> bool"
  for rx zt where
  exec_init: "bl_exec rx zt [] (blocking_new zt, (\<lambda>_. None))"
| exec_step: "bl_exec rx zt evs s \<Longrightarrow> bl_step rx s evs' s' \<Longrightarrow> bl_exec rx zt (evs @ evs') s'"

fun accepted :: "event list \<Rightarrow> zcm_msg_t list" where
  "accepted [] = []"
| "accepted (Accepted m # es) = m # accepted es"
| "accepted (_ # es) = accepted es"

fun sent :: "event list \<Rightarrow> zcm_msg_t list" where
  "sent [] = []"
| "sent (Sent m # es) = m # sent es"
| "sent (_ # es) = sent es"

fun queued :: "event list \<Rightarrow> zcm_msg_t list" where
  "queued [] = []"
| "queued (Queued m # es) = m # queued es"
| "queued (_ # es) = queued es"

fun dispatched :: "event list \<Rightarrow> zcm_msg_t list" where
  "dispatched [] = []"
| "dispatched (Dispatched m # es) = m # dispatched es"
| "dispatched (_ # es) = dispatched es"

lemma accepted_append [simp]: "accepted (xs @ ys) = accepted xs @ accepted ys"
  by (induction xs rule: accepted.induct) auto

lemma sent_append [simp]: "sent (xs @ ys) = sent xs @ sent ys"
  by (induction xs rule: sent.induct) auto

lemma queued_append [simp]: "queued (xs @ ys) = queued xs @ queued ys"
  by (induction xs rule: queued.induct) auto

lemma dispatched_append [simp]: "dispatched (xs @ ys) = dispatched xs @ dispatched ys"
  by (induction xs rule: dispatched.induct) auto

lemma calls_nothing [simp]:
  "accepted (map (\<lambda>s. Called (f s) m) ss) = []" "sent (map (\<lambda>s. Called (f s) m) ss) = []"
  "queued (map (\<lambda>s. Called (f s) m) ss) = []" "dispatched (map (\<lambda>s. Called (f s) m) ss) = []"
  by (induction ss) auto

section \<open>The specification of a worked queue\<close>

text \<open>
  The messages in the queue, the holder of the lock, where each thread is with the message it works on, and
  all messages that came in and that were worked on.
\<close>

record wq =
  w_items :: "zcm_msg_t list"
  w_holder :: "tid option"
  w_pc :: "tid \<Rightarrow> one_pc option"
  w_in :: "zcm_msg_t list"
  w_out :: "zcm_msg_t list"

inductive wq_step :: "wq \<Rightarrow> wq \<Rightarrow> bool" where
  wq_skip: "wq_step w w"
| wq_push: "wq_step w (w\<lparr>w_items := w_items w @ [m], w_in := w_in w @ [m]\<rparr>)"
| wq_acquire: "w_holder w = None \<Longrightarrow> wq_step w (w\<lparr>w_holder := Some t, w_pc := (w_pc w)(t := Some One_Top)\<rparr>)"
| wq_top: "w_pc w t = Some One_Top \<Longrightarrow> w_items w = m # ms \<Longrightarrow> wq_step w (w\<lparr>w_pc := (w_pc w)(t := Some (One_Work m))\<rparr>)"
| wq_work: "w_pc w t = Some (One_Work m) \<Longrightarrow> wq_step w (w\<lparr>w_pc := (w_pc w)(t := Some One_Pop), w_out := w_out w @ [m]\<rparr>)"
| wq_pop: "w_pc w t = Some One_Pop \<Longrightarrow> wq_step w (w\<lparr>w_items := tl (w_items w), w_pc := (w_pc w)(t := Some One_Top)\<rparr>)"
| wq_pop_release: "w_pc w t = Some One_Pop \<Longrightarrow>
    wq_step w (w\<lparr>w_items := tl (w_items w), w_holder := None, w_pc := (w_pc w)(t := None)\<rparr>)"
| wq_release: "w_pc w t = Some One_Top \<Longrightarrow> wq_step w (w\<lparr>w_holder := None, w_pc := (w_pc w)(t := None)\<rparr>)"

fun worked :: "one_pc option \<Rightarrow> bool" where
  "worked (Some One_Pop) = True"
| "worked _ = False"

definition holder_pc :: "wq \<Rightarrow> one_pc option" where
  "holder_pc w = Option.bind (w_holder w) (w_pc w)"

text \<open>
  Only the holder works; it works on the front of the queue; and what came in is what was worked on and what
  is still to be worked on.
\<close>

definition wq_inv :: "wq \<Rightarrow> bool" where
  "wq_inv w \<longleftrightarrow> (\<forall>t p. w_pc w t = Some p \<longrightarrow> w_holder w = Some t)
     \<and> (\<forall>m. holder_pc w = Some (One_Work m) \<longrightarrow> (\<exists>ms. w_items w = m # ms))
     \<and> (worked (holder_pc w) \<longrightarrow> w_items w \<noteq> [])
     \<and> w_in w = w_out w @ (if worked (holder_pc w) then tl (w_items w) else w_items w)"

lemma worked_iff: "worked p \<longleftrightarrow> p = Some One_Pop"
  by (cases p rule: worked.cases) auto

lemma wq_working:
  assumes "wq_inv w" "w_pc w t = Some p"
  shows "w_holder w = Some t" "holder_pc w = Some p" "\<And>u. u \<noteq> t \<Longrightarrow> w_pc w u = None"
proof -
  have h: "w_pc w u = Some q \<Longrightarrow> w_holder w = Some u" for u q using assms(1) by (auto simp: wq_inv_def)
  from h[OF assms(2)] show t: "w_holder w = Some t" .
  then show "holder_pc w = Some p" by (simp add: holder_pc_def assms(2))
  show "w_pc w u = None" if "u \<noteq> t" for u using h[of u] t that by (cases "w_pc w u") auto
qed

lemma wq_step_inv: "wq_step w w' \<Longrightarrow> wq_inv w \<Longrightarrow> wq_inv w'"
proof (induction rule: wq_step.induct)
  case (wq_work w t m)
  note work = wq_working[OF wq_work(2,1)]
  then obtain ms where "w_items w = m # ms" using wq_work(2) by (auto simp: wq_inv_def)
  with wq_work work show ?case by (auto simp: wq_inv_def holder_pc_def worked_iff)
next
  case (wq_pop w t)
  with wq_working[OF wq_pop(2,1)] show ?case by (auto simp: wq_inv_def holder_pc_def worked_iff)
next
  case (wq_pop_release w t)
  note work = wq_working[OF wq_pop_release(2,1)]
  with wq_pop_release(2) show ?case by (auto simp: wq_inv_def holder_pc_def worked_iff)
next
  case (wq_release w t)
  note work = wq_working[OF wq_release(2,1)]
  with wq_release(2) show ?case by (auto simp: wq_inv_def holder_pc_def worked_iff)
qed (auto simp: wq_inv_def holder_pc_def worked_iff split: if_splits bind_splits)

section \<open>The send queue implements the specification\<close>

fun flush_pc :: "client_pc \<Rightarrow> one_pc option" where
  "flush_pc (C_FlushSend block n p) = Some p"
| "flush_pc _ = None"

fun send_thr_pc :: "send_pc thr \<Rightarrow> one_pc option" where
  "send_thr_pc (Alive (S_Run p)) = Some p"
| "send_thr_pc _ = None"

definition send_worker :: "'t zcm_blocking \<Rightarrow> clients \<Rightarrow> tid \<Rightarrow> one_pc option" where
  "send_worker b cs t =
     (case t of SendThread \<Rightarrow> send_thr_pc (bl_sendThread b) | HndlThread \<Rightarrow> None | Client i \<Rightarrow> Option.bind (cs i) flush_pc)"

definition abs_send :: "event list \<Rightarrow> 't zcm_blocking \<times> clients \<Rightarrow> wq" where
  "abs_send evs s =
     \<lparr>w_items = q_contents (ts_queue (bl_sendQueue (fst s))), w_holder = bl_sendOneMutex (fst s),
      w_pc = send_worker (fst s) (snd s), w_in = accepted evs, w_out = sent evs\<rparr>"

definition disp_pc :: "client_pc \<Rightarrow> one_pc option" where
  "disp_pc pc = (case pc of C_HandleRun p \<Rightarrow> Some p | C_FlushDisp n p \<Rightarrow> Some p | C_Run (H_Run p) \<Rightarrow> Some p | _ \<Rightarrow> None)"

definition hndl_thr_pc :: "hndl_pc thr \<Rightarrow> one_pc option" where
  "hndl_thr_pc th = (case th of Alive (H_Run p) \<Rightarrow> Some p | _ \<Rightarrow> None)"

definition disp_worker :: "'t zcm_blocking \<Rightarrow> clients \<Rightarrow> tid \<Rightarrow> one_pc option" where
  "disp_worker b cs t =
     (case t of SendThread \<Rightarrow> None | HndlThread \<Rightarrow> hndl_thr_pc (bl_hndlThread b) | Client i \<Rightarrow> Option.bind (cs i) disp_pc)"

definition abs_disp :: "event list \<Rightarrow> 't zcm_blocking \<times> clients \<Rightarrow> wq" where
  "abs_disp evs s =
     \<lparr>w_items = q_contents (ts_queue (bl_recvQueue (fst s))), w_holder = bl_dispOneMutex (fst s),
      w_pc = disp_worker (fst s) (snd s), w_in = queued evs, w_out = dispatched evs\<rparr>"

definition queues_inv :: "'t zcm_blocking \<Rightarrow> bool" where
  "queues_inv b \<longleftrightarrow> q_inv (ts_queue (bl_sendQueue b)) \<and> q_inv (ts_queue (bl_recvQueue b))"

text \<open>The methods of the thread-safe queue on a well-formed queue, in terms of its contents.\<close>

lemma ts_top_Returns:
  assumes "q_inv (ts_queue t)" "ts_top t = Returns r"
  shows "r = None \<or> (\<exists>m ms. r = Some m \<and> q_contents (ts_queue t) = m # ms)"
proof (cases "q_contents (ts_queue t) = []")
  case True
  with assms q_hasMessage_iff[OF assms(1)] show ?thesis by (auto simp: ts_top_def split: if_splits)
next
  case False
  with assms q_top_pop_ok(1)[OF assms(1) False] show ?thesis
    by (cases "q_contents (ts_queue t)") (auto simp: ts_top_def split: if_splits)
qed

lemma ts_pop_Returns:
  assumes "q_inv (ts_queue t)" "ts_pop t = Returns t'"
  shows "q_inv (ts_queue t')" "q_contents (ts_queue t') = tl (q_contents (ts_queue t))"
proof -
  have ne: "q_contents (ts_queue t) \<noteq> []"
    using assms q_hasMessage_iff[OF assms(1)] by (auto simp: ts_pop_def q_pop_def split: option.splits if_splits)
  from q_top_pop_ok(2)[OF assms(1) ne] assms(2)
  show "q_inv (ts_queue t')" "q_contents (ts_queue t') = tl (q_contents (ts_queue t))"
    by (auto simp: ts_pop_def)
qed

lemma ts_push_Returns:
  assumes "q_inv (ts_queue t)" "ts_push m t = Returns (ok, t')"
  shows "q_inv (ts_queue t')" "q_contents (ts_queue t') = q_contents (ts_queue t) @ (if ok then [m] else [])"
  using assms(2) ts_push_cases(1)[OF assms(1), of m] q_push_ok[OF assms(1), of m] assms(1)
  by (auto split: if_splits)

lemma ts_pushIfRoom_Returns:
  assumes "q_inv (ts_queue t)" "ts_pushIfRoom m t = Returns (ok, t')"
  shows "q_inv (ts_queue t')" "q_contents (ts_queue t') = q_contents (ts_queue t) @ (if ok then [m] else [])"
  using assms(2) ts_push_cases(2)[OF assms(1), of m] q_push_ok[OF assms(1), of m] assms(1)
  by (auto split: if_splits)

lemma ts_setCapacity_Returns:
  assumes "q_inv (ts_queue t)" "ts_setCapacity c t = Returns t'" "ts_numMessages t < c"
  shows "q_inv (ts_queue t')" "q_contents (ts_queue t') = q_contents (ts_queue t)"
proof -
  have "tsq_inv (t, q_contents (ts_queue t), [])" using assms(1) by (simp add: tsq_inv_def)
  from tsq_step_inv[OF step_setCapacity[OF assms(3,2)] this]
  show "q_inv (ts_queue t')" "q_contents (ts_queue t') = q_contents (ts_queue t)" by (auto simp: tsq_inv_def)
qed

lemma ts_flags [simp]:
  "ts_queue (ts_disable t) = ts_queue t" "ts_queue (ts_enable t) = ts_queue t"
  by (simp_all add: ts_disable_def ts_enable_def)

text \<open>What leaves both queues as they are.\<close>

definition frame :: "'t zcm_blocking \<Rightarrow> 't zcm_blocking \<Rightarrow> bool" where
  "frame b b' \<longleftrightarrow> ts_queue (bl_sendQueue b') = ts_queue (bl_sendQueue b) \<and> bl_sendOneMutex b' = bl_sendOneMutex b
     \<and> send_thr_pc (bl_sendThread b') = send_thr_pc (bl_sendThread b)
     \<and> ts_queue (bl_recvQueue b') = ts_queue (bl_recvQueue b) \<and> bl_dispOneMutex b' = bl_dispOneMutex b
     \<and> hndl_thr_pc (bl_hndlThread b') = hndl_thr_pc (bl_hndlThread b)"

lemma spawn_Returns [simp]: "spawn th p = Returns th' \<longleftrightarrow> th = NoThread \<and> th' = Alive p"
  by (cases th) auto

lemma join_thr_Returns [simp]: "join_thr th = Returns th' \<longleftrightarrow> th = Finished \<and> th' = NoThread"
  by (cases th) auto

lemma api_call_frame:
  assumes "api_call rx i c b = Returns (k, b')"
  shows "frame b b'" "Option.bind (cont_pc k) flush_pc = None" "Option.bind (cont_pc k) disp_pc = None"
proof -
  have "frame b b' \<and> Option.bind (cont_pc k) flush_pc = None \<and> Option.bind (cont_pc k) disp_pc = None"
  proof (cases c)
    case (Unsubscribe lf bl sub)
    with assms show ?thesis
      by (auto simp: api_call_def unsubscribe_def deleteSubEntry_def frame_def Let_def split: if_splits option.splits)
  next
    case (Subscribe lf bl ch cb usr)
    with assms show ?thesis by (auto simp: api_call_def subscribe_def frame_def Let_def split: if_splits)
  next
    case (Stop bl)
    with assms show ?thesis by (auto simp: api_call_def stop_call_def frame_def Let_def disp_pc_def split: if_splits)
  qed (use assms in \<open>auto simp: api_call_def frame_def disp_pc_def hndl_thr_pc_def publish_call_def publish_spawn_def flush_call_def
        run_call_def start_call_def handle_call_def startRecvThread_def pause_call_def resume_call_def setQueueSize_call_def
        queryDrops_def split: if_splits\<close>)
  then show "frame b b'" "Option.bind (cont_pc k) flush_pc = None" "Option.bind (cont_pc k) disp_pc = None" by blast+
qed

lemma frame_refl [simp]: "frame b b" and frame_trans: "frame a b \<Longrightarrow> frame b c \<Longrightarrow> frame a c"
  by (simp_all add: frame_def)

lemma stop_reap_recv_frame: "stop_reap_recv b = Returns (ok, b') \<Longrightarrow> frame b b'"
  by (cases "bl_recvMode b") (auto simp: stop_reap_recv_def frame_def hndl_thr_pc_def split: if_splits)

lemma stop_reap_send_frame: "stop_reap_send b = Returns (ok, b') \<Longrightarrow> frame b b'"
  by (auto simp: stop_reap_send_def frame_def split: if_splits)

lemma frame_modes [simp]: "frame b (b'\<lparr>bl_recvModeMutex := x\<rparr>) = frame b b'" "frame b (b'\<lparr>bl_recvMode := y\<rparr>) = frame b b'"
  by (simp_all add: frame_def)

lemma stop_end_frame:
  assumes "stop_end block b = Returns (k, b')"
  shows "frame b b' \<and> (\<exists>rc. k = Return rc)"
proof (cases block)
  case True
  with assms show ?thesis by (auto simp: stop_end_def Let_def)
next
  case False
  with assms show ?thesis
    by (auto simp: stop_end_def Let_def split: if_splits dest!: stop_reap_recv_frame stop_reap_send_frame intro: frame_trans)
qed

lemma abs_send_frame:
  assumes "frame b b'" "\<And>j. Option.bind (cs' j) flush_pc = Option.bind (cs j) flush_pc" "accepted evs = []" "sent evs = []"
  shows "abs_send (es @ evs) (b', cs') = abs_send es (b, cs)"
  using assms by (auto simp: abs_send_def frame_def send_worker_def fun_eq_iff split: tid.splits)

lemma abs_disp_frame:
  assumes "frame b b'" "\<And>j. Option.bind (cs' j) disp_pc = Option.bind (cs j) disp_pc" "queued evs = []" "dispatched evs = []"
  shows "abs_disp (es @ evs) (b', cs') = abs_disp es (b, cs)"
  using assms by (auto simp: abs_disp_def frame_def disp_worker_def fun_eq_iff split: tid.splits)

fun client_quiet :: "client_pc \<Rightarrow> bool" where
  "client_quiet C_StopJoinHndl = True"
| "client_quiet C_StopJoinRecv = True"
| "client_quiet (C_StopSend b) = True"
| "client_quiet C_StopJoinSend = True"
| "client_quiet (C_StopEnd b) = True"
| "client_quiet C_RunEnd = True"
| "client_quiet (C_SizeRecv n b) = True"
| "client_quiet _ = False"

lemma client_step_frame:
  assumes "client_step rx i pc b = Returns (evs, k, b')" "client_quiet pc"
  shows "frame b b'" "evs = []" "Option.bind (cont_pc k) flush_pc = None" "Option.bind (cont_pc k) disp_pc = None"
    "flush_pc pc = None" "disp_pc pc = None"
proof -
  have "frame b b' \<and> evs = [] \<and> Option.bind (cont_pc k) flush_pc = None \<and> Option.bind (cont_pc k) disp_pc = None
    \<and> flush_pc pc = None \<and> disp_pc pc = None"
  proof (cases pc rule: client_quiet.cases)
    case (3 bl)
    with assms show ?thesis by (auto simp: client_step_def stop_send_def frame_def disp_pc_def split: if_splits)
  next
    case (5 bl)
    with assms show ?thesis by (auto simp: client_step_def disp_pc_def dest!: stop_end_frame)
  qed (use assms in \<open>auto simp: client_step_def frame_def disp_pc_def hndl_thr_pc_def split: if_splits\<close>)
  then show "frame b b'" "evs = []" "Option.bind (cont_pc k) flush_pc = None" "Option.bind (cont_pc k) disp_pc = None"
    "flush_pc pc = None" "disp_pc pc = None" by blast+
qed

text \<open>What \<^verbatim>\<open>sendOneMessage\<close> and \<^verbatim>\<open>dispatchOneMessage\<close> do to the queue they work on.\<close>

definition one_effect :: "one_pc \<Rightarrow> zcm_msg_t list \<Rightarrow> zcm_msg_t list \<Rightarrow> zcm_msg_t list \<Rightarrow> one_result \<Rightarrow> bool" where
  "one_effect pc items items' out res \<longleftrightarrow>
     (case pc of
        One_Top \<Rightarrow> items' = items \<and> out = [] \<and> (res = One_Ret False \<or> (\<exists>m ms. items = m # ms \<and> res = One_Next (One_Work m)))
      | One_Work m \<Rightarrow> items' = items \<and> out = [m] \<and> res = One_Next One_Pop
      | One_Pop \<Rightarrow> items' = tl items \<and> out = [] \<and> res = One_Ret True)"

definition send_only :: "'t zcm_blocking \<Rightarrow> 't zcm_blocking \<Rightarrow> bool" where
  "send_only b b' \<longleftrightarrow> bl_sendOneMutex b' = bl_sendOneMutex b \<and> bl_sendThread b' = bl_sendThread b
     \<and> bl_recvQueue b' = bl_recvQueue b \<and> bl_dispOneMutex b' = bl_dispOneMutex b \<and> bl_hndlThread b' = bl_hndlThread b"

definition disp_only :: "'t zcm_blocking \<Rightarrow> 't zcm_blocking \<Rightarrow> bool" where
  "disp_only b b' \<longleftrightarrow> bl_sendOneMutex b' = bl_sendOneMutex b \<and> bl_sendThread b' = bl_sendThread b
     \<and> bl_sendQueue b' = bl_sendQueue b \<and> bl_dispOneMutex b' = bl_dispOneMutex b \<and> bl_hndlThread b' = bl_hndlThread b"

lemma sendOneMessage_effect:
  assumes "sendOneMessage r pc b = Returns (evs, res, b')" "queues_inv b"
  shows "one_effect pc (q_contents (ts_queue (bl_sendQueue b))) (q_contents (ts_queue (bl_sendQueue b'))) (sent evs) res"
    "send_only b b'" "queues_inv b'" "accepted evs = []" "queued evs = []" "dispatched evs = []"
proof -
  have q: "q_inv (ts_queue (bl_sendQueue b))" using assms(2) by (simp add: queues_inv_def)
  note top = ts_top_Returns[OF q] and pop = ts_pop_Returns[OF q]
  have "one_effect pc (q_contents (ts_queue (bl_sendQueue b))) (q_contents (ts_queue (bl_sendQueue b'))) (sent evs) res
      \<and> send_only b b' \<and> queues_inv b' \<and> accepted evs = [] \<and> queued evs = [] \<and> dispatched evs = []"
  proof (cases pc)
    case One_Top
    with assms(1) obtain m where m: "ts_top (bl_sendQueue b) = Returns m" by (auto simp: sendOneMessage_def)
    with One_Top assms(1) have "b' = b \<and> evs = [] \<and> (res = One_Ret False \<or> (\<exists>msg. m = Some msg \<and> res = One_Next (One_Work msg)))"
      by (cases m) (auto simp: sendOneMessage_def split: if_splits)
    with top[OF m] One_Top assms(2) show ?thesis by (auto simp: one_effect_def send_only_def)
  next
    case (One_Work msg)
    with assms show ?thesis by (auto simp: sendOneMessage_def one_effect_def send_only_def queues_inv_def)
  next
    case One_Pop
    with assms(1) obtain t where t: "ts_pop (bl_sendQueue b) = Returns t" "b' = b\<lparr>bl_sendQueue := t\<rparr>" "evs = []" "res = One_Ret True"
      by (auto simp: sendOneMessage_def)
    with pop[OF t(1)] One_Pop assms(2) show ?thesis by (simp add: one_effect_def send_only_def queues_inv_def)
  qed
  then show "one_effect pc (q_contents (ts_queue (bl_sendQueue b))) (q_contents (ts_queue (bl_sendQueue b'))) (sent evs) res"
    "send_only b b'" "queues_inv b'" "accepted evs = []" "queued evs = []" "dispatched evs = []" by blast+
qed

lemma dispatchOneMessage_effect:
  assumes "dispatchOneMessage rx r pc b = Returns (evs, res, b')" "queues_inv b"
  shows "one_effect pc (q_contents (ts_queue (bl_recvQueue b))) (q_contents (ts_queue (bl_recvQueue b'))) (dispatched evs) res"
    "disp_only b b'" "queues_inv b'" "accepted evs = []" "queued evs = []" "sent evs = []"
proof -
  have q: "q_inv (ts_queue (bl_recvQueue b))" using assms(2) by (simp add: queues_inv_def)
  note top = ts_top_Returns[OF q] and pop = ts_pop_Returns[OF q]
  have "one_effect pc (q_contents (ts_queue (bl_recvQueue b))) (q_contents (ts_queue (bl_recvQueue b'))) (dispatched evs) res
      \<and> disp_only b b' \<and> queues_inv b' \<and> accepted evs = [] \<and> queued evs = [] \<and> sent evs = []"
  proof (cases pc)
    case One_Top
    with assms(1) obtain m where m: "ts_top (bl_recvQueue b) = Returns m" by (auto simp: dispatchOneMessage_def)
    with One_Top assms(1) have "b' = b \<and> evs = [] \<and> (res = One_Ret False \<or> (\<exists>msg. m = Some msg \<and> res = One_Next (One_Work msg)))"
      by (cases m) (auto simp: dispatchOneMessage_def split: if_splits)
    with top[OF m] One_Top assms(2) show ?thesis by (auto simp: one_effect_def disp_only_def)
  next
    case (One_Work msg)
    with assms show ?thesis by (auto simp: dispatchOneMessage_def one_effect_def disp_only_def queues_inv_def)
  next
    case One_Pop
    with assms(1) obtain t where t: "ts_pop (bl_recvQueue b) = Returns t" "b' = b\<lparr>bl_recvQueue := t\<rparr>" "evs = []" "res = One_Ret True"
      by (auto simp: dispatchOneMessage_def)
    with pop[OF t(1)] One_Pop assms(2) show ?thesis by (simp add: one_effect_def disp_only_def queues_inv_def)
  qed
  then show "one_effect pc (q_contents (ts_queue (bl_recvQueue b))) (q_contents (ts_queue (bl_recvQueue b'))) (dispatched evs) res"
    "disp_only b b'" "queues_inv b'" "accepted evs = []" "queued evs = []" "sent evs = []" by blast+
qed

text \<open>The holder of the lock takes its step in the specification; at the end it lets the lock go or stays for the next message.\<close>

fun res_pc :: "bool \<Rightarrow> one_result \<Rightarrow> one_pc option" where
  "res_pc release (One_Next p) = Some p"
| "res_pc release (One_Ret ok) = (if release then None else Some One_Top)"

fun res_holder :: "bool \<Rightarrow> one_result \<Rightarrow> tid option \<Rightarrow> tid option" where
  "res_holder release (One_Next p) h = h"
| "res_holder release (One_Ret ok) h = (if release then None else h)"

lemma wq_one:
  assumes "one_effect p (w_items w) items' out res" "w_pc w t = Some p"
  shows "wq_step w (w\<lparr>w_items := items', w_holder := res_holder release res (w_holder w),
    w_pc := (w_pc w)(t := res_pc release res), w_out := w_out w @ out\<rparr>)"
proof (cases p)
  case One_Top
  with assms consider (ret) "res = One_Ret False" | (msg) m ms where "w_items w = m # ms" "res = One_Next (One_Work m)"
    by (auto simp: one_effect_def)
  then show ?thesis
  proof cases
    case ret
    have "(w_pc w)(t \<mapsto> One_Top) = w_pc w" using assms(2) One_Top by auto
    then show ?thesis using assms One_Top ret wq_skip[of w] wq_release[of w t] by (auto simp: one_effect_def)
  next
    case msg
    with assms One_Top wq_top[of w t m ms] show ?thesis by (cases w) (simp add: one_effect_def)
  qed
next
  case (One_Work m)
  with assms wq_work[of w t m] show ?thesis by (simp add: one_effect_def)
next
  case One_Pop
  with assms wq_pop[of w t] wq_pop_release[of w t] show ?thesis by (simp add: one_effect_def)
qed

section \<open>Both queues implement the specification\<close>

text \<open>What a step must leave alone on one side while it works on the other.\<close>

definition same_send :: "event list \<Rightarrow> 't zcm_blocking \<times> clients \<Rightarrow> 't zcm_blocking \<times> clients \<Rightarrow> bool" where
  "same_send evs s s' \<longleftrightarrow> ts_queue (bl_sendQueue (fst s')) = ts_queue (bl_sendQueue (fst s))
     \<and> bl_sendOneMutex (fst s') = bl_sendOneMutex (fst s) \<and> send_thr_pc (bl_sendThread (fst s')) = send_thr_pc (bl_sendThread (fst s))
     \<and> (\<forall>j. Option.bind (snd s' j) flush_pc = Option.bind (snd s j) flush_pc) \<and> accepted evs = [] \<and> sent evs = []"

definition same_disp :: "event list \<Rightarrow> 't zcm_blocking \<times> clients \<Rightarrow> 't zcm_blocking \<times> clients \<Rightarrow> bool" where
  "same_disp evs s s' \<longleftrightarrow> ts_queue (bl_recvQueue (fst s')) = ts_queue (bl_recvQueue (fst s))
     \<and> bl_dispOneMutex (fst s') = bl_dispOneMutex (fst s) \<and> hndl_thr_pc (bl_hndlThread (fst s')) = hndl_thr_pc (bl_hndlThread (fst s))
     \<and> (\<forall>j. Option.bind (snd s' j) disp_pc = Option.bind (snd s j) disp_pc) \<and> queued evs = [] \<and> dispatched evs = []"

definition sim_send :: "'t zcm_blocking \<times> clients \<Rightarrow> event list \<Rightarrow> 't zcm_blocking \<times> clients \<Rightarrow> bool" where
  "sim_send s evs s' \<longleftrightarrow> (\<forall>es. wq_step (abs_send es s) (abs_send (es @ evs) s')) \<and> q_inv (ts_queue (bl_sendQueue (fst s')))"

definition sim_disp :: "'t zcm_blocking \<times> clients \<Rightarrow> event list \<Rightarrow> 't zcm_blocking \<times> clients \<Rightarrow> bool" where
  "sim_disp s evs s' \<longleftrightarrow> (\<forall>es. wq_step (abs_disp es s) (abs_disp (es @ evs) s')) \<and> q_inv (ts_queue (bl_recvQueue (fst s')))"

lemma same_send_sim: "same_send evs s s' \<Longrightarrow> queues_inv (fst s) \<Longrightarrow> sim_send s evs s'"
proof -
  assume a: "same_send evs s s'" "queues_inv (fst s)"
  then have "abs_send (es @ evs) s' = abs_send es s" for es
    by (auto simp: abs_send_def same_send_def send_worker_def fun_eq_iff split: tid.splits)
  with a show ?thesis by (simp add: sim_send_def same_send_def queues_inv_def wq_skip)
qed

lemma same_disp_sim: "same_disp evs s s' \<Longrightarrow> queues_inv (fst s) \<Longrightarrow> sim_disp s evs s'"
proof -
  assume a: "same_disp evs s s'" "queues_inv (fst s)"
  then have "abs_disp (es @ evs) s' = abs_disp es s" for es
    by (auto simp: abs_disp_def same_disp_def disp_worker_def fun_eq_iff split: tid.splits)
  with a show ?thesis by (simp add: sim_disp_def same_disp_def queues_inv_def wq_skip)
qed

lemma frame_same:
  assumes "frame b b'" "\<And>j. Option.bind (cs' j) flush_pc = Option.bind (cs j) flush_pc"
    "\<And>j. Option.bind (cs' j) disp_pc = Option.bind (cs j) disp_pc"
  shows "same_send [] (b, cs) (b', cs')" "same_disp [] (b, cs) (b', cs')"
  using assms by (auto simp: same_send_def same_disp_def frame_def)

lemma send_one_sim:
  assumes one: "sendOneMessage r p b = Returns (evs, res, b1)" "queues_inv b" and w: "send_worker b cs t = Some p"
    and b': "bl_sendQueue b' = bl_sendQueue b1" "bl_sendOneMutex b' = res_holder rel res (bl_sendOneMutex b)"
      "send_worker b' cs' = (send_worker b cs)(t := res_pc rel res)"
  shows "sim_send (b, cs) evs (b', cs')"
proof -
  note eff = sendOneMessage_effect[OF one]
  have "wq_step (abs_send es (b, cs)) (abs_send (es @ evs) (b', cs'))" for es
    using wq_one[of p "abs_send es (b, cs)" _ _ res t rel] eff(1,4) w b' by (simp add: abs_send_def)
  with eff(3) b'(1) show ?thesis by (simp add: sim_send_def queues_inv_def)
qed

lemma disp_one_sim:
  assumes one: "dispatchOneMessage rx r p b = Returns (evs, res, b1)" "queues_inv b" and w: "disp_worker b cs t = Some p"
    and b': "bl_recvQueue b' = bl_recvQueue b1" "bl_dispOneMutex b' = res_holder rel res (bl_dispOneMutex b)"
      "disp_worker b' cs' = (disp_worker b cs)(t := res_pc rel res)"
  shows "sim_disp (b, cs) evs (b', cs')"
proof -
  note eff = dispatchOneMessage_effect[OF one]
  have "wq_step (abs_disp es (b, cs)) (abs_disp (es @ evs) (b', cs'))" for es
    using wq_one[of p "abs_disp es (b, cs)" _ _ res t rel] eff(1,5) w b' by (simp add: abs_disp_def)
  with eff(3) b'(1) show ?thesis by (simp add: sim_disp_def queues_inv_def)
qed

lemma send_acquire_sim:
  assumes "queues_inv b" "bl_sendOneMutex b = None" "ts_queue (bl_sendQueue b') = ts_queue (bl_sendQueue b)"
    "bl_sendOneMutex b' = Some t" "send_worker b' cs' = (send_worker b cs)(t := Some One_Top)"
  shows "sim_send (b, cs) [] (b', cs')"
  using assms wq_acquire[of "abs_send es (b, cs)" t for es] by (simp add: sim_send_def abs_send_def queues_inv_def)

lemma disp_acquire_sim:
  assumes "queues_inv b" "bl_dispOneMutex b = None" "ts_queue (bl_recvQueue b') = ts_queue (bl_recvQueue b)"
    "bl_dispOneMutex b' = Some t" "disp_worker b' cs' = (disp_worker b cs)(t := Some One_Top)"
  shows "sim_disp (b, cs) [] (b', cs')"
  using assms wq_acquire[of "abs_disp es (b, cs)" t for es] by (simp add: sim_disp_def abs_disp_def queues_inv_def)

lemma send_release_sim:
  assumes "queues_inv b" "send_worker b cs t = Some One_Top" "ts_queue (bl_sendQueue b') = ts_queue (bl_sendQueue b)"
    "bl_sendOneMutex b' = None" "send_worker b' cs' = (send_worker b cs)(t := None)"
  shows "sim_send (b, cs) [] (b', cs')"
  using assms wq_release[of "abs_send es (b, cs)" t for es] by (simp add: sim_send_def abs_send_def queues_inv_def)

lemma disp_release_sim:
  assumes "queues_inv b" "disp_worker b cs t = Some One_Top" "ts_queue (bl_recvQueue b') = ts_queue (bl_recvQueue b)"
    "bl_dispOneMutex b' = None" "disp_worker b' cs' = (disp_worker b cs)(t := None)"
  shows "sim_disp (b, cs) [] (b', cs')"
  using assms wq_release[of "abs_disp es (b, cs)" t for es] by (simp add: sim_disp_def abs_disp_def queues_inv_def)

text \<open>The workers after a step of one thread.\<close>

lemma send_worker_upd:
  assumes "\<And>j. j \<noteq> i \<Longrightarrow> cs' j = cs j" "send_thr_pc (bl_sendThread b') = send_thr_pc (bl_sendThread b)"
  shows "send_worker b' cs' = (send_worker b cs)(Client i := Option.bind (cs' i) flush_pc)"
  using assms by (auto simp: send_worker_def fun_eq_iff split: tid.splits)

lemma disp_worker_upd:
  assumes "\<And>j. j \<noteq> i \<Longrightarrow> cs' j = cs j" "hndl_thr_pc (bl_hndlThread b') = hndl_thr_pc (bl_hndlThread b)"
  shows "disp_worker b' cs' = (disp_worker b cs)(Client i := Option.bind (cs' i) disp_pc)"
  using assms by (auto simp: disp_worker_def fun_eq_iff split: tid.splits)

lemma send_worker_thread: "send_worker (b\<lparr>bl_sendThread := th\<rparr>) cs = (send_worker b cs)(SendThread := send_thr_pc th)"
  by (auto simp: send_worker_def fun_eq_iff split: tid.splits)

lemma disp_worker_thread: "disp_worker (b\<lparr>bl_hndlThread := th\<rparr>) cs = (disp_worker b cs)(HndlThread := hndl_thr_pc th)"
  by (auto simp: disp_worker_def fun_eq_iff split: tid.splits)

lemma sim_sendThread:
  assumes pc: "bl_sendThread b = Alive pc" and step: "sendThreadFunc pc b = Returns (evs, b')" and inv: "queues_inv b"
  shows "sim_send (b, cs) evs (b', cs) \<and> sim_disp (b, cs) evs (b', cs)"
proof (cases pc)
  case S_Lock
  with step have b': "bl_sendOneMutex b = None" "evs = []" "b' = b\<lparr>bl_sendOneMutex := Some SendThread, bl_sendThread := Alive (S_Run One_Top)\<rparr>"
    by (auto simp: sendThreadFunc_def split: if_splits)
  have "sim_send (b, cs) [] (b', cs)"
    using b' inv by (intro send_acquire_sim[of b b' SendThread]) (auto simp: send_worker_def fun_eq_iff split: tid.splits)
  moreover have "same_disp [] (b, cs) (b', cs)" using b' by (simp add: same_disp_def)
  ultimately show ?thesis using b' inv same_disp_sim by auto
next
  case (S_Run p)
  with step obtain evs1 res b1 where one1: "sendOneMessage True p b = Returns (evs1, res, b1)"
    by (auto simp: sendThreadFunc_def)
  with step S_Run have one: "sendOneMessage True p b = Returns (evs, res, b1)"
    and b': "b' = (case res of One_Next p \<Rightarrow> b1\<lparr>bl_sendThread := Alive (S_Run p)\<rparr>
        | One_Ret _ \<Rightarrow> b1\<lparr>bl_sendOneMutex := None, bl_sendThread := Alive S_Wait\<rparr>)"
    by (cases res; simp add: sendThreadFunc_def)+
  note eff = sendOneMessage_effect[OF one inv]
  have "sim_send (b, cs) evs (b', cs)"
  proof (rule send_one_sim[OF one inv, where t = SendThread and rel = True])
    show "send_worker b cs SendThread = Some p" using pc S_Run by (simp add: send_worker_def)
    show "send_worker b' cs = (send_worker b cs)(SendThread := res_pc True res)"
      using eff(2) b' by (cases res) (auto simp: send_worker_def send_only_def fun_eq_iff split: tid.splits)
  qed (use eff(2) b' in \<open>cases res; simp add: send_only_def\<close>)+
  moreover have "same_disp evs (b, cs) (b', cs)" using eff b' by (cases res) (simp_all add: same_disp_def send_only_def)
  ultimately show ?thesis using inv same_disp_sim by auto
qed (use assms same_send_sim[of evs "(b, cs)" "(b', cs)"] same_disp_sim[of evs "(b, cs)" "(b', cs)"] in
    \<open>auto simp: sendThreadFunc_def same_send_def same_disp_def split: if_splits\<close>)

lemma sim_recvThread:
  assumes "bl_recvThread b = Alive pc" and step: "recvThreadFunc rx pc b = Returns (evs, b')" and inv: "queues_inv b"
  shows "sim_send (b, cs) evs (b', cs) \<and> sim_disp (b, cs) evs (b', cs)"
proof (cases pc)
  case (R_Push m)
  with step obtain ok q where p: "ts_push m (bl_recvQueue b) = Returns (ok, q)" "evs = [if ok then Queued m else Dropped m]"
      "b' = b\<lparr>bl_recvQueue := q, bl_recvThread := Alive R_Check\<rparr>"
    by (auto simp: recvThreadFunc_def)
  have qi: "q_inv (ts_queue (bl_recvQueue b))" using inv by (simp add: queues_inv_def)
  note push = ts_push_Returns[OF qi p(1)]
  have "disp_worker b' cs = disp_worker b cs" using p by (auto simp: disp_worker_def fun_eq_iff split: tid.splits)
  then have "wq_step (abs_disp es (b, cs)) (abs_disp (es @ evs) (b', cs))" for es
    using push p wq_push[of "abs_disp es (b, cs)" m] wq_skip[of "abs_disp es (b, cs)"] by (simp add: abs_disp_def)
  moreover have "same_send evs (b, cs) (b', cs)" using p by (simp add: same_send_def)
  ultimately show ?thesis using inv push p same_send_sim by (auto simp: sim_disp_def)
qed (use step inv same_send_sim[of evs "(b, cs)" "(b', cs)"] same_disp_sim[of evs "(b, cs)" "(b', cs)"] in
    \<open>auto simp: recvThreadFunc_def same_send_def same_disp_def Let_def split: if_splits option.splits\<close>)

text \<open>The handle thread, on its own thread or on a client's.\<close>

lemma hndl_cases:
  assumes step: "hndlThreadFunc rx me pc b = Returns (evs, pc', b')" and inv: "queues_inv b"
  obtains (lock) "pc = H_Lock" "bl_dispOneMutex b = None" "evs = []" "pc' = Some (H_Run One_Top)" "b' = b\<lparr>bl_dispOneMutex := Some me\<rparr>"
    | (run) p res b1 where "pc = H_Run p" "dispatchOneMessage rx True p b = Returns (evs, res, b1)"
        "pc' = (case res of One_Next p \<Rightarrow> Some (H_Run p) | One_Ret _ \<Rightarrow> Some H_Wait)"
        "b' = (case res of One_Next p \<Rightarrow> b1 | One_Ret _ \<Rightarrow> b1\<lparr>bl_dispOneMutex := None\<rparr>)"
    | (other) "hndl_thr_pc (Alive pc) = None" "evs = []" "frame b b'" "\<And>p. pc' \<noteq> Some (H_Run p)"
proof (cases pc)
  case H_Lock
  with step lock show ?thesis by (auto simp: hndlThreadFunc_def split: if_splits)
next
  case (H_Run p)
  with step obtain evs1 res b1 where "dispatchOneMessage rx True p b = Returns (evs1, res, b1)"
    by (auto simp: hndlThreadFunc_def)
  with step H_Run run show ?thesis by (cases res) (auto simp: hndlThreadFunc_def)
qed (use step other in \<open>auto simp: hndlThreadFunc_def hndl_thr_pc_def frame_def split: if_splits\<close>)

lemma sim_hndlThread:
  assumes pc: "bl_hndlThread b = Alive pc" and step: "hndlThreadFunc rx HndlThread pc b = Returns (evs, pc', b')"
    and inv: "queues_inv b"
  defines "b2 \<equiv> b'\<lparr>bl_hndlThread := (case pc' of Some p \<Rightarrow> Alive p | None \<Rightarrow> Finished)\<rparr>"
  shows "sim_send (b, cs) evs (b2, cs) \<and> sim_disp (b, cs) evs (b2, cs)"
  using step inv
proof (cases rule: hndl_cases)
  case lock
  have "sim_disp (b, cs) [] (b2, cs)"
    using lock inv by (intro disp_acquire_sim[of b b2 HndlThread])
      (auto simp: b2_def disp_worker_def hndl_thr_pc_def fun_eq_iff split: tid.splits)
  moreover have "same_send [] (b, cs) (b2, cs)" using lock by (simp add: same_send_def b2_def)
  ultimately show ?thesis using lock inv same_send_sim by auto
next
  case (run p res b1)
  note eff = dispatchOneMessage_effect[OF run(2) inv]
  have "sim_disp (b, cs) evs (b2, cs)"
  proof (rule disp_one_sim[OF run(2) inv, where t = HndlThread and rel = True])
    show "disp_worker b cs HndlThread = Some p" using pc run by (simp add: disp_worker_def hndl_thr_pc_def)
    show "disp_worker b2 cs = (disp_worker b cs)(HndlThread := res_pc True res)"
      using eff(2) run by (cases res) (auto simp: b2_def disp_worker_def disp_only_def hndl_thr_pc_def fun_eq_iff split: tid.splits)
  qed (use eff(2) run in \<open>cases res; simp add: b2_def disp_only_def\<close>)+
  moreover have "same_send evs (b, cs) (b2, cs)"
    using eff run by (cases res) (simp_all add: b2_def same_send_def disp_only_def)
  ultimately show ?thesis using inv same_send_sim by auto
next
  case other
  then have "same_send evs (b, cs) (b2, cs)" "same_disp evs (b, cs) (b2, cs)"
    using pc by (auto simp: b2_def same_send_def same_disp_def frame_def hndl_thr_pc_def split: option.splits hndl_pc.splits)
  then show ?thesis using inv same_send_sim same_disp_sim by auto
qed

lemma sim_call:
  assumes "cs i = None" "api_call rx i c b = Returns (k, b')" "queues_inv b"
  shows "sim_send (b, cs) [] (b', cs(i := cont_pc k)) \<and> sim_disp (b, cs) [] (b', cs(i := cont_pc k))"
proof -
  have "same_send [] (b, cs) (b', cs(i := cont_pc k))" "same_disp [] (b, cs) (b', cs(i := cont_pc k))"
    using api_call_frame[OF assms(2)] assms(1) by (auto intro!: frame_same)
  then show ?thesis using assms(3) same_send_sim same_disp_sim by auto
qed

text \<open>Clients that work on a queue.\<close>

lemma client_send_one:
  assumes cs: "cs i = Some pc" "flush_pc pc = Some p" "disp_pc pc = None" and one: "sendOneMessage r p b = Returns (evs, res, b1)"
    and inv: "queues_inv b" and k: "Option.bind (cont_pc k) flush_pc = res_pc False res" "Option.bind (cont_pc k) disp_pc = None"
  shows "sim_send (b, cs) evs (b1, cs(i := cont_pc k)) \<and> sim_disp (b, cs) evs (b1, cs(i := cont_pc k))"
proof -
  note eff = sendOneMessage_effect[OF one inv]
  have "sim_send (b, cs) evs (b1, cs(i := cont_pc k))"
  proof (rule send_one_sim[OF one inv, where t = "Client i" and rel = False])
    show "send_worker b cs (Client i) = Some p" using cs by (simp add: send_worker_def)
    show "send_worker b1 (cs(i := cont_pc k)) = (send_worker b cs)(Client i := res_pc False res)"
      using eff(2) k by (subst send_worker_upd[of i _ cs]) (auto simp: send_only_def)
    show "bl_sendOneMutex b1 = res_holder False res (bl_sendOneMutex b)" using eff(2) by (cases res) (auto simp: send_only_def)
  qed simp
  moreover have "same_disp evs (b, cs) (b1, cs(i := cont_pc k))" using eff cs k by (auto simp: same_disp_def send_only_def)
  ultimately show ?thesis using inv same_disp_sim by auto
qed

lemma client_disp_one:
  assumes cs: "cs i = Some pc" "disp_pc pc = Some p" "flush_pc pc = None" and one: "dispatchOneMessage rx r p b = Returns (evs, res, b1)"
    and inv: "queues_inv b" and k: "Option.bind (cont_pc k) disp_pc = res_pc rel res" "Option.bind (cont_pc k) flush_pc = None"
    and b': "b' = (if rel \<and> (\<exists>ok. res = One_Ret ok) then b1\<lparr>bl_dispOneMutex := None\<rparr> else b1)"
  shows "sim_send (b, cs) evs (b', cs(i := cont_pc k)) \<and> sim_disp (b, cs) evs (b', cs(i := cont_pc k))"
proof -
  note eff = dispatchOneMessage_effect[OF one inv]
  have "sim_disp (b, cs) evs (b', cs(i := cont_pc k))"
  proof (rule disp_one_sim[OF one inv, where t = "Client i" and rel = rel])
    show "disp_worker b cs (Client i) = Some p" using cs by (simp add: disp_worker_def)
    show "disp_worker b' (cs(i := cont_pc k)) = (disp_worker b cs)(Client i := res_pc rel res)"
      using eff(2) k b' by (subst disp_worker_upd[of i _ cs]) (auto simp: disp_only_def)
    show "bl_dispOneMutex b' = res_holder rel res (bl_dispOneMutex b)" using eff(2) b' by (cases res) (auto simp: disp_only_def)
    show "bl_recvQueue b' = bl_recvQueue b1" using b' by simp
  qed
  moreover have "same_send evs (b, cs) (b', cs(i := cont_pc k))" using eff cs k b' by (auto simp: same_send_def disp_only_def)
  ultimately show ?thesis using inv same_send_sim by auto
qed

definition disp_acquired :: "nat \<Rightarrow> 't zcm_blocking \<Rightarrow> 't zcm_blocking \<Rightarrow> bool" where
  "disp_acquired i b b' \<longleftrightarrow> bl_dispOneMutex b' = Some (Client i) \<and> ts_queue (bl_recvQueue b') = ts_queue (bl_recvQueue b)
     \<and> bl_hndlThread b' = bl_hndlThread b \<and> bl_sendQueue b' = bl_sendQueue b \<and> bl_sendOneMutex b' = bl_sendOneMutex b
     \<and> bl_sendThread b' = bl_sendThread b"

lemma client_disp_acquire:
  assumes "cs i = Some pc" "flush_pc pc = None" "queues_inv b" "bl_dispOneMutex b = None"
    "disp_acquired i b b'" "Option.bind (cont_pc k) disp_pc = Some One_Top" "Option.bind (cont_pc k) flush_pc = None"
  shows "sim_send (b, cs) [] (b', cs(i := cont_pc k)) \<and> sim_disp (b, cs) [] (b', cs(i := cont_pc k))"
proof -
  have "sim_disp (b, cs) [] (b', cs(i := cont_pc k))"
    using assms disp_worker_upd[of i "cs(i := cont_pc k)" cs b' b] by (intro disp_acquire_sim[of b b' "Client i"]) (auto simp: disp_acquired_def)
  moreover have "same_send [] (b, cs) (b', cs(i := cont_pc k))" using assms by (auto simp: same_send_def disp_acquired_def)
  ultimately show ?thesis using assms(3) same_send_sim by auto
qed

lemma client_skip:
  assumes "cs i = Some pc" "flush_pc pc = None" "disp_pc pc = None" "queues_inv b" "frame b b'"
    "Option.bind (cont_pc k) disp_pc = None" "Option.bind (cont_pc k) flush_pc = None"
  shows "sim_send (b, cs) [] (b', cs(i := cont_pc k)) \<and> sim_disp (b, cs) [] (b', cs(i := cont_pc k))"
proof -
  have "same_send [] (b, cs) (b', cs(i := cont_pc k))" "same_disp [] (b, cs) (b', cs(i := cont_pc k))"
    using assms by (auto intro!: frame_same)
  then show ?thesis using assms(4) same_send_sim same_disp_sim by auto
qed

lemma client_publish:
  assumes cs: "cs i = Some (C_Publish now ch data)" and step: "client_step rx i (C_Publish now ch data) b = Returns (evs, k, b')"
    and inv: "queues_inv b"
  shows "sim_send (b, cs) evs (b', cs(i := cont_pc k)) \<and> sim_disp (b, cs) evs (b', cs(i := cont_pc k))"
proof -
  let ?m = "\<lparr>msg_utime = now, msg_channel = ch, msg_buf = data\<rparr>"
  from step obtain ok q rc where p: "ts_pushIfRoom ?m (bl_sendQueue b) = Returns (ok, q)" "b' = b\<lparr>bl_sendQueue := q\<rparr>"
      "evs = (if ok then [Accepted ?m] else [])" "k = Return rc"
    by (auto simp: client_step_def publish_push_def Let_def split: if_splits)
  have qi: "q_inv (ts_queue (bl_sendQueue b))" using inv by (simp add: queues_inv_def)
  note push = ts_pushIfRoom_Returns[OF qi p(1)]
  have w: "send_worker b' (cs(i := cont_pc k)) = send_worker b cs"
    using p cs by (auto simp: send_worker_def fun_eq_iff split: tid.splits)
  then have "wq_step (abs_send es (b, cs)) (abs_send (es @ evs) (b', cs(i := cont_pc k)))" for es
    using push p wq_push[of "abs_send es (b, cs)" ?m] wq_skip[of "abs_send es (b, cs)"] by (simp add: abs_send_def)
  moreover have "same_disp evs (b, cs) (b', cs(i := cont_pc k))" using p cs by (auto simp: same_disp_def disp_pc_def)
  ultimately show ?thesis using inv push p same_disp_sim by (auto simp: sim_send_def)
qed

lemma client_size:
  assumes cs: "cs i = Some pc" "pc = C_SizeSendLock n bl \<or> pc = C_SizeRecvLock n bl" and fits: "resize_fits pc b"
    and step: "client_step rx i pc b = Returns (evs, k, b')" and inv: "queues_inv b"
  shows "sim_send (b, cs) evs (b', cs(i := cont_pc k)) \<and> sim_disp (b, cs) evs (b', cs(i := cont_pc k))"
proof -
  have qs: "q_inv (ts_queue (bl_sendQueue b))" and qr: "q_inv (ts_queue (bl_recvQueue b))" using inv by (simp_all add: queues_inv_def)
  note capS = ts_setCapacity_Returns[OF qs] and capR = ts_setCapacity_Returns[OF qr]
  have k: "Option.bind (cont_pc k) flush_pc = None" "Option.bind (cont_pc k) disp_pc = None" "evs = []"
      "flush_pc pc = None" "disp_pc pc = None" "bl_sendOneMutex b' = bl_sendOneMutex b" "bl_dispOneMutex b' = bl_dispOneMutex b"
      "bl_sendThread b' = bl_sendThread b" "bl_hndlThread b' = bl_hndlThread b"
    using cs(2) step by (auto simp: client_step_def disp_pc_def split: if_splits)
  have c: "q_contents (ts_queue (bl_sendQueue b')) = q_contents (ts_queue (bl_sendQueue b)) \<and> q_inv (ts_queue (bl_sendQueue b'))
    \<and> q_contents (ts_queue (bl_recvQueue b')) = q_contents (ts_queue (bl_recvQueue b)) \<and> q_inv (ts_queue (bl_recvQueue b'))"
    using cs(2)
  proof
    assume pc: "pc = C_SizeSendLock n bl"
    with step consider "b' = b\<lparr>bl_sendQueue := ts_enable (bl_sendQueue b)\<rparr>"
      | q where "ts_setCapacity n (bl_sendQueue b) = Returns q" "b' = b\<lparr>bl_sendQueue := ts_enable q\<rparr>"
      by (auto simp: client_step_def split: if_splits)
    then show ?thesis using qs qr fits pc capS[of n] by cases (simp_all add: resize_fits_def)
  next
    assume pc: "pc = C_SizeRecvLock n bl"
    with step consider "b' = b\<lparr>bl_recvQueue := ts_enable (bl_recvQueue b)\<rparr>"
      | q where "ts_setCapacity n (bl_recvQueue b) = Returns q" "b' = b\<lparr>bl_recvQueue := ts_enable q\<rparr>"
      by (auto simp: client_step_def split: if_splits)
    then show ?thesis using qs qr fits pc capR[of n] by cases (simp_all add: resize_fits_def)
  qed
  have "send_worker b' (cs(i := cont_pc k)) = send_worker b cs" "disp_worker b' (cs(i := cont_pc k)) = disp_worker b cs"
    using k cs(1) by (auto simp: send_worker_def disp_worker_def fun_eq_iff split: tid.splits)
  with k c have "abs_send (es @ evs) (b', cs(i := cont_pc k)) = abs_send es (b, cs)"
      "abs_disp (es @ evs) (b', cs(i := cont_pc k)) = abs_disp es (b, cs)" for es
    by (simp_all add: abs_send_def abs_disp_def)
  with c show ?thesis by (simp add: sim_send_def sim_disp_def wq_skip)
qed

lemma client_hndl:
  assumes cs: "cs i = Some (C_Run pc)" and step: "client_step rx i (C_Run pc) b = Returns (evs, k, b')" and inv: "queues_inv b"
  shows "sim_send (b, cs) evs (b', cs(i := cont_pc k)) \<and> sim_disp (b, cs) evs (b', cs(i := cont_pc k))"
proof -
  from step obtain pc' where h: "hndlThreadFunc rx (Client i) pc b = Returns (evs, pc', b')"
      "k = Continue (case pc' of Some p \<Rightarrow> C_Run p | None \<Rightarrow> C_RunEnd)"
    by (auto simp: client_step_def)
  from h(1) inv show ?thesis
  proof (cases rule: hndl_cases)
    case lock
    with client_disp_acquire[where cs = cs and i = i, OF cs _ inv, where b' = b' and k = k] h(2) show ?thesis by (simp add: disp_pc_def disp_acquired_def)
  next
    case (run p res b1)
    have "disp_pc (C_Run pc) = Some p" "flush_pc (C_Run pc) = None" using run by (simp_all add: disp_pc_def)
    from client_disp_one[where cs = cs and i = i, OF cs this run(2) inv, where k = k and rel = True and b' = b'] run h(2) show ?thesis by (cases res) (auto simp: disp_pc_def)
  next
    case other
    then have "disp_pc (C_Run pc) = None" by (auto simp: hndl_thr_pc_def disp_pc_def split: hndl_pc.splits)
    moreover have "Option.bind (cont_pc k) disp_pc = None" "Option.bind (cont_pc k) flush_pc = None"
      using other(4) h(2) by (auto simp: disp_pc_def split: option.splits hndl_pc.splits)
    ultimately show ?thesis using client_skip[where cs = cs and i = i, OF cs _ _ inv other(3), where k = k] other(2) by simp
  qed
qed

lemma client_flush_send:
  assumes cs: "cs i = Some (C_FlushSend bl n p)" and step: "client_step rx i (C_FlushSend bl n p) b = Returns (evs, k, b')"
    and inv: "queues_inv b"
  shows "sim_send (b, cs) evs (b', cs(i := cont_pc k)) \<and> sim_disp (b, cs) evs (b', cs(i := cont_pc k))"
proof (cases "n = 0 \<and> p = One_Top")
  case True
  with step have b': "evs = []" "k = Continue (C_FlushDispLock bl)" "b' = b\<lparr>bl_sendOneMutex := None, bl_recvQueue := ts_disable (bl_recvQueue b)\<rparr>"
    by (auto simp: client_step_def)
  have "sim_send (b, cs) [] (b', cs(i := cont_pc k))"
    using True cs inv b' send_worker_upd[of i "cs(i := cont_pc k)" cs b' b]
    by (intro send_release_sim[of b cs "Client i"]) (auto simp: send_worker_def)
  moreover have "same_disp [] (b, cs) (b', cs(i := cont_pc k))" using b' cs by (auto simp: same_disp_def disp_pc_def)
  ultimately show ?thesis using inv same_disp_sim b' by auto
next
  case False
  with step obtain evs1 res b1 where "sendOneMessage False p b = Returns (evs1, res, b1)" by (auto simp: client_step_def split: if_splits)
  with step False have one: "sendOneMessage False p b = Returns (evs, res, b')"
    "k = Continue (case res of One_Next p \<Rightarrow> C_FlushSend bl n p | One_Ret _ \<Rightarrow> C_FlushSend bl (n - 1) One_Top)"
    by (cases res; auto simp: client_step_def split: if_splits)+
  from client_send_one[where cs = cs and i = i, OF cs _ _ one(1) inv, where k = k] one(2) show ?thesis by (cases res) (auto simp: disp_pc_def)
qed

lemma client_flush_disp:
  assumes cs: "cs i = Some (C_FlushDisp n p)" and step: "client_step rx i (C_FlushDisp n p) b = Returns (evs, k, b')"
    and inv: "queues_inv b"
  shows "sim_send (b, cs) evs (b', cs(i := cont_pc k)) \<and> sim_disp (b, cs) evs (b', cs(i := cont_pc k))"
proof (cases "n = 0 \<and> p = One_Top")
  case True
  with step have b': "evs = []" "k = Return ZCM_EOK" "b' = b\<lparr>bl_dispOneMutex := None\<rparr>"
    by (auto simp: client_step_def)
  have "sim_disp (b, cs) [] (b', cs(i := cont_pc k))"
    using True cs inv b' disp_worker_upd[of i "cs(i := cont_pc k)" cs b' b]
    by (intro disp_release_sim[of b cs "Client i"]) (auto simp: disp_worker_def disp_pc_def)
  moreover have "same_send [] (b, cs) (b', cs(i := cont_pc k))" using b' cs by (auto simp: same_send_def)
  ultimately show ?thesis using inv same_send_sim b' by auto
next
  case False
  with step obtain evs1 res b1 where "dispatchOneMessage rx False p b = Returns (evs1, res, b1)"
    by (auto simp: client_step_def split: if_splits)
  with step False have one: "dispatchOneMessage rx False p b = Returns (evs, res, b')"
    "k = Continue (case res of One_Next p \<Rightarrow> C_FlushDisp n p | One_Ret _ \<Rightarrow> C_FlushDisp (n - 1) One_Top)"
    by (cases res; auto simp: client_step_def split: if_splits)+
  from client_disp_one[where cs = cs and i = i, OF cs _ _ one(1) inv, where k = k and rel = False and b' = b'] one(2) show ?thesis by (cases res) (auto simp: disp_pc_def)
qed

lemma client_handle_run:
  assumes cs: "cs i = Some (C_HandleRun p)" and step: "client_step rx i (C_HandleRun p) b = Returns (evs, k, b')" and inv: "queues_inv b"
  shows "sim_send (b, cs) evs (b', cs(i := cont_pc k)) \<and> sim_disp (b, cs) evs (b', cs(i := cont_pc k))"
proof -
  from step obtain evs1 res b1 where "dispatchOneMessage rx True p b = Returns (evs1, res, b1)" by (auto simp: client_step_def)
  with step have one: "dispatchOneMessage rx True p b = Returns (evs, res, b1)"
    "k = (case res of One_Next p \<Rightarrow> Continue (C_HandleRun p) | One_Ret ok \<Rightarrow> Return (if ok then ZCM_EOK else ZCM_EAGAIN))"
    "b' = (if \<exists>ok. res = One_Ret ok then b1\<lparr>bl_dispOneMutex := None\<rparr> else b1)"
    by (cases res; auto simp: client_step_def)+
  from client_disp_one[where cs = cs and i = i, OF cs _ _ one(1) inv, where k = k and rel = True and b' = b'] one(2,3) show ?thesis by (cases res) (auto simp: disp_pc_def)
qed

lemma client_locks:
  assumes cs: "cs i = Some pc" "pc = C_FlushSendLock bl \<or> pc = C_FlushDispLock bl \<or> pc = C_HandleLock bl"
    and step: "client_step rx i pc b = Returns (evs, k, b')" and inv: "queues_inv b"
  shows "sim_send (b, cs) evs (b', cs(i := cont_pc k)) \<and> sim_disp (b, cs) evs (b', cs(i := cont_pc k))"
proof -
  have none: "flush_pc pc = None" "disp_pc pc = None" using cs(2) by (auto simp: disp_pc_def)
  have evs: "evs = []" using cs(2) step by (auto simp: client_step_def split: if_splits)
  consider (skip) "frame b b'" "Option.bind (cont_pc k) flush_pc = None" "Option.bind (cont_pc k) disp_pc = None"
    | (disp) "bl_dispOneMutex b = None" "disp_acquired i b b'" "Option.bind (cont_pc k) disp_pc = Some One_Top" "Option.bind (cont_pc k) flush_pc = None"
    | (send) q where "bl_sendOneMutex b = None" "b' = b\<lparr>bl_sendOneMutex := Some (Client i), bl_sendQueue := q\<rparr>"
        "ts_queue q = ts_queue (bl_sendQueue b)" "Option.bind (cont_pc k) flush_pc = Some One_Top" "Option.bind (cont_pc k) disp_pc = None"
  proof -
    from cs(2) consider "pc = C_FlushSendLock bl" | "pc = C_FlushDispLock bl" | "pc = C_HandleLock bl" by blast
    then show thesis
    proof cases
      case 1
      with step skip send[of "ts_enable (bl_sendQueue b)"] show ?thesis
        by (auto simp: client_step_def disp_pc_def frame_def split: if_splits)
    next
      case 2
      with step skip disp show ?thesis
        by (auto simp: client_step_def disp_pc_def frame_def disp_acquired_def split: if_splits)
    next
      case 3
      with step skip disp show ?thesis
        by (auto simp: client_step_def disp_pc_def frame_def disp_acquired_def split: if_splits)
    qed
  qed
  then show ?thesis
  proof cases
    case skip
    with client_skip[where cs = cs and i = i, OF cs(1) none inv skip(1)] evs show ?thesis by simp
  next
    case disp
    with client_disp_acquire[where cs = cs and i = i, OF cs(1) none(1) inv disp(1,2), where k = k] evs show ?thesis by simp
  next
    case send
    then have "sim_send (b, cs) [] (b', cs(i := cont_pc k))"
      using inv send_worker_upd[of i "cs(i := cont_pc k)" cs b' b] by (intro send_acquire_sim[of b b' "Client i"]) auto
    moreover have "same_disp [] (b, cs) (b', cs(i := cont_pc k))" using send cs none by (auto simp: same_disp_def)
    ultimately show ?thesis using inv same_disp_sim evs by auto
  qed
qed

lemma sim_client:
  assumes cs: "cs i = Some pc" "resize_fits pc b" and step: "client_step rx i pc b = Returns (evs, k, b')" and inv: "queues_inv b"
  shows "sim_send (b, cs) evs (b', cs(i := cont_pc k)) \<and> sim_disp (b, cs) evs (b', cs(i := cont_pc k))"
proof (cases "client_quiet pc")
  case True
  note f = client_step_frame[OF step True]
  from client_skip[where cs = cs and i = i, OF cs(1) f(5,6) inv f(1,4,3)] f(2) show ?thesis by simp
next
  case False
  then consider now ch data where "pc = C_Publish now ch data" | p where "pc = C_HandleRun p" | bl n p where "pc = C_FlushSend bl n p"
    | n p where "pc = C_FlushDisp n p" | hp where "pc = C_Run hp"
    | bl where "pc = C_FlushSendLock bl \<or> pc = C_FlushDispLock bl \<or> pc = C_HandleLock bl"
    | n bl where "pc = C_SizeSendLock n bl \<or> pc = C_SizeRecvLock n bl"
    by (cases pc) auto
  then show ?thesis
  proof cases
    case 1 show ?thesis by (rule client_publish[where cs = cs and i = i, OF cs(1)[unfolded 1] step[unfolded 1] inv])
  next
    case 2 show ?thesis by (rule client_handle_run[where cs = cs and i = i, OF cs(1)[unfolded 2] step[unfolded 2] inv])
  next
    case 3 show ?thesis by (rule client_flush_send[where cs = cs and i = i, OF cs(1)[unfolded 3] step[unfolded 3] inv])
  next
    case 4 show ?thesis by (rule client_flush_disp[where cs = cs and i = i, OF cs(1)[unfolded 4] step[unfolded 4] inv])
  next
    case 5 show ?thesis by (rule client_hndl[where cs = cs and i = i, OF cs(1)[unfolded 5] step[unfolded 5] inv])
  next
    case 6 show ?thesis by (rule client_locks[where cs = cs and i = i, OF cs(1) 6 step inv])
  next
    case 7 show ?thesis by (rule client_size[where cs = cs and i = i, OF cs(1) 7 cs(2) step inv])
  qed
qed

lemma bl_step_sim:
  assumes "bl_step rx s evs s'" "queues_inv (fst s)"
  shows "wq_step (abs_send es s) (abs_send (es @ evs) s') \<and> wq_step (abs_disp es s) (abs_disp (es @ evs) s') \<and> queues_inv (fst s')"
proof -
  from assms have "sim_send s evs s' \<and> sim_disp s evs s'"
  proof cases
    case (step_send b pc b' cs) with assms(2) sim_sendThread[of b pc evs b' cs] show ?thesis by simp
  next
    case (step_recv b pc b' cs) with assms(2) sim_recvThread[of b pc rx evs b' cs] show ?thesis by simp
  next
    case (step_hndl b pc pc' b' cs) with assms(2) sim_hndlThread[of b pc rx evs pc' b' cs] show ?thesis by simp
  next
    case (step_call cs i c b k b') with assms(2) sim_call[of cs i rx c b k b'] show ?thesis by simp
  next
    case (step_client cs i pc b k b') with assms(2) sim_client[of cs i pc b rx evs k b'] show ?thesis by simp
  qed
  then show ?thesis by (auto simp: sim_send_def sim_disp_def queues_inv_def)
qed

end
