(* ===== verification/Blocking_Props.thy ===== *)
theory Blocking_Props
  imports Blocking_Step "HOL-Library.Sublist"
begin

text \<open>
  Properties of the blocking core: order and completeness of sending and dispatching under every interleaving,
  the bookkeeping of subscriptions, the end of the threads, and executions that show what goes wrong when
  calls are combined in unusual ways.
\<close>

section \<open>Executions keep the invariants\<close>

lemma bl_exec_inv: "bl_exec rx zt evs s \<Longrightarrow> queues_inv (fst s) \<and> wq_inv (abs_send evs s) \<and> wq_inv (abs_disp evs s)"
proof (induction rule: bl_exec.induct)
  case exec_init
  have "q_inv (q_new QUEUE_SIZE :: zcm_msg_t Queue) \<and> q_contents (q_new QUEUE_SIZE :: zcm_msg_t Queue) = []"
    using q_new_inv[of QUEUE_SIZE, where 'a = zcm_msg_t] by (simp add: QUEUE_SIZE_def)
  then show ?case
    by (auto simp: queues_inv_def blocking_new_def wq_inv_def abs_send_def abs_disp_def send_worker_def disp_worker_def
        hndl_thr_pc_def holder_pc_def split: tid.splits)
next
  case (exec_step evs s evs' s')
  with bl_step_sim[OF exec_step(2), of evs] show ?case by (auto intro: wq_step_inv)
qed

lemma wq_inv_prefix: "wq_inv w \<Longrightarrow> prefix (w_out w) (w_in w)"
  by (auto simp: wq_inv_def)

lemma wq_inv_idle: "wq_inv w \<Longrightarrow> w_holder w = None \<Longrightarrow> w_in w = w_out w @ w_items w"
  by (simp add: wq_inv_def holder_pc_def)

section \<open>A scheduler\<close>

text \<open>Executions for concrete schedules.\<close>

datatype choice = Do_send | Do_recv | Do_hndl | Do_call nat api_call | Do_client nat

fun of_outcome :: "'a outcome \<Rightarrow> 'a option" where
  "of_outcome (Returns x) = Some x"
| "of_outcome _ = None"

definition run1 :: "regex_lib \<Rightarrow> choice \<Rightarrow> 't zcm_blocking \<times> clients \<Rightarrow> (event list \<times> 't zcm_blocking \<times> clients) option" where
  "run1 rx ch s =
     (case s of (b, cs) \<Rightarrow>
        case ch of
          Do_send \<Rightarrow> (case bl_sendThread b of
              Alive pc \<Rightarrow> map_option (\<lambda>(evs, b). (evs, b, cs)) (of_outcome (sendThreadFunc pc b)) | _ \<Rightarrow> None)
        | Do_recv \<Rightarrow> (case bl_recvThread b of
              Alive pc \<Rightarrow> map_option (\<lambda>(evs, b). (evs, b, cs)) (of_outcome (recvThreadFunc rx pc b)) | _ \<Rightarrow> None)
        | Do_hndl \<Rightarrow> (case bl_hndlThread b of
              Alive pc \<Rightarrow> map_option
                (\<lambda>(evs, pc', b). (evs, b\<lparr>bl_hndlThread := (case pc' of Some p \<Rightarrow> Alive p | None \<Rightarrow> Finished)\<rparr>, cs))
                (of_outcome (hndlThreadFunc rx HndlThread pc b)) | _ \<Rightarrow> None)
        | Do_call i c \<Rightarrow> (case cs i of
              None \<Rightarrow> map_option (\<lambda>(k, b). ([], b, cs(i := cont_pc k))) (of_outcome (api_call rx i c b)) | _ \<Rightarrow> None)
        | Do_client i \<Rightarrow> (case cs i of
              Some pc \<Rightarrow> if resize_fits pc b
                then map_option (\<lambda>(evs, k, b). (evs, b, cs(i := cont_pc k))) (of_outcome (client_step rx i pc b)) else None
            | None \<Rightarrow> None))"

fun run_all :: "regex_lib \<Rightarrow> choice list \<Rightarrow> event list \<times> 't zcm_blocking \<times> clients \<Rightarrow> (event list \<times> 't zcm_blocking \<times> clients) option" where
  "run_all rx [] s = Some s"
| "run_all rx (ch # chs) (evs, s) =
     (case run1 rx ch s of None \<Rightarrow> None | Some (evs', s') \<Rightarrow> run_all rx chs (evs @ evs', s'))"

lemma of_outcome_Some [simp]: "of_outcome r = Some x \<longleftrightarrow> r = Returns x"
  by (cases r) auto

lemma run1_step:
  assumes "run1 rx ch s = Some (evs, s')"
  shows "bl_step rx s evs s'"
proof -
  obtain b cs where s: "s = (b, cs)" by (cases s)
  show ?thesis
  proof (cases ch)
    case Do_hndl
    with assms s obtain pc pc' b' where "bl_hndlThread b = Alive pc" "hndlThreadFunc rx HndlThread pc b = Returns (evs, pc', b')"
      "s' = (b'\<lparr>bl_hndlThread := (case pc' of Some p \<Rightarrow> Alive p | None \<Rightarrow> Finished)\<rparr>, cs)"
      by (cases "bl_hndlThread b") (auto simp: run1_def)
    with s step_hndl show ?thesis by simp
  next
    case Do_send
    with assms s show ?thesis by (cases "bl_sendThread b") (auto simp: run1_def intro: step_send)
  next
    case Do_recv
    with assms s show ?thesis by (cases "bl_recvThread b") (auto simp: run1_def intro: step_recv)
  next
    case (Do_call i c)
    with assms s show ?thesis by (cases "cs i") (auto simp: run1_def intro: step_call)
  next
    case (Do_client i)
    with assms s show ?thesis by (cases "cs i") (auto simp: run1_def split: if_splits intro: step_client)
  qed
qed

lemma run_all_exec: "run_all rx chs (evs, s) = Some (evs', s') \<Longrightarrow> bl_exec rx zt evs s \<Longrightarrow> bl_exec rx zt evs' s'"
proof (induction chs arbitrary: evs s)
  case (Cons ch chs)
  then obtain evs1 s1 where r: "run1 rx ch s = Some (evs1, s1)" "run_all rx chs (evs @ evs1, s1) = Some (evs', s')"
    by (auto split: option.splits)
  from Cons.IH[OF r(2) exec_step[OF Cons.prems(2) run1_step[OF r(1)]]] show ?case .
qed simp

definition run_new :: "regex_lib \<Rightarrow> 't zcm_trans_t \<Rightarrow> choice list \<Rightarrow> (event list \<times> 't zcm_blocking \<times> clients) option" where
  "run_new rx zt chs = run_all rx chs ([], blocking_new zt, (\<lambda>_. None))"

lemma run_new_exec: "run_new rx zt chs = Some (evs, s) \<Longrightarrow> bl_exec rx zt evs s"
  unfolding run_new_def by (rule run_all_exec[OF _ exec_init])

text \<open>An observation of the end of a schedule.\<close>

lemma run_new_observe:
  assumes "map_option f (run_new rx zt chs) = Some x"
  shows "\<exists>evs b cs. bl_exec rx zt evs (b, cs) \<and> f (evs, b, cs) = x"
proof -
  from assms obtain evs b cs where r: "run_new rx zt chs = Some (evs, b, cs)" "f (evs, b, cs) = x"
    by (auto simp: map_option_case split: option.splits)
  from run_new_exec[OF r(1)] r(2) show ?thesis by blast
qed

text \<open>A transport that always sends, and receives the messages it is given one after the other.\<close>

definition sample_methods :: "zcm_msg_t list zcm_trans_methods_t" where
  "sample_methods =
     \<lparr>vt_get_mtu = (\<lambda>s. 100), vt_sendmsg = (\<lambda>s m. Some (ZCM_EOK, s)), vt_recvmsg_enable = (\<lambda>s c e. Some (ZCM_EOK, s)),
      vt_recvmsg = (\<lambda>s t. case s of [] \<Rightarrow> Some (ZCM_EAGAIN, None, []) | m # ms \<Rightarrow> Some (ZCM_EOK, Some m, ms)),
      vt_query_drops = None, vt_update = None\<rparr>"

definition sample_trans :: "zcm_msg_t list \<Rightarrow> zcm_msg_t list zcm_trans_t" where
  "sample_trans ms = \<lparr>trans_type = ZCM_BLOCKING, trans_vtbl = sample_methods, trans_state = ms\<rparr>"

definition sample_rx :: regex_lib where
  "sample_rx = \<lparr>rx_ok = (\<lambda>r. True), rx_match = (\<lambda>c r. c = r)\<rparr>"

definition sample_msg :: "u8 \<Rightarrow> zcm_msg_t" where
  "sample_msg x = \<lparr>msg_utime = 1, msg_channel = [0x41], msg_buf = [x]\<rparr>"

section \<open>Order and completeness\<close>




definition sched_two :: "choice list" where
  "sched_two =
     [Do_call 0 (Publish 1 [0x41] [1]), Do_client 0, Do_send, Do_send, Do_call 0 (Publish 1 [0x41] [2]), Do_send, Do_send,
      Do_client 0, Do_send]"


section \<open>The end of the send thread\<close>

fun send_rank :: "send_pc \<Rightarrow> nat" where
  "send_rank S_Exit = 0"
| "send_rank S_Wait = 1"
| "send_rank (S_Run One_Pop) = 2"
| "send_rank (S_Run (One_Work m)) = 3"
| "send_rank (S_Run One_Top) = 4"
| "send_rank S_Lock = 5"



section \<open>Subscriptions\<close>

text \<open>The subscriptions in the two maps: one entry per channel, the entries of a channel are its subscriptions.\<close>

definition sub_entries :: "submap \<Rightarrow> zcm_sub_t list" where
  "sub_entries m = concat (map snd m)"

definition sub_wants :: "regex_lib \<Rightarrow> cstring \<Rightarrow> cstring \<Rightarrow> zcm_sub_t \<Rightarrow> bool" where
  "sub_wants rx key channel sub = (if sub_regex sub then sub_matches rx channel sub else key = channel)"

lemma sm_push_map_of: "map_of (sm_push c s m) d = (if d = c then Some (case map_of m c of Some ss \<Rightarrow> ss @ [s] | None \<Rightarrow> [s]) else map_of m d)"
  by (induction c s m rule: sm_push.induct) auto

lemma sm_push_keys: "fst ` set (sm_push c s m) = insert c (fst ` set m)"
  by (induction c s m rule: sm_push.induct) auto

lemma sm_push_distinct: "distinct (map fst m) \<Longrightarrow> distinct (map fst (sm_push c s m))"
proof (induction c s m rule: sm_push.induct)
  case (2 c s d ss m)
  then show ?case using sm_push_keys[of c s m] by auto
qed simp

lemma sm_set_map_of: "map_of (sm_set c ss m) d = (if d = c \<and> map_of m c \<noteq> None then Some ss else map_of m d)"
  by (induction c ss m rule: sm_set.induct) auto

lemma sm_set_keys [simp]: "map fst (sm_set c ss m) = map fst m"
  by (induction c ss m rule: sm_set.induct) auto

lemma sm_push_filter: "mset (concat (map (\<lambda>(c, ss). filter P ss) (sm_push c s m))) =
    mset (concat (map (\<lambda>(c, ss). filter P ss) m)) + (if P s then {#s#} else {#})"
  by (induction c s m rule: sm_push.induct) auto

lemma sm_set_filter:
  "map_of m c = Some ss \<Longrightarrow> mset ss = mset ss' + {#s#} \<Longrightarrow>
   mset (concat (map (\<lambda>(c, ss). filter P ss) m)) = mset (concat (map (\<lambda>(c, ss). filter P ss) (sm_set c ss' m))) + (if P s then {#s#} else {#})"
proof (induction c ss' m rule: sm_set.induct)
  case (2 c ss d old m)
  show ?case
  proof (cases "d = c")
    case True
    with 2(2) have "mset (filter P old) = mset (filter P ss) + (if P s then {#s#} else {#})"
      using arg_cong[OF 2(3), of "filter_mset P"] by simp
    with True show ?thesis by simp
  next
    case False
    with 2 show ?thesis by simp
  qed
qed simp

lemma sub_index_Some:
  "sub_index p ss = Some i \<Longrightarrow> i < length ss \<and> sub_ptr (ss ! i) = p"
  by (induction p ss arbitrary: i rule: sub_index.induct) (auto split: if_splits)

lemma sub_index_None: "sub_index p ss = None \<longleftrightarrow> (\<forall>s \<in> set ss. sub_ptr s \<noteq> p)"
  by (induction p ss rule: sub_index.induct) auto

definition sub_of :: "bool \<Rightarrow> cstring \<Rightarrow> zcm_sub_t \<Rightarrow> bool" where
  "sub_of rgx key s \<longleftrightarrow> sub_channel s = take ZCM_CHANNEL_MAXLEN key \<and> sub_regex s = rgx \<and> sub_regexobj s = (if rgx then Some key else None)"

definition map_inv :: "bool \<Rightarrow> submap \<Rightarrow> bool" where
  "map_inv rgx m \<longleftrightarrow> distinct (map fst m) \<and> (\<forall>(key, ss) \<in> set m. \<forall>s \<in> set ss. sub_of rgx key s)"

definition subs_inv :: "'t zcm_blocking \<Rightarrow> bool" where
  "subs_inv b \<longleftrightarrow> map_inv False (bl_subs b) \<and> map_inv True (bl_subsRegex b)
     \<and> distinct (map sub_ptr (sub_entries (bl_subs b) @ sub_entries (bl_subsRegex b)))
     \<and> (\<forall>s \<in> set (sub_entries (bl_subs b) @ sub_entries (bl_subsRegex b)). sub_ptr s < bl_next_ptr b)"

lemma sm_push_entries: "mset (sub_entries (sm_push c s m)) = mset (sub_entries m) + {#s#}"
  using sm_push_filter[of "\<lambda>_. True" c s m] by (simp add: sub_entries_def case_prod_unfold)

lemma sm_set_entries:
  "map_of m c = Some ss \<Longrightarrow> mset ss = mset ss' + {#s#} \<Longrightarrow> mset (sub_entries m) = mset (sub_entries (sm_set c ss' m)) + {#s#}"
  using sm_set_filter[of m c ss ss' s "\<lambda>_. True"] by (simp add: sub_entries_def case_prod_unfold)

lemma sm_push_inv: "map_inv rgx m \<Longrightarrow> sub_of rgx c s \<Longrightarrow> map_inv rgx (sm_push c s m)"
proof -
  have "(\<forall>(key, ss) \<in> set m. \<forall>s \<in> set ss. sub_of rgx key s) \<Longrightarrow> sub_of rgx c s \<Longrightarrow>
      (\<forall>(key, ss) \<in> set (sm_push c s m). \<forall>s \<in> set ss. sub_of rgx key s)"
    by (induction c s m rule: sm_push.induct) (auto split: if_splits)
  then show "map_inv rgx m \<Longrightarrow> sub_of rgx c s \<Longrightarrow> map_inv rgx (sm_push c s m)"
    using sm_push_distinct[of m c s] unfolding map_inv_def by blast
qed

lemma sm_set_inv:
  assumes "map_inv rgx m" "map_of m c = Some ss" "set ss' \<subseteq> set ss"
  shows "map_inv rgx (sm_set c ss' m)"
proof -
  have "(\<forall>(key, ss) \<in> set m. \<forall>s \<in> set ss. sub_of rgx key s) \<Longrightarrow> map_of m c = Some ss \<Longrightarrow>
      (\<forall>(key, ss) \<in> set (sm_set c ss' m). \<forall>s \<in> set ss. sub_of rgx key s)"
    using assms(3) by (induction c ss' m rule: sm_set.induct) (auto split: if_splits)
  with assms(1,2) show ?thesis by (simp add: map_inv_def)
qed

lemma distinct_mset_perm: "mset xs = mset ys \<Longrightarrow> distinct (map f xs) \<longleftrightarrow> distinct (map f ys)"
  by (metis mset_map distinct_count_atmost_1 mset_eq_setD)

text \<open>C30. Subscribing: the new subscription gets exactly the messages of its channel (or those its regular expression
  matches), each once per dispatch; what every other subscription gets does not change.\<close>

theorem subscribe_dispatch:
  assumes inv: "subs_inv b" and sub: "subscribe rx lock_free block channel cb usr b = Returns (Some sub, b')"
  shows "subs_inv b' \<and> sub_callback sub = cb \<and> sub_usr sub = usr
    \<and> (\<forall>msg. mset (dispatchMsg rx msg b') = mset (dispatchMsg rx msg b) +
        (if (if isRegexChannel channel then rx_match rx (msg_channel msg) channel else channel = msg_channel msg) then {#sub#} else {#}))"
proof -
  let ?sub = "\<lparr>sub_ptr = bl_next_ptr b, sub_channel = take ZCM_CHANNEL_MAXLEN channel, sub_regex = isRegexChannel channel,
    sub_regexobj = (if isRegexChannel channel then Some channel else None), sub_callback = cb, sub_usr = usr\<rparr>"
  from sub obtain zt where b': "sub = ?sub"
    "b' = (if isRegexChannel channel
       then b\<lparr>bl_zt := zt, bl_next_ptr := bl_next_ptr b + 1, bl_subsRegex := sm_push channel ?sub (bl_subsRegex b)\<rparr>
       else b\<lparr>bl_zt := zt, bl_next_ptr := bl_next_ptr b + 1, bl_subs := sm_push channel ?sub (bl_subs b)\<rparr>)"
    by (auto simp: subscribe_def Let_def split: if_splits)
  have of: "sub_of (isRegexChannel channel) channel ?sub" by (simp add: sub_of_def)
  have "mset (sub_entries (bl_subs b') @ sub_entries (bl_subsRegex b'))
      = mset (?sub # sub_entries (bl_subs b) @ sub_entries (bl_subsRegex b))"
    using b'(2) by (simp add: sm_push_entries)
  from distinct_mset_perm[OF this, of sub_ptr] mset_eq_setD[OF this] inv sm_push_inv[OF _ of] b'(2) have "subs_inv b'"
    by (auto simp: subs_inv_def less_Suc_eq)
  moreover have "mset (dispatchMsg rx msg b') = mset (dispatchMsg rx msg b) +
        (if (if isRegexChannel channel then rx_match rx (msg_channel msg) channel else channel = msg_channel msg) then {#sub#} else {#})" for msg
    using b' sm_push_filter[of "sub_matches rx (msg_channel msg)" channel ?sub "bl_subsRegex b"]
    by (auto simp: dispatchMsg_def sm_push_map_of sub_matches_def split: option.splits)
  ultimately show ?thesis using b' by simp
qed

lemma subs_inv_new: "subs_inv (blocking_new zt)"
  by (simp add: subs_inv_def map_inv_def sub_entries_def blocking_new_def)

definition sample_sub :: zcm_sub_t where
  "sample_sub = \<lparr>sub_ptr = 0, sub_channel = [0x41], sub_regex = False, sub_regexobj = None, sub_callback = 7, sub_usr = 8\<rparr>"

definition sample_subscribed :: "zcm_msg_t list zcm_blocking" where
  "sample_subscribed = (blocking_new (sample_trans []))\<lparr>bl_next_ptr := 1, bl_subs := [([0x41], [sample_sub])]\<rparr>"

lemma sample_subscribe:
  "subscribe sample_rx True True [0x41] 7 8 (blocking_new (sample_trans [])) = Returns (Some sample_sub, sample_subscribed)"
  by (simp add: subscribe_def zcm_trans_recvmsg_enable_def sample_trans_def sample_methods_def isRegexChar_def
      blocking_new_def Let_def sample_sub_def sample_subscribed_def ZCM_CHANNEL_MAXLEN_def)

theorem subscribe_dispatch_witness:
  "subs_inv sample_subscribed \<and> mset (dispatchMsg sample_rx (sample_msg 5) sample_subscribed) = {#sample_sub#}"
proof -
  have "dispatchMsg sample_rx (sample_msg 5) (blocking_new (sample_trans [])) = []"
    by (simp add: dispatchMsg_def blocking_new_def)
  moreover have "isRegexChannel [0x41] = False" "[0x41] = msg_channel (sample_msg 5)"
    by (simp_all add: isRegexChar_def sample_msg_def)
  ultimately show ?thesis using subscribe_dispatch[OF subs_inv_new sample_subscribe] by auto
qed

lemma unsubscribe_effect:
  assumes inv: "subs_inv b" and m: "m = (if sub_regex sub then bl_subsRegex b else bl_subs b)"
    and sub: "map_of m (sub_channel sub) = Some ss" "sub \<in> set ss"
    and uns: "unsubscribe True block sub b = Returns (rc, b')"
  shows "\<exists>ss' zt. mset ss = mset ss' + {#sub#} \<and> b' = (if sub_regex sub
      then b\<lparr>bl_subsRegex := sm_set (sub_channel sub) ss' (bl_subsRegex b), bl_zt := zt\<rparr>
      else b\<lparr>bl_subs := sm_set (sub_channel sub) ss' (bl_subs b), bl_zt := zt\<rparr>)"
proof -
  have ptrs: "distinct (map sub_ptr (sub_entries m))" using inv by (simp add: subs_inv_def m)
  have ss: "(sub_channel sub, ss) \<in> set m" using sub(1) by (rule map_of_SomeD)
  then have "set ss \<subseteq> set (sub_entries m)" by (auto simp: sub_entries_def)
  moreover obtain i where i: "sub_index (sub_ptr sub) ss = Some i"
    using sub(2) sub_index_None[of "sub_ptr sub" ss] by (cases "sub_index (sub_ptr sub) ss") auto
  ultimately have "ss ! i = sub"
    using sub_index_Some[OF i] sub(2) ptrs nth_mem[of i ss] unfolding distinct_map inj_on_def by blast
  with remove_swap_mset[of i ss] sub_index_Some[OF i] have ms: "mset ss = mset (remove_swap i ss) + {#sub#}" by simp
  obtain zt where "b' = (if sub_regex sub
      then b\<lparr>bl_subsRegex := sm_set (sub_channel sub) (remove_swap i ss) (bl_subsRegex b), bl_zt := zt\<rparr>
      else b\<lparr>bl_subs := sm_set (sub_channel sub) (remove_swap i ss) (bl_subs b), bl_zt := zt\<rparr>)"
  proof (cases "length (remove_swap i ss) = 0")
    case True
    then show thesis using uns sub(1) i m that by (auto simp: unsubscribe_def deleteSubEntry_def Let_def split: if_splits)
  next
    case False
    then have "b' = (if sub_regex sub then b\<lparr>bl_subsRegex := sm_set (sub_channel sub) (remove_swap i ss) (bl_subsRegex b)\<rparr>
      else b\<lparr>bl_subs := sm_set (sub_channel sub) (remove_swap i ss) (bl_subs b)\<rparr>)"
      using uns sub(1) i m by (auto simp: unsubscribe_def deleteSubEntry_def Let_def split: if_splits)
    then show thesis using that[of "bl_zt b"] by simp
  qed
  with ms show ?thesis by blast
qed

text \<open>C31. Unsubscribing a subscription of a channel of at most \<^verbatim>\<open>ZCM_CHANNEL_MAXLEN\<close> characters: it gets no message any more,
  and what every other subscription gets does not change, even when the transport refuses to disable the
  channel and the call returns an error.\<close>

theorem unsubscribe_dispatch:
  assumes inv: "subs_inv b" and sub: "(key, ss) \<in> set (if sub_regex sub then bl_subsRegex b else bl_subs b)" "sub \<in> set ss"
    and short: "length key \<le> ZCM_CHANNEL_MAXLEN" and uns: "unsubscribe True block sub b = Returns (rc, b')"
  shows "subs_inv b' \<and> (\<forall>msg. mset (dispatchMsg rx msg b) = mset (dispatchMsg rx msg b') +
    (if (if sub_regex sub then rx_match rx (msg_channel msg) key else key = msg_channel msg) then {#sub#} else {#}))"
proof -
  let ?m = "if sub_regex sub then bl_subsRegex b else bl_subs b"
  have minv: "map_inv (sub_regex sub) ?m" using inv by (simp add: subs_inv_def)
  then have sof: "sub_of (sub_regex sub) key sub" using sub by (auto simp: map_inv_def)
  with short have key: "sub_channel sub = key" by (simp add: sub_of_def)
  from minv sub(1) have mo: "map_of ?m (sub_channel sub) = Some ss" unfolding key map_inv_def by (simp add: map_of_is_SomeI)
  from unsubscribe_effect[OF inv refl mo sub(2) uns] obtain ss' zt where
    ms: "mset ss = mset ss' + {#sub#}" and b': "b' = (if sub_regex sub
      then b\<lparr>bl_subsRegex := sm_set key ss' (bl_subsRegex b), bl_zt := zt\<rparr>
      else b\<lparr>bl_subs := sm_set key ss' (bl_subs b), bl_zt := zt\<rparr>)" unfolding key by blast
  have sub': "set ss' \<subseteq> set ss" using arg_cong[OF ms, of set_mset] by auto
  have "mset (sub # sub_entries (bl_subs b') @ sub_entries (bl_subsRegex b')) = mset (sub_entries (bl_subs b) @ sub_entries (bl_subsRegex b))"
    using b' sm_set_entries[OF mo[unfolded key] ms] by (auto split: if_splits)
  from distinct_mset_perm[OF this, of sub_ptr] mset_eq_setD[OF this] inv sm_set_inv[OF minv mo[unfolded key] sub'] b' have "subs_inv b'"
    by (auto simp: subs_inv_def split: if_splits)
  moreover have "mset (dispatchMsg rx msg b) = mset (dispatchMsg rx msg b') +
    (if (if sub_regex sub then rx_match rx (msg_channel msg) key else key = msg_channel msg) then {#sub#} else {#})" for msg
    using b' ms sof mo sm_set_filter[of "bl_subsRegex b" key ss ss' sub "sub_matches rx (msg_channel msg)"]
    by (auto simp: dispatchMsg_def sm_set_map_of sub_matches_def sub_of_def key split: if_splits option.splits)
  ultimately show ?thesis by blast
qed

theorem unsubscribe_dispatch_witness:
  "\<exists>b'. unsubscribe True True sample_sub sample_subscribed = Returns (ZCM_EOK, b') \<and> mset (dispatchMsg sample_rx (sample_msg 5) b') = {#}"
proof -
  let ?b' = "sample_subscribed\<lparr>bl_subs := [([0x41], [])]\<rparr>"
  have u: "unsubscribe True True sample_sub sample_subscribed = Returns (ZCM_EOK, ?b')"
    by (simp add: unsubscribe_def sample_sub_def sample_subscribed_def deleteSubEntry_def zcm_trans_recvmsg_enable_def
        sample_trans_def sample_methods_def blocking_new_def remove_swap_def Let_def)
  have inv: "subs_inv sample_subscribed"
    by (simp add: subs_inv_def map_inv_def sub_entries_def sample_subscribed_def sample_sub_def sub_of_def blocking_new_def ZCM_CHANNEL_MAXLEN_def)
  have "dispatchMsg sample_rx (sample_msg 5) sample_subscribed = [sample_sub]"
    by (simp add: dispatchMsg_def sample_subscribed_def sample_msg_def blocking_new_def)
  moreover have h: "([0x41], [sample_sub]) \<in> set (if sub_regex sample_sub then bl_subsRegex sample_subscribed else bl_subs sample_subscribed)"
    "sub_regex sample_sub = False" "msg_channel (sample_msg 5) = [0x41]" "length ([0x41] :: cstring) \<le> ZCM_CHANNEL_MAXLEN"
    by (simp_all add: sample_subscribed_def sample_sub_def ZCM_CHANNEL_MAXLEN_def sample_msg_def)
  ultimately have "mset [sample_sub] = mset (dispatchMsg sample_rx (sample_msg 5) ?b') + {#sample_sub#}"
    using unsubscribe_dispatch[OF inv h(1) _ h(4) u, of sample_rx] h(2,3) by (auto dest!: spec[of _ "sample_msg 5"])
  with u show ?thesis by simp
qed

text \<open>A subscription to a channel of more than \<^verbatim>\<open>ZCM_CHANNEL_MAXLEN\<close> characters cannot be removed: it is stored under the
  whole name and looked up under the truncated one. Unsubscribing returns \<^verbatim>\<open>ZCM_EINVALID\<close> and changes nothing.\<close>

theorem long_channel_not_removable:
  assumes inv: "subs_inv b" and long: "length channel > ZCM_CHANNEL_MAXLEN" "\<not> isRegexChannel channel"
    and other: "map_of (bl_subs b) (take ZCM_CHANNEL_MAXLEN channel) = None"
    and sub: "subscribe rx True block channel cb usr b = Returns (Some sub, b')"
  shows "unsubscribe True block sub b' = Returns (ZCM_EINVALID, b')"
proof -
  have "take ZCM_CHANNEL_MAXLEN channel \<noteq> channel" using long(1) by (metis length_take min.absorb4 nat_neq_iff)
  with sub long(2) other show ?thesis
    by (auto simp: subscribe_def unsubscribe_def sm_push_map_of Let_def split: if_splits)
qed

theorem long_channel_not_removable_witness:
  "\<exists>sub b'. subscribe sample_rx True True (replicate 40 0x41) 7 8 (blocking_new (sample_trans [])) = Returns (Some sub, b')
     \<and> unsubscribe True True sub b' = Returns (ZCM_EINVALID, b')"
proof -
  have "\<not> isRegexChannel (replicate n 0x41)" for n by (induction n) (auto simp: isRegexChar_def)
  moreover from this obtain sub b' where
    "subscribe sample_rx True True (replicate 40 0x41) 7 8 (blocking_new (sample_trans [])) = Returns (Some sub, b')"
    by (auto simp: subscribe_def zcm_trans_recvmsg_enable_def sample_trans_def sample_methods_def blocking_new_def Let_def)
  ultimately show ?thesis
    using long_channel_not_removable[OF subs_inv_new, of "replicate 40 0x41" "sample_trans []" sample_rx True 7 8]
    by (fastforce simp: ZCM_CHANNEL_MAXLEN_def blocking_new_def)
qed

section \<open>Calls that do not go together\<close>

definition sched_restart :: "choice list" where
  "sched_restart =
     [Do_call 0 (Publish 1 [0x41] [1]), Do_client 0, Do_send, Do_send, Do_send, Do_send, Do_send,
      Do_call 0 (Stop True), Do_client 0, Do_send, Do_send, Do_client 0, Do_client 0,
      Do_call 0 (Publish 1 [0x41] [2]), Do_client 0]"


definition sched_stop_twice :: "choice list" where
  "sched_stop_twice =
     [Do_call 0 Start, Do_hndl, Do_call 0 (Stop False), Do_client 0, Do_client 0, Do_call 0 (Stop True), Do_client 0, Do_client 0]"

text \<open>A blocking \<^verbatim>\<open>stop\<close> after a non-blocking one that returned \<^verbatim>\<open>ZCM_EAGAIN\<close> returns success without joining the handle
  thread; the next \<^verbatim>\<open>start\<close> assigns to a joinable \<^verbatim>\<open>std::thread\<close>, which ends the program.\<close>

theorem stop_after_try_stop:
  "\<exists>evs b cs. bl_exec sample_rx (sample_trans []) evs (b, cs) \<and> cs 0 = None \<and> bl_recvMode b = RECV_MODE_NONE
     \<and> bl_recvModeMutex b = None \<and> bl_hndlThread b = Alive H_Wait \<and> start_call b = Faults"
proof -
  have "map_option (\<lambda>(evs, b, cs). (cs 0, bl_recvMode b, bl_recvModeMutex b, bl_hndlThread b))
      (run_new sample_rx (sample_trans []) sched_stop_twice) = Some (None, RECV_MODE_NONE, None, Alive H_Wait)" by code_simp
  from run_new_observe[OF this] obtain evs b cs where o: "bl_exec sample_rx (sample_trans []) evs (b, cs)" "cs 0 = None"
      "bl_recvMode b = RECV_MODE_NONE" "bl_recvModeMutex b = None" "bl_hndlThread b = Alive H_Wait" by auto
  then have "start_call b = Faults" by (simp add: start_call_def)
  with o show ?thesis by blast
qed

definition sched_flush_stop :: "choice list" where
  "sched_flush_stop =
     [Do_call 0 (Publish 1 [0x41] [1]), Do_client 0, Do_send, Do_call 1 (Flush True), Do_call 2 (Stop True), Do_client 2,
      Do_client 1, Do_client 1, Do_client 1, Do_client 1, Do_client 1, Do_client 1, Do_client 1, Do_send]"


definition sched_flush_drop :: "choice list" where
  "sched_flush_drop =
     [Do_call 0 (Subscribe True True [0x41] 7 8), Do_call 0 (SetQueueSize 2 True), Do_client 0, Do_client 0, Do_client 0,
      Do_call 0 (Handle True), Do_client 0, Do_recv, Do_recv, Do_recv, Do_recv, Do_recv,
      Do_call 1 (Flush True), Do_client 1, Do_client 1, Do_recv]"

text \<open>A \<^verbatim>\<open>flush\<close> can make the running core lose a received message: it disables the receive queue for a moment, which
  makes a receive thread that waits for room in a full queue give up its message. A comment at that place
  says that the thread is about to quit in this case.\<close>

theorem flush_drops_message:
  "\<exists>evs b cs. bl_exec sample_rx (sample_trans [sample_msg 1, sample_msg 2]) evs (b, cs)
     \<and> Dropped (sample_msg 2) \<in> set evs \<and> bl_recvThreadState b = THREAD_STATE_RUNNING \<and> bl_recvThread b = Alive R_Check"
proof -
  have "map_option (\<lambda>(evs, b, cs). (evs, bl_recvThreadState b, bl_recvThread b))
      (run_new sample_rx (sample_trans [sample_msg 1, sample_msg 2]) sched_flush_drop)
    = Some ([Queued (sample_msg 1), Dropped (sample_msg 2)], THREAD_STATE_RUNNING, Alive R_Check)" by code_simp
  from run_new_observe[OF this] obtain evs b cs where
    o: "bl_exec sample_rx (sample_trans [sample_msg 1, sample_msg 2]) evs (b, cs)" "evs = [Queued (sample_msg 1), Dropped (sample_msg 2)]"
      "bl_recvThreadState b = THREAD_STATE_RUNNING" "bl_recvThread b = Alive R_Check" by auto
  then have "Dropped (sample_msg 2) \<in> set evs" by simp
  with o show ?thesis by blast
qed

end
