(* ===== verification/Mempool.thy ===== *)
theory Mempool
  imports Zcm_Prelude
begin

text \<open>
  The memory pool of the UDP transport (\<^verbatim>\<open>zcm/transport/udp/mempool.cpp\<close>): free lists of blocks whose sizes are
  the powers of two from \<open>2^16\<close> to \<open>2^28\<close>. A failed assertion and an undefined shift or bit count are \<open>None\<close>.
\<close>

section \<open>Sizes\<close>

definition NUMLISTS :: nat where "NUMLISTS = 13"

definition fitsInU32 :: "nat \<Rightarrow> bool" where
  "fitsInU32 v \<longleftrightarrow> v AND 0xffffffff = v"

text \<open>\<^verbatim>\<open>__builtin_clz\<close>: the zero bits above the highest one of an \<open>n\<close>-bit number.\<close>

fun clz :: "nat \<Rightarrow> nat \<Rightarrow> nat" where
  "clz 0 v = 0"
| "clz (Suc n) v = (if bit v n then 0 else Suc (clz n v))"

definition computeSlot :: "nat \<Rightarrow> nat option" where
  "computeSlot v =
     (if \<not> fitsInU32 v then None
      else if v = 0 then None
      else let bits = 31 - clz 32 v
           in if bits \<ge> 31 then None
              else let bits = (if 2 ^ bits \<noteq> v then bits + 1 else bits)
                   in if bits = 0 \<or> bits \<ge> 31 then None
                      else if \<not> (2 ^ (bits - 1) < v \<and> v \<le> 2 ^ bits) then None
                      else let bits = max bits 16 in Some (bits - 16))"

definition slotToSize :: "nat \<Rightarrow> nat" where
  "slotToSize slot = 2 ^ (slot + 16)"

section \<open>The pool\<close>

text \<open>A block is known by its address; its capacity is what \<^verbatim>\<open>malloc\<close> was asked for. \<^verbatim>\<open>malloc\<close> returns new addresses.\<close>

record block =
  blk_addr :: nat
  blk_capacity :: nat

record MemPool =
  mp_sizelists :: "block list list"
  mp_fresh :: nat

definition mempool_new :: MemPool where
  "mempool_new = \<lparr>mp_sizelists = replicate NUMLISTS [], mp_fresh = 0\<rparr>"

definition pool_slot :: "nat \<Rightarrow> nat option" where
  "pool_slot sz =
     (if \<not> sz \<le> 2 ^ 28 then None
      else if \<not> fitsInU32 sz then None
      else do {
        slot \<leftarrow> computeSlot sz;
        if slot < NUMLISTS then Some slot else None
      })"

definition mempool_alloc :: "nat \<Rightarrow> MemPool \<Rightarrow> (block \<times> MemPool) option" where
  "mempool_alloc sz p =
     do {
       slot \<leftarrow> pool_slot sz;
       case mp_sizelists p ! slot of
         mem # rest \<Rightarrow> Some (mem, p\<lparr>mp_sizelists := (mp_sizelists p)[slot := rest]\<rparr>)
       | [] \<Rightarrow> Some (\<lparr>blk_addr = mp_fresh p, blk_capacity = slotToSize slot\<rparr>, p\<lparr>mp_fresh := mp_fresh p + 1\<rparr>)
     }"

definition mempool_free :: "block \<Rightarrow> nat \<Rightarrow> MemPool \<Rightarrow> MemPool option" where
  "mempool_free mem sz p =
     do {
       slot \<leftarrow> pool_slot sz;
       Some (p\<lparr>mp_sizelists := (mp_sizelists p)[slot := mem # mp_sizelists p ! slot]\<rparr>)
     }"

section \<open>Slots\<close>

lemma clz_bounds:
  assumes "0 < v" "v < 2 ^ n"
  shows "clz n v < n \<and> 2 ^ (n - 1 - clz n v) \<le> v \<and> v < 2 ^ (n - clz n v)"
  using assms
proof (induction n)
  case (Suc n)
  show ?case
  proof (cases "v < 2 ^ n")
    case True
    then have "\<not> bit v n" by (simp add: bit_iff_odd)
    with Suc True show ?thesis by simp
  next
    case False
    then have "v div 2 ^ n = 1" using Suc.prems by (simp add: div_nat_eqI)
    then have "bit v n" by (simp add: bit_iff_odd)
    with False Suc.prems show ?thesis by simp
  qed
qed simp

lemma fits_small: "v < 2 ^ 32 \<Longrightarrow> fitsInU32 v"
proof -
  assume "v < 2 ^ 32"
  moreover have "v AND 0xffffffff = take_bit 32 v" by (simp add: take_bit_eq_mask mask_eq_exp_minus_1)
  ultimately show ?thesis by (simp add: fitsInU32_def take_bit_nat_eq_self)
qed

lemma computeSlot_ok:
  assumes "2 \<le> v" "v \<le> 2 ^ 28"
  shows "\<exists>s. computeSlot v = Some s \<and> s \<le> 12 \<and> v \<le> slotToSize s \<and> (s = 0 \<or> slotToSize (s - 1) < v)"
proof -
  have small: "v < 2 ^ 32" using assms(2) by simp
  define k where "k = 31 - clz 32 v"
  from clz_bounds[of v 32] assms small have k: "clz 32 v < 32" "2 ^ k \<le> v" "v < 2 ^ (k + 1)"
    by (auto simp: k_def Suc_diff_le[symmetric])
  have k28: "k \<le> 28" using k(2) assms(2) by (meson order_trans power_le_imp_le_exp one_less_numeral_iff semiring_norm(76))
  define c where "c = (if 2 ^ k \<noteq> v then k + 1 else k)"
  have c: "v \<le> 2 ^ c" "2 ^ (c - 1) < v" "0 < c" "c \<le> 28"
  proof -
    show "v \<le> 2 ^ c" using k(3) by (auto simp: c_def)
    show c0: "0 < c" using assms(1) by (cases k) (auto simp: c_def)
    show "2 ^ (c - 1) < v"
    proof (cases "2 ^ k = v")
      case True
      then have "0 < k" using assms(1) by (cases k) auto
      then have "(2::nat) ^ (k - 1) < 2 ^ k" by (simp add: power_strict_increasing)
      with True show ?thesis by (simp add: c_def)
    qed (use k(2) in \<open>auto simp: c_def\<close>)
    show "c \<le> 28"
    proof (rule ccontr)
      assume "\<not> c \<le> 28"
      then have "k = 28" "2 ^ k \<noteq> v" using k28 by (auto simp: c_def split: if_splits)
      with k(2) assms(2) show False by simp
    qed
  qed
  have "computeSlot v = Some (max c 16 - 16)"
    unfolding computeSlot_def Let_def k_def[symmetric] c_def[symmetric]
    using fits_small[OF small] assms(1) c k28 by simp
  moreover have "v \<le> 2 ^ max c 16" using c(1) by (meson max.cobounded1 order_trans power_increasing one_le_numeral)
  moreover have "2 ^ (max c 16 - 1) < v" if "max c 16 \<noteq> 16" using that c(2) by (simp add: max_def split: if_splits)
  ultimately show ?thesis using c(4) by (auto simp: slotToSize_def max_def)
qed

lemma pool_slot_ok:
  assumes "2 \<le> sz" "sz \<le> 2 ^ 28"
  shows "\<exists>s. pool_slot sz = Some s \<and> s < NUMLISTS \<and> sz \<le> slotToSize s \<and> (s = 0 \<or> slotToSize (s - 1) < sz)"
  using computeSlot_ok[OF assms] fits_small[of sz] assms(2) by (auto simp: pool_slot_def NUMLISTS_def)

lemma pool_slot_less: "pool_slot sz = Some s \<Longrightarrow> s < NUMLISTS"
  by (auto simp: pool_slot_def split: if_splits bind_splits)

lemma pool_slot_fits: "pool_slot sz = Some s \<Longrightarrow> sz \<le> slotToSize s"
proof -
  assume a: "pool_slot sz = Some s"
  then have "sz \<le> 2 ^ 28" "computeSlot sz = Some s" by (auto simp: pool_slot_def split: if_splits bind_splits)
  moreover have "2 \<le> sz"
  proof (rule ccontr)
    assume "\<not> 2 \<le> sz"
    then have "sz = 0 \<or> sz = 1" by auto
    moreover have "computeSlot 0 = None" by (simp add: computeSlot_def)
    moreover have "computeSlot 1 = None"
    proof -
      have "(2::nat) ^ (31 - clz 32 1) \<le> 1" using clz_bounds[of 1 32] by simp
      then have "31 - clz 32 1 = 0" using power_le_imp_le_exp[of "2::nat" "31 - clz 32 1" 0] by simp
      then show ?thesis by (simp add: computeSlot_def)
    qed
    ultimately show False using \<open>computeSlot sz = Some s\<close> by auto
  qed
  ultimately show ?thesis using computeSlot_ok[of sz] by auto
qed

section \<open>Allocation is safe\<close>

text \<open>
  The pool with the blocks that are handed out, each with the size it was asked for. A block is given back with
  that size.
\<close>

inductive pool_step :: "MemPool \<times> (block \<times> nat) list \<Rightarrow> MemPool \<times> (block \<times> nat) list \<Rightarrow> bool" where
  step_alloc: "mempool_alloc sz p = Some (mem, p') \<Longrightarrow> pool_step (p, held) (p', (mem, sz) # held)"
| step_free: "(mem, sz) \<in> set held \<Longrightarrow> mempool_free mem sz p = Some p' \<Longrightarrow> pool_step (p, held) (p', remove1 (mem, sz) held)"

definition all_blocks :: "MemPool \<Rightarrow> (block \<times> nat) list \<Rightarrow> block list" where
  "all_blocks p held = map fst held @ concat (mp_sizelists p)"

definition pool_ok :: "MemPool \<times> (block \<times> nat) list \<Rightarrow> bool" where
  "pool_ok s \<longleftrightarrow> (case s of (p, held) \<Rightarrow>
     length (mp_sizelists p) = NUMLISTS
     \<and> distinct (map blk_addr (all_blocks p held))
     \<and> (\<forall>b \<in> set (all_blocks p held). blk_addr b < mp_fresh p)
     \<and> (\<forall>i < NUMLISTS. \<forall>b \<in> set (mp_sizelists p ! i). blk_capacity b = slotToSize i)
     \<and> (\<forall>(b, sz) \<in> set held. \<exists>i. pool_slot sz = Some i \<and> blk_capacity b = slotToSize i))"

lemma mset_concat_update:
  "i < length xss \<Longrightarrow> mset (concat (xss[i := ys])) + mset (xss ! i) = mset (concat xss) + mset ys"
  by (induction xss arbitrary: i) (auto split: nat.splits simp: add_ac)

lemma perm_map_distinct: "mset xs = mset ys \<Longrightarrow> distinct (map f xs) = distinct (map f ys)"
  by (metis mset_map distinct_count_atmost_1 mset_eq_setD)

lemma pool_step_ok: "pool_step s s' \<Longrightarrow> pool_ok s \<Longrightarrow> pool_ok s'"
proof (induction rule: pool_step.induct)
  case (step_alloc sz p mem p' held)
  then obtain i where i: "pool_slot sz = Some i" "i < NUMLISTS" by (auto simp: mempool_alloc_def pool_slot_less split: bind_splits)
  have len: "length (mp_sizelists p) = NUMLISTS" using step_alloc(2) by (simp add: pool_ok_def)
  show ?case
  proof (cases "mp_sizelists p ! i")
    case Nil
    with step_alloc(1) i have "mem = \<lparr>blk_addr = mp_fresh p, blk_capacity = slotToSize i\<rparr>" "p' = p\<lparr>mp_fresh := mp_fresh p + 1\<rparr>"
      by (auto simp: mempool_alloc_def)
    moreover from this have all: "all_blocks p' ((mem, sz) # held) = mem # all_blocks p held" by (simp add: all_blocks_def)
    moreover have old: "distinct (map blk_addr (all_blocks p held))" "\<And>b. b \<in> set (all_blocks p held) \<Longrightarrow> blk_addr b < mp_fresh p"
      using step_alloc(2) by (auto simp: pool_ok_def)
    ultimately have "distinct (map blk_addr (all_blocks p' ((mem, sz) # held)))"
      "\<forall>b \<in> set (all_blocks p' ((mem, sz) # held)). blk_addr b < mp_fresh p'"
      by (fastforce simp del: map_append)+
    with step_alloc(2) i \<open>mem = _\<close> \<open>p' = _\<close> show ?thesis by (auto simp: pool_ok_def)
  next
    case (Cons b rest)
    with step_alloc(1) i have p': "mem = b" "p' = p\<lparr>mp_sizelists := (mp_sizelists p)[i := rest]\<rparr>" by (auto simp: mempool_alloc_def)
    have "mset (all_blocks p' ((mem, sz) # held)) = mset (all_blocks p held)"
      using mset_concat_update[of i "mp_sizelists p" rest] Cons len i(2) p' by (simp add: all_blocks_def)
    note perm = perm_map_distinct[OF this, of blk_addr] mset_eq_setD[OF this]
    have cap: "blk_capacity b = slotToSize i" using step_alloc(2) i(2) Cons by (auto simp: pool_ok_def)
    have "blk_capacity c = slotToSize j" if "j < NUMLISTS" "c \<in> set (mp_sizelists p' ! j)" for j c
      using that step_alloc(2) Cons p' len by (cases "j = i") (auto simp: pool_ok_def)
    with step_alloc(2) perm p' i cap show ?thesis by (auto simp: pool_ok_def)
  qed
next
  case (step_free mem sz held p p')
  then obtain i where i: "pool_slot sz = Some i" "i < NUMLISTS" "p' = p\<lparr>mp_sizelists := (mp_sizelists p)[i := mem # mp_sizelists p ! i]\<rparr>"
    by (auto simp: mempool_free_def pool_slot_less split: bind_splits)
  have len: "length (mp_sizelists p) = NUMLISTS" using step_free(3) by (simp add: pool_ok_def)
  have "mset (map fst held) = mset (map fst (remove1 (mem, sz) held)) + {#mem#}"
  proof -
    have "mem \<in># image_mset fst (mset held)" using step_free(1) by force
    then show ?thesis using step_free(1) by (simp add: image_mset_Diff)
  qed
  then have "mset (all_blocks p' (remove1 (mem, sz) held)) = mset (all_blocks p held)"
    using mset_concat_update[of i "mp_sizelists p" "mem # mp_sizelists p ! i"] len i by (simp add: all_blocks_def)
  note perm = perm_map_distinct[OF this, of blk_addr] mset_eq_setD[OF this]
  have "blk_capacity c = slotToSize j" if "j < NUMLISTS" "c \<in> set (mp_sizelists p' ! j)" for j c
    using that step_free(1,3) i len by (cases "j = i") (auto simp: pool_ok_def)
  moreover have "\<forall>(b, sz) \<in> set (remove1 (mem, sz) held). \<exists>i. pool_slot sz = Some i \<and> blk_capacity b = slotToSize i"
    using step_free(3) set_remove1_subset[of "(mem, sz)" held] by (auto simp: pool_ok_def)
  ultimately show ?case using step_free(3) perm i len by (auto simp: pool_ok_def)
qed

lemma pool_steps_ok: "pool_step\<^sup>*\<^sup>* s s' \<Longrightarrow> pool_ok s \<Longrightarrow> pool_ok s'"
  by (induction rule: rtranclp_induct) (auto intro: pool_step_ok)

lemma pool_new_ok: "pool_ok (mempool_new, [])"
  by (simp add: pool_ok_def mempool_new_def all_blocks_def)

text \<open>C36. However blocks are allocated and given back, the pool never hands out a block that is in use, every block in
  use has room for the size it was asked for, and an allocation of 2 to \<open>2^28\<close> bytes succeeds with a block of the
  smallest size class that fits.\<close>

theorem mempool_safe:
  assumes "pool_step\<^sup>*\<^sup>* (mempool_new, []) (p, held)" "2 \<le> sz" "sz \<le> 2 ^ 28"
  shows "distinct (map (blk_addr \<circ> fst) held) \<and> (\<forall>(b, n) \<in> set held. n \<le> blk_capacity b)
    \<and> (\<exists>mem p' s. mempool_alloc sz p = Some (mem, p') \<and> blk_addr mem \<notin> blk_addr ` fst ` set held
         \<and> blk_capacity mem = slotToSize s \<and> sz \<le> slotToSize s \<and> (s = 0 \<or> slotToSize (s - 1) < sz))"
proof -
  have ok: "pool_ok (p, held)" by (rule pool_steps_ok[OF assms(1) pool_new_ok])
  obtain s where s: "pool_slot sz = Some s" "s < NUMLISTS" "sz \<le> slotToSize s" "s = 0 \<or> slotToSize (s - 1) < sz"
    using pool_slot_ok[OF assms(2,3)] by blast
  obtain mem p' where alloc: "mempool_alloc sz p = Some (mem, p')"
    using s(1) by (cases "mp_sizelists p ! s") (auto simp: mempool_alloc_def)
  have "pool_ok (p', (mem, sz) # held)" by (rule pool_step_ok[OF step_alloc[OF alloc] ok])
  then have "blk_addr mem \<notin> blk_addr ` fst ` set held" "blk_capacity mem = slotToSize s"
    using s(1) by (auto simp: pool_ok_def all_blocks_def)
  moreover have "distinct (map (blk_addr \<circ> fst) held)" "\<forall>(b, n) \<in> set held. n \<le> blk_capacity b"
    using ok pool_slot_fits by (auto simp: pool_ok_def all_blocks_def)
  ultimately show ?thesis using alloc s by blast
qed

theorem mempool_safe_witness:
  "\<exists>mem p' s. mempool_alloc 70000 mempool_new = Some (mem, p') \<and> blk_capacity mem = slotToSize s \<and> 70000 \<le> slotToSize s"
  using mempool_safe[of mempool_new "[]" 70000] by auto

end
