(* ===== verification/Udp.thy ===== *)
theory Udp
  imports Transport
begin

text \<open>
  The UDP transport (\<^verbatim>\<open>zcm/transport/udp/\<close>): packet headers, the pool of fragment buffers (\<^verbatim>\<open>buffers.cpp\<close>), sending,
  receiving and reassembly (\<^verbatim>\<open>udp.cpp\<close>). The socket is a parameter. A cell of a buffer is \<open>None\<close> until it is
  written; sizes and offsets are natural numbers, since every difference the code takes of them is guarded and
  every sum is below \<open>2^30\<close>. An access outside of a buffer is \<open>None\<close>. The memory of the buffers comes from the pool
  of \<^verbatim>\<open>Mempool\<close>, which is modelled there.
\<close>

section \<open>Constants\<close>

definition ZCM_MAGIC_SHORT :: u32 where "ZCM_MAGIC_SHORT = 0x4c433032"
definition ZCM_MAGIC_LONG :: u32 where "ZCM_MAGIC_LONG = 0x4c433033"
definition ZCM_SHORT_MESSAGE_MAX_SIZE :: nat where "ZCM_SHORT_MESSAGE_MAX_SIZE = 65499"
definition ZCM_FRAGMENT_MAX_PAYLOAD :: nat where "ZCM_FRAGMENT_MAX_PAYLOAD = 65487"
definition ZCM_MAX_UNFRAGMENTED_PACKET_SIZE :: nat where "ZCM_MAX_UNFRAGMENTED_PACKET_SIZE = 65536"
definition MAX_FRAG_BUF_TOTAL_SIZE :: nat where "MAX_FRAG_BUF_TOTAL_SIZE = 2 ^ 24"
definition MAX_NUM_FRAG_BUFS :: nat where "MAX_NUM_FRAG_BUFS = 1000"
definition UDP_MTU :: nat where "UDP_MTU = 2 ^ 28"

text \<open>\<^verbatim>\<open>sizeof\<close> of the header structures, and of \<^verbatim>\<open>FragBuf\<close> and \<^verbatim>\<open>FragBuf::Fragment\<close> on a 64-bit machine.\<close>

definition SIZEOF_SHORT :: nat where "SIZEOF_SHORT = 8"
definition SIZEOF_LONG :: nat where "SIZEOF_LONG = 20"
definition SIZEOF_FRAGBUF :: nat where "SIZEOF_FRAGBUF = 104"
definition SIZEOF_FRAGMENT :: nat where "SIZEOF_FRAGMENT = 12"

section \<open>Packet headers\<close>

definition header_short :: "u32 \<Rightarrow> u8 list" where
  "header_short seqno = bytes32 ZCM_MAGIC_SHORT @ bytes32 seqno"

record MsgHeaderLong =
  lh_msg_seqno :: u32
  lh_msg_size :: u32
  lh_fragment_offset :: u32
  lh_fragment_no :: u16
  lh_fragments_in_msg :: u16

definition header_long :: "MsgHeaderLong \<Rightarrow> u8 list" where
  "header_long h =
     bytes32 ZCM_MAGIC_LONG @ bytes32 (lh_msg_seqno h) @ bytes32 (lh_msg_size h) @ bytes32 (lh_fragment_offset h)
     @ bytes16 (lh_fragment_no h) @ bytes16 (lh_fragments_in_msg h)"

text \<open>The getters of \<^verbatim>\<open>MsgHeaderLong\<close> on the first 20 bytes of a packet.\<close>

definition asHeaderLong :: "u8 list \<Rightarrow> MsgHeaderLong option" where
  "asHeaderLong buf =
     do {
       seqno \<leftarrow> get32 (drop 4 buf);
       size \<leftarrow> get32 (drop 8 buf);
       off \<leftarrow> get32 (drop 12 buf);
       no \<leftarrow> get16 (drop 16 buf);
       n \<leftarrow> get16 (drop 18 buf);
       Some \<lparr>lh_msg_seqno = seqno, lh_msg_size = size, lh_fragment_offset = off, lh_fragment_no = no, lh_fragments_in_msg = n\<rparr>
     }"

section \<open>Messages and fragment buffers\<close>

record sockaddr_in =
  sin_addr :: u32
  sin_port :: u16
  sin_family :: u16

definition sockaddrEqual :: "sockaddr_in \<Rightarrow> sockaddr_in \<Rightarrow> bool" where
  "sockaddrEqual a b \<longleftrightarrow> sin_addr a = sin_addr b \<and> sin_port a = sin_port b \<and> sin_family a = sin_family b"

type_synonym cells = "u8 option list"

text \<open>\<^verbatim>\<open>channel\<close> and \<^verbatim>\<open>data\<close> point into the buffer; \<open>dm_datalen\<close> is a \<^verbatim>\<open>size_t\<close>.\<close>

record Message =
  dm_utime :: int
  dm_channel :: nat
  dm_channellen :: nat
  dm_data :: nat
  dm_datalen :: nat
  dm_buf :: cells

record Packet =
  pk_utime :: int
  pk_sz :: nat
  pk_from :: sockaddr_in
  pk_buf :: "u8 list"

record Fragment =
  fr_offset :: nat
  fr_size :: nat
  fr_received :: bool

record FragBuf =
  fb_last_packet_utime :: int
  fb_msg_seqno :: u32
  fb_data_size :: nat
  fb_fragments_remaining :: nat
  fb_channellen :: nat
  fb_from :: sockaddr_in
  fb_fragments :: "Fragment list"
  fb_allocated_size :: nat
  fb_last_progress :: nat
  fb_buf :: cells

record MessagePool =
  pl_fragbufs :: "FragBuf list"
  pl_maxSize :: nat
  pl_maxBuffers :: nat
  pl_totalSize :: nat

definition messagepool_new :: "nat \<Rightarrow> nat \<Rightarrow> MessagePool" where
  "messagepool_new maxSize maxBuffers = \<lparr>pl_fragbufs = [], pl_maxSize = maxSize, pl_maxBuffers = maxBuffers, pl_totalSize = 0\<rparr>"

definition removeFragBuf :: "nat \<Rightarrow> MessagePool \<Rightarrow> MessagePool option" where
  "removeFragBuf index pool =
     (if \<not> index < length (pl_fragbufs pool) then None
      else let fbuf = pl_fragbufs pool ! index
           in Some (pool\<lparr>pl_totalSize := size_sub (pl_totalSize pool) (fb_allocated_size fbuf),
                         pl_fragbufs := remove_swap index (pl_fragbufs pool)\<rparr>))"

text \<open>The loop that finds the least recently updated buffer, from index \<open>i\<close> on.\<close>

fun eldest_loop :: "FragBuf list \<Rightarrow> nat \<Rightarrow> (nat \<times> FragBuf) option \<Rightarrow> (nat \<times> FragBuf) option" where
  "eldest_loop [] i best = best"
| "eldest_loop (f # fs) i best =
     eldest_loop fs (i + 1)
       (case best of
          None \<Rightarrow> Some (i, f)
        | Some (idx, eldest) \<Rightarrow> if fb_last_packet_utime f < fb_last_packet_utime eldest then Some (i, f) else best)"

lemma eldest_loop_range:
  "(\<And>idx e. best = Some (idx, e) \<Longrightarrow> idx < i) \<Longrightarrow> eldest_loop fs i best = Some (idx, e) \<Longrightarrow> idx < i + length fs"
proof (induction fs i best rule: eldest_loop.induct)
  case (2 f fs i best)
  from "2.IH"[OF _ "2.prems"(2)[unfolded eldest_loop.simps]] "2.prems"(1) show ?case
    by (force split: option.splits if_splits)
qed auto

text \<open>Buffers are evicted until the new one fits (or is alone).\<close>

function evict_loop :: "nat \<Rightarrow> MessagePool \<Rightarrow> MessagePool" where
  "evict_loop allocated_size pool =
     (if pl_fragbufs pool \<noteq> []
         \<and> (pl_totalSize pool + allocated_size > pl_maxSize pool \<or> length (pl_fragbufs pool) \<ge> pl_maxBuffers pool)
      then case eldest_loop (pl_fragbufs pool) 0 None of
             None \<Rightarrow> pool
           | Some (idx, eldest) \<Rightarrow>
               (case removeFragBuf idx pool of None \<Rightarrow> pool | Some pool \<Rightarrow> evict_loop allocated_size pool)
      else pool)"
  by pat_completeness auto
termination
  by (relation "measure (\<lambda>(a, pool). length (pl_fragbufs pool))")
    (auto simp: removeFragBuf_def remove_swap_def Let_def split: if_splits)

definition addFragBuf :: "nat \<Rightarrow> nat \<Rightarrow> nat \<Rightarrow> MessagePool \<Rightarrow> MessagePool" where
  "addFragBuf now data_size fragments_in_msg pool =
     (let allocated_size = data_size + SIZEOF_FRAGBUF + fragments_in_msg * SIZEOF_FRAGMENT;
          pool = evict_loop allocated_size pool;
          fbuf = \<lparr>fb_last_packet_utime = 0, fb_msg_seqno = 0, fb_data_size = 0, fb_fragments_remaining = 0, fb_channellen = 0,
                  fb_from = \<lparr>sin_addr = 0, sin_port = 0, sin_family = 0\<rparr>,
                  fb_fragments = replicate fragments_in_msg \<lparr>fr_offset = 0, fr_size = 0, fr_received = False\<rparr>,
                  fb_allocated_size = allocated_size, fb_last_progress = now, fb_buf = replicate data_size None\<rparr>
      in pool\<lparr>pl_fragbufs := pl_fragbufs pool @ [fbuf], pl_totalSize := pl_totalSize pool + allocated_size\<rparr>)"

text \<open>A buffer is referred to by its index.\<close>

fun lookup_loop :: "sockaddr_in \<Rightarrow> u32 \<Rightarrow> FragBuf list \<Rightarrow> nat option" where
  "lookup_loop key seqno [] = None"
| "lookup_loop key seqno (f # fs) =
     (if sockaddrEqual (fb_from f) key \<and> fb_msg_seqno f = seqno then Some 0 else map_option Suc (lookup_loop key seqno fs))"

definition lookupFragBuf :: "sockaddr_in \<Rightarrow> u32 \<Rightarrow> MessagePool \<Rightarrow> nat option" where
  "lookupFragBuf key seqno pool = lookup_loop key seqno (pl_fragbufs pool)"

text \<open>Times are microseconds; \<open>k\<close> is the number of buffers from index \<open>i\<close> on.\<close>

fun expire_loop :: "nat \<Rightarrow> nat \<Rightarrow> nat \<Rightarrow> MessagePool \<Rightarrow> MessagePool option" where
  "expire_loop 0 now i pool = Some pool"
| "expire_loop (Suc k) now i pool =
     (if now - fb_last_progress (pl_fragbufs pool ! i) \<ge> 5 * 10 ^ 6
      then Option.bind (removeFragBuf i pool) (expire_loop k now i)
      else expire_loop k now (i + 1) pool)"

definition expireFragBufs :: "nat \<Rightarrow> MessagePool \<Rightarrow> MessagePool option" where
  "expireFragBufs now pool = expire_loop (length (pl_fragbufs pool)) now 0 pool"

section \<open>The transport\<close>

record UDP =
  ud_pool :: MessagePool
  ud_rx :: u32
  ud_discarded_bad :: u32
  ud_msg_seqno :: u32

definition udp_new :: UDP where
  "udp_new = \<lparr>ud_pool = messagepool_new MAX_FRAG_BUF_TOTAL_SIZE MAX_NUM_FRAG_BUFS, ud_rx = 0, ud_discarded_bad = 0, ud_msg_seqno = 0\<rparr>"

definition discard :: "UDP \<Rightarrow> UDP" where
  "discard u = u\<lparr>ud_discarded_bad := ud_discarded_bad u + 1\<rparr>"

text \<open>\<^verbatim>\<open>strlen\<close> reads until it finds a zero byte, in the whole buffer; \<^verbatim>\<open>memchr\<close> looks at the first \<open>n\<close> bytes.\<close>

fun strlen :: "u8 list \<Rightarrow> nat option" where
  "strlen [] = None"
| "strlen (c # cs) = (if c = 0 then Some 0 else map_option Suc (strlen cs))"

definition memchr0 :: "u8 list \<Rightarrow> nat \<Rightarrow> nat option" where
  "memchr0 s n = strlen (take n s)"

definition recvShort :: "Packet \<Rightarrow> UDP \<Rightarrow> (Message option \<times> UDP) option" where
  "recvShort pkt u =
     do {
       clen \<leftarrow> strlen (drop SIZEOF_SHORT (pk_buf pkt));
       if clen > ZCM_CHANNEL_MAXLEN then Some (None, discard u)
       else let data = SIZEOF_SHORT + clen + 1
            in Some (Some \<lparr>dm_utime = pk_utime pkt, dm_channel = SIZEOF_SHORT, dm_channellen = clen, dm_data = data,
                           dm_datalen = size_sub (pk_sz pkt) data, dm_buf = map Some (pk_buf pkt)\<rparr>,
                     u\<lparr>ud_rx := ud_rx u + 1\<rparr>)
     }"

text \<open>
  \<^verbatim>\<open>recvFragment\<close>, first part: the checks of the header. The result is the size of the channel, the start of the
  data in the packet and the size of the fragment's data; \<open>None\<close> rejects the packet.
\<close>

definition payload_offset :: "nat \<Rightarrow> nat" where
  "payload_offset data_size = min (ZCM_CHANNEL_MAXLEN + 1) (UDP_MTU - data_size)"

definition frag_check :: "Packet \<Rightarrow> MsgHeaderLong \<Rightarrow> (nat \<times> nat \<times> nat) option" where
  "frag_check pkt h =
     (let data_size = unat (lh_msg_size h);
          off = unat (lh_fragment_offset h);
          no = unat (lh_fragment_no h);
          n = unat (lh_fragments_in_msg h);
          frag_size = pk_sz pkt - SIZEOF_LONG
      in if data_size > UDP_MTU \<or> n = 0 \<or> no \<ge> n then None
         else do {
           (channel_sz, data_start, frag_size) \<leftarrow>
             (if no = 0 then
                case memchr0 (drop SIZEOF_LONG (pk_buf pkt)) (min frag_size (payload_offset data_size)) of
                  None \<Rightarrow> None
                | Some channel_sz \<Rightarrow>
                    if off \<noteq> 0 then None
                    else Some (channel_sz, SIZEOF_LONG + channel_sz + 1, frag_size - (channel_sz + 1))
              else Some (0, SIZEOF_LONG, frag_size));
           if off > data_size \<or> frag_size > data_size - off \<or> (no \<noteq> 0 \<and> frag_size = 0)
              \<or> (no + 1 = n \<and> off + frag_size \<noteq> data_size)
           then None else Some (channel_sz, data_start, frag_size)
         })"

text \<open>Second part: what happens to the fragment buffer. A \<open>Reject\<close> removes the buffer and counts the packet as bad.\<close>

datatype frag_result = Ignore | Reject | Store FragBuf

definition frag_duplicate :: "FragBuf \<Rightarrow> nat \<Rightarrow> nat \<Rightarrow> u8 list \<Rightarrow> u8 list \<Rightarrow> nat \<Rightarrow> frag_result option" where
  "frag_duplicate fbuf no off channel data channel_sz =
     do {
       let fragment = fb_fragments fbuf ! no;
       destination \<leftarrow> mem_slice (fb_buf fbuf) (payload_offset (fb_data_size fbuf) + off) (length data);
       chan \<leftarrow> mem_slice (fb_buf fbuf) 0 (if no = 0 then channel_sz + 1 else 0);
       Some (if fr_offset fragment \<noteq> off \<or> fr_size fragment \<noteq> length data \<or> destination \<noteq> map Some data
                \<or> (no = 0 \<and> (fb_channellen fbuf \<noteq> channel_sz \<or> chan \<noteq> map Some channel))
             then Reject else Ignore)
     }"

definition frag_store ::
    "FragBuf \<Rightarrow> nat \<Rightarrow> nat \<Rightarrow> u8 list \<Rightarrow> u8 list \<Rightarrow> nat \<Rightarrow> int \<Rightarrow> nat \<Rightarrow> frag_result option" where
  "frag_store fbuf no off channel data channel_sz utime now =
     (let fragments = fb_fragments fbuf;
          n = length fragments;
          prev = fragments ! (no - 1);
          next = fragments ! (no + 1)
      in if fr_received (fragments ! no) then frag_duplicate fbuf no off channel data channel_sz
         else if no > 0 \<and> fr_received prev \<and> fr_offset prev + fr_size prev \<noteq> off then Some Reject
         else if no + 1 < n \<and> fr_received next \<and> off + length data \<noteq> fr_offset next then Some Reject
         else do {
           buf \<leftarrow> (if no = 0 then mem_blit (fb_buf fbuf) 0 (map Some channel) else Some (fb_buf fbuf));
           let channellen = (if no = 0 then channel_sz else fb_channellen fbuf);
           buf \<leftarrow> mem_blit buf (payload_offset (fb_data_size fbuf) + off) (map Some data);
           Some (Store (fbuf\<lparr>fb_buf := buf, fb_channellen := channellen,
             fb_fragments := fragments[no := \<lparr>fr_offset = off, fr_size = length data, fr_received = True\<rparr>],
             fb_last_packet_utime := utime, fb_last_progress := now,
             fb_fragments_remaining := fb_fragments_remaining fbuf - 1\<rparr>))
         })"

definition frag_message :: "FragBuf \<Rightarrow> Message" where
  "frag_message fbuf =
     \<lparr>dm_utime = fb_last_packet_utime fbuf, dm_channel = 0, dm_channellen = fb_channellen fbuf,
      dm_data = payload_offset (fb_data_size fbuf), dm_datalen = fb_data_size fbuf, dm_buf = fb_buf fbuf\<rparr>"

text \<open>The whole of \<^verbatim>\<open>recvFragment\<close>; \<open>now\<close> is the steady clock.\<close>

definition recvFragment :: "Packet \<Rightarrow> nat \<Rightarrow> UDP \<Rightarrow> (Message option \<times> UDP) option" where
  "recvFragment pkt now u =
     (if pk_sz pkt < SIZEOF_LONG then Some (None, discard u)
      else do {
        h \<leftarrow> asHeaderLong (pk_buf pkt);
        case frag_check pkt h of
          None \<Rightarrow> Some (None, discard u)
        | Some (channel_sz, data_start, frag_size) \<Rightarrow> do {
            channel \<leftarrow> mem_slice (pk_buf pkt) SIZEOF_LONG (if lh_fragment_no h = 0 then channel_sz + 1 else 0);
            data \<leftarrow> mem_slice (pk_buf pkt) data_start frag_size;
            let data_size = unat (lh_msg_size h);
            let off = unat (lh_fragment_offset h);
            let no = unat (lh_fragment_no h);
            let n = unat (lh_fragments_in_msg h);
            let found = lookupFragBuf (pk_from pkt) (lh_msg_seqno h) (ud_pool u);
            let wrong = (case found of
                Some i \<Rightarrow> let f = pl_fragbufs (ud_pool u) ! i in fb_data_size f \<noteq> data_size \<or> length (fb_fragments f) \<noteq> n
              | None \<Rightarrow> False);
            if wrong then do {
              pool \<leftarrow> removeFragBuf (the found) (ud_pool u);
              Some (None, discard (u\<lparr>ud_pool := pool\<rparr>))
            } else do {
              let (i, pool) = (case found of
                  Some i \<Rightarrow> (i, ud_pool u)
                | None \<Rightarrow>
                    let pool = addFragBuf now (payload_offset data_size + data_size) n (ud_pool u);
                        i = length (pl_fragbufs pool) - 1
                    in (i, pool\<lparr>pl_fragbufs := (pl_fragbufs pool)[i := (pl_fragbufs pool ! i)
                         \<lparr>fb_msg_seqno := lh_msg_seqno h, fb_data_size := data_size, fb_fragments_remaining := n,
                          fb_from := pk_from pkt\<rparr>]\<rparr>));
              r \<leftarrow> frag_store (pl_fragbufs pool ! i) no off channel data channel_sz (pk_utime pkt) now;
              case r of
                Ignore \<Rightarrow> Some (None, u\<lparr>ud_pool := pool\<rparr>)
              | Reject \<Rightarrow> do { pool \<leftarrow> removeFragBuf i pool; Some (None, discard (u\<lparr>ud_pool := pool\<rparr>)) }
              | Store fbuf \<Rightarrow>
                  let pool = pool\<lparr>pl_fragbufs := (pl_fragbufs pool)[i := fbuf]\<rparr>
                  in if fb_fragments_remaining fbuf > 0 then Some (None, u\<lparr>ud_pool := pool\<rparr>)
                     else do { pool \<leftarrow> removeFragBuf i pool; Some (Some (frag_message fbuf), u\<lparr>ud_pool := pool\<rparr>) }
            }
          }
      })"

section \<open>Receiving\<close>

text \<open>
  What the socket does next: \<^verbatim>\<open>recvPacket\<close> fails, or delivers a packet at a time of the steady clock. At the end of the
  list \<^verbatim>\<open>waitUntilData\<close> times out.
\<close>

datatype sock_event = RecvError | Got Packet nat

fun readMessage_loop :: "sock_event list \<Rightarrow> UDP \<Rightarrow> (Message option \<times> sock_event list \<times> UDP) option" where
  "readMessage_loop [] u = Some (None, [], u)"
| "readMessage_loop (RecvError # es) u = readMessage_loop es (discard u)"
| "readMessage_loop (Got pkt now # es) u =
     do {
       pool \<leftarrow> expireFragBufs now (ud_pool u);
       let u = u\<lparr>ud_pool := pool\<rparr>;
       if pk_sz pkt < SIZEOF_SHORT then readMessage_loop es (discard u)
       else do {
         magic \<leftarrow> get32 (pk_buf pkt);
         if magic = ZCM_MAGIC_SHORT \<or> magic = ZCM_MAGIC_LONG then do {
           (msg, u) \<leftarrow> (if magic = ZCM_MAGIC_SHORT then recvShort pkt u else recvFragment pkt now u);
           case msg of Some m \<Rightarrow> Some (Some m, es, u) | None \<Rightarrow> readMessage_loop es u
         } else readMessage_loop es (discard u)
       }
     }"

definition readMessage :: "nat \<Rightarrow> sock_event list \<Rightarrow> UDP \<Rightarrow> (Message option \<times> sock_event list \<times> UDP) option" where
  "readMessage now es u =
     do {
       pool \<leftarrow> expireFragBufs now (ud_pool u);
       readMessage_loop es (u\<lparr>ud_pool := pool\<rparr>)
     }"

definition udp_recvmsg :: "nat \<Rightarrow> sock_event list \<Rightarrow> UDP \<Rightarrow> (int \<times> Message option \<times> sock_event list \<times> UDP) option" where
  "udp_recvmsg now es u =
     map_option (\<lambda>(m, es, u). (if m = None then ZCM_EAGAIN else ZCM_EOK, m, es, u)) (readMessage now es u)"

section \<open>Sending\<close>

text \<open>\<^verbatim>\<open>int\<close> values made of a \<^verbatim>\<open>size_t\<close>.\<close>

definition to_int :: "nat \<Rightarrow> int" where
  "to_int n = (int n + 2 ^ 31) mod 2 ^ 32 - 2 ^ 31"

text \<open>
  \<open>send\<close> is \<^verbatim>\<open>UDPSocket::sendBuffers\<close>, which gets the concatenation of its buffers and returns the number of bytes sent
  or a negative value. The loop has \<open>k\<close> fragments left, of which \<open>frag_no\<close> is the next. The length of a fragment is the one the
  code computes as long as the message is below \<open>2^31\<close> bytes, which \<^verbatim>\<open>publish\<close> ensures with the MTU of \<open>2^28\<close>.
\<close>

fun send_loop ::
    "(u8 list \<Rightarrow> 'w \<Rightarrow> int \<times> 'w) \<Rightarrow> u8 list \<Rightarrow> MsgHeaderLong \<Rightarrow> nat \<Rightarrow> nat \<Rightarrow> nat \<Rightarrow> int \<Rightarrow> int \<Rightarrow> 'w \<Rightarrow> 'w" where
  "send_loop send buf hdr 0 frag_no off packet_size status w = w"
| "send_loop send buf hdr (Suc k) frag_no off packet_size status w =
     (if packet_size \<noteq> status then w
      else let hdr = hdr\<lparr>lh_fragment_offset := of_nat off, lh_fragment_no := of_nat frag_no\<rparr>;
               fraglen = min ZCM_FRAGMENT_MAX_PAYLOAD (length buf - off);
               (status, w) = send (header_long hdr @ take fraglen (drop off buf)) w
           in send_loop send buf hdr k (frag_no + 1) (off + fraglen) (int (SIZEOF_LONG + fraglen)) status w)"

definition udp_sendmsg :: "(u8 list \<Rightarrow> 'w \<Rightarrow> int \<times> 'w) \<Rightarrow> zcm_msg_t \<Rightarrow> UDP \<Rightarrow> 'w \<Rightarrow> int \<times> UDP \<times> 'w" where
  "udp_sendmsg send msg u w =
     (let channel_size = length (msg_channel msg);
          chan = msg_channel msg @ [0]
      in if channel_size > ZCM_CHANNEL_MAXLEN then (ZCM_EINVALID, u, w)
         else let payload_size = to_int (channel_size + 1 + msg_len msg)
              in if payload_size \<le> int ZCM_SHORT_MESSAGE_MAX_SIZE then
                   let (status, w) = send (header_short (ud_msg_seqno u) @ chan @ msg_buf msg) w;
                       packet_size = int SIZEOF_SHORT + payload_size
                   in (if status = packet_size then 0 else status, u\<lparr>ud_msg_seqno := ud_msg_seqno u + 1\<rparr>, w)
                 else let fragment_size = ZCM_FRAGMENT_MAX_PAYLOAD;
                          nfragments = nat payload_size div fragment_size + (if nat payload_size mod fragment_size = 0 then 0 else 1)
                      in if nfragments > 65535 then (-1, u, w)
                         else let hdr = \<lparr>lh_msg_seqno = ud_msg_seqno u, lh_msg_size = of_nat (msg_len msg), lh_fragment_offset = 0,
                                         lh_fragment_no = 0, lh_fragments_in_msg = of_nat nfragments\<rparr>;
                                  firstfrag_datasize = fragment_size - (channel_size + 1);
                                  packet_size = int (SIZEOF_LONG + (channel_size + 1) + firstfrag_datasize);
                                  (status, w) = send (header_long hdr @ chan @ take firstfrag_datasize (msg_buf msg)) w;
                                  w = send_loop send (msg_buf msg) hdr (nfragments - 1) 1 firstfrag_datasize packet_size status w
                              in (0, u\<lparr>ud_msg_seqno := ud_msg_seqno u + 1\<rparr>, w))"

section \<open>The bytes of a received message\<close>

definition message_data :: "Message \<Rightarrow> u8 list option" where
  "message_data m =
     (case mem_slice (dm_buf m) (dm_data m) (dm_datalen m) of
        None \<Rightarrow> None
      | Some cs \<Rightarrow> if None \<in> set cs then None else Some (map the cs))"

definition message_channel :: "Message \<Rightarrow> u8 list option" where
  "message_channel m =
     (case mem_slice (dm_buf m) (dm_channel m) (dm_channellen m + 1) of
        None \<Rightarrow> None
      | Some cs \<Rightarrow> if None \<in> set cs \<or> last cs \<noteq> Some 0 then None else Some (map the (butlast cs)))"

end
