(* ===== verification/Udp_Safe.thy ===== *)
theory Udp_Safe
  imports Udp
begin

text \<open>
  Receiving fragments is safe whatever packets arrive: no access outside of a buffer, the accounting of the pool is
  exact and bounded, and a message is only delivered when every byte of it has been received.
\<close>

section \<open>Fragment buffers\<close>

abbreviation fr_end :: "Fragment \<Rightarrow> nat" where "fr_end f \<equiv> fr_offset f + fr_size f"

text \<open>The cells from \<open>i\<close> up to \<open>j\<close> have been written.\<close>

definition written :: "cells \<Rightarrow> nat \<Rightarrow> nat \<Rightarrow> bool" where
  "written buf i j \<longleftrightarrow> j \<le> length buf \<and> (\<forall>k. i \<le> k \<and> k < j \<longrightarrow> buf ! k \<noteq> None)"

definition frag_inv :: "FragBuf \<Rightarrow> nat \<Rightarrow> Fragment \<Rightarrow> bool" where
  "frag_inv f i fr \<longleftrightarrow> fr_end fr \<le> fb_data_size f
     \<and> written (fb_buf f) (payload_offset (fb_data_size f) + fr_offset fr) (payload_offset (fb_data_size f) + fr_end fr)
     \<and> (i = 0 \<longrightarrow> fr_offset fr = 0) \<and> (i + 1 = length (fb_fragments f) \<longrightarrow> fr_end fr = fb_data_size f)"

definition chan_inv :: "FragBuf \<Rightarrow> bool" where
  "chan_inv f \<longleftrightarrow> fb_channellen f < payload_offset (fb_data_size f) \<and> written (fb_buf f) 0 (fb_channellen f + 1)
     \<and> fb_buf f ! fb_channellen f = Some 0"

definition fb_ok :: "FragBuf \<Rightarrow> bool" where
  "fb_ok f \<longleftrightarrow> fb_data_size f \<le> UDP_MTU \<and> fb_fragments f \<noteq> []
     \<and> length (fb_buf f) = payload_offset (fb_data_size f) + fb_data_size f
     \<and> fb_fragments_remaining f = length (filter (\<lambda>fr. \<not> fr_received fr) (fb_fragments f))
     \<and> (\<forall>i < length (fb_fragments f). fr_received (fb_fragments f ! i) \<longrightarrow> frag_inv f i (fb_fragments f ! i))
     \<and> (\<forall>i. i + 1 < length (fb_fragments f) \<and> fr_received (fb_fragments f ! i) \<and> fr_received (fb_fragments f ! (i + 1)) \<longrightarrow>
          fr_end (fb_fragments f ! i) = fr_offset (fb_fragments f ! (i + 1)))
     \<and> (fr_received (fb_fragments f ! 0) \<longrightarrow> chan_inv f)"

lemma written_blit:
  assumes "mem_blit buf i (map Some xs) = Some buf'"
  shows "length buf' = length buf" "written buf' i (i + length xs)" "written buf a b \<Longrightarrow> written buf' a b"
    "k < i \<or> i + length xs \<le> k \<Longrightarrow> k < length buf \<Longrightarrow> buf' ! k = buf ! k"
    "k < length xs \<Longrightarrow> buf' ! (i + k) = Some (xs ! k)"
proof -
  from assms have b: "i + length xs \<le> length buf" "buf' = take i buf @ map Some xs @ drop (i + length xs) buf"
    by (auto simp: mem_blit_eq_Some)
  have nth: "buf' ! k = (if i \<le> k \<and> k < i + length xs then Some (xs ! (k - i)) else buf ! k)" if "k < length buf" for k
    using b that by (auto simp: nth_append)
  show len: "length buf' = length buf" using b by simp
  show "written buf' i (i + length xs)" using nth b(1) len by (auto simp: written_def)
  show "k < i \<or> i + length xs \<le> k \<Longrightarrow> k < length buf \<Longrightarrow> buf' ! k = buf ! k" using nth by auto
  show "k < length xs \<Longrightarrow> buf' ! (i + k) = Some (xs ! k)" using nth[of "i + k"] b(1) by auto
  show "written buf a b \<Longrightarrow> written buf' a b" using nth len by (auto simp: written_def)
qed

lemma written_append: "written buf a b \<Longrightarrow> written buf b c \<Longrightarrow> written buf a c"
  unfolding written_def by (metis not_less)

text \<open>When nothing is missing, the fragments cover the whole message.\<close>

lemma complete_covers:
  assumes ok: "fb_ok f" and all: "\<And>i. i < length (fb_fragments f) \<Longrightarrow> fr_received (fb_fragments f ! i)"
  shows "written (fb_buf f) (payload_offset (fb_data_size f)) (payload_offset (fb_data_size f) + fb_data_size f)"
proof -
  let ?fr = "\<lambda>i. fb_fragments f ! i" and ?n = "length (fb_fragments f)" and ?po = "payload_offset (fb_data_size f)"
  have n: "0 < ?n" using ok by (simp add: fb_ok_def)
  have inv: "frag_inv f i (?fr i)" if "i < ?n" for i using ok all that by (simp add: fb_ok_def)
  have "written (fb_buf f) ?po (?po + fr_end (?fr i))" if "i < ?n" for i
    using that
  proof (induction i)
    case 0
    with inv[of 0] show ?case by (auto simp: frag_inv_def)
  next
    case (Suc i)
    have "fr_end (?fr i) = fr_offset (?fr (Suc i))" using ok all[of i] all[of "Suc i"] Suc.prems by (auto simp: fb_ok_def)
    moreover have "written (fb_buf f) (?po + fr_offset (?fr (Suc i))) (?po + fr_end (?fr (Suc i)))"
      using inv[OF Suc.prems] by (simp add: frag_inv_def)
    ultimately show ?case using Suc written_append by (metis Suc_lessD)
  qed
  from this[of "?n - 1"] inv[of "?n - 1"] n show ?thesis by (simp add: frag_inv_def)
qed

lemma none_missing: "length (filter P xs) = 0 \<Longrightarrow> i < length xs \<Longrightarrow> \<not> P (xs ! i)"
  by (auto simp: filter_empty_conv)

lemma message_data_complete:
  assumes "fb_ok f" "fb_fragments_remaining f = 0"
  shows "message_data (frag_message f) \<noteq> None" "message_channel (frag_message f) \<noteq> None" "dm_datalen (frag_message f) = fb_data_size f"
proof -
  have all: "fr_received (fb_fragments f ! i)" if "i < length (fb_fragments f)" for i
    using none_missing[of "\<lambda>fr. \<not> fr_received fr" "fb_fragments f" i] assms that by (simp add: fb_ok_def)
  let ?po = "payload_offset (fb_data_size f)"
  have len: "length (fb_buf f) = ?po + fb_data_size f" using assms(1) by (simp add: fb_ok_def)
  have w: "written (fb_buf f) ?po (?po + fb_data_size f)" by (rule complete_covers[OF assms(1) all])
  have "None \<notin> set (take (fb_data_size f) (drop ?po (fb_buf f)))"
    using w len by (auto simp: in_set_conv_nth written_def)
  with len show "message_data (frag_message f) \<noteq> None" by (simp add: message_data_def frag_message_def mem_slice_def)
  have c: "chan_inv f" using assms(1) all[of 0] by (auto simp: fb_ok_def)
  then have "None \<notin> set (take (fb_channellen f + 1) (fb_buf f))" using len by (auto simp: in_set_conv_nth written_def chan_inv_def)
  moreover have "last (take (fb_channellen f + 1) (fb_buf f)) = Some 0"
    using c len by (subst last_conv_nth) (auto simp: chan_inv_def)
  ultimately show "message_channel (frag_message f) \<noteq> None"
    using c len by (simp add: message_channel_def frag_message_def mem_slice_def chan_inv_def)
qed (simp add: frag_message_def)

section \<open>Storing a fragment\<close>

text \<open>What the checks of the header guarantee.\<close>

definition checked :: "nat \<Rightarrow> nat \<Rightarrow> nat \<Rightarrow> nat \<Rightarrow> u8 list \<Rightarrow> u8 list \<Rightarrow> nat \<Rightarrow> bool" where
  "checked data_size n no off channel data channel_sz \<longleftrightarrow> data_size \<le> UDP_MTU \<and> no < n \<and> off + length data \<le> data_size
     \<and> (no + 1 = n \<longrightarrow> off + length data = data_size)
     \<and> (no = 0 \<longrightarrow> off = 0 \<and> length channel = channel_sz + 1 \<and> channel_sz < payload_offset data_size \<and> channel ! channel_sz = 0)"

lemma filter_update_length:
  assumes "i < length xs" "P (xs ! i)" "\<not> P y"
  shows "length (filter P (xs[i := y])) = length (filter P xs) - 1"
proof -
  have "xs = take i xs @ xs ! i # drop (Suc i) xs" using assms(1) by (rule id_take_nth_drop)
  then have "length (filter P xs) = length (filter P (take i xs)) + Suc (length (filter P (drop (Suc i) xs)))"
    using assms(2) by (metis filter.simps(2) filter_append length_Cons length_append)
  moreover have "length (filter P (xs[i := y])) = length (filter P (take i xs)) + length (filter P (drop (Suc i) xs))"
    using assms(1,3) by (simp add: upd_conv_take_nth_drop)
  ultimately show ?thesis by simp
qed

lemma frag_duplicate_ok:
  assumes "fb_ok f" "checked (fb_data_size f) (length (fb_fragments f)) no off channel data channel_sz"
  shows "\<exists>r. frag_duplicate f no off channel data channel_sz = Some r \<and> (r = Ignore \<or> r = Reject)"
proof -
  have "length (fb_buf f) = payload_offset (fb_data_size f) + fb_data_size f" using assms(1) by (simp add: fb_ok_def)
  with assms(2) show ?thesis by (auto simp: frag_duplicate_def checked_def mem_slice_def Let_def)
qed

definition stored :: "FragBuf \<Rightarrow> nat \<Rightarrow> nat \<Rightarrow> nat \<Rightarrow> cells \<Rightarrow> nat \<Rightarrow> int \<Rightarrow> nat \<Rightarrow> FragBuf" where
  "stored f no off len buf channel_sz utime now =
     f\<lparr>fb_buf := buf, fb_channellen := (if no = 0 then channel_sz else fb_channellen f),
       fb_fragments := (fb_fragments f)[no := \<lparr>fr_offset = off, fr_size = len, fr_received = True\<rparr>],
       fb_last_packet_utime := utime, fb_last_progress := now, fb_fragments_remaining := fb_fragments_remaining f - 1\<rparr>"

lemma frag_store_cases:
  assumes ok: "fb_ok f" and chk: "checked (fb_data_size f) (length (fb_fragments f)) no off channel data channel_sz"
  obtains (ignore) "frag_store f no off channel data channel_sz utime now = Some Ignore"
    | (reject) "frag_store f no off channel data channel_sz utime now = Some Reject"
    | (store) buf0 buf where
        "frag_store f no off channel data channel_sz utime now = Some (Store (stored f no off (length data) buf channel_sz utime now))"
        "\<not> fr_received (fb_fragments f ! no)"
        "if no = 0 then mem_blit (fb_buf f) 0 (map Some channel) = Some buf0 else buf0 = fb_buf f"
        "mem_blit buf0 (payload_offset (fb_data_size f) + off) (map Some data) = Some buf"
        "no > 0 \<Longrightarrow> fr_received (fb_fragments f ! (no - 1)) \<Longrightarrow> fr_end (fb_fragments f ! (no - 1)) = off"
        "no + 1 < length (fb_fragments f) \<Longrightarrow> fr_received (fb_fragments f ! (no + 1)) \<Longrightarrow> off + length data = fr_offset (fb_fragments f ! (no + 1))"
proof (cases "fr_received (fb_fragments f ! no)")
  case True
  with frag_duplicate_ok[OF ok chk] ignore reject show ?thesis by (auto simp: frag_store_def Let_def)
next
  case False
  have len: "length (fb_buf f) = payload_offset (fb_data_size f) + fb_data_size f" using ok by (simp add: fb_ok_def)
  obtain buf0 where b0: "if no = 0 then mem_blit (fb_buf f) 0 (map Some channel) = Some buf0 else buf0 = fb_buf f" "length buf0 = length (fb_buf f)"
    using chk len by (cases "no = 0") (auto simp: mem_blit_def checked_def)
  obtain buf where b: "mem_blit buf0 (payload_offset (fb_data_size f) + off) (map Some data) = Some buf"
    using chk len b0(2) by (auto simp: mem_blit_def checked_def)
  have "frag_store f no off channel data channel_sz utime now = Some Reject \<or>
      (no > 0 \<longrightarrow> fr_received (fb_fragments f ! (no - 1)) \<longrightarrow> fr_end (fb_fragments f ! (no - 1)) = off)
      \<and> (no + 1 < length (fb_fragments f) \<longrightarrow> fr_received (fb_fragments f ! (no + 1)) \<longrightarrow> off + length data = fr_offset (fb_fragments f ! (no + 1)))"
    using False by (auto simp: frag_store_def Let_def)
  then consider "frag_store f no off channel data channel_sz utime now = Some Reject"
    | "frag_store f no off channel data channel_sz utime now \<noteq> Some Reject"
      "no > 0 \<longrightarrow> fr_received (fb_fragments f ! (no - 1)) \<longrightarrow> fr_end (fb_fragments f ! (no - 1)) = off"
      "no + 1 < length (fb_fragments f) \<longrightarrow> fr_received (fb_fragments f ! (no + 1)) \<longrightarrow> off + length data = fr_offset (fb_fragments f ! (no + 1))"
    by blast
  then show ?thesis
  proof cases
    case 2
    then have "frag_store f no off channel data channel_sz utime now = Some (Store (stored f no off (length data) buf channel_sz utime now))"
      using False b0(1) b by (cases "no = 0") (auto simp: frag_store_def stored_def Let_def)
    then show ?thesis using store False b0(1) b 2(2,3) by blast
  qed (rule reject)
qed

lemma stored_chan:
  assumes ok: "fb_ok f" and chk: "checked (fb_data_size f) (length (fb_fragments f)) no off channel data channel_sz"
    and b0: "if no = 0 then mem_blit (fb_buf f) 0 (map Some channel) = Some buf0 else buf0 = fb_buf f"
    and b: "mem_blit buf0 (payload_offset (fb_data_size f) + off) (map Some data) = Some buf"
    and first: "no = 0 \<or> chan_inv f"
  shows "chan_inv (stored f no off (length data) buf channel_sz utime now)"
proof -
  let ?po = "payload_offset (fb_data_size f)"
  define cl where "cl = (if no = 0 then channel_sz else fb_channellen f)"
  have len: "length (fb_buf f) = ?po + fb_data_size f" using ok by (simp add: fb_ok_def)
  have "cl < ?po \<and> written buf0 0 (cl + 1) \<and> buf0 ! cl = Some 0 \<and> length buf0 = length (fb_buf f)"
  proof (cases "no = 0")
    case True
    with b0 have bl: "mem_blit (fb_buf f) 0 (map Some channel) = Some buf0" by simp
    with True chk written_blit[OF bl] written_blit(5)[OF bl, of channel_sz] show ?thesis by (simp add: cl_def checked_def)
  next
    case False
    with b0 first show ?thesis by (simp add: cl_def chan_inv_def)
  qed
  moreover from this len have "buf ! cl = buf0 ! cl" by (intro written_blit(4)[OF b]) auto
  ultimately show ?thesis using written_blit(3)[OF b] by (simp add: chan_inv_def stored_def cl_def)
qed

lemma stored_ok:
  assumes ok: "fb_ok f" and chk: "checked (fb_data_size f) (length (fb_fragments f)) no off channel data channel_sz"
    and new: "\<not> fr_received (fb_fragments f ! no)"
    and b0: "if no = 0 then mem_blit (fb_buf f) 0 (map Some channel) = Some buf0 else buf0 = fb_buf f"
    and b: "mem_blit buf0 (payload_offset (fb_data_size f) + off) (map Some data) = Some buf"
    and prev: "no > 0 \<Longrightarrow> fr_received (fb_fragments f ! (no - 1)) \<Longrightarrow> fr_end (fb_fragments f ! (no - 1)) = off"
    and nxt: "no + 1 < length (fb_fragments f) \<Longrightarrow> fr_received (fb_fragments f ! (no + 1)) \<Longrightarrow> off + length data = fr_offset (fb_fragments f ! (no + 1))"
  shows "fb_ok (stored f no off (length data) buf channel_sz utime now)" (is "fb_ok ?f'")
proof -
  let ?po = "payload_offset (fb_data_size f)" and ?n = "length (fb_fragments f)"
  let ?new = "\<lparr>fr_offset = off, fr_size = length data, fr_received = True\<rparr>"
  have len: "length (fb_buf f) = ?po + fb_data_size f" using ok by (simp add: fb_ok_def)
  have no: "no < ?n" using chk by (simp add: checked_def)
  have w0: "written (fb_buf f) x y \<Longrightarrow> written buf0 x y" "length buf0 = length (fb_buf f)" for x y
    using b0 written_blit(1,3)[of "fb_buf f" 0 channel buf0] by (auto split: if_splits)
  have w: "written (fb_buf f) x y \<Longrightarrow> written buf x y" for x y using w0 written_blit(3)[OF b] by blast
  have fields: "fb_data_size ?f' = fb_data_size f" "fb_fragments ?f' = (fb_fragments f)[no := ?new]" "fb_buf ?f' = buf"
      "fb_fragments_remaining ?f' = fb_fragments_remaining f - 1"
    by (simp_all add: stored_def)
  have nth: "fb_fragments ?f' ! i = (if i = no then ?new else fb_fragments f ! i)" for i
    using no by (auto simp: fields nth_list_update)
  have "frag_inv ?f' i (fb_fragments ?f' ! i)" if "i < ?n" "fr_received (fb_fragments ?f' ! i)" for i
  proof (cases "i = no")
    case True
    with chk written_blit(2)[OF b] nth show ?thesis by (auto simp: frag_inv_def fields checked_def add.assoc)
  next
    case False
    with that nth ok have "frag_inv f i (fb_fragments f ! i)" by (simp add: fb_ok_def)
    with w nth False show ?thesis by (simp add: frag_inv_def fields)
  qed
  moreover have "fr_end (fb_fragments ?f' ! i) = fr_offset (fb_fragments ?f' ! (i + 1))"
    if "i + 1 < ?n" "fr_received (fb_fragments ?f' ! i)" "fr_received (fb_fragments ?f' ! (i + 1))" for i
    using that nth prev nxt ok by (auto simp: fb_ok_def split: if_splits)
  moreover have "chan_inv ?f'" if "fr_received (fb_fragments ?f' ! 0)"
  proof (rule stored_chan[OF ok chk b0 b])
    show "no = 0 \<or> chan_inv f" using that nth[of 0] ok by (auto simp: fb_ok_def split: if_splits)
  qed
  moreover have "fb_fragments_remaining ?f' = length (filter (\<lambda>fr. \<not> fr_received fr) (fb_fragments ?f'))"
    using ok new no filter_update_length[of no "fb_fragments f" "\<lambda>fr. \<not> fr_received fr" ?new] by (simp add: fields fb_ok_def)
  moreover have "length buf = ?po + fb_data_size f" using written_blit(1)[OF b] w0(2) len by simp
  moreover have "fb_data_size f \<le> UDP_MTU" "fb_fragments f \<noteq> []" using ok by (simp_all add: fb_ok_def)
  moreover have "length (fb_fragments ?f') = ?n" by (simp add: fields)
  ultimately show ?thesis unfolding fb_ok_def fields(1,3) by (auto simp: fields(2))
qed

section \<open>The pool\<close>

definition acc_ok :: "MessagePool \<Rightarrow> bool" where
  "acc_ok p \<longleftrightarrow> pl_totalSize p = sum_list (map fb_allocated_size (pl_fragbufs p))
     \<and> 0 < pl_maxBuffers p \<and> length (pl_fragbufs p) \<le> pl_maxBuffers p \<and> (pl_totalSize p \<le> pl_maxSize p \<or> length (pl_fragbufs p) \<le> 1)"

definition bufs_ok :: "FragBuf list \<Rightarrow> bool" where
  "bufs_ok fs \<longleftrightarrow> (\<forall>f \<in> set fs. fb_ok f \<and> fb_fragments_remaining f > 0)"

definition pl_ok :: "MessagePool \<Rightarrow> bool" where
  "pl_ok p \<longleftrightarrow> acc_ok p \<and> bufs_ok (pl_fragbufs p)"

definition same_max :: "MessagePool \<Rightarrow> MessagePool \<Rightarrow> bool" where
  "same_max p p' \<longleftrightarrow> pl_maxSize p' = pl_maxSize p \<and> pl_maxBuffers p' = pl_maxBuffers p"

lemma removeFragBuf_ok:
  assumes "acc_ok p" "i < length (pl_fragbufs p)"
  shows "\<exists>p'. removeFragBuf i p = Some p' \<and> acc_ok p' \<and> same_max p p'
    \<and> mset (pl_fragbufs p) = mset (pl_fragbufs p') + {#pl_fragbufs p ! i#} \<and> length (pl_fragbufs p') = length (pl_fragbufs p) - 1"
proof -
  let ?fs = "pl_fragbufs p" and ?fs' = "remove_swap i (pl_fragbufs p)"
  have ms: "mset ?fs = mset ?fs' + {#?fs ! i#}" using remove_swap_mset[OF assms(2)] .
  have "sum_mset (image_mset fb_allocated_size (mset ?fs)) = sum_mset (image_mset fb_allocated_size (mset ?fs')) + fb_allocated_size (?fs ! i)"
    unfolding ms by simp
  then have sum: "sum_list (map fb_allocated_size ?fs) = sum_list (map fb_allocated_size ?fs') + fb_allocated_size (?fs ! i)"
    by (simp add: sum_mset_sum_list flip: mset_map)
  have len: "length ?fs' = length ?fs - 1" by (simp add: remove_swap_def)
  from assms sum len ms show ?thesis by (auto simp: removeFragBuf_def acc_ok_def same_max_def Let_def)
qed

lemma bufs_ok_remove: "mset fs = mset fs' + {#f#} \<Longrightarrow> bufs_ok fs \<Longrightarrow> bufs_ok fs'"
  unfolding bufs_ok_def by (metis UnCI mset_eq_setD set_mset_mset set_mset_union)

lemma eldest_loop_Some: "best \<noteq> None \<Longrightarrow> eldest_loop fs i best \<noteq> None"
  by (induction fs i best rule: eldest_loop.induct) (auto split: option.splits)

lemma eldest_index: "fs \<noteq> [] \<Longrightarrow> \<exists>idx e. eldest_loop fs 0 None = Some (idx, e) \<and> idx < length fs"
proof -
  assume "fs \<noteq> []"
  then obtain g gs where fs: "fs = g # gs" by (cases fs) auto
  then obtain idx e where e: "eldest_loop fs 0 None = Some (idx, e)" using eldest_loop_Some[of "Some (0, g)" gs 1] by auto
  with eldest_loop_range[of None 0 fs idx e] show ?thesis by simp
qed

definition room_for :: "nat \<Rightarrow> MessagePool \<Rightarrow> bool" where
  "room_for a p \<longleftrightarrow> pl_fragbufs p = [] \<or> pl_totalSize p + a \<le> pl_maxSize p \<and> length (pl_fragbufs p) < pl_maxBuffers p"

lemma evict_loop_ok:
  assumes "acc_ok p"
  shows "acc_ok (evict_loop a p) \<and> same_max p (evict_loop a p) \<and> room_for a (evict_loop a p)
    \<and> mset (pl_fragbufs (evict_loop a p)) \<subseteq># mset (pl_fragbufs p)"
  using assms
proof (induction a p rule: evict_loop.induct)
  case (1 a p)
  show ?case
  proof (cases "room_for a p")
    case True
    then have "evict_loop a p = p" by (subst evict_loop.simps) (auto simp: room_for_def)
    with True 1(2) show ?thesis by (simp add: same_max_def)
  next
    case False
    then have c: "pl_fragbufs p \<noteq> [] \<and> (pl_totalSize p + a > pl_maxSize p \<or> length (pl_fragbufs p) \<ge> pl_maxBuffers p)"
      by (auto simp: room_for_def)
    then obtain idx e where e: "eldest_loop (pl_fragbufs p) 0 None = Some (idx, e)" "idx < length (pl_fragbufs p)"
      using eldest_index by blast
    from removeFragBuf_ok[OF 1(2) e(2)] obtain p' where p': "removeFragBuf idx p = Some p'" "acc_ok p'" "same_max p p'"
      "mset (pl_fragbufs p) = mset (pl_fragbufs p') + {#pl_fragbufs p ! idx#}" by blast
    have "evict_loop a p = evict_loop a p'" using c e(1) p'(1) by (subst evict_loop.simps) simp
    with 1(1)[OF c e(1) refl p'(1) p'(2)] p'(3,4) show ?thesis
      by (auto simp: same_max_def intro: subset_mset.order_trans)
  qed
qed

lemma expire_loop_ok:
  assumes "pl_ok p" "i + k = length (pl_fragbufs p)"
  shows "\<exists>p'. expire_loop k now i p = Some p' \<and> pl_ok p' \<and> same_max p p'"
  using assms
proof (induction k arbitrary: i p)
  case (Suc k)
  show ?case
  proof (cases "now - fb_last_progress (pl_fragbufs p ! i) \<ge> 5 * 10 ^ 6")
    case True
    from removeFragBuf_ok[of p i] Suc.prems obtain p' where p': "removeFragBuf i p = Some p'" "acc_ok p'" "same_max p p'"
      "mset (pl_fragbufs p) = mset (pl_fragbufs p') + {#pl_fragbufs p ! i#}" "length (pl_fragbufs p') = length (pl_fragbufs p) - 1"
      by (auto simp: pl_ok_def)
    have "pl_ok p'" using p'(2) bufs_ok_remove[OF p'(4)] Suc.prems(1) by (simp add: pl_ok_def)
    from Suc.IH[OF this, of i] p' Suc.prems(2) True show ?thesis by (auto simp: same_max_def)
  next
    case False
    with Suc.IH[OF Suc.prems(1), of "i + 1"] Suc.prems(2) show ?thesis by simp
  qed
qed (simp add: same_max_def)

lemma expireFragBufs_ok: "pl_ok p \<Longrightarrow> \<exists>p'. expireFragBufs now p = Some p' \<and> pl_ok p' \<and> same_max p p'"
  unfolding expireFragBufs_def by (rule expire_loop_ok) simp_all

section \<open>Checked headers\<close>

lemma strlen_Some: "strlen s = Some k \<Longrightarrow> k < length s \<and> s ! k = 0 \<and> 0 \<notin> set (take k s)"
  by (induction s arbitrary: k rule: strlen.induct) (auto split: if_splits)

lemma memchr0_Some: "memchr0 s n = Some k \<Longrightarrow> k < n \<and> k < length s \<and> s ! k = 0 \<and> 0 \<notin> set (take k s)"
  unfolding memchr0_def using strlen_Some[of "take n s" k] by auto

lemma frag_check_ok:
  assumes "frag_check pkt h = Some (channel_sz, data_start, frag_size)" "SIZEOF_LONG \<le> pk_sz pkt" "pk_sz pkt \<le> length (pk_buf pkt)"
  shows "\<exists>channel data. mem_slice (pk_buf pkt) SIZEOF_LONG (if lh_fragment_no h = 0 then channel_sz + 1 else 0) = Some channel
    \<and> mem_slice (pk_buf pkt) data_start frag_size = Some data
    \<and> checked (unat (lh_msg_size h)) (unat (lh_fragments_in_msg h)) (unat (lh_fragment_no h)) (unat (lh_fragment_offset h)) channel data channel_sz"
proof (cases "lh_fragment_no h = 0")
  case True
  let ?n = "min (pk_sz pkt - SIZEOF_LONG) (payload_offset (unat (lh_msg_size h)))"
  from assms(1) True have c: "memchr0 (drop SIZEOF_LONG (pk_buf pkt)) ?n = Some channel_sz" "lh_fragment_offset h = 0"
      "data_start = SIZEOF_LONG + channel_sz + 1" "frag_size = pk_sz pkt - SIZEOF_LONG - (channel_sz + 1)"
      "unat (lh_msg_size h) \<le> UDP_MTU" "unat (lh_fragments_in_msg h) \<noteq> 0" "frag_size \<le> unat (lh_msg_size h)"
      "1 = unat (lh_fragments_in_msg h) \<longrightarrow> frag_size = unat (lh_msg_size h)"
    by (auto simp: frag_check_def Let_def unat_eq_0 split: if_splits option.splits)
  from memchr0_Some[OF c(1)] assms(2,3) c True show ?thesis
    by (auto simp: mem_slice_def checked_def)
next
  case False
  then have "unat (lh_fragment_no h) \<noteq> 0" by (simp add: unat_eq_0)
  with assms False show ?thesis
    by (auto simp: frag_check_def Let_def mem_slice_def checked_def split: if_splits)
qed

section \<open>Receiving a fragment\<close>

lemma lookup_loop_Some: "lookup_loop key seqno fs = Some i \<Longrightarrow> i < length fs"
  by (induction fs arbitrary: i) (auto split: if_splits)

lemma bufs_ok_nth: "bufs_ok fs \<Longrightarrow> i < length fs \<Longrightarrow> fb_ok (fs ! i) \<and> 0 < fb_fragments_remaining (fs ! i)"
  by (simp add: bufs_ok_def)

text \<open>The new, empty buffer of a message.\<close>

definition fresh :: "nat \<Rightarrow> u32 \<Rightarrow> nat \<Rightarrow> nat \<Rightarrow> sockaddr_in \<Rightarrow> FragBuf" where
  "fresh now seqno data_size n src =
     \<lparr>fb_last_packet_utime = 0, fb_msg_seqno = seqno, fb_data_size = data_size, fb_fragments_remaining = n, fb_channellen = 0,
      fb_from = src, fb_fragments = replicate n \<lparr>fr_offset = 0, fr_size = 0, fr_received = False\<rparr>,
      fb_allocated_size = payload_offset data_size + data_size + SIZEOF_FRAGBUF + n * SIZEOF_FRAGMENT, fb_last_progress = now,
      fb_buf = replicate (payload_offset data_size + data_size) None\<rparr>"

lemma fresh_ok: "data_size \<le> UDP_MTU \<Longrightarrow> 0 < n \<Longrightarrow> fb_ok (fresh now seqno data_size n src)"
  by (auto simp: fb_ok_def fresh_def)

lemma added_ok:
  fixes now n data_size :: nat and seqno :: u32 and p :: MessagePool and src :: sockaddr_in
  assumes "pl_ok p" "data_size \<le> UDP_MTU" "0 < n"
  defines "p1 \<equiv> addFragBuf now (payload_offset data_size + data_size) n p"
  defines "i \<equiv> length (pl_fragbufs p1) - 1"
  defines "p2 \<equiv> p1\<lparr>pl_fragbufs := (pl_fragbufs p1)[i := (pl_fragbufs p1 ! i)
    \<lparr>fb_msg_seqno := seqno, fb_data_size := data_size, fb_fragments_remaining := n, fb_from := src\<rparr>]\<rparr>"
  shows "pl_ok p2" "i < length (pl_fragbufs p2)" "pl_fragbufs p2 ! i = fresh now seqno data_size n src" "same_max p p2"
proof -
  let ?a = "payload_offset data_size + data_size + SIZEOF_FRAGBUF + n * SIZEOF_FRAGMENT"
  let ?q = "evict_loop ?a p"
  have q: "acc_ok ?q" "same_max p ?q" "room_for ?a ?q" "mset (pl_fragbufs ?q) \<subseteq># mset (pl_fragbufs p)"
    using evict_loop_ok[of p ?a] assms(1) by (simp_all add: pl_ok_def)
  have i: "i = length (pl_fragbufs ?q)" by (simp add: i_def p1_def addFragBuf_def Let_def)
  have fs: "pl_fragbufs p2 = pl_fragbufs ?q @ [fresh now seqno data_size n src]"
    by (simp add: p2_def i p1_def addFragBuf_def Let_def fresh_def)
  have rest: "pl_totalSize p2 = pl_totalSize ?q + ?a" "pl_maxSize p2 = pl_maxSize ?q" "pl_maxBuffers p2 = pl_maxBuffers ?q"
    by (simp_all add: p2_def p1_def addFragBuf_def Let_def)
  have "bufs_ok (pl_fragbufs ?q)"
    using assms(1) set_mset_mono[OF q(4)] by (auto simp: pl_ok_def bufs_ok_def)
  with fresh_ok[OF assms(2,3)] have "bufs_ok (pl_fragbufs p2)" by (simp add: fs bufs_ok_def fresh_def assms(3))
  moreover have "acc_ok p2" using q(1,3) by (auto simp: acc_ok_def room_for_def fs rest fresh_def)
  ultimately show "pl_ok p2" by (simp add: pl_ok_def)
  show "i < length (pl_fragbufs p2)" "pl_fragbufs p2 ! i = fresh now seqno data_size n src" by (simp_all add: i fs)
  show "same_max p p2" using q(2) rest by (simp add: same_max_def)
qed

text \<open>A packet that fits its buffer, which holds at least a header.\<close>

definition pkt_ok :: "Packet \<Rightarrow> bool" where
  "pkt_ok pkt \<longleftrightarrow> pk_sz pkt \<le> length (pk_buf pkt) \<and> SIZEOF_LONG \<le> length (pk_buf pkt)"

definition complete :: "Message option \<Rightarrow> bool" where
  "complete r \<longleftrightarrow> (case r of None \<Rightarrow> True | Some m \<Rightarrow> message_data m \<noteq> None \<and> message_channel m \<noteq> None)"

definition recv_safe :: "UDP \<Rightarrow> (Message option \<times> UDP) option \<Rightarrow> bool" where
  "recv_safe u r \<longleftrightarrow> (\<exists>m u'. r = Some (m, u') \<and> complete m \<and> pl_ok (ud_pool u') \<and> same_max (ud_pool u) (ud_pool u'))"

text \<open>The end of \<^verbatim>\<open>recvFragment\<close>, once the buffer has been found or made.\<close>

definition frag_finish :: "nat \<Rightarrow> MessagePool \<Rightarrow> UDP \<Rightarrow> frag_result \<Rightarrow> (Message option \<times> UDP) option" where
  "frag_finish i pool u r =
     (case r of
        Ignore \<Rightarrow> Some (None, u\<lparr>ud_pool := pool\<rparr>)
      | Reject \<Rightarrow> do { pool \<leftarrow> removeFragBuf i pool; Some (None, discard (u\<lparr>ud_pool := pool\<rparr>)) }
      | Store fbuf \<Rightarrow>
          let pool = pool\<lparr>pl_fragbufs := (pl_fragbufs pool)[i := fbuf]\<rparr>
          in if fb_fragments_remaining fbuf > 0 then Some (None, u\<lparr>ud_pool := pool\<rparr>)
             else do { pool \<leftarrow> removeFragBuf i pool; Some (Some (frag_message fbuf), u\<lparr>ud_pool := pool\<rparr>) })"

lemma removed_safe:
  assumes "acc_ok p" "i < length (pl_fragbufs p)" "\<And>f. f \<in># mset (pl_fragbufs p) - {#pl_fragbufs p ! i#} \<Longrightarrow> bufs_ok [f]"
  shows "\<exists>p'. removeFragBuf i p = Some p' \<and> pl_ok p' \<and> same_max p p'"
proof -
  from removeFragBuf_ok[OF assms(1,2)] obtain p' where p': "removeFragBuf i p = Some p'" "acc_ok p'" "same_max p p'"
    "mset (pl_fragbufs p) = mset (pl_fragbufs p') + {#pl_fragbufs p ! i#}" by blast
  have "bufs_ok (pl_fragbufs p')" using assms(3) by (auto simp: p'(4) bufs_ok_def)
  with p' show ?thesis by (auto simp: pl_ok_def)
qed

lemma same_max_refl [simp]: "same_max p p"
  by (simp add: same_max_def)

lemma same_max_trans: "same_max p q \<Longrightarrow> same_max q r \<Longrightarrow> same_max p r"
  by (simp add: same_max_def)

lemma discard_pool [simp]: "ud_pool (discard u) = ud_pool u"
  by (simp add: discard_def)

lemma frag_finish_removed:
  assumes "pl_ok p" "i < length (pl_fragbufs p)"
  shows "\<exists>p'. removeFragBuf i p = Some p' \<and> pl_ok p' \<and> same_max p p'"
  using assms in_diffD[of _ "mset (pl_fragbufs p)"] by (intro removed_safe) (auto simp: pl_ok_def bufs_ok_def)

lemma update_acc_ok:
  assumes "acc_ok p" "i < length (pl_fragbufs p)" "fb_allocated_size f = fb_allocated_size (pl_fragbufs p ! i)"
  shows "acc_ok (p\<lparr>pl_fragbufs := (pl_fragbufs p)[i := f]\<rparr>)"
proof -
  have "map fb_allocated_size ((pl_fragbufs p)[i := f]) = map fb_allocated_size (pl_fragbufs p)"
    using assms(2,3) by (simp add: map_update list_update_same_conv)
  with assms(1) show ?thesis by (auto simp: acc_ok_def)
qed

lemma frag_store_safe:
  assumes pl: "pl_ok p" "i < length (pl_fragbufs p)" "same_max (ud_pool u) p"
    and chk: "checked (fb_data_size (pl_fragbufs p ! i)) (length (fb_fragments (pl_fragbufs p ! i))) no off channel data channel_sz"
  shows "recv_safe u (Option.bind (frag_store (pl_fragbufs p ! i) no off channel data channel_sz utime now) (frag_finish i p u))"
proof -
  let ?f = "pl_fragbufs p ! i"
  have f: "fb_ok ?f" using bufs_ok_nth[of "pl_fragbufs p" i] pl(1,2) by (simp add: pl_ok_def)
  show ?thesis
  proof (rule frag_store_cases[OF f chk, of utime now])
    assume "frag_store ?f no off channel data channel_sz utime now = Some Ignore"
    with pl show ?thesis by (simp add: frag_finish_def recv_safe_def complete_def)
  next
    assume "frag_store ?f no off channel data channel_sz utime now = Some Reject"
    with frag_finish_removed[OF pl(1,2)] pl(3) show ?thesis
      by (auto simp: frag_finish_def recv_safe_def complete_def intro: same_max_trans)
  next
    fix buf0 buf
    let ?g = "stored ?f no off (length data) buf channel_sz utime now"
    let ?p = "p\<lparr>pl_fragbufs := (pl_fragbufs p)[i := ?g]\<rparr>"
    assume s: "frag_store ?f no off channel data channel_sz utime now = Some (Store ?g)"
      and st: "\<not> fr_received (fb_fragments ?f ! no)"
        "if no = 0 then mem_blit (fb_buf ?f) 0 (map Some channel) = Some buf0 else buf0 = fb_buf ?f"
        "mem_blit buf0 (payload_offset (fb_data_size ?f) + off) (map Some data) = Some buf"
        "no > 0 \<Longrightarrow> fr_received (fb_fragments ?f ! (no - 1)) \<Longrightarrow> fr_end (fb_fragments ?f ! (no - 1)) = off"
        "no + 1 < length (fb_fragments ?f) \<Longrightarrow> fr_received (fb_fragments ?f ! (no + 1)) \<Longrightarrow> off + length data = fr_offset (fb_fragments ?f ! (no + 1))"
    have g: "fb_ok ?g" by (rule stored_ok[OF f chk st])
    have a: "acc_ok ?p" using pl by (intro update_acc_ok) (auto simp: pl_ok_def stored_def)
    have sm: "same_max (ud_pool u) ?p" using pl(3) by (simp add: same_max_def)
    show ?thesis
    proof (cases "fb_fragments_remaining ?g > 0")
      case True
      have "bufs_ok ((pl_fragbufs p)[i := ?g])"
        using pl(1,2) g True set_update_subset_insert[of "pl_fragbufs p" i ?g] by (auto simp: pl_ok_def bufs_ok_def)
      with a sm True s show ?thesis by (simp add: frag_finish_def recv_safe_def complete_def pl_ok_def)
    next
      case False
      have "\<exists>p'. removeFragBuf i ?p = Some p' \<and> pl_ok p' \<and> same_max ?p p'"
      proof (rule removed_safe[OF a])
        fix h assume "h \<in># mset (pl_fragbufs ?p) - {#pl_fragbufs ?p ! i#}"
        then have "h \<in># mset (pl_fragbufs p)" using pl(2) by (auto simp: mset_update dest: in_diffD)
        then show "bufs_ok [h]" using pl(1) by (simp add: pl_ok_def bufs_ok_def)
      qed (use pl(2) in simp)
      then obtain p' where p': "removeFragBuf i ?p = Some p'" "pl_ok p'" "same_max ?p p'" by blast
      have "complete (Some (frag_message ?g))"
        using message_data_complete[OF g] False g by (simp add: complete_def fb_ok_def)
      with p' same_max_trans[OF sm p'(3)] False s show ?thesis by (simp add: frag_finish_def recv_safe_def)
    qed
  qed
qed

lemma asHeaderLong_Some: "SIZEOF_LONG \<le> length buf \<Longrightarrow> \<exists>h. asHeaderLong buf = Some h"
proof -
  have g32: "\<exists>x. get32 (drop k buf) = Some x" if "k + 4 \<le> length buf" for k
    using that by (cases "drop k buf" rule: get32.cases) (auto dest: arg_cong[where f = length])
  have g16: "\<exists>x. get16 (drop k buf) = Some x" if "k + 2 \<le> length buf" for k
    using that by (cases "drop k buf" rule: get16.cases) (auto dest: arg_cong[where f = length])
  assume "SIZEOF_LONG \<le> length buf"
  with g32[of 4] g32[of 8] g32[of 12] g16[of 16] g16[of 18] show ?thesis by (auto simp: asHeaderLong_def SIZEOF_LONG_def)
qed

lemma recv_safe_discard: "pl_ok p \<Longrightarrow> same_max (ud_pool u) p \<Longrightarrow> recv_safe u (Some (None, discard (u\<lparr>ud_pool := p\<rparr>)))"
  by (simp add: recv_safe_def complete_def)

text \<open>A packet that passes the checks, as its parts.\<close>

definition parsed :: "Packet \<Rightarrow> MsgHeaderLong \<Rightarrow> u8 list \<Rightarrow> u8 list \<Rightarrow> nat \<Rightarrow> bool" where
  "parsed pkt h channel data channel_sz \<longleftrightarrow> \<not> pk_sz pkt < SIZEOF_LONG \<and> asHeaderLong (pk_buf pkt) = Some h
     \<and> (\<exists>data_start frag_size. frag_check pkt h = Some (channel_sz, data_start, frag_size)
          \<and> mem_slice (pk_buf pkt) SIZEOF_LONG (if lh_fragment_no h = 0 then channel_sz + 1 else 0) = Some channel
          \<and> mem_slice (pk_buf pkt) data_start frag_size = Some data)"

abbreviation store_in :: "Packet \<Rightarrow> MsgHeaderLong \<Rightarrow> u8 list \<Rightarrow> u8 list \<Rightarrow> nat \<Rightarrow> nat \<Rightarrow> nat \<Rightarrow> MessagePool \<Rightarrow> UDP \<Rightarrow> (Message option \<times> UDP) option" where
  "store_in pkt h channel data channel_sz now i p u \<equiv>
     Option.bind (frag_store (pl_fragbufs p ! i) (unat (lh_fragment_no h)) (unat (lh_fragment_offset h)) channel data channel_sz (pk_utime pkt) now)
       (frag_finish i p u)"

lemma recvFragment_found:
  assumes "parsed pkt h channel data channel_sz" "lookupFragBuf (pk_from pkt) (lh_msg_seqno h) (ud_pool u) = Some i"
  shows "recvFragment pkt now u =
    (if fb_data_size (pl_fragbufs (ud_pool u) ! i) \<noteq> unat (lh_msg_size h)
        \<or> length (fb_fragments (pl_fragbufs (ud_pool u) ! i)) \<noteq> unat (lh_fragments_in_msg h)
     then Option.bind (removeFragBuf i (ud_pool u)) (\<lambda>p. Some (None, discard (u\<lparr>ud_pool := p\<rparr>)))
     else store_in pkt h channel data channel_sz now i (ud_pool u) u)"
  using assms by (auto simp: parsed_def recvFragment_def frag_finish_def[abs_def] Let_def)

lemma recvFragment_new:
  fixes pkt h u now
  assumes "parsed pkt h channel data channel_sz" "lookupFragBuf (pk_from pkt) (lh_msg_seqno h) (ud_pool u) = None"
  defines "ds \<equiv> unat (lh_msg_size h)" and "n \<equiv> unat (lh_fragments_in_msg h)"
  defines "p1 \<equiv> addFragBuf now (payload_offset ds + ds) n (ud_pool u)"
  defines "i \<equiv> length (pl_fragbufs p1) - 1"
  defines "p2 \<equiv> p1\<lparr>pl_fragbufs := (pl_fragbufs p1)[i := (pl_fragbufs p1 ! i)
    \<lparr>fb_msg_seqno := lh_msg_seqno h, fb_data_size := ds, fb_fragments_remaining := n, fb_from := pk_from pkt\<rparr>]\<rparr>"
  shows "recvFragment pkt now u = store_in pkt h channel data channel_sz now i p2 u"
  using assms(1,2) by (auto simp: parsed_def recvFragment_def frag_finish_def[abs_def] Let_def p2_def i_def p1_def ds_def n_def)

lemma recvFragment_safe:
  assumes pkt: "pkt_ok pkt" and pl: "pl_ok (ud_pool u)"
  shows "recv_safe u (recvFragment pkt now u)"
proof (cases "pk_sz pkt < SIZEOF_LONG")
  case False
  obtain h where h: "asHeaderLong (pk_buf pkt) = Some h" using pkt asHeaderLong_Some by (auto simp: pkt_ok_def)
  show ?thesis
  proof (cases "frag_check pkt h")
    case None
    with False h pl show ?thesis by (simp add: recvFragment_def recv_safe_def complete_def same_max_def)
  next
    case (Some r)
    obtain channel_sz data_start frag_size where r: "r = (channel_sz, data_start, frag_size)" by (cases r)
    let ?ds = "unat (lh_msg_size h)" and ?n = "unat (lh_fragments_in_msg h)"
    from frag_check_ok[of pkt h channel_sz data_start frag_size] Some r False h pkt obtain channel data where
      prs: "parsed pkt h channel data channel_sz"
      and chk: "checked ?ds ?n (unat (lh_fragment_no h)) (unat (lh_fragment_offset h)) channel data channel_sz"
      by (auto simp: pkt_ok_def parsed_def)
    show ?thesis
    proof (cases "lookupFragBuf (pk_from pkt) (lh_msg_seqno h) (ud_pool u)")
      case None
      have "?ds \<le> UDP_MTU" "0 < ?n" using chk by (auto simp: checked_def)
      note p2 = added_ok[OF pl this, where now = now and seqno = "lh_msg_seqno h" and src = "pk_from pkt"]
      show ?thesis unfolding recvFragment_new[OF prs None]
        using chk p2 by (intro frag_store_safe) (simp_all only: p2(3), simp add: fresh_def)
    next
      case (Some i)
      have i: "i < length (pl_fragbufs (ud_pool u))" using Some lookup_loop_Some by (simp add: lookupFragBuf_def)
      show ?thesis unfolding recvFragment_found[OF prs Some]
        using frag_finish_removed[OF pl i] frag_store_safe[OF pl i, of u] chk by (auto intro: recv_safe_discard)
    qed
  qed
qed (use pl in \<open>simp add: recvFragment_def recv_safe_def complete_def same_max_def\<close>)

section \<open>Receiving messages\<close>

text \<open>A short packet is well formed when its channel ends inside of the packet, which the code does not check.\<close>

definition short_ok :: "Packet \<Rightarrow> bool" where
  "short_ok pkt \<longleftrightarrow> (get32 (pk_buf pkt) = Some ZCM_MAGIC_SHORT \<longrightarrow> memchr0 (drop SIZEOF_SHORT (pk_buf pkt)) (pk_sz pkt - SIZEOF_SHORT) \<noteq> None)"

definition event_ok :: "sock_event \<Rightarrow> bool" where
  "event_ok e \<longleftrightarrow> (case e of RecvError \<Rightarrow> True | Got pkt now \<Rightarrow> pkt_ok pkt \<and> short_ok pkt)"

lemma strlen_take: "strlen (take n s) = Some k \<Longrightarrow> strlen s = Some k"
  by (induction s arbitrary: n k) (auto simp: take_Cons split: nat.splits if_splits)

lemma recvShort_Some:
  assumes "memchr0 (drop SIZEOF_SHORT (pk_buf pkt)) (pk_sz pkt - SIZEOF_SHORT) = Some clen" "pk_sz pkt \<le> length (pk_buf pkt)" "clen \<le> ZCM_CHANNEL_MAXLEN"
  shows "\<exists>m. recvShort pkt u = Some (Some m, u\<lparr>ud_rx := ud_rx u + 1\<rparr>) \<and> message_channel m = Some (take clen (drop SIZEOF_SHORT (pk_buf pkt)))
    \<and> message_data m = Some (drop (SIZEOF_SHORT + clen + 1) (take (pk_sz pkt) (pk_buf pkt))) \<and> dm_utime m = pk_utime pkt"
proof -
  let ?s = "drop SIZEOF_SHORT (pk_buf pkt)"
  have c: "clen < pk_sz pkt - SIZEOF_SHORT" "clen < length ?s" "?s ! clen = 0" using memchr0_Some[OF assms(1)] by auto
  have s: "strlen ?s = Some clen" by (rule strlen_take[OF assms(1)[unfolded memchr0_def]])
  have sub: "size_sub (pk_sz pkt) (SIZEOF_SHORT + clen + 1) = pk_sz pkt - (SIZEOF_SHORT + clen + 1)"
    using c(1) by (intro size_sub_le) auto
  have l: "take (Suc clen) ?s = take clen ?s @ [0]" using c(2,3) by (simp add: take_Suc_conv_app_nth)
  have le: "SIZEOF_SHORT + clen + 1 \<le> pk_sz pkt" "SIZEOF_SHORT + Suc clen \<le> length (pk_buf pkt)" using c assms(2) by auto
  have "mem_slice (map Some (pk_buf pkt)) SIZEOF_SHORT (clen + 1) = Some (map Some (take (Suc clen) ?s))"
    using le(2) by (simp add: mem_slice_def drop_map take_map)
  then have m1: "mem_slice (map Some (pk_buf pkt)) SIZEOF_SHORT (clen + 1) = Some (map Some (take clen ?s) @ [Some 0])"
    unfolding l by simp
  have m2: "mem_slice (map Some (pk_buf pkt)) (SIZEOF_SHORT + clen + 1) (pk_sz pkt - (SIZEOF_SHORT + clen + 1))
      = Some (map Some (drop (SIZEOF_SHORT + clen + 1) (take (pk_sz pkt) (pk_buf pkt))))"
    using le(1) assms(2) unfolding mem_slice_def drop_take by (simp add: drop_map take_map)
  show ?thesis using s assms(3) sub m1 m2
    by (simp add: recvShort_def message_channel_def message_data_def image_iff comp_def)
qed

lemma recvShort_safe:
  assumes "pkt_ok pkt" "short_ok pkt" "get32 (pk_buf pkt) = Some ZCM_MAGIC_SHORT" "pl_ok (ud_pool u)"
  shows "recv_safe u (recvShort pkt u)"
proof -
  from assms(2,3) obtain clen where c: "memchr0 (drop SIZEOF_SHORT (pk_buf pkt)) (pk_sz pkt - SIZEOF_SHORT) = Some clen"
    by (auto simp: short_ok_def)
  show ?thesis
  proof (cases "clen \<le> ZCM_CHANNEL_MAXLEN")
    case True
    with recvShort_Some[OF c, of u] assms(1,4) show ?thesis by (auto simp: pkt_ok_def recv_safe_def complete_def same_max_def)
  next
    case False
    with strlen_take[OF c[unfolded memchr0_def]] assms(4) show ?thesis
      by (simp add: recvShort_def recv_safe_def complete_def same_max_def)
  qed
qed

definition read_safe :: "UDP \<Rightarrow> (Message option \<times> sock_event list \<times> UDP) option \<Rightarrow> bool" where
  "read_safe u r \<longleftrightarrow>
     (\<exists>m es u'. r = Some (m, es, u') \<and> complete m \<and> (m = None \<longrightarrow> es = []) \<and> pl_ok (ud_pool u') \<and> same_max (ud_pool u) (ud_pool u'))"

lemma read_safe_trans: "same_max (ud_pool u) (ud_pool u') \<Longrightarrow> read_safe u' r \<Longrightarrow> read_safe u r"
  unfolding read_safe_def using same_max_trans by blast

lemma readMessage_loop_safe:
  assumes "list_all event_ok es" "pl_ok (ud_pool u)"
  shows "read_safe u (readMessage_loop es u)"
  using assms
proof (induction es u rule: readMessage_loop.induct)
  case (1 u)
  then show ?case by (simp add: read_safe_def complete_def same_max_def)
next
  case (2 es u)
  then have "read_safe (discard u) (readMessage_loop es (discard u))" by simp
  then show ?case by (auto intro: read_safe_trans[of u "discard u"] simp: same_max_def)
next
  case (3 pkt now es u)
  from expireFragBufs_ok[OF 3(5)] obtain p where p: "expireFragBufs now (ud_pool u) = Some p" "pl_ok p" "same_max (ud_pool u) p" by blast
  let ?u = "u\<lparr>ud_pool := p\<rparr>"
  have pkt: "pkt_ok pkt" "short_ok pkt" and es: "list_all event_ok es" using 3(4) event_ok_def[of "Got pkt now"] by auto
  have "SIZEOF_LONG \<le> length (pk_buf pkt)" using pkt(1) by (simp add: pkt_ok_def)
  then obtain magic where magic: "get32 (pk_buf pkt) = Some magic"
    by (cases "pk_buf pkt" rule: get32.cases) (auto simp: SIZEOF_LONG_def)
  have bad: "read_safe u (readMessage_loop es (discard ?u))" if "read_safe (discard ?u) (readMessage_loop es (discard ?u))"
    using read_safe_trans[of u "discard ?u"] that p(3) by simp
  show ?case
  proof (cases "pk_sz pkt < SIZEOF_SHORT \<or> magic \<noteq> ZCM_MAGIC_SHORT \<and> magic \<noteq> ZCM_MAGIC_LONG")
    case True
    have "read_safe (discard ?u) (readMessage_loop es (discard ?u))"
    proof (cases "pk_sz pkt < SIZEOF_SHORT")
      case True
      with 3(1)[OF p(1) refl] es p(2) show ?thesis by simp
    next
      case False
      with True 3(3)[OF p(1) refl] magic es p(2) show ?thesis by auto
    qed
    with bad True p(1) magic show ?thesis by (auto simp: Let_def)
  next
    case False
    then have m: "\<not> pk_sz pkt < SIZEOF_SHORT" "magic = ZCM_MAGIC_SHORT \<or> magic = ZCM_MAGIC_LONG" by auto
    let ?r = "if magic = ZCM_MAGIC_SHORT then recvShort pkt ?u else recvFragment pkt now ?u"
    have "recv_safe ?u ?r" using recvShort_safe[OF pkt] magic recvFragment_safe[OF pkt(1)] p(2) by simp
    then obtain msg u' where r: "?r = Some (msg, u')" "complete msg" "pl_ok (ud_pool u')" "same_max p (ud_pool u')"
      by (auto simp: recv_safe_def)
    have sm: "same_max (ud_pool u) (ud_pool u')" using p(3) r(4) by (rule same_max_trans)
    have eq: "readMessage_loop (Got pkt now # es) u = (case msg of Some m \<Rightarrow> Some (Some m, es, u') | None \<Rightarrow> readMessage_loop es u')"
      using p(1) m magic r(1) by (auto simp: Let_def)
    show ?thesis
    proof (cases msg)
      case None
      with 3(2)[OF p(1) refl m(1) magic m(2) r(1) refl] es r(3) have "read_safe u' (readMessage_loop es u')" by simp
      with None sm eq show ?thesis by (auto intro: read_safe_trans)
    next
      case (Some m)
      with eq r sm show ?thesis by (simp add: read_safe_def)
    qed
  qed
qed

section \<open>Reachable states\<close>

text \<open>
  The states of the transport after any sequence of \<^verbatim>\<open>sendmsg\<close> and \<^verbatim>\<open>recvmsg\<close> calls, whatever the socket delivers.
\<close>

inductive udp_reach :: "UDP \<Rightarrow> bool" where
  init: "udp_reach udp_new"
| recv: "udp_reach u \<Longrightarrow> list_all event_ok es \<Longrightarrow> udp_recvmsg now es u = Some (rc, m, es', u') \<Longrightarrow> udp_reach u'"
| send: "udp_reach u \<Longrightarrow> udp_sendmsg sk msg u (w :: u8 list list) = (rc, u', w') \<Longrightarrow> udp_reach u'"

lemma readMessage_safe:
  assumes "list_all event_ok es" "pl_ok (ud_pool u)"
  shows "read_safe u (readMessage now es u)"
proof -
  from expireFragBufs_ok[OF assms(2)] obtain p where p: "expireFragBufs now (ud_pool u) = Some p" "pl_ok p" "same_max (ud_pool u) p" by blast
  then show ?thesis using readMessage_loop_safe[OF assms(1), of "u\<lparr>ud_pool := p\<rparr>"] read_safe_trans[of u "u\<lparr>ud_pool := p\<rparr>"]
    by (simp add: readMessage_def)
qed

lemma udp_sendmsg_pool: "udp_sendmsg sk msg u w = (rc, u', w') \<Longrightarrow> ud_pool u' = ud_pool u"
  by (auto simp: udp_sendmsg_def Let_def split: if_splits prod.splits)

lemma udp_reach_ok:
  assumes "udp_reach u"
  shows "pl_ok (ud_pool u) \<and> same_max (messagepool_new MAX_FRAG_BUF_TOTAL_SIZE MAX_NUM_FRAG_BUFS) (ud_pool u)"
  using assms
proof (induction rule: udp_reach.induct)
  case init
  then show ?case
    by (simp add: udp_new_def messagepool_new_def pl_ok_def acc_ok_def bufs_ok_def same_max_def MAX_NUM_FRAG_BUFS_def)
next
  case (recv u es now rc m es' u')
  with readMessage_safe[OF recv(2), of u now] show ?case
    by (auto simp: udp_recvmsg_def read_safe_def intro: same_max_trans)
next
  case (send u sk msg w rc u' w')
  then show ?case by (simp add: udp_sendmsg_pool[OF send(2)])
qed

text \<open>
  C4. Whatever packets arrive, as long as the channel of each short packet ends inside of the packet: \<^verbatim>\<open>recvmsg\<close> accesses no
  buffer outside of its bounds and returns \<^verbatim>\<open>ZCM_EOK\<close> with a message all of whose data and channel bytes were
  received and whose channel is terminated by a zero byte, or \<^verbatim>\<open>ZCM_EAGAIN\<close> after it has read every packet. The
  accounting of the fragment buffers is exact, there are never more than \<^verbatim>\<open>MAX_NUM_FRAG_BUFS\<close> of them, and their total
  size is above \<^verbatim>\<open>MAX_FRAG_BUF_TOTAL_SIZE\<close> only when there is just one.
\<close>

theorem udp_recv_safe:
  assumes "udp_reach u" "list_all event_ok es"
  shows "pl_totalSize (ud_pool u) = sum_list (map fb_allocated_size (pl_fragbufs (ud_pool u)))
    \<and> length (pl_fragbufs (ud_pool u)) \<le> MAX_NUM_FRAG_BUFS
    \<and> (pl_totalSize (ud_pool u) \<le> MAX_FRAG_BUF_TOTAL_SIZE \<or> length (pl_fragbufs (ud_pool u)) = 1)
    \<and> ((\<exists>m es' u'. udp_recvmsg now es u = Some (ZCM_EOK, Some m, es', u') \<and> message_data m \<noteq> None \<and> message_channel m \<noteq> None)
        \<or> (\<exists>u'. udp_recvmsg now es u = Some (ZCM_EAGAIN, None, [], u')))"
proof -
  have ok: "pl_ok (ud_pool u)" "same_max (messagepool_new MAX_FRAG_BUF_TOTAL_SIZE MAX_NUM_FRAG_BUFS) (ud_pool u)"
    using udp_reach_ok[OF assms(1)] by auto
  from readMessage_safe[OF assms(2) ok(1), of now] obtain m es' u' where
    r: "readMessage now es u = Some (m, es', u')" "complete m" "m = None \<longrightarrow> es' = []" by (auto simp: read_safe_def)
  then have "(\<exists>m es' u'. udp_recvmsg now es u = Some (ZCM_EOK, Some m, es', u') \<and> message_data m \<noteq> None \<and> message_channel m \<noteq> None)
      \<or> (\<exists>u'. udp_recvmsg now es u = Some (ZCM_EAGAIN, None, [], u'))"
    by (cases m) (auto simp: udp_recvmsg_def complete_def)
  with ok show ?thesis by (auto simp: pl_ok_def acc_ok_def same_max_def messagepool_new_def le_Suc_eq)
qed

text \<open>A fragment of a message of two fragments, of which only the second has arrived.\<close>

theorem udp_recv_safe_witness:
  defines "pkt \<equiv> \<lparr>pk_utime = 5, pk_sz = 22, pk_from = \<lparr>sin_addr = 1, sin_port = 2, sin_family = 2\<rparr>,
    pk_buf = header_long \<lparr>lh_msg_seqno = 0, lh_msg_size = 3, lh_fragment_offset = 1, lh_fragment_no = 1, lh_fragments_in_msg = 2\<rparr> @ [7, 8, 9]\<rparr>"
  shows "udp_reach udp_new \<and> list_all event_ok [Got pkt 0]
    \<and> ((\<exists>m es' u'. udp_recvmsg 0 [Got pkt 0] udp_new = Some (ZCM_EOK, Some m, es', u') \<and> message_data m \<noteq> None \<and> message_channel m \<noteq> None)
        \<or> (\<exists>u'. udp_recvmsg 0 [Got pkt 0] udp_new = Some (ZCM_EAGAIN, None, [], u')))"
proof -
  have "list_all event_ok [Got pkt 0]" unfolding pkt_def by code_simp
  with udp_recv_safe[OF udp_reach.init this, of 0] udp_reach.init show ?thesis by blast
qed

end
