(* ===== verification/Udp_Roundtrip.thy ===== *)
theory Udp_Roundtrip
  imports Udp_Safe
begin

text \<open>
  What \<^verbatim>\<open>sendmsg\<close> sends is what \<^verbatim>\<open>recvmsg\<close> of the other side returns: a short message in one packet, a long one in
  fragments that may arrive in any order and more than once. A message of which the channel and the data together
  are larger than the MTU is sent but never received.
\<close>

section \<open>Headers\<close>

lemma length_header [simp]: "length (header_long h) = SIZEOF_LONG" "length (header_short s) = SIZEOF_SHORT"
  by (simp_all add: header_long_def header_short_def SIZEOF_LONG_def SIZEOF_SHORT_def)

lemma drop_skip: "length xs = k \<Longrightarrow> drop k (xs @ ys) = ys"
  by simp

lemma asHeaderLong_header [simp]: "asHeaderLong (header_long h @ r) = Some h"
proof -
  let ?h = "header_long h @ r"
  have d: "drop 4 ?h = bytes32 (lh_msg_seqno h) @ drop 8 ?h" "drop 8 ?h = bytes32 (lh_msg_size h) @ drop 12 ?h"
    "drop 12 ?h = bytes32 (lh_fragment_offset h) @ drop 16 ?h" "drop 16 ?h = bytes16 (lh_fragment_no h) @ drop 18 ?h"
    "drop 18 ?h = bytes16 (lh_fragments_in_msg h) @ r"
    by (simp_all add: header_long_def bytes32_def bytes16_def)
  show ?thesis unfolding asHeaderLong_def by (simp only: d get32_bytes get16_bytes bind.bind_lunit) simp
qed

lemma get32_header [simp]: "get32 (header_long h @ r) = Some ZCM_MAGIC_LONG" "get32 (header_short s @ r) = Some ZCM_MAGIC_SHORT"
  by (simp_all add: header_long_def header_short_def)

lemma strlen_cstring: "0 \<notin> set c \<Longrightarrow> strlen (c @ 0 # r) = Some (length c)"
  by (induction c) auto

section \<open>Reassembly\<close>

text \<open>A plan to cut \<open>data\<close> into \<open>n\<close> fragments, the \<open>i\<close>-th of which starts at \<open>off i\<close>.\<close>

locale frag_plan =
  fixes chan data :: "u8 list" and n :: nat and off :: "nat \<Rightarrow> nat"
  assumes n_pos: "0 < n" and off_0: "off 0 = 0" and off_n: "off n = length data"
    and off_mono: "i < n \<Longrightarrow> off i \<le> off (Suc i)"
    and off_less: "0 < i \<Longrightarrow> i < n \<Longrightarrow> off i < off (Suc i)"
    and size: "length data \<le> UDP_MTU" and chan_fits: "length chan < payload_offset (length data)" and chan_nz: "0 \<notin> set chan"
begin

definition piece :: "nat \<Rightarrow> u8 list" where
  "piece i = take (off (Suc i) - off i) (drop (off i) data)"

definition chan_part :: "nat \<Rightarrow> u8 list" where
  "chan_part i = (if i = 0 then chan @ [0] else [])"

definition chan_sz :: "nat \<Rightarrow> nat" where
  "chan_sz i = (if i = 0 then length chan else 0)"

lemma off_le: "i \<le> n \<Longrightarrow> off i \<le> length data"
proof -
  have "off (n - k) \<le> length data" if "k \<le> n" for k
    using that
  proof (induction k)
    case (Suc k)
    then have "Suc (n - Suc k) = n - k" by simp
    with off_mono[of "n - Suc k"] Suc show ?case by simp
  qed (simp add: off_n)
  from this[of "n - i"] show "i \<le> n \<Longrightarrow> off i \<le> length data" by simp
qed

lemma length_piece: "i < n \<Longrightarrow> length (piece i) = off (Suc i) - off i"
  using off_le[of "Suc i"] off_mono[of i] by (simp add: piece_def)

lemma piece_nth: "i < n \<Longrightarrow> k < off (Suc i) - off i \<Longrightarrow> piece i ! k = data ! (off i + k)"
  using off_le[of "Suc i"] by (simp add: piece_def)

lemma checked_piece: "i < n \<Longrightarrow> checked (length data) n i (off i) (chan_part i) (piece i) (chan_sz i)"
  using off_le[of "Suc i"] off_mono[of i] size chan_fits off_0 off_n
  by (auto simp: checked_def length_piece chan_part_def chan_sz_def)

text \<open>The state of a buffer that has received the fragments \<open>S\<close>.\<close>

definition holds :: "nat set \<Rightarrow> FragBuf \<Rightarrow> bool" where
  "holds S f \<longleftrightarrow> fb_ok f \<and> fb_data_size f = length data \<and> length (fb_fragments f) = n \<and> S \<subseteq> {..<n}
     \<and> (\<forall>i < n. fr_received (fb_fragments f ! i) = (i \<in> S))
     \<and> (\<forall>i \<in> S. fr_offset (fb_fragments f ! i) = off i \<and> fr_size (fb_fragments f ! i) = off (Suc i) - off i)
     \<and> (\<forall>i \<in> S. \<forall>k < off (Suc i) - off i. fb_buf f ! (payload_offset (length data) + off i + k) = Some (piece i ! k))
     \<and> (0 \<in> S \<longrightarrow> fb_channellen f = length chan \<and> take (length chan + 1) (fb_buf f) = map Some (chan @ [0]))"

lemma fresh_holds: "holds {} (fresh now seqno (length data) n src)"
  using fresh_ok[OF size n_pos] by (simp add: holds_def) (simp add: fresh_def)

lemma holds_length: "holds S f \<Longrightarrow> length (fb_buf f) = payload_offset (length data) + length data"
  by (simp add: holds_def fb_ok_def)

text \<open>A duplicate changes nothing.\<close>

lemma store_dup:
  assumes h: "holds S f" and i: "i \<in> S"
  shows "frag_store f i (off i) (chan_part i) (piece i) (chan_sz i) utime now = Some Ignore"
proof -
  let ?po = "payload_offset (length data)"
  have n: "i < n" using assms by (auto simp: holds_def)
  have "?po + off i + length (piece i) \<le> length (fb_buf f)" using off_le[of "Suc i"] off_mono[of i] n by (simp add: holds_length[OF h] length_piece)
  moreover have "take (length (piece i)) (drop (?po + off i) (fb_buf f)) = map Some (piece i)"
    using calculation h i n by (intro nth_equalityI) (auto simp: holds_def length_piece)
  moreover have "length chan + 1 \<le> length (fb_buf f)" using chan_fits by (simp add: holds_length[OF h])
  ultimately show ?thesis using h i n
    by (cases "i = 0") (auto simp: frag_store_def frag_duplicate_def holds_def mem_slice_def chan_part_def chan_sz_def length_piece Let_def)
qed

lemma off_mono_le: "a \<le> b \<Longrightarrow> b \<le> n \<Longrightarrow> off a \<le> off b"
proof (induction rule: dec_induct)
  case (step b)
  with off_mono[of b] show ?case by simp
qed simp

lemma pieces_disjoint:
  assumes "i < n" "j < n" "i \<noteq> j" "k < off (Suc j) - off j"
  shows "off j + k < off i \<or> off i + length (piece i) \<le> off j + k"
proof (cases "j < i")
  case True
  with off_mono_le[of "Suc j" i] assms(1,4) show ?thesis by (intro disjI1) linarith
next
  case False
  with off_mono_le[of "Suc i" j] off_mono[of i] assms show ?thesis by (simp add: length_piece)
qed

text \<open>A new fragment is stored.\<close>

lemma stored_holds:
  assumes h: "holds S f" and i: "i < n" "i \<notin> S"
    and b0: "if i = 0 then mem_blit (fb_buf f) 0 (map Some (chan_part i)) = Some buf0 else buf0 = fb_buf f"
    and b: "mem_blit buf0 (payload_offset (length data) + off i) (map Some (piece i)) = Some buf"
    and ok: "fb_ok (stored f i (off i) (length (piece i)) buf (chan_sz i) utime now)"
  shows "holds (insert i S) (stored f i (off i) (length (piece i)) buf (chan_sz i) utime now)" (is "holds _ ?g")
proof -
  let ?po = "payload_offset (length data)"
  have g: "fb_buf ?g = buf" "fb_data_size ?g = length data" "fb_channellen ?g = (if i = 0 then length chan else fb_channellen f)"
    "fb_fragments ?g ! j = (if j = i then \<lparr>fr_offset = off i, fr_size = length (piece i), fr_received = True\<rparr> else fb_fragments f ! j)"
    "length (fb_fragments ?g) = n" for j
    using h i(1) by (auto simp: stored_def holds_def chan_sz_def nth_list_update)
  have S: "S \<subseteq> {..<n}" using h by (simp add: holds_def)
  have len0: "length buf0 = ?po + length data"
    using b0 written_blit(1)[of "fb_buf f" 0 "chan_part i" buf0] holds_length[OF h] by (auto split: if_splits)
  have buf0: "buf0 ! k = fb_buf f ! k" if "?po \<le> k" "k < ?po + length data" for k
    using b0 written_blit(4)[of "fb_buf f" 0 "chan_part i" buf0 k] that chan_fits holds_length[OF h]
    by (auto simp: chan_part_def split: if_splits)
  have old: "buf ! (?po + off j + k) = Some (piece j ! k)" if "j \<in> S" "k < off (Suc j) - off j" for j k
  proof -
    have j: "j < n" "j \<noteq> i" using that S i by auto
    have in_range: "off j + k < length data" using off_le[of "Suc j"] j that(2) by simp
    have "buf ! (?po + off j + k) = buf0 ! (?po + off j + k)"
      using pieces_disjoint[OF i(1) j(1) j(2)[symmetric] that(2)] in_range len0 by (intro written_blit(4)[OF b]) auto
    also have "\<dots> = Some (piece j ! k)" using buf0[of "?po + off j + k"] in_range h that by (simp add: holds_def)
    finally show ?thesis .
  qed
  moreover have "buf ! (?po + off i + k) = Some (piece i ! k)" if "k < off (Suc i) - off i" for k
    using written_blit(5)[OF b] that i(1) by (simp add: length_piece)
  moreover have "fb_channellen ?g = length chan \<and> take (length chan + 1) buf = map Some (chan @ [0])" if "0 \<in> insert i S"
  proof -
    have low: "buf ! k = buf0 ! k" if "k < ?po" for k using that len0 by (intro written_blit(4)[OF b]) auto
    have len: "length buf = ?po + length data" using written_blit(1)[OF b] len0 by simp
    have "take (length chan + 1) buf0 = map Some (chan @ [0])"
    proof (cases "i = 0")
      case True
      with b0 show ?thesis by (auto simp: mem_blit_eq_Some chan_part_def)
    next
      case False
      with b0 that h show ?thesis by (simp add: holds_def)
    qed
    moreover have "take (length chan + 1) buf = take (length chan + 1) buf0"
      using low chan_fits len len0 by (intro nth_equalityI) auto
    moreover have "fb_channellen ?g = length chan" using that h by (auto simp: g(3) holds_def)
    ultimately show ?thesis by simp
  qed
  moreover have "fr_received (fb_fragments ?g ! j) = (j \<in> insert i S)" if "j < n" for j using that h by (auto simp: g(4) holds_def)
  moreover have "fr_offset (fb_fragments ?g ! j) = off j \<and> fr_size (fb_fragments ?g ! j) = off (Suc j) - off j" if "j \<in> insert i S" for j
    unfolding g(4) using that h length_piece[OF i(1)] by (auto simp: holds_def)
  moreover have "insert i S \<subseteq> {..<n}" using S i by auto
  ultimately show ?thesis unfolding holds_def g(1,2,5) using ok by auto
qed

lemma store_new:
  assumes h: "holds S f" and i: "i < n" "i \<notin> S"
  shows "\<exists>g. frag_store f i (off i) (chan_part i) (piece i) (chan_sz i) utime now = Some (Store g) \<and> holds (insert i S) g
    \<and> fb_from g = fb_from f \<and> fb_msg_seqno g = fb_msg_seqno f \<and> fb_last_progress g = now \<and> fb_last_packet_utime g = utime"
proof -
  have f: "fb_ok f" and chk: "checked (fb_data_size f) (length (fb_fragments f)) i (off i) (chan_part i) (piece i) (chan_sz i)"
    and nr: "\<not> fr_received (fb_fragments f ! i)"
    using h i checked_piece by (auto simp: holds_def)
  have "\<not> (i > 0 \<and> fr_received (fb_fragments f ! (i - 1)) \<and> fr_end (fb_fragments f ! (i - 1)) \<noteq> off i)"
    using h i off_mono[of "i - 1"] by (cases i) (auto simp: holds_def)
  moreover have "\<not> (i + 1 < n \<and> fr_received (fb_fragments f ! (i + 1)) \<and> off i + length (piece i) \<noteq> fr_offset (fb_fragments f ! (i + 1)))"
    using h i off_mono[of i] by (auto simp: holds_def length_piece)
  ultimately have no: "frag_store f i (off i) (chan_part i) (piece i) (chan_sz i) utime now \<noteq> Some Reject"
      "frag_store f i (off i) (chan_part i) (piece i) (chan_sz i) utime now \<noteq> Some Ignore"
    using nr h by (auto simp: frag_store_def holds_def Let_def bind_eq_Some_conv)
  show ?thesis
  proof (rule frag_store_cases[OF f chk, of utime now])
    fix buf0 buf
    assume s: "frag_store f i (off i) (chan_part i) (piece i) (chan_sz i) utime now = Some (Store (stored f i (off i) (length (piece i)) buf (chan_sz i) utime now))"
      and st: "\<not> fr_received (fb_fragments f ! i)"
        "if i = 0 then mem_blit (fb_buf f) 0 (map Some (chan_part i)) = Some buf0 else buf0 = fb_buf f"
        "mem_blit buf0 (payload_offset (fb_data_size f) + off i) (map Some (piece i)) = Some buf"
        "i > 0 \<Longrightarrow> fr_received (fb_fragments f ! (i - 1)) \<Longrightarrow> fr_end (fb_fragments f ! (i - 1)) = off i"
        "i + 1 < length (fb_fragments f) \<Longrightarrow> fr_received (fb_fragments f ! (i + 1)) \<Longrightarrow> off i + length (piece i) = fr_offset (fb_fragments f ! (i + 1))"
    have "holds (insert i S) (stored f i (off i) (length (piece i)) buf (chan_sz i) utime now)"
      using stored_ok[OF f chk st] st h i by (intro stored_holds) (auto simp: holds_def)
    with s show ?thesis by (simp add: stored_def)
  qed (use no in auto)
qed

lemma holds_complete:
  assumes "holds S f"
  shows "fb_fragments_remaining f = 0 \<longleftrightarrow> S = {..<n}"
proof -
  have "fb_fragments_remaining f = 0 \<longleftrightarrow> (\<forall>i < n. fr_received (fb_fragments f ! i))"
    using assms by (auto simp: holds_def fb_ok_def filter_empty_conv all_set_conv_all_nth)
  also have "\<dots> \<longleftrightarrow> {..<n} \<subseteq> S" using assms by (auto simp: holds_def)
  finally show ?thesis using assms by (auto simp: holds_def)
qed

lemma covered: "k < length data \<Longrightarrow> \<exists>i < n. off i \<le> k \<and> k < off (Suc i)"
proof -
  assume k: "k < length data"
  define j where "j = (LEAST j. k < off j)"
  have "k < off n" using k off_n by simp
  then have j: "k < off j" "j \<le> n" "\<And>i. i < j \<Longrightarrow> \<not> k < off i"
    unfolding j_def by (auto intro: LeastI Least_le dest: not_less_Least)
  then have "0 < j" using off_0 by (cases j) auto
  then show ?thesis using j(1,2) j(3)[of "j - 1"] by (intro exI[of _ "j - 1"]) auto
qed

lemma message_of_holds:
  assumes h: "holds {..<n} f"
  shows "message_data (frag_message f) = Some data" "message_channel (frag_message f) = Some chan"
proof -
  let ?po = "payload_offset (length data)"
  have f: "fb_data_size f = length data" "fb_channellen f = length chan" "take (length chan + 1) (fb_buf f) = map Some (chan @ [0])"
    using h n_pos by (auto simp: holds_def)
  have "fb_buf f ! (?po + k) = Some (data ! k)" if "k < length data" for k
  proof -
    from covered[OF that] obtain i where i: "i < n" "off i \<le> k" "k < off (Suc i)" by blast
    have "\<And>l. l < off (Suc i) - off i \<Longrightarrow> fb_buf f ! (?po + off i + l) = Some (piece i ! l)"
      using h i(1) unfolding holds_def by blast
    from this[of "k - off i"] i(2,3) have "fb_buf f ! (?po + off i + (k - off i)) = Some (piece i ! (k - off i))" by linarith
    with i show ?thesis by (simp add: piece_nth)
  qed
  then have "take (length data) (drop ?po (fb_buf f)) = map Some data"
    using holds_length[OF h] by (intro nth_equalityI) auto
  then show "message_data (frag_message f) = Some data"
    using holds_length[OF h] f(1) by (simp add: message_data_def frag_message_def mem_slice_def image_iff comp_def)
  have "length chan + 1 \<le> length (fb_buf f)" using holds_length[OF h] chan_fits by simp
  then show "message_channel (frag_message f) = Some chan"
    using f by (simp add: message_channel_def frag_message_def mem_slice_def image_iff comp_def)
qed

end

section \<open>Fragments on the wire\<close>

text \<open>An arrival is the number of a fragment, a packet that carries it, and the time at which it arrives.\<close>

type_synonym arrival = "nat \<times> Packet \<times> nat"

definition arrive :: "arrival \<Rightarrow> sock_event" where
  "arrive x = Got (fst (snd x)) (snd (snd x))"

lemma memchr0_cstring: "0 \<notin> set c \<Longrightarrow> length c < m \<Longrightarrow> memchr0 (c @ 0 # r) m = Some (length c)"
  using strlen_cstring[of c "take (m - length c - 1) r"] by (simp add: memchr0_def take_Cons' )

locale frag_wire = frag_plan +
  fixes seqno :: u32 and src :: sockaddr_in
  assumes n_small: "n < 2 ^ 16"
begin

definition frag_header :: "nat \<Rightarrow> MsgHeaderLong" where
  "frag_header i = \<lparr>lh_msg_seqno = seqno, lh_msg_size = of_nat (length data), lh_fragment_offset = of_nat (off i),
     lh_fragment_no = of_nat i, lh_fragments_in_msg = of_nat n\<rparr>"

definition frag_packet :: "nat \<Rightarrow> u8 list" where
  "frag_packet i = header_long (frag_header i) @ chan_part i @ piece i"

text \<open>The packet is the fragment; the rest of the receive buffer is garbage.\<close>

definition carries :: "nat \<Rightarrow> Packet \<Rightarrow> bool" where
  "carries i pkt \<longleftrightarrow> (\<exists>garbage. pk_buf pkt = frag_packet i @ garbage) \<and> pk_sz pkt = length (frag_packet i) \<and> pk_from pkt = src"

lemma header_values:
  assumes "i < n"
  shows "unat (lh_msg_size (frag_header i)) = length data" "unat (lh_fragment_offset (frag_header i)) = off i"
    "unat (lh_fragment_no (frag_header i)) = i" "unat (lh_fragments_in_msg (frag_header i)) = n" "lh_msg_seqno (frag_header i) = seqno"
  using assms n_small size off_le[of i] by (simp_all add: frag_header_def UDP_MTU_def unat_of_nat take_bit_nat_eq_self)

lemma carries_parsed:
  assumes i: "i < n" and pkt: "carries i pkt"
  shows "parsed pkt (frag_header i) (chan_part i) (piece i) (chan_sz i)"
proof -
  from pkt obtain g where g: "pk_buf pkt = header_long (frag_header i) @ chan_part i @ piece i @ g"
    and sz: "pk_sz pkt = SIZEOF_LONG + length (chan_part i) + length (piece i)"
    by (auto simp: carries_def frag_packet_def)
  have no: "lh_fragment_no (frag_header i) = 0 \<longleftrightarrow> i = 0" using header_values(3)[OF i] by (metis unat_eq_0)
  have "memchr0 (chan @ 0 # piece 0 @ g) (min (length chan + 1 + length (piece 0)) (payload_offset (length data))) = Some (length chan)"
    using chan_nz chan_fits by (intro memchr0_cstring) auto
  moreover have "off i + length (piece i) \<le> length data" "Suc i = n \<longrightarrow> off i + length (piece i) = length data" "i \<noteq> 0 \<longrightarrow> 0 < length (piece i)"
    using off_le[of "Suc i"] off_mono[of i] off_less[of i] i off_n by (auto simp: length_piece)
  ultimately have "frag_check pkt (frag_header i) = Some (chan_sz i, SIZEOF_LONG + length (chan_part i), length (piece i))"
    using i size off_0 g sz by (cases "i = 0") (auto simp: frag_check_def header_values chan_part_def chan_sz_def Let_def)
  with g sz no show ?thesis
    by (auto simp: parsed_def mem_slice_def chan_part_def chan_sz_def)
qed

text \<open>The pool holds one buffer, of this message, with the fragments \<open>S\<close>; it made progress at \<open>t\<close> or later.\<close>

definition assembling :: "nat \<Rightarrow> nat set \<Rightarrow> UDP \<Rightarrow> bool" where
  "assembling t S u \<longleftrightarrow> S \<noteq> {..<n} \<and>
     (if S = {} then pl_fragbufs (ud_pool u) = []
      else \<exists>f. pl_fragbufs (ud_pool u) = [f] \<and> holds S f \<and> fb_from f = src \<and> fb_msg_seqno f = seqno \<and> t \<le> fb_last_progress f)"

definition delivered :: "int \<Rightarrow> Message \<Rightarrow> bool" where
  "delivered utime m \<longleftrightarrow> message_channel m = Some chan \<and> message_data m = Some data \<and> dm_utime m = utime"

lemma removeFragBuf_single: "pl_fragbufs p = [f] \<Longrightarrow> \<exists>p'. removeFragBuf 0 p = Some p' \<and> pl_fragbufs p' = []"
  by (simp add: removeFragBuf_def remove_swap_def Let_def)

lemma finish_new:
  assumes "pl_fragbufs p = [f]" "holds S f" "i < n" "i \<notin> S" "fb_from f = src" "fb_msg_seqno f = seqno" "t \<le> now" "carries i pkt"
  shows "if insert i S = {..<n} then \<exists>m u'. store_in pkt (frag_header i) (chan_part i) (piece i) (chan_sz i) now 0 p u = Some (Some m, u')
      \<and> delivered (pk_utime pkt) m \<and> pl_fragbufs (ud_pool u') = []
    else \<exists>u'. store_in pkt (frag_header i) (chan_part i) (piece i) (chan_sz i) now 0 p u = Some (None, u') \<and> assembling t (insert i S) u'"
proof -
  from store_new[OF assms(2-4), of "pk_utime pkt" now] obtain g where
    g: "frag_store f i (off i) (chan_part i) (piece i) (chan_sz i) (pk_utime pkt) now = Some (Store g)" "holds (insert i S) g"
      "fb_from g = src" "fb_msg_seqno g = seqno" "fb_last_progress g = now" "fb_last_packet_utime g = pk_utime pkt"
    using assms(5,6) by auto
  let ?p = "p\<lparr>pl_fragbufs := [g]\<rparr>"
  have eq: "store_in pkt (frag_header i) (chan_part i) (piece i) (chan_sz i) now 0 p u
      = (if fb_fragments_remaining g > 0 then Some (None, u\<lparr>ud_pool := ?p\<rparr>)
         else Option.bind (removeFragBuf 0 ?p) (\<lambda>p. Some (Some (frag_message g), u\<lparr>ud_pool := p\<rparr>)))"
    using g(1) assms(1,3) by (simp add: header_values frag_finish_def Let_def)
  show ?thesis
  proof (cases "insert i S = {..<n}")
    case True
    then have "fb_fragments_remaining g = 0" "delivered (pk_utime pkt) (frag_message g)"
      using holds_complete[OF g(2)] message_of_holds[of g] g(2,6) by (auto simp: delivered_def frag_message_def)
    with True eq removeFragBuf_single[of ?p g] show ?thesis by auto
  next
    case False
    then have "fb_fragments_remaining g > 0" using holds_complete[OF g(2)] by simp
    with False eq g assms(7) show ?thesis by (auto simp: assembling_def)
  qed
qed

lemma recvFragment_carries:
  assumes u: "assembling t S u" and i: "i < n" and t: "t \<le> now" and pkt: "carries i pkt"
  shows "if insert i S = {..<n} then \<exists>m u'. recvFragment pkt now u = Some (Some m, u') \<and> delivered (pk_utime pkt) m \<and> pl_fragbufs (ud_pool u') = []
    else \<exists>u'. recvFragment pkt now u = Some (None, u') \<and> assembling t (insert i S) u'"
proof -
  note prs = carries_parsed[OF i pkt]
  have src: "pk_from pkt = src" using pkt by (simp add: carries_def)
  show ?thesis
  proof (cases "S = {}")
    case True
    then have e: "pl_fragbufs (ud_pool u) = []" using u by (simp add: assembling_def)
    then have l: "lookupFragBuf (pk_from pkt) (lh_msg_seqno (frag_header i)) (ud_pool u) = None" by (simp add: lookupFragBuf_def)
    let ?p1 = "addFragBuf now (payload_offset (length data) + length data) n (ud_pool u)"
    have p1: "length (pl_fragbufs ?p1) = 1" using e by (subst addFragBuf_def, subst evict_loop.simps) (simp add: Let_def)
    define p2 where "p2 = ?p1\<lparr>pl_fragbufs := (pl_fragbufs ?p1)[0 := (pl_fragbufs ?p1 ! 0)
      \<lparr>fb_msg_seqno := seqno, fb_data_size := length data, fb_fragments_remaining := n, fb_from := src\<rparr>]\<rparr>"
    have p2: "pl_fragbufs p2 = [fresh now seqno (length data) n src]"
      unfolding p2_def using e by (subst addFragBuf_def, subst addFragBuf_def, subst evict_loop.simps) (simp add: Let_def fresh_def)
    have "recvFragment pkt now u = store_in pkt (frag_header i) (chan_part i) (piece i) (chan_sz i) now 0 p2 u"
      unfolding recvFragment_new[OF prs l] header_values[OF i] src p1 p2_def by simp
    moreover have "fb_from (fresh now seqno (length data) n src) = src" "fb_msg_seqno (fresh now seqno (length data) n src) = seqno"
      by (simp_all add: fresh_def)
    ultimately show ?thesis using finish_new[OF p2 fresh_holds i _ _ _ t pkt, of u] True by simp
  next
    case False
    with u obtain f where f: "pl_fragbufs (ud_pool u) = [f]" "holds S f" "fb_from f = src" "fb_msg_seqno f = seqno" "t \<le> fb_last_progress f"
      by (auto simp: assembling_def)
    have l: "lookupFragBuf (pk_from pkt) (lh_msg_seqno (frag_header i)) (ud_pool u) = Some 0"
      using f i by (simp add: lookupFragBuf_def src sockaddrEqual_def header_values)
    have eq: "recvFragment pkt now u = store_in pkt (frag_header i) (chan_part i) (piece i) (chan_sz i) now 0 (ud_pool u) u"
      unfolding recvFragment_found[OF prs l] using f i by (simp add: header_values holds_def)
    show ?thesis
    proof (cases "i \<in> S")
      case True
      then have S: "insert i S = S" by auto
      have "recvFragment pkt now u = Some (None, u)"
        unfolding eq using store_dup[OF f(2) True] f(1) i by (simp add: header_values frag_finish_def)
      with u show ?thesis unfolding S by (simp add: assembling_def)
    next
      case new: False
      from finish_new[OF f(1,2) i new f(3,4) t pkt, of u] show ?thesis unfolding eq .
    qed
  qed
qed

text \<open>Within five seconds nothing expires.\<close>

lemma assembling_expire:
  assumes "assembling t S u" "now < t + 5 * 10 ^ 6"
  shows "expireFragBufs now (ud_pool u) = Some (ud_pool u)"
  using assms by (auto simp: assembling_def expireFragBufs_def split: if_splits)

lemma loop_carries:
  assumes "assembling t S u" "i < n" "carries i pkt" "t \<le> now" "now < t + 5 * 10 ^ 6"
  shows "if insert i S = {..<n} then \<exists>m u'. readMessage_loop (Got pkt now # es) u = Some (Some m, es, u')
      \<and> delivered (pk_utime pkt) m \<and> pl_fragbufs (ud_pool u') = []
    else \<exists>u'. readMessage_loop (Got pkt now # es) u = readMessage_loop es u' \<and> assembling t (insert i S) u'"
proof -
  from assms(3) obtain g where g: "pk_buf pkt = header_long (frag_header i) @ g" "SIZEOF_LONG \<le> pk_sz pkt"
    by (auto simp: carries_def frag_packet_def)
  have "get32 (pk_buf pkt) = Some ZCM_MAGIC_LONG" "\<not> pk_sz pkt < SIZEOF_SHORT" "ZCM_MAGIC_LONG \<noteq> ZCM_MAGIC_SHORT"
    using g by (auto simp: SIZEOF_LONG_def SIZEOF_SHORT_def ZCM_MAGIC_LONG_def ZCM_MAGIC_SHORT_def)
  then have eq: "readMessage_loop (Got pkt now # es) u = Option.bind (recvFragment pkt now u)
      (\<lambda>(msg, u). case msg of Some m \<Rightarrow> Some (Some m, es, u) | None \<Rightarrow> readMessage_loop es u)"
    by (simp add: assembling_expire[OF assms(1,5)])
  from recvFragment_carries[OF assms(1,2,4,3)] show ?thesis unfolding eq by (auto split: if_splits)
qed

definition in_time :: "nat \<Rightarrow> arrival \<Rightarrow> bool" where
  "in_time t x \<longleftrightarrow> fst x < n \<and> carries (fst x) (fst (snd x)) \<and> t \<le> snd (snd x) \<and> snd (snd x) < t + 5 * 10 ^ 6"

lemma reassembly:
  assumes "assembling t S u" "list_all (in_time t) (xs @ [x])"
    "S \<union> fst ` set xs \<noteq> {..<n}" "S \<union> fst ` set (xs @ [x]) = {..<n}"
  shows "\<exists>m u'. readMessage_loop (map arrive (xs @ [x]) @ es) u = Some (Some m, es, u')
    \<and> delivered (pk_utime (fst (snd x))) m \<and> pl_fragbufs (ud_pool u') = []"
  using assms
proof (induction xs arbitrary: S u)
  case Nil
  then have x: "fst x < n" "carries (fst x) (fst (snd x))" "t \<le> snd (snd x)" "snd (snd x) < t + 5 * 10 ^ 6"
    by (simp_all add: in_time_def)
  from loop_carries[OF Nil.prems(1) x, of es] Nil.prems(4) show ?case by (simp add: arrive_def)
next
  case (Cons y ys)
  then have y: "fst y < n" "carries (fst y) (fst (snd y))" "t \<le> snd (snd y)" "snd (snd y) < t + 5 * 10 ^ 6"
    by (simp_all add: in_time_def)
  have "S \<union> fst ` set (y # ys) \<subseteq> {..<n}" using Cons.prems(4) by auto
  then have "insert (fst y) S \<noteq> {..<n}" using Cons.prems(3) by auto
  with loop_carries[OF Cons.prems(1) y, of "map arrive (ys @ [x]) @ es"] obtain u' where
    u': "readMessage_loop (map arrive ((y # ys) @ [x]) @ es) u = readMessage_loop (map arrive (ys @ [x]) @ es) u'"
      "assembling t (insert (fst y) S) u'" by (auto simp: arrive_def)
  have "\<exists>m u''. readMessage_loop (map arrive (ys @ [x]) @ es) u' = Some (Some m, es, u'')
    \<and> delivered (pk_utime (fst (snd x))) m \<and> pl_fragbufs (ud_pool u'') = []"
    using Cons.prems(2-4) by (intro Cons.IH[OF u'(2)]) auto
  then show ?case unfolding u'(1) .
qed

end

section \<open>What \<^verbatim>\<open>sendmsg\<close> sends\<close>

text \<open>A socket that takes every packet, and records it.\<close>

definition record_send :: "u8 list \<Rightarrow> u8 list list \<Rightarrow> int \<times> u8 list list" where
  "record_send p w = (int (length p), w @ [p])"

definition send_count :: "zcm_msg_t \<Rightarrow> nat" where
  "send_count msg = (let s = length (msg_channel msg) + 1 + msg_len msg
     in s div ZCM_FRAGMENT_MAX_PAYLOAD + (if s mod ZCM_FRAGMENT_MAX_PAYLOAD = 0 then 0 else 1))"

definition send_off :: "zcm_msg_t \<Rightarrow> nat \<Rightarrow> nat" where
  "send_off msg i = min (i * ZCM_FRAGMENT_MAX_PAYLOAD - (length (msg_channel msg) + 1)) (msg_len msg)"

text \<open>A message that is cut into fragments, which the receiver accepts.\<close>

definition long_ok :: "zcm_msg_t \<Rightarrow> bool" where
  "long_ok msg \<longleftrightarrow> 0 \<notin> set (msg_channel msg) \<and> length (msg_channel msg) \<le> ZCM_CHANNEL_MAXLEN
     \<and> length (msg_channel msg) + 1 + msg_len msg \<le> UDP_MTU \<and> ZCM_SHORT_MESSAGE_MAX_SIZE < length (msg_channel msg) + 1 + msg_len msg"

lemma ceil_div:
  fixes s d :: nat
  assumes "0 < d" "0 < s"
  defines "n \<equiv> s div d + (if s mod d = 0 then 0 else 1)"
  shows "s \<le> n * d" "(n - 1) * d < s" "0 < n"
proof -
  have s: "s = s div d * d + s mod d" by simp
  have m: "s mod d < d" using assms(1) by simp
  have "n * d = s div d * d + (if s mod d = 0 then 0 else d)" by (simp add: n_def algebra_simps)
  moreover have "s mod d \<le> (if s mod d = 0 then 0 else d)" using m by simp
  ultimately show "s \<le> n * d" using s by linarith
  show "0 < n" using s assms by (cases "s div d") (auto simp: n_def)
  show "(n - 1) * d < s"
  proof (cases "s mod d = 0")
    case True
    then have "s = n * d" by (auto simp: n_def)
    with assms(1,2) show ?thesis by (cases n) auto
  next
    case False
    then have "(n - 1) * d = s div d * d" "0 < s mod d" by (simp_all add: n_def)
    with s show ?thesis by linarith
  qed
qed

lemma send_plan:
  assumes "long_ok msg"
  shows "frag_wire (msg_channel msg) (msg_buf msg) (send_count msg) (send_off msg)"
proof -
  let ?F = ZCM_FRAGMENT_MAX_PAYLOAD and ?c = "length (msg_channel msg) + 1" and ?n = "send_count msg" and ?s = "length (msg_channel msg) + 1 + msg_len msg"
  have F: "?c < ?F" "0 < ?F" using assms by (auto simp: long_ok_def ZCM_FRAGMENT_MAX_PAYLOAD_def ZCM_CHANNEL_MAXLEN_def)
  have n: "?s \<le> ?n * ?F" "(?n - 1) * ?F < ?s" "0 < ?n" using ceil_div[of ?F ?s] F by (simp_all add: send_count_def Let_def)
  have below: "i * ?F < ?s" if "i < ?n" for i
  proof -
    have "i * ?F \<le> (?n - 1) * ?F" using that by (intro mult_right_mono) auto
    with n(2) show ?thesis by linarith
  qed
  show ?thesis
  proof
    show "send_off msg ?n = msg_len msg" using n(1) by (simp add: send_off_def)
    show "send_off msg i \<le> send_off msg (Suc i)" for i by (simp add: send_off_def)
    show "send_off msg i < send_off msg (Suc i)" if "0 < i" "i < ?n" for i
    proof -
      have "?F \<le> i * ?F" using that by simp
      then have "?c < i * ?F" using F(1) by linarith
      with below[OF that(2)] F(2) show ?thesis unfolding send_off_def by (simp add: less_diff_conv2)
    qed
    show "?n < 2 ^ 16"
    proof (rule ccontr)
      assume "\<not> ?n < 2 ^ 16"
      then have "(2 ^ 16 - 1) * ?F \<le> (?n - 1) * ?F" by (intro mult_right_mono) auto
      with n(2) assms show False by (simp add: long_ok_def ZCM_FRAGMENT_MAX_PAYLOAD_def UDP_MTU_def)
    qed
  qed (use assms n in \<open>auto simp: long_ok_def send_off_def payload_offset_def\<close>)
qed

text \<open>The messages that are cut into fragments are a type, on which the plan of the sender is a plan.\<close>

typedef long_msg = "{msg. long_ok msg}"
proof
  show "\<lparr>msg_utime = 0, msg_channel = [65], msg_buf = replicate 65500 0\<rparr> \<in> {msg. long_ok msg}"
    by (simp add: long_ok_def ZCM_CHANNEL_MAXLEN_def UDP_MTU_def ZCM_SHORT_MESSAGE_MAX_SIZE_def)
qed

lemma long_ok_Rep: "long_ok (Rep_long_msg m)"
  using Rep_long_msg[of m] by simp

interpretation lm: frag_wire "msg_channel (Rep_long_msg m)" "msg_buf (Rep_long_msg m)" "send_count (Rep_long_msg m)" "send_off (Rep_long_msg m)" seqno src
  for m seqno src
  by (rule send_plan[OF long_ok_Rep])

lemma send_off_step:
  assumes "long_ok msg" "0 < i"
  shows "send_off msg (Suc i) = send_off msg i + min ZCM_FRAGMENT_MAX_PAYLOAD (msg_len msg - send_off msg i)"
proof -
  let ?F = ZCM_FRAGMENT_MAX_PAYLOAD
  have "length (msg_channel msg) + 1 \<le> ?F" using assms by (auto simp: long_ok_def ZCM_FRAGMENT_MAX_PAYLOAD_def ZCM_CHANNEL_MAXLEN_def)
  moreover have "?F \<le> i * ?F" using assms(2) by simp
  ultimately have "length (msg_channel msg) + 1 \<le> i * ?F" by linarith
  then have "Suc i * ?F - (length (msg_channel msg) + 1) = ?F + (i * ?F - (length (msg_channel msg) + 1))" by simp
  then show ?thesis unfolding send_off_def by linarith
qed

text \<open>The \<open>i\<close>-th packet of the message.\<close>

definition sent_packet :: "zcm_msg_t \<Rightarrow> u32 \<Rightarrow> nat \<Rightarrow> u8 list" where
  "sent_packet msg seqno i =
     header_long \<lparr>lh_msg_seqno = seqno, lh_msg_size = of_nat (msg_len msg), lh_fragment_offset = of_nat (send_off msg i),
       lh_fragment_no = of_nat i, lh_fragments_in_msg = of_nat (send_count msg)\<rparr>
     @ (if i = 0 then msg_channel msg @ [0] else []) @ take (send_off msg (Suc i) - send_off msg i) (drop (send_off msg i) (msg_buf msg))"

lemma frag_packet_sent: "lm.frag_packet m seqno = sent_packet (Rep_long_msg m) seqno"
  by (simp add: fun_eq_iff sent_packet_def lm.frag_packet_def lm.frag_header_def lm.piece_def lm.chan_part_def)

lemma send_loop_packets:
  assumes "long_ok msg" "0 < i" "lh_msg_seqno hdr = seqno" "lh_msg_size hdr = of_nat (msg_len msg)" "lh_fragments_in_msg hdr = of_nat (send_count msg)"
  shows "send_loop record_send (msg_buf msg) hdr k i (send_off msg i) ps ps w = w @ map (sent_packet msg seqno) [i..<i + k]"
  using assms
proof (induction k arbitrary: i hdr ps w)
  case (Suc k)
  let ?pk = "sent_packet msg seqno"
  let ?h = "hdr\<lparr>lh_fragment_offset := of_nat (send_off msg i), lh_fragment_no := of_nat i\<rparr>"
  let ?l = "min ZCM_FRAGMENT_MAX_PAYLOAD (msg_len msg - send_off msg i)"
  have "\<lparr>lh_msg_seqno = seqno, lh_msg_size = of_nat (msg_len msg), lh_fragment_offset = of_nat (send_off msg i),
       lh_fragment_no = of_nat i, lh_fragments_in_msg = of_nat (send_count msg)\<rparr> = ?h"
    using Suc.prems(3-5) by (cases hdr) simp
  then have pk: "?pk i = header_long ?h @ take ?l (drop (send_off msg i) (msg_buf msg))"
    unfolding sent_packet_def send_off_step[OF Suc.prems(1,2)] using Suc.prems(2) by simp
  have len: "int (length (?pk i)) = int (SIZEOF_LONG + ?l)" by (simp add: pk)
  have "send_loop record_send (msg_buf msg) hdr (Suc k) i (send_off msg i) ps ps w
      = send_loop record_send (msg_buf msg) ?h k (Suc i) (send_off msg (Suc i)) (int (SIZEOF_LONG + ?l)) (int (SIZEOF_LONG + ?l)) (w @ [?pk i])"
    using len by (simp add: record_send_def send_off_step[OF Suc.prems(1,2)] Let_def pk[symmetric])
  also have "\<dots> = (w @ [?pk i]) @ map ?pk [Suc i..<Suc i + k]" using Suc.prems by (intro Suc.IH) auto
  also have "\<dots> = w @ map ?pk [i..<i + Suc k]" by (simp add: upt_rec[of i])
  finally show ?case .
qed simp

lemma long_ok_size:
  assumes "long_ok msg"
  shows "to_int (length (msg_channel msg) + 1 + msg_len msg) = int (length (msg_channel msg) + 1 + msg_len msg)" "0 < send_count msg"
    "send_count msg \<le> 65535" "send_off msg 1 = ZCM_FRAGMENT_MAX_PAYLOAD - (length (msg_channel msg) + 1)" "send_off msg 0 = 0"
  using assms lm.n_small[of "Abs_long_msg msg"] lm.n_pos[of "Abs_long_msg msg"]
  by (auto simp: Abs_long_msg_inverse to_int_def long_ok_def UDP_MTU_def send_off_def ZCM_SHORT_MESSAGE_MAX_SIZE_def ZCM_FRAGMENT_MAX_PAYLOAD_def)

lemma sendmsg_packets:
  assumes "long_ok msg"
  shows "udp_sendmsg record_send msg u w = (0, u\<lparr>ud_msg_seqno := ud_msg_seqno u + 1\<rparr>,
    w @ map (sent_packet msg (ud_msg_seqno u)) [0..<send_count msg])"
proof -
  let ?c = "length (msg_channel msg) + 1" and ?n = "send_count msg" and ?pk = "sent_packet msg (ud_msg_seqno u)"
  let ?h = "\<lparr>lh_msg_seqno = ud_msg_seqno u, lh_msg_size = of_nat (msg_len msg), lh_fragment_offset = 0, lh_fragment_no = 0, lh_fragments_in_msg = of_nat ?n\<rparr>"
  let ?d = "ZCM_FRAGMENT_MAX_PAYLOAD - ?c"
  note size = long_ok_size[OF assms]
  have "msg_len msg + ?c > ZCM_SHORT_MESSAGE_MAX_SIZE" "?c \<le> ZCM_FRAGMENT_MAX_PAYLOAD" "?d \<le> msg_len msg" "length (msg_channel msg) \<le> ZCM_CHANNEL_MAXLEN"
    using assms by (auto simp: long_ok_def ZCM_SHORT_MESSAGE_MAX_SIZE_def ZCM_FRAGMENT_MAX_PAYLOAD_def ZCM_CHANNEL_MAXLEN_def)
  note c = this
  have pk0: "?pk 0 = header_long ?h @ msg_channel msg @ [0] @ take ?d (msg_buf msg)"
    by (simp add: sent_packet_def size(4,5)[simplified])
  have len: "int (length (?pk 0)) = int (SIZEOF_LONG + ?c + ?d)" using c(3) by (simp add: pk0)
  have "send_loop record_send (msg_buf msg) ?h (?n - 1) 1 ?d ps ps (w @ [?pk 0]) = (w @ [?pk 0]) @ map ?pk [1..<1 + (?n - 1)]" for ps
    using send_loop_packets[OF assms, of 1 ?h "ud_msg_seqno u" "?n - 1" ps "w @ [?pk 0]"] size(4) by simp
  moreover have "[0..<?n] = 0 # [1..<1 + (?n - 1)]" using size(2) by (simp add: upt_rec[of 0])
  moreover have "nat (int (?c + msg_len msg)) div ZCM_FRAGMENT_MAX_PAYLOAD + (if nat (int (?c + msg_len msg)) mod ZCM_FRAGMENT_MAX_PAYLOAD = 0 then 0 else 1) = ?n"
    unfolding nat_int send_count_def Let_def by (rule refl)
  ultimately show ?thesis using c size(1,3) len
    by (simp add: udp_sendmsg_def Let_def record_send_def pk0)
qed

section \<open>Properties\<close>

lemma take_prefix: "take k xs = ys \<Longrightarrow> \<exists>zs. xs = ys @ zs"
  by (metis append_take_drop_id)

text \<open>The arrival of one of the packets \<open>ps\<close>, at most five seconds after the time \<open>t\<close>; what follows it in the buffer is arbitrary.\<close>

definition delivers :: "u8 list list \<Rightarrow> sockaddr_in \<Rightarrow> nat \<Rightarrow> arrival \<Rightarrow> bool" where
  "delivers ps src t x \<longleftrightarrow>
     (case x of (i, pkt, now) \<Rightarrow> i < length ps \<and> take (pk_sz pkt) (pk_buf pkt) = ps ! i \<and> pk_sz pkt = length (ps ! i) \<and> pk_from pkt = src
        \<and> t \<le> now \<and> now < t + 5 * 10 ^ 6)"

text \<open>
  C3. A long message is cut into fragments; when each fragment has arrived at least once, in any order, with any number of
  duplicates and within five seconds, \<^verbatim>\<open>recvmsg\<close> of a transport without pending fragments returns \<^verbatim>\<open>ZCM_EOK\<close> and the
  same channel and data, with the time of the packet that completed it, and keeps no fragment buffer.
\<close>

theorem udp_long_roundtrip:
  assumes "long_ok msg" "udp_sendmsg record_send msg u [] = (rc, u', packets)"
    "pl_fragbufs (ud_pool v) = []" "list_all (delivers packets src t) (xs @ [x])"
    "fst ` set xs \<noteq> {..<length packets}" "fst ` set (xs @ [x]) = {..<length packets}"
  shows "rc = 0 \<and> (\<exists>m v'. udp_recvmsg now (map arrive (xs @ [x]) @ es) v = Some (ZCM_EOK, Some m, es, v')
    \<and> message_channel m = Some (msg_channel msg) \<and> message_data m = Some (msg_buf msg) \<and> dm_utime m = pk_utime (fst (snd x))
    \<and> pl_fragbufs (ud_pool v') = [])"
proof -
  obtain m where m: "msg = Rep_long_msg m" using assms(1) by (metis Abs_long_msg_inverse mem_Collect_eq)
  let ?n = "send_count msg" and ?in = "lm.in_time m (ud_msg_seqno u) src t"
  have p: "rc = 0" "packets = map (sent_packet msg (ud_msg_seqno u)) [0..<?n]" using assms(2) sendmsg_packets[OF assms(1), of u "[]"] by auto
  have n: "length packets = ?n" by (simp add: p(2))
  have "?in y" if "delivers packets src t y" for y
    using that by (auto simp: delivers_def lm.in_time_def lm.carries_def frag_packet_sent p(2) m intro: take_prefix)
  with assms(4) have it: "list_all ?in (xs @ [x])" by (auto simp: list_all_iff)
  have e: "expireFragBufs now (ud_pool v) = Some (ud_pool v)" using assms(3) by (simp add: expireFragBufs_def)
  have "{} \<noteq> {..<?n}" using long_ok_size(2)[OF assms(1)] by auto
  then have "lm.assembling m (ud_msg_seqno u) src t {} v" using assms(3) by (simp add: lm.assembling_def m)
  from lm.reassembly[OF this it, of es] assms(5,6) obtain r v' where
    "readMessage_loop (map arrive (xs @ [x]) @ es) v = Some (Some r, es, v')" "pl_fragbufs (ud_pool v') = []"
    "lm.delivered m (pk_utime (fst (snd x))) r" by (auto simp: n m)
  then show ?thesis using p(1) e by (simp add: udp_recvmsg_def readMessage_def lm.delivered_def m)
qed

text \<open>The second of two fragments arrives twice, then the first.\<close>

theorem udp_long_roundtrip_witness:
  defines "msg \<equiv> \<lparr>msg_utime = 0, msg_channel = [65, 66], msg_buf = replicate 70000 7\<rparr>"
    and "src \<equiv> \<lparr>sin_addr = 1, sin_port = 2, sin_family = 2\<rparr>"
  defines "pkt \<equiv> \<lambda>i. \<lparr>pk_utime = 5, pk_sz = length (sent_packet msg 0 i), pk_from = src, pk_buf = sent_packet msg 0 i @ [1, 2, 3]\<rparr>"
  shows "\<exists>m v'. udp_recvmsg 9 [Got (pkt 1) 8, Got (pkt 1) 9, Got (pkt 0) 9] udp_new = Some (ZCM_EOK, Some m, [], v')
    \<and> message_channel m = Some [65, 66] \<and> message_data m = Some (replicate 70000 7)"
proof -
  have long: "long_ok msg" by (simp add: long_ok_def msg_def ZCM_CHANNEL_MAXLEN_def UDP_MTU_def ZCM_SHORT_MESSAGE_MAX_SIZE_def)
  have n: "send_count msg = 2" by (simp add: send_count_def msg_def ZCM_FRAGMENT_MAX_PAYLOAD_def Let_def)
  let ?ps = "map (sent_packet msg 0) [0..<2]"
  have s: "udp_sendmsg record_send msg udp_new [] = (0, udp_new\<lparr>ud_msg_seqno := ud_msg_seqno udp_new + 1\<rparr>, ?ps)"
    using sendmsg_packets[OF long, of udp_new "[]"] by (simp add: n udp_new_def)
  have "list_all (delivers ?ps src 8) ([(1, pkt 1, 8), (1, pkt 1, 9)] @ [(0, pkt 0, 9)])"
    by (simp add: delivers_def pkt_def upt_rec)
  moreover have "{..<length ?ps} = {0, 1}" by auto
  moreover have "pl_fragbufs (ud_pool udp_new) = []" by (simp add: udp_new_def messagepool_new_def)
  ultimately have "\<exists>m v'. udp_recvmsg 9 (map arrive ([(1, pkt 1, 8), (1, pkt 1, 9)] @ [(0, pkt 0, 9)]) @ []) udp_new = Some (ZCM_EOK, Some m, [], v')
      \<and> message_channel m = Some (msg_channel msg) \<and> message_data m = Some (msg_buf msg)"
    using udp_long_roundtrip[OF long s, of udp_new src 8 "[(1, pkt 1, 8), (1, pkt 1, 9)]" "(0, pkt 0, 9)" 9 "[]"] by auto
  then show ?thesis by (simp add: arrive_def msg_def)
qed

text \<open>
  C34. A message that fits into one packet arrives with the same channel and data, whatever the state of the receiver and whatever is
  left in the receive buffer after the packet; \<^verbatim>\<open>sendmsg\<close> returns 0.
\<close>

theorem udp_short_roundtrip:
  assumes "0 \<notin> set (msg_channel msg)" "length (msg_channel msg) \<le> ZCM_CHANNEL_MAXLEN"
    "length (msg_channel msg) + 1 + msg_len msg \<le> ZCM_SHORT_MESSAGE_MAX_SIZE"
    "udp_sendmsg record_send msg u [] = (rc, u', packets)" "udp_reach v" "delivers packets src t (0, pkt, now)"
  shows "rc = 0 \<and> (\<exists>m v'. udp_recvmsg start (Got pkt now # es) v = Some (ZCM_EOK, Some m, es, v')
    \<and> message_channel m = Some (msg_channel msg) \<and> message_data m = Some (msg_buf msg) \<and> dm_utime m = pk_utime pkt)"
proof -
  let ?c = "msg_channel msg" and ?p = "header_short (ud_msg_seqno u) @ msg_channel msg @ [0] @ msg_buf msg"
  have "to_int (length ?c + 1 + msg_len msg) = int (length ?c + 1 + msg_len msg)"
    using assms(3) by (simp add: to_int_def ZCM_SHORT_MESSAGE_MAX_SIZE_def)
  then have p: "rc = 0" "packets = [?p]"
    using assms(2-4) by (auto simp: udp_sendmsg_def Let_def record_send_def split: if_splits)
  have sz: "take (pk_sz pkt) (pk_buf pkt) = ?p" "pk_sz pkt = SIZEOF_SHORT + length ?c + 1 + msg_len msg"
    using assms(6) by (auto simp: delivers_def p(2))
  then obtain g where g: "pk_buf pkt = header_short (ud_msg_seqno u) @ ?c @ 0 # msg_buf msg @ g" using take_prefix[OF sz(1)] by auto
  have "memchr0 (drop SIZEOF_SHORT (pk_buf pkt)) (pk_sz pkt - SIZEOF_SHORT) = Some (length ?c)"
    unfolding g sz(2) using assms(1) memchr0_cstring[of ?c _ "msg_buf msg @ g"] by simp
  from recvShort_Some[OF this _ assms(2)] g sz
  have short: "\<exists>m. recvShort pkt w = Some (Some m, w\<lparr>ud_rx := ud_rx w + 1\<rparr>) \<and> message_channel m = Some ?c \<and> message_data m = Some (msg_buf msg)
      \<and> dm_utime m = pk_utime pkt" for w by simp
  from expireFragBufs_ok[of "ud_pool v" start] udp_reach_ok[OF assms(5)] obtain q where
    q: "expireFragBufs start (ud_pool v) = Some q" "pl_ok q" by blast
  from expireFragBufs_ok[OF q(2), of now] obtain q' where q': "expireFragBufs now q = Some q'" by blast
  have "get32 (pk_buf pkt) = Some ZCM_MAGIC_SHORT" "\<not> pk_sz pkt < SIZEOF_SHORT" using g sz(2) by simp_all
  with p(1) q(1) q' short[of "v\<lparr>ud_pool := q'\<rparr>"] show ?thesis by (auto simp: udp_recvmsg_def readMessage_def)
qed

theorem udp_short_roundtrip_witness:
  defines "msg \<equiv> \<lparr>msg_utime = 0, msg_channel = [65], msg_buf = [1, 2]\<rparr>" and "src \<equiv> \<lparr>sin_addr = 1, sin_port = 2, sin_family = 2\<rparr>"
  defines "pkt \<equiv> \<lparr>pk_utime = 5, pk_sz = 12, pk_from = src, pk_buf = header_short 0 @ [65, 0, 1, 2, 9, 9]\<rparr>"
  shows "\<exists>m v'. udp_recvmsg 0 [Got pkt 0] udp_new = Some (ZCM_EOK, Some m, [], v') \<and> message_channel m = Some [65] \<and> message_data m = Some [1, 2]"
proof -
  have s: "udp_sendmsg record_send msg udp_new [] = (0, udp_new\<lparr>ud_msg_seqno := 1\<rparr>, [header_short 0 @ [65, 0, 1, 2]])"
    by (simp add: msg_def udp_sendmsg_def record_send_def udp_new_def to_int_def ZCM_CHANNEL_MAXLEN_def ZCM_SHORT_MESSAGE_MAX_SIZE_def
        SIZEOF_SHORT_def Let_def)
  have "delivers [header_short 0 @ [65, 0, 1, 2]] src 0 (0, pkt, 0)" by (simp add: delivers_def pkt_def SIZEOF_SHORT_def)
  from udp_short_roundtrip[OF _ _ _ s udp_reach.init this, of 0 "[]"] show ?thesis
    by (auto simp: msg_def ZCM_CHANNEL_MAXLEN_def ZCM_SHORT_MESSAGE_MAX_SIZE_def)
qed

section \<open>Messages that do not arrive\<close>

lemma send_loop_prefix: "\<exists>ps. send_loop record_send buf hdr k frag_no offset packet_size status w = w @ ps"
proof (induction k arbitrary: hdr frag_no offset packet_size status w)
  case (Suc k)
  let ?h = "hdr\<lparr>lh_fragment_offset := of_nat offset, lh_fragment_no := of_nat frag_no\<rparr>"
  let ?l = "min ZCM_FRAGMENT_MAX_PAYLOAD (length buf - offset)"
  let ?p = "header_long ?h @ take ?l (drop offset buf)"
  from Suc[of ?h "frag_no + 1" "offset + ?l" "int (SIZEOF_LONG + ?l)" "int (length ?p)" "w @ [?p]"]
  show ?case by (auto simp: record_send_def Let_def simp del: length_append)
qed simp

text \<open>A message that is within the MTU only without its channel.\<close>

definition too_long :: "zcm_msg_t \<Rightarrow> bool" where
  "too_long msg \<longleftrightarrow> 0 \<notin> set (msg_channel msg) \<and> length (msg_channel msg) \<le> ZCM_CHANNEL_MAXLEN \<and> msg_len msg \<le> UDP_MTU
     \<and> UDP_MTU < length (msg_channel msg) + 1 + msg_len msg"

lemma too_long_bounds:
  assumes "too_long msg"
  shows "length (msg_channel msg) \<le> 32" "msg_len msg \<le> 2 ^ 28" "2 ^ 28 < length (msg_channel msg) + 1 + msg_len msg"
    "send_count msg \<le> 65535" "0 < send_count msg"
proof -
  let ?s = "length (msg_channel msg) + 1 + msg_len msg"
  show cb: "length (msg_channel msg) \<le> 32" "msg_len msg \<le> 2 ^ 28" "2 ^ 28 < ?s"
    using assms by (simp_all add: too_long_def ZCM_CHANNEL_MAXLEN_def UDP_MTU_def)
  have "?s div ZCM_FRAGMENT_MAX_PAYLOAD \<le> (2 ^ 28 + 33) div ZCM_FRAGMENT_MAX_PAYLOAD" using cb by (intro div_le_mono) simp
  then show "send_count msg \<le> 65535" by (simp add: send_count_def ZCM_FRAGMENT_MAX_PAYLOAD_def Let_def)
  show "0 < send_count msg" using ceil_div(3)[of ZCM_FRAGMENT_MAX_PAYLOAD ?s] by (simp add: send_count_def ZCM_FRAGMENT_MAX_PAYLOAD_def Let_def)
qed

lemma too_long_sent:
  assumes "too_long msg"
  shows "\<exists>ps. udp_sendmsg record_send msg u [] = (0, u\<lparr>ud_msg_seqno := ud_msg_seqno u + 1\<rparr>, sent_packet msg (ud_msg_seqno u) 0 # ps)"
proof -
  let ?c = "msg_channel msg" and ?n = "send_count msg" and ?d = "ZCM_FRAGMENT_MAX_PAYLOAD - (length (msg_channel msg) + 1)"
  let ?h = "\<lparr>lh_msg_seqno = ud_msg_seqno u, lh_msg_size = of_nat (msg_len msg), lh_fragment_offset = 0, lh_fragment_no = 0, lh_fragments_in_msg = of_nat ?n\<rparr>"
  let ?p = "header_long ?h @ ?c @ [0] @ take ?d (msg_buf msg)" and ?s = "length ?c + 1 + msg_len msg"
  note cb = too_long_bounds[OF assms]
  have ti: "to_int ?s = int ?s" using cb by (simp add: to_int_def)
  have n: "?n = nat (int ?s) div ZCM_FRAGMENT_MAX_PAYLOAD + (if nat (int ?s) mod ZCM_FRAGMENT_MAX_PAYLOAD = 0 then 0 else 1)"
    unfolding nat_int send_count_def Let_def by (rule refl)
  have "\<not> int ?s \<le> int ZCM_SHORT_MESSAGE_MAX_SIZE" using cb(3) by (simp add: ZCM_SHORT_MESSAGE_MAX_SIZE_def)
  then have "udp_sendmsg record_send msg u [] = (0, u\<lparr>ud_msg_seqno := ud_msg_seqno u + 1\<rparr>,
      send_loop record_send (msg_buf msg) ?h (?n - 1) 1 ?d (int (SIZEOF_LONG + (length ?c + 1) + ?d)) (int (length ?p)) [?p])"
    unfolding udp_sendmsg_def Let_def ti n[symmetric] record_send_def using assms cb(4) by (simp add: too_long_def)
  moreover have "sent_packet msg (ud_msg_seqno u) 0 = ?p"
    using cb(1,3) by (simp add: sent_packet_def send_off_def ZCM_FRAGMENT_MAX_PAYLOAD_def)
  ultimately show ?thesis using send_loop_prefix[of "msg_buf msg" ?h "?n - 1" 1 ?d _ _ "[?p]"] by auto
qed

text \<open>
  A message that is not larger than the MTU that \<^verbatim>\<open>get_mtu\<close> reports, but is together with its channel, is sent without an error
  (\<^verbatim>\<open>sendmsg\<close> returns 0) and can never be received: the receiver discards its first fragment in every state, because it finds no
  end of the channel in the space it has left for it.
\<close>

theorem udp_mtu_message_lost:
  assumes "too_long msg" "udp_sendmsg record_send msg u [] = (rc, u', packets)" "delivers packets src t (0, pkt, now)"
  shows "rc = 0 \<and> recvFragment pkt now v = Some (None, discard v)"
proof -
  let ?c = "msg_channel msg" and ?n = "send_count msg"
  note cb = too_long_bounds[OF assms(1)]
  obtain ps where p: "rc = 0" "packets = sent_packet msg (ud_msg_seqno u) 0 # ps" using too_long_sent[OF assms(1), of u] assms(2) by auto
  obtain h g where g: "pk_buf pkt = header_long h @ ?c @ 0 # g" "SIZEOF_LONG \<le> pk_sz pkt"
    and h: "lh_msg_size h = of_nat (msg_len msg)" "lh_fragment_no h = 0" "lh_fragments_in_msg h = of_nat ?n"
    using assms(3) take_prefix[of "pk_sz pkt" "pk_buf pkt" "sent_packet msg (ud_msg_seqno u) 0"]
    by (auto simp: delivers_def p(2) sent_packet_def)
  have v: "unat (of_nat (msg_len msg) :: u32) = msg_len msg" "unat (of_nat ?n :: u16) = ?n"
    using cb(2,4) by (simp_all add: unat_of_nat take_bit_nat_eq_self)
  have "payload_offset (msg_len msg) \<le> length ?c" using assms(1) by (auto simp: payload_offset_def too_long_def)
  then have "take (min k (payload_offset (msg_len msg))) (?c @ 0 # g) = take (min k (payload_offset (msg_len msg))) ?c" for k by simp
  moreover have "strlen (take k ?c) = None" for k
    using assms(1) strlen_Some[of "take k ?c"] by (cases "strlen (take k ?c)") (auto simp: too_long_def dest!: nth_mem in_set_takeD)
  ultimately have "frag_check pkt h = None" using g cb(5) assms(1) by (simp add: frag_check_def h v memchr0_def too_long_def Let_def)
  with p(1) g show ?thesis by (simp add: recvFragment_def)
qed

text \<open>A message of exactly \<open>2^28\<close> bytes.\<close>

theorem udp_mtu_message_lost_witness:
  defines "msg \<equiv> \<lparr>msg_utime = 0, msg_channel = [65], msg_buf = replicate (2 ^ 28) 7\<rparr>"
  shows "\<exists>pkt. too_long msg \<and> recvFragment pkt 0 udp_new = Some (None, discard udp_new)"
proof -
  have t: "too_long msg" by (simp add: too_long_def msg_def ZCM_CHANNEL_MAXLEN_def UDP_MTU_def)
  obtain ps where s: "udp_sendmsg record_send msg udp_new [] = (0, udp_new\<lparr>ud_msg_seqno := ud_msg_seqno udp_new + 1\<rparr>, sent_packet msg (ud_msg_seqno udp_new) 0 # ps)"
    using too_long_sent[OF t] by blast
  let ?p = "sent_packet msg (ud_msg_seqno udp_new) 0" and ?src = "\<lparr>sin_addr = 1, sin_port = 2, sin_family = 2\<rparr>"
  let ?pkt = "\<lparr>pk_utime = 5, pk_sz = length ?p, pk_from = ?src, pk_buf = ?p\<rparr>"
  have "delivers (?p # ps) ?src 0 (0, ?pkt, 0)" by (simp add: delivers_def)
  from udp_mtu_message_lost[OF t s this, of udp_new] t show ?thesis by blast
qed

text \<open>
  C35. The code does not check that the channel of a short packet ends inside of the packet: for a packet that holds only a header, in a buffer
  whose next byte is zero, \<^verbatim>\<open>recvmsg\<close> returns \<^verbatim>\<open>ZCM_EOK\<close> and a message of \<open>2^64 - 1\<close> bytes, the data of which cannot be read.
\<close>

theorem udp_short_packet_underflow:
  assumes "pk_sz pkt = SIZEOF_SHORT" "pk_buf pkt = header_short seqno @ 0 # g" "length g < 2 ^ 64 - 10" "udp_reach v"
  shows "\<exists>m v'. udp_recvmsg start (Got pkt now # es) v = Some (ZCM_EOK, Some m, es, v') \<and> dm_datalen m = 2 ^ 64 - 1 \<and> message_data m = None"
proof -
  have short: "\<exists>m. recvShort pkt w = Some (Some m, w\<lparr>ud_rx := ud_rx w + 1\<rparr>) \<and> dm_datalen m = 2 ^ 64 - 1 \<and> message_data m = None" for w
    using assms(1-3) by (simp add: recvShort_def size_sub_def SIZEOF_SHORT_def message_data_def mem_slice_def)
  from expireFragBufs_ok[of "ud_pool v" start] udp_reach_ok[OF assms(4)] obtain q where
    q: "expireFragBufs start (ud_pool v) = Some q" "pl_ok q" by blast
  from expireFragBufs_ok[OF q(2), of now] obtain q' where q': "expireFragBufs now q = Some q'" by blast
  have "get32 (pk_buf pkt) = Some ZCM_MAGIC_SHORT" "\<not> pk_sz pkt < SIZEOF_SHORT" using assms(1,2) by simp_all
  with q(1) q' short[of "v\<lparr>ud_pool := q'\<rparr>"] show ?thesis by (auto simp: udp_recvmsg_def readMessage_def)
qed

theorem udp_short_packet_underflow_witness:
  defines "pkt \<equiv> \<lparr>pk_utime = 5, pk_sz = 8, pk_from = \<lparr>sin_addr = 1, sin_port = 2, sin_family = 2\<rparr>, pk_buf = header_short 0 @ [0, 1, 2]\<rparr>"
  shows "\<exists>m v'. udp_recvmsg 0 [Got pkt 0] udp_new = Some (ZCM_EOK, Some m, [], v') \<and> dm_datalen m = 2 ^ 64 - 1 \<and> message_data m = None"
  by (rule udp_short_packet_underflow[of pkt 0 "[1, 2]"]) (simp_all add: pkt_def SIZEOF_SHORT_def udp_reach.init)

end
