(* ===== verification/Nonblocking.thy ===== *)
theory Nonblocking
  imports Inproc
begin

text \<open>
  The non-blocking core (\<^verbatim>\<open>zcm/nonblocking.c\<close>), which embedded programs use: a table of subscriptions with holes,
  dispatch, and the calls that poll the transport. A subscription's handle is its index in the table. The handlers of the
  user are taken not to call back into the core; the result of a dispatch lists the calls.
\<close>

section \<open>Definitions\<close>

definition ZCM_NONBLOCK_SUBS_MAX :: nat where "ZCM_NONBLOCK_SUBS_MAX = 512"

record nb_sub =
  ns_channel :: cstring
  ns_callback :: nat
  ns_usr :: nat

record 't zcm_nonblocking =
  nb_zt :: "'t zcm_trans_t"
  nb_subs :: "nb_sub list"
  nb_subInUse :: "bool list"
  nb_subIsRegex :: "bool list"
  nb_subInUseEnd :: nat

text \<open>The characters \<^verbatim>\<open>( ) | . * +\<close>.\<close>

definition nb_isRegexChannel :: "cstring \<Rightarrow> bool" where
  "nb_isRegexChannel c \<longleftrightarrow> list_ex (\<lambda>x. x = 0x28 \<or> x = 0x29 \<or> x = 0x7C \<or> x = 0x2E \<or> x = 0x2A \<or> x = 0x2B) c"

text \<open>Letters, digits and the underscore, followed by \<^verbatim>\<open>.*\<close>.\<close>

definition isSupportedRegex :: "cstring \<Rightarrow> bool" where
  "isSupportedRegex c \<longleftrightarrow>
     (if \<not> nb_isRegexChannel c then True
      else if length c < 2 then False
      else if c ! (length c - 1) \<noteq> 0x2A then False
      else if c ! (length c - 2) \<noteq> 0x2E then False
      else list_all (\<lambda>x. 0x61 \<le> x \<and> x \<le> 0x7A \<or> 0x41 \<le> x \<and> x \<le> 0x5A \<or> 0x30 \<le> x \<and> x \<le> 0x39 \<or> x = 0x5F) (take (length c - 2) c))"

text \<open>\<^verbatim>\<open>strncmp(a, b, n) == 0\<close>: the strings end at their first zero byte.\<close>

definition c_str :: "u8 list \<Rightarrow> cstring" where
  "c_str s = takeWhile (\<lambda>x. x \<noteq> 0) s"

definition strncmp_eq :: "u8 list \<Rightarrow> u8 list \<Rightarrow> nat \<Rightarrow> bool" where
  "strncmp_eq a b n \<longleftrightarrow> take n (c_str a @ [0]) = take n (c_str b @ [0])"

text \<open>\<open>mem\<close> is what \<^verbatim>\<open>malloc\<close> returned: arbitrary contents of the arrays that the code does not initialise.\<close>

definition zcm_nonblocking_try_create ::
    "(nb_sub list \<times> bool list) option \<Rightarrow> zcm_type \<Rightarrow> 't zcm_trans_t \<Rightarrow> int \<times> 't zcm_nonblocking option" where
  "zcm_nonblocking_try_create mem ztype zt =
     (if ztype \<noteq> ZCM_NONBLOCKING then (ZCM_EINVALID, None)
      else case mem of
          None \<Rightarrow> (ZCM_EMEMORY, None)
        | Some (subs, isRegex) \<Rightarrow>
            (ZCM_EOK, Some \<lparr>nb_zt = zt, nb_subs = subs, nb_subInUse = replicate ZCM_NONBLOCK_SUBS_MAX False,
                            nb_subIsRegex = isRegex, nb_subInUseEnd = 0\<rparr>))"

definition zcm_nonblocking_publish :: "'t zcm_nonblocking \<Rightarrow> cstring \<Rightarrow> u8 list \<Rightarrow> u64 \<Rightarrow> (int \<times> 't zcm_nonblocking) option" where
  "zcm_nonblocking_publish z channel data utime =
     map_option (\<lambda>(rc, zt). (rc, z\<lparr>nb_zt := zt\<rparr>))
       (zcm_trans_sendmsg (nb_zt z) \<lparr>msg_utime = utime, msg_channel = channel, msg_buf = data\<rparr>)"

text \<open>The search for a free entry, from index \<open>i\<close> on; \<open>k\<close> entries are left.\<close>

fun subscribe_loop :: "cstring \<Rightarrow> nat \<Rightarrow> nat \<Rightarrow> nat \<Rightarrow> nat \<Rightarrow> 't zcm_nonblocking \<Rightarrow> nat option \<times> 't zcm_nonblocking" where
  "subscribe_loop channel cb usr i 0 z = (None, z)"
| "subscribe_loop channel cb usr i (Suc k) z =
     (if \<not> i \<le> nb_subInUseEnd z then (None, z)
      else if nb_subInUse z ! i then subscribe_loop channel cb usr (i + 1) k z
      else let chan = take ZCM_CHANNEL_MAXLEN channel;
               z = z\<lparr>nb_subs := (nb_subs z)[i := \<lparr>ns_channel = chan, ns_callback = cb, ns_usr = usr\<rparr>],
                     nb_subIsRegex := (nb_subIsRegex z)[i := nb_isRegexChannel chan]\<rparr>
           in if nb_isRegexChannel chan \<and> \<not> isSupportedRegex chan then (None, z)
              else (Some i, z\<lparr>nb_subInUse := (nb_subInUse z)[i := True],
                              nb_subInUseEnd := (if i = nb_subInUseEnd z then nb_subInUseEnd z + 1 else nb_subInUseEnd z)\<rparr>))"

definition zcm_nonblocking_subscribe ::
    "'t zcm_nonblocking \<Rightarrow> cstring \<Rightarrow> nat \<Rightarrow> nat \<Rightarrow> (nat option \<times> 't zcm_nonblocking) option" where
  "zcm_nonblocking_subscribe z channel cb usr =
     do {
       (rc, zt) \<leftarrow> zcm_trans_recvmsg_enable (nb_zt z) channel True;
       let z = z\<lparr>nb_zt := zt\<rparr>;
       if rc \<noteq> ZCM_EOK then Some (None, z)
       else Some (subscribe_loop channel cb usr 0 ZCM_NONBLOCK_SUBS_MAX z)
     }"

text \<open>Whether no other entry below \<open>end\<close> has the same channel.\<close>

definition lastChanSub :: "'t zcm_nonblocking \<Rightarrow> nat \<Rightarrow> bool" where
  "lastChanSub z match_idx \<longleftrightarrow>
     list_all (\<lambda>i. \<not> (nb_subInUse z ! i \<and> match_idx \<noteq> i
        \<and> strncmp_eq (ns_channel (nb_subs z ! match_idx)) (ns_channel (nb_subs z ! i)) ZCM_CHANNEL_MAXLEN)) [0..<nb_subInUseEnd z]"

fun shrink_end :: "bool list \<Rightarrow> nat \<Rightarrow> nat" where
  "shrink_end inUse 0 = 0"
| "shrink_end inUse (Suc e) = (if inUse ! e then Suc e else shrink_end inUse e)"

definition zcm_nonblocking_unsubscribe :: "'t zcm_nonblocking \<Rightarrow> int \<Rightarrow> (int \<times> 't zcm_nonblocking) option" where
  "zcm_nonblocking_unsubscribe z match_idx =
     (if match_idx < 0 \<or> match_idx \<ge> int (nb_subInUseEnd z) then Some (ZCM_EINVALID, z)
      else let i = nat match_idx
           in if \<not> nb_subInUse z ! i then Some (ZCM_EINVALID, z)
              else do {
                (rc, zt) \<leftarrow> (if lastChanSub z i then zcm_trans_recvmsg_enable (nb_zt z) (ns_channel (nb_subs z ! i)) False
                              else Some (ZCM_EOK, nb_zt z));
                let inUse = (nb_subInUse z)[i := False];
                Some (rc, z\<lparr>nb_zt := zt, nb_subInUse := inUse, nb_subInUseEnd := shrink_end inUse (nb_subInUseEnd z)\<rparr>)
              })"

definition zcm_nonblocking_query_drops :: "'t zcm_nonblocking \<Rightarrow> u64 \<Rightarrow> (int \<times> u64 \<times> 't zcm_nonblocking) option" where
  "zcm_nonblocking_query_drops z out_drops =
     map_option (\<lambda>(rc, d, zt). (rc, d, z\<lparr>nb_zt := zt\<rparr>)) (zcm_trans_query_drops (nb_zt z) out_drops)"

definition shouldDispatch :: "'t zcm_nonblocking \<Rightarrow> cstring \<Rightarrow> nat \<Rightarrow> bool" where
  "shouldDispatch z channel i \<longleftrightarrow>
     (let c = ns_channel (nb_subs z ! i)
      in if nb_subIsRegex z ! i then length c \<ge> 2 \<and> strncmp_eq c channel (length c - 2)
         else strncmp_eq c channel ZCM_CHANNEL_MAXLEN)"

text \<open>A call of a handler: the entry, its callback and user data, and the message.\<close>

type_synonym nb_call = "nat \<times> nat \<times> nat \<times> zcm_msg_t"

definition dispatch_message :: "'t zcm_nonblocking \<Rightarrow> zcm_msg_t \<Rightarrow> nb_call list" where
  "dispatch_message z msg =
     map (\<lambda>i. (i, ns_callback (nb_subs z ! i), ns_usr (nb_subs z ! i), msg))
       (filter (\<lambda>i. nb_subInUse z ! i \<and> shouldDispatch z (msg_channel msg) i) [0..<nb_subInUseEnd z])"

definition zcm_nonblocking_handle_nonblock :: "'t zcm_nonblocking \<Rightarrow> (int \<times> nb_call list \<times> 't zcm_nonblocking) option" where
  "zcm_nonblocking_handle_nonblock z =
     do {
       (_, zt) \<leftarrow> zcm_trans_update (nb_zt z);
       (ret, msg, zt) \<leftarrow> zcm_trans_recvmsg zt 0;
       let z = z\<lparr>nb_zt := zt\<rparr>;
       if ret \<noteq> ZCM_EOK then Some (ret, [], z)
       else case msg of None \<Rightarrow> None | Some m \<Rightarrow> Some (ZCM_EOK, dispatch_message z m, z)
     }"

text \<open>The loop of \<^verbatim>\<open>flush\<close> ends when the transport has no message left.\<close>

partial_function (option) flush_loop :: "'t zcm_nonblocking \<Rightarrow> (nb_call list \<times> 't zcm_nonblocking) option" where
  "flush_loop z =
     do {
       (ret, msg, zt) \<leftarrow> zcm_trans_recvmsg (nb_zt z) 0;
       let z = z\<lparr>nb_zt := zt\<rparr>;
       if ret \<noteq> ZCM_EOK then Some ([], z)
       else case msg of
           None \<Rightarrow> None
         | Some m \<Rightarrow> do { (calls, z') \<leftarrow> flush_loop z; Some (dispatch_message z m @ calls, z') }
     }"

definition zcm_nonblocking_flush :: "'t zcm_nonblocking \<Rightarrow> (nb_call list \<times> 't zcm_nonblocking) option" where
  "zcm_nonblocking_flush z =
     do {
       (_, zt) \<leftarrow> zcm_trans_update (nb_zt z);
       (_, zt) \<leftarrow> zcm_trans_update zt;
       flush_loop (z\<lparr>nb_zt := zt\<rparr>)
     }"

section \<open>Specification: a partial map from handles to subscriptions\<close>

definition nb_abs :: "'t zcm_nonblocking \<Rightarrow> nat \<Rightarrow> nb_sub option" where
  "nb_abs z i = (if i < ZCM_NONBLOCK_SUBS_MAX \<and> nb_subInUse z ! i then Some (nb_subs z ! i) else None)"

text \<open>The channels a subscription accepts: those with the prefix before \<^verbatim>\<open>.*\<close>, or the channel itself.\<close>

definition accepts :: "nb_sub \<Rightarrow> cstring \<Rightarrow> bool" where
  "accepts s channel \<longleftrightarrow>
     (if nb_isRegexChannel (ns_channel s) then take (length (ns_channel s) - 2) (c_str channel) = take (length (ns_channel s) - 2) (ns_channel s)
      else take ZCM_CHANNEL_MAXLEN (c_str channel) = ns_channel s)"

datatype nb_op = Publish cstring "u8 list" u64 | Subscribe cstring nat nat | Unsubscribe int | Handle

datatype nb_out = Code int | Handle_of "nat option" | Calls int "nb_call list"

fun nb_exec :: "nb_op \<Rightarrow> 't zcm_nonblocking \<Rightarrow> (nb_out \<times> 't zcm_nonblocking) option" where
  "nb_exec (Publish c d t) z = map_option (\<lambda>(rc, z). (Code rc, z)) (zcm_nonblocking_publish z c d t)"
| "nb_exec (Subscribe c cb usr) z = map_option (\<lambda>(h, z). (Handle_of h, z)) (zcm_nonblocking_subscribe z c cb usr)"
| "nb_exec (Unsubscribe h) z = map_option (\<lambda>(rc, z). (Code rc, z)) (zcm_nonblocking_unsubscribe z h)"
| "nb_exec Handle z = map_option (\<lambda>(rc, cs, z). (Calls rc cs, z)) (zcm_nonblocking_handle_nonblock z)"

definition spec_calls :: "(nat \<Rightarrow> nb_sub option) \<Rightarrow> zcm_msg_t \<Rightarrow> nb_call list" where
  "spec_calls m msg =
     map (\<lambda>i. (i, ns_callback (the (m i)), ns_usr (the (m i)), msg))
       (filter (\<lambda>i. case m i of None \<Rightarrow> False | Some s \<Rightarrow> accepts s (msg_channel msg)) [0..<ZCM_NONBLOCK_SUBS_MAX])"

text \<open>
  What each call may do to the map: a subscription gets a free handle, an unsubscription frees its handle and is refused exactly
  for a handle that is not in use, and a message goes to the subscriptions that accept its channel, in the order of their handles.
\<close>

inductive nb_spec :: "(nat \<Rightarrow> nb_sub option) \<Rightarrow> nb_op \<Rightarrow> nb_out \<Rightarrow> (nat \<Rightarrow> nb_sub option) \<Rightarrow> bool" where
  publish: "nb_spec m (Publish c d t) (Code rc) m"
| subscribed: "m i = None \<Longrightarrow> i < ZCM_NONBLOCK_SUBS_MAX \<Longrightarrow> isSupportedRegex (take ZCM_CHANNEL_MAXLEN c) \<Longrightarrow>
    nb_spec m (Subscribe c cb usr) (Handle_of (Some i)) (m(i \<mapsto> \<lparr>ns_channel = take ZCM_CHANNEL_MAXLEN c, ns_callback = cb, ns_usr = usr\<rparr>))"
| not_subscribed: "nb_spec m (Subscribe c cb usr) (Handle_of None) m"
| unsubscribed: "0 \<le> h \<Longrightarrow> m (nat h) \<noteq> None \<Longrightarrow> nb_spec m (Unsubscribe h) (Code rc) (m(nat h := None))"
| bad_handle: "h < 0 \<or> m (nat h) = None \<Longrightarrow> nb_spec m (Unsubscribe h) (Code ZCM_EINVALID) m"
| dispatched: "nb_spec m Handle (Calls ZCM_EOK (spec_calls m msg)) m"
| nothing: "rc \<noteq> ZCM_EOK \<Longrightarrow> nb_spec m Handle (Calls rc []) m"

section \<open>The invariant of the table\<close>

definition nb_inv :: "'t zcm_nonblocking \<Rightarrow> bool" where
  "nb_inv z \<longleftrightarrow> length (nb_subs z) = ZCM_NONBLOCK_SUBS_MAX \<and> length (nb_subInUse z) = ZCM_NONBLOCK_SUBS_MAX
     \<and> length (nb_subIsRegex z) = ZCM_NONBLOCK_SUBS_MAX \<and> nb_subInUseEnd z \<le> ZCM_NONBLOCK_SUBS_MAX
     \<and> (\<forall>i. nb_subInUseEnd z \<le> i \<and> i < ZCM_NONBLOCK_SUBS_MAX \<longrightarrow> \<not> nb_subInUse z ! i)
     \<and> (\<forall>i < ZCM_NONBLOCK_SUBS_MAX. nb_subInUse z ! i \<longrightarrow>
          length (ns_channel (nb_subs z ! i)) \<le> ZCM_CHANNEL_MAXLEN \<and> 0 \<notin> set (ns_channel (nb_subs z ! i))
          \<and> isSupportedRegex (ns_channel (nb_subs z ! i)) \<and> nb_subIsRegex z ! i = nb_isRegexChannel (ns_channel (nb_subs z ! i)))"

lemma nb_inv_zt [simp]: "nb_inv (z\<lparr>nb_zt := zt\<rparr>) = nb_inv z" "nb_abs (z\<lparr>nb_zt := zt\<rparr>) = nb_abs z"
    "dispatch_message (z\<lparr>nb_zt := zt\<rparr>) msg = dispatch_message z msg"
  by (simp_all add: nb_inv_def nb_abs_def fun_eq_iff dispatch_message_def shouldDispatch_def)

lemma create_inv:
  assumes "zcm_nonblocking_try_create (Some (subs, isRegex)) ztype zt = (ZCM_EOK, Some z)"
    "length subs = ZCM_NONBLOCK_SUBS_MAX" "length isRegex = ZCM_NONBLOCK_SUBS_MAX"
  shows "nb_inv z \<and> nb_abs z = Map.empty \<and> nb_zt z = zt"
  using assms by (auto simp: zcm_nonblocking_try_create_def nb_inv_def nb_abs_def fun_eq_iff split: if_splits)

text \<open>Comparing strings.\<close>

lemma c_str_nz: "0 \<notin> set (c_str s)" "0 \<notin> set s \<Longrightarrow> c_str s = s"
  by (auto simp: c_str_def takeWhile_eq_all_conv dest: set_takeWhileD)

lemma strncmp_prefix:
  assumes "0 \<notin> set a" "n \<le> length a"
  shows "strncmp_eq a b n \<longleftrightarrow> take n (c_str b) = take n a"
proof (cases "n \<le> length (c_str b)")
  case False
  have "0 \<notin> set (take n (a @ [0]))" using assms by (auto dest: in_set_takeD)
  moreover have "0 \<in> set (take n (c_str b @ [0]))" using False by simp
  moreover have "length (take n (c_str b)) \<noteq> length (take n a)" using False assms(2) by simp
  ultimately show ?thesis unfolding strncmp_eq_def c_str_nz(2)[OF assms(1)] by metis
qed (use assms in \<open>auto simp: strncmp_eq_def c_str_nz(2)\<close>)

lemma strncmp_whole:
  assumes "0 \<notin> set a" "length a \<le> n"
  shows "strncmp_eq a b n \<longleftrightarrow> take n (c_str b) = a"
proof (cases "length a = n")
  case True
  with strncmp_prefix[OF assms(1), of n b] show ?thesis by simp
next
  case False
  show ?thesis
  proof (cases "n \<le> length (c_str b)")
    case True
    have "0 \<notin> set (take n (c_str b @ [0]))" using True c_str_nz(1) by (auto dest: in_set_takeD)
    moreover have "0 \<in> set (take n (a @ [0]))" using False assms(2) by simp
    moreover have "length (take n (c_str b)) \<noteq> length a" using True False by simp
    ultimately show ?thesis unfolding strncmp_eq_def c_str_nz(2)[OF assms(1)] by metis
  qed (use False assms in \<open>auto simp: strncmp_eq_def c_str_nz(2)\<close>)
qed

lemma supported_length: "isSupportedRegex c \<Longrightarrow> nb_isRegexChannel c \<Longrightarrow> 2 \<le> length c"
  by (auto simp: isSupportedRegex_def split: if_splits)

lemma unsupported_regex: "isSupportedRegex c \<or> nb_isRegexChannel c"
  by (simp add: isSupportedRegex_def)

lemma dispatch_spec:
  assumes "nb_inv z"
  shows "dispatch_message z msg = spec_calls (nb_abs z) msg"
proof -
  let ?M = ZCM_NONBLOCK_SUBS_MAX and ?e = "nb_subInUseEnd z"
  let ?P = "\<lambda>i. case nb_abs z i of None \<Rightarrow> False | Some s \<Rightarrow> accepts s (msg_channel msg)"
  have e: "?e \<le> ?M" using assms by (simp add: nb_inv_def)
  have acc: "nb_subInUse z ! i \<and> shouldDispatch z (msg_channel msg) i \<longleftrightarrow> ?P i" if "i < ?M" for i
  proof (cases "nb_subInUse z ! i")
    case True
    let ?c = "ns_channel (nb_subs z ! i)"
    have c: "0 \<notin> set ?c" "length ?c \<le> ZCM_CHANNEL_MAXLEN" "isSupportedRegex ?c" "nb_subIsRegex z ! i = nb_isRegexChannel ?c"
      using assms True that by (auto simp: nb_inv_def)
    show ?thesis
    proof (cases "nb_isRegexChannel ?c")
      case r: True
      with c True that supported_length[OF c(3)] strncmp_prefix[OF c(1), of "length ?c - 2" "msg_channel msg"] show ?thesis
        by (simp add: shouldDispatch_def nb_abs_def accepts_def Let_def)
    next
      case False
      with c True that strncmp_whole[OF c(1,2)] show ?thesis
        by (simp add: shouldDispatch_def nb_abs_def accepts_def Let_def)
    qed
  qed (simp add: nb_abs_def)
  have "[0..<?M] = [0..<?e] @ [?e..<?M]" using e by (metis le0 upt_add_eq_append le_add_diff_inverse)
  moreover have "filter ?P [?e..<?M] = []" using assms by (auto simp: filter_empty_conv nb_abs_def nb_inv_def)
  moreover have "filter ?P [0..<?e] = filter (\<lambda>i. nb_subInUse z ! i \<and> shouldDispatch z (msg_channel msg) i) [0..<?e]"
    using acc e by (intro filter_cong) auto
  ultimately have "filter ?P [0..<?M] = filter (\<lambda>i. nb_subInUse z ! i \<and> shouldDispatch z (msg_channel msg) i) [0..<?e]" by simp
  moreover have "(i, ns_callback (nb_subs z ! i), ns_usr (nb_subs z ! i), msg) = (i, ns_callback (the (nb_abs z i)), ns_usr (the (nb_abs z i)), msg)"
    if "i \<in> set (filter ?P [0..<?M])" for i using that by (auto simp: nb_abs_def split: option.splits if_splits)
  ultimately show ?thesis unfolding dispatch_message_def spec_calls_def by (metis (no_types, lifting) map_cong)
qed

lemma subscribe_loop_spec:
  assumes "nb_inv z" "i + k = ZCM_NONBLOCK_SUBS_MAX" "0 \<notin> set c" "subscribe_loop c cb usr i k z = (h, z')"
  shows "nb_inv z' \<and> nb_zt z' = nb_zt z \<and> nb_spec (nb_abs z) (Subscribe c cb usr) (Handle_of h) (nb_abs z')"
  using assms
proof (induction k arbitrary: i)
  case 0
  then show ?case by (auto intro: nb_spec.not_subscribed)
next
  case (Suc k)
  let ?c = "take ZCM_CHANNEL_MAXLEN c"
  consider "\<not> i \<le> nb_subInUseEnd z" | "i \<le> nb_subInUseEnd z" "nb_subInUse z ! i"
    | "i \<le> nb_subInUseEnd z" "\<not> nb_subInUse z ! i" "nb_isRegexChannel ?c \<and> \<not> isSupportedRegex ?c"
    | "i \<le> nb_subInUseEnd z" "\<not> nb_subInUse z ! i" "isSupportedRegex ?c"
    using unsupported_regex by blast
  then show ?case
  proof cases
    case 2
    then have "subscribe_loop c cb usr (i + 1) k z = (h, z')" using Suc.prems(4) by simp
    with Suc.IH[of "i + 1"] Suc.prems(1-3) show ?thesis by simp
  next
    case 3
    with Suc.prems have z': "h = None"
        "z' = z\<lparr>nb_subs := (nb_subs z)[i := \<lparr>ns_channel = ?c, ns_callback = cb, ns_usr = usr\<rparr>], nb_subIsRegex := (nb_subIsRegex z)[i := nb_isRegexChannel ?c]\<rparr>"
      by (simp_all add: Let_def)
    have "nb_abs z' = nb_abs z" using Suc.prems(1,2) 3 by (auto simp: z' nb_abs_def nb_inv_def fun_eq_iff nth_list_update)
    moreover have "nb_inv z'" using Suc.prems(1,2) 3 by (auto simp: z' nb_inv_def nth_list_update)
    ultimately show ?thesis using z' by (auto intro: nb_spec.not_subscribed)
  next
    case 4
    let ?s = "\<lparr>ns_channel = ?c, ns_callback = cb, ns_usr = usr\<rparr>"
    from 4 Suc.prems have z': "h = Some i"
        "z' = z\<lparr>nb_subs := (nb_subs z)[i := ?s], nb_subIsRegex := (nb_subIsRegex z)[i := nb_isRegexChannel ?c],
          nb_subInUse := (nb_subInUse z)[i := True], nb_subInUseEnd := (if i = nb_subInUseEnd z then nb_subInUseEnd z + 1 else nb_subInUseEnd z)\<rparr>"
      by (auto simp: Let_def)
    have i: "i < ZCM_NONBLOCK_SUBS_MAX" using Suc.prems(2) by simp
    have abs: "nb_abs z' = (nb_abs z)(i \<mapsto> ?s)" "nb_abs z i = None"
      using Suc.prems(1) i 4(2) by (auto simp: z' nb_abs_def nb_inv_def fun_eq_iff nth_list_update)
    have "nb_inv z'"
      using Suc.prems(1,3) i 4 by (auto simp: z' nb_inv_def nth_list_update dest: in_set_takeD)
    moreover have "nb_zt z' = nb_zt z" by (simp add: z'(2))
    ultimately show ?thesis unfolding abs(1) z'(1) using nb_spec.subscribed[where m = "nb_abs z" and i = i, OF abs(2) i 4(3)] by blast
  qed (use Suc in \<open>auto intro: nb_spec.not_subscribed\<close>)
qed

lemma shrink_end_le: "shrink_end inUse e \<le> e"
  by (induction e) auto

lemma shrink_end_free: "shrink_end inUse e \<le> i \<Longrightarrow> i < e \<Longrightarrow> \<not> inUse ! i"
  by (induction e) (auto simp: less_Suc_eq split: if_splits)

lemma unsubscribe_table:
  fixes z :: "'t zcm_nonblocking" and zt
  assumes "nb_inv z" "i < nb_subInUseEnd z"
  defines "inUse \<equiv> (nb_subInUse z)[i := False]"
  defines "z' \<equiv> z\<lparr>nb_zt := zt, nb_subInUse := inUse, nb_subInUseEnd := shrink_end inUse (nb_subInUseEnd z)\<rparr>"
  shows "nb_inv z'" "nb_abs z' = (nb_abs z)(i := None)"
proof -
  have len: "length (nb_subInUse z) = ZCM_NONBLOCK_SUBS_MAX" "nb_subInUseEnd z \<le> ZCM_NONBLOCK_SUBS_MAX" using assms(1) by (auto simp: nb_inv_def)
  have use: "inUse ! j \<longleftrightarrow> j \<noteq> i \<and> nb_subInUse z ! j" if "j < ZCM_NONBLOCK_SUBS_MAX" for j
    using that len assms(2) by (cases "j = i") (simp_all add: inUse_def)
  show "nb_abs z' = (nb_abs z)(i := None)" using use by (auto simp: z'_def nb_abs_def fun_eq_iff)
  have "\<not> inUse ! j" if "shrink_end inUse (nb_subInUseEnd z) \<le> j" "j < ZCM_NONBLOCK_SUBS_MAX" for j
    using shrink_end_free[OF that(1)] use[OF that(2)] assms(1) that(2) by (cases "j < nb_subInUseEnd z") (auto simp: nb_inv_def)
  then show "nb_inv z'"
    using assms(1) use order_trans[OF shrink_end_le len(2)] by (simp add: nb_inv_def z'_def) (simp add: inUse_def)
qed

section \<open>The core over a transport that keeps its contract\<close>

fun nb_run :: "nb_op list \<Rightarrow> 't zcm_nonblocking \<Rightarrow> (nb_out list \<times> 't zcm_nonblocking) option" where
  "nb_run [] z = Some ([], z)"
| "nb_run (op # ops) z = do { (out, z) \<leftarrow> nb_exec op z; (outs, z) \<leftarrow> nb_run ops z; Some (out # outs, z) }"

inductive nb_spec_run :: "(nat \<Rightarrow> nb_sub option) \<Rightarrow> nb_op list \<Rightarrow> nb_out list \<Rightarrow> (nat \<Rightarrow> nb_sub option) \<Rightarrow> bool" where
  finished: "nb_spec_run m [] [] m"
| step: "nb_spec m op out m' \<Longrightarrow> nb_spec_run m' ops outs m'' \<Longrightarrow> nb_spec_run m (op # ops) (out # outs) m''"

text \<open>The channels that the user passes are C strings.\<close>

definition nb_op_ok :: "nb_op \<Rightarrow> bool" where
  "nb_op_ok op \<longleftrightarrow> (case op of Publish c d t \<Rightarrow> is_cstring c | Subscribe c cb usr \<Rightarrow> is_cstring c | _ \<Rightarrow> True)"

context nonblocking_transport
begin

definition trans_ok :: "'t zcm_trans_t \<Rightarrow> bool" where
  "trans_ok zt \<longleftrightarrow> trans_vtbl zt = vtbl \<and> tinv (trans_state zt)"

lemma trans_send: "trans_ok zt \<Longrightarrow> is_cstring (msg_channel m) \<Longrightarrow> \<exists>rc zt'. zcm_trans_sendmsg zt m = Some (rc, zt') \<and> trans_ok zt'"
  using send_total[of "trans_state zt" m] by (auto simp: zcm_trans_sendmsg_def trans_ok_def)

lemma trans_enable: "trans_ok zt \<Longrightarrow> \<exists>rc zt'. zcm_trans_recvmsg_enable zt c b = Some (rc, zt') \<and> trans_ok zt'"
  using enable_total[of "trans_state zt" c b] by (auto simp: zcm_trans_recvmsg_enable_def trans_ok_def)

lemma trans_recv: "trans_ok zt \<Longrightarrow> \<exists>rc m zt'. zcm_trans_recvmsg zt t = Some (rc, m, zt') \<and> trans_ok zt'
    \<and> (rc = ZCM_EOK \<and> m \<noteq> None \<or> rc = ZCM_EAGAIN \<and> m = None)"
  using recv_total[of "trans_state zt" t] by (auto simp: zcm_trans_recvmsg_def trans_ok_def)

lemma trans_update: "trans_ok zt \<Longrightarrow> \<exists>rc zt'. zcm_trans_update zt = Some (rc, zt') \<and> trans_ok zt'"
  using update_total[of "trans_state zt"] by (auto simp: zcm_trans_update_def trans_ok_def)

definition nb_ok :: "'t zcm_nonblocking \<Rightarrow> bool" where
  "nb_ok z \<longleftrightarrow> nb_inv z \<and> trans_ok (nb_zt z)"

lemma unsubscribe_ok:
  assumes "nb_ok z"
  shows "\<exists>rc z'. zcm_nonblocking_unsubscribe z h = Some (rc, z') \<and> nb_ok z' \<and> nb_spec (nb_abs z) (Unsubscribe h) (Code rc) (nb_abs z')"
proof (cases "h < 0 \<or> h \<ge> int (nb_subInUseEnd z) \<or> \<not> nb_subInUse z ! nat h")
  case True
  then have "zcm_nonblocking_unsubscribe z h = Some (ZCM_EINVALID, z)" by (auto simp: zcm_nonblocking_unsubscribe_def Let_def)
  moreover have "h < 0 \<or> nb_abs z (nat h) = None" using True assms by (auto simp: nb_abs_def nb_ok_def nb_inv_def)
  ultimately show ?thesis using assms nb_spec.bad_handle by blast
next
  case False
  let ?i = "nat h"
  have i: "?i < nb_subInUseEnd z" "nb_subInUse z ! ?i" "0 \<le> h" using False by auto
  obtain rc zt where e: "(if lastChanSub z ?i then zcm_trans_recvmsg_enable (nb_zt z) (ns_channel (nb_subs z ! ?i)) False else Some (ZCM_EOK, nb_zt z))
      = Some (rc, zt)" "trans_ok zt"
    using trans_enable[of "nb_zt z" "ns_channel (nb_subs z ! ?i)" False] assms by (cases "lastChanSub z ?i") (auto simp: nb_ok_def)
  let ?z = "z\<lparr>nb_zt := zt, nb_subInUse := (nb_subInUse z)[?i := False], nb_subInUseEnd := shrink_end ((nb_subInUse z)[?i := False]) (nb_subInUseEnd z)\<rparr>"
  have inv: "nb_inv z" using assms by (simp add: nb_ok_def)
  note t = unsubscribe_table[OF inv i(1), of zt]
  have "zcm_nonblocking_unsubscribe z h = Some (rc, ?z)" using False e(1) by (simp add: zcm_nonblocking_unsubscribe_def Let_def)
  moreover have "nb_ok ?z" using t(1) e(2) by (simp add: nb_ok_def)
  moreover have "nb_abs z ?i \<noteq> None" using i inv by (simp add: nb_abs_def nb_inv_def)
  ultimately show ?thesis using nb_spec.unsubscribed[OF i(3), of "nb_abs z" rc] t(2) by metis
qed

lemma handle_ok:
  assumes "nb_ok z"
  shows "\<exists>rc cs z'. zcm_nonblocking_handle_nonblock z = Some (rc, cs, z') \<and> nb_ok z' \<and> nb_spec (nb_abs z) Handle (Calls rc cs) (nb_abs z')"
proof -
  from assms have inv: "nb_inv z" and zt: "trans_ok (nb_zt z)" by (auto simp: nb_ok_def)
  from trans_update[OF zt] obtain rc1 zt1 where u: "zcm_trans_update (nb_zt z) = Some (rc1, zt1)" "trans_ok zt1" by blast
  from trans_recv[OF u(2), of 0] obtain rc m zt2 where r: "zcm_trans_recvmsg zt1 0 = Some (rc, m, zt2)" "trans_ok zt2"
    "rc = ZCM_EOK \<and> m \<noteq> None \<or> rc = ZCM_EAGAIN \<and> m = None" by blast
  show ?thesis
  proof (cases m)
    case None
    with r u(1) have "zcm_nonblocking_handle_nonblock z = Some (ZCM_EAGAIN, [], z\<lparr>nb_zt := zt2\<rparr>)"
      by (auto simp: zcm_nonblocking_handle_nonblock_def Let_def)
    with r(2) inv show ?thesis using nb_spec.nothing[of ZCM_EAGAIN "nb_abs z"] by (auto simp: nb_ok_def)
  next
    case (Some msg)
    with r u(1) have "zcm_nonblocking_handle_nonblock z = Some (ZCM_EOK, spec_calls (nb_abs z) msg, z\<lparr>nb_zt := zt2\<rparr>)"
      by (auto simp: zcm_nonblocking_handle_nonblock_def dispatch_spec[OF inv] Let_def)
    with r(2) inv show ?thesis using nb_spec.dispatched[of "nb_abs z" msg] by (auto simp: nb_ok_def)
  qed
qed

lemma exec_ok:
  assumes "nb_ok z" "nb_op_ok op"
  shows "\<exists>out z'. nb_exec op z = Some (out, z') \<and> nb_ok z' \<and> nb_spec (nb_abs z) op out (nb_abs z')"
proof (cases op)
  case (Publish c d t)
  with assms trans_send[of "nb_zt z" "\<lparr>msg_utime = t, msg_channel = c, msg_buf = d\<rparr>"] show ?thesis
    by (auto simp: nb_ok_def nb_op_ok_def zcm_nonblocking_publish_def intro: nb_spec.publish)
next
  case (Subscribe c cb usr)
  from trans_enable[of "nb_zt z" c True] assms(1) obtain rc zt where e: "zcm_trans_recvmsg_enable (nb_zt z) c True = Some (rc, zt)" "trans_ok zt"
    by (auto simp: nb_ok_def)
  obtain h z' where l: "subscribe_loop c cb usr 0 ZCM_NONBLOCK_SUBS_MAX (z\<lparr>nb_zt := zt\<rparr>) = (h, z')" by fastforce
  from subscribe_loop_spec[OF _ _ _ l] assms Subscribe e l show ?thesis
    by (cases "rc = ZCM_EOK") (auto simp: nb_ok_def nb_op_ok_def is_cstring_def zcm_nonblocking_subscribe_def intro: nb_spec.not_subscribed)
next
  case (Unsubscribe h)
  with unsubscribe_ok[OF assms(1), of h] show ?thesis by auto
next
  case Handle
  with handle_ok[OF assms(1)] show ?thesis by auto
qed

lemma run_ok:
  assumes "nb_ok z" "list_all nb_op_ok ops"
  shows "\<exists>outs z'. nb_run ops z = Some (outs, z') \<and> nb_ok z' \<and> nb_spec_run (nb_abs z) ops outs (nb_abs z')"
  using assms
proof (induction ops arbitrary: z)
  case Nil
  then show ?case by (auto intro: nb_spec_run.finished)
next
  case (Cons op ops)
  from exec_ok[OF Cons.prems(1), of op] Cons.prems(2) obtain out z1 where
    e: "nb_exec op z = Some (out, z1)" "nb_ok z1" "nb_spec (nb_abs z) op out (nb_abs z1)" by auto
  from Cons.IH[OF e(2)] Cons.prems(2) obtain outs z' where
    "nb_run ops z1 = Some (outs, z')" "nb_ok z'" "nb_spec_run (nb_abs z1) ops outs (nb_abs z')" by auto
  with e show ?case by (auto intro: nb_spec_run.step)
qed

end

section \<open>Flushing the in-process transport\<close>

text \<open>A call without the time of receipt.\<close>

definition nb_view :: "nb_call \<Rightarrow> nat \<times> nat \<times> nat \<times> cstring \<times> u8 list" where
  "nb_view c = (case c of (i, cb, usr, m) \<Rightarrow> (i, cb, usr, msg_channel m, msg_buf m))"

lemma view_spec_calls: "map nb_view (spec_calls m (msg\<lparr>msg_utime := t\<rparr>)) = map nb_view (spec_calls m msg)"
  by (simp add: spec_calls_def nb_view_def comp_def cong: option.case_cong)

definition over_inproc :: "('e \<Rightarrow> u64 \<times> 'e) \<Rightarrow> zcm_msg_t list \<Rightarrow> 'e inproc zcm_nonblocking \<Rightarrow> bool" where
  "over_inproc utime ms z \<longleftrightarrow> nb_inv z \<and> trans_vtbl (nb_zt z) = inproc_methods utime \<and> in_msgs (trans_state (nb_zt z)) = ms"

lemma inproc_recv:
  assumes "over_inproc utime ms z"
  shows "case ms of
      [] \<Rightarrow> zcm_trans_recvmsg (nb_zt z) 0 = Some (ZCM_EAGAIN, None, nb_zt z)
    | m # ms' \<Rightarrow> \<exists>t zt. zcm_trans_recvmsg (nb_zt z) 0 = Some (ZCM_EOK, Some (m\<lparr>msg_utime := t\<rparr>), zt) \<and> over_inproc utime ms' (z\<lparr>nb_zt := zt\<rparr>)"
  using assms by (auto simp: over_inproc_def zcm_trans_recvmsg_def inproc_methods_def inproc_recvmsg_def split: list.splits prod.splits)

text \<open>The loop ends, and every queued message is dispatched, in order.\<close>

lemma flush_loop_inproc:
  assumes "over_inproc utime ms z"
  shows "\<exists>calls z'. flush_loop z = Some (calls, z') \<and> over_inproc utime [] z' \<and> nb_abs z' = nb_abs z
    \<and> map nb_view calls = concat (map (\<lambda>m. map nb_view (spec_calls (nb_abs z) m)) ms)"
  using assms
proof (induction ms arbitrary: z)
  case Nil
  from inproc_recv[OF Nil] Nil show ?case by (subst flush_loop.simps) simp
next
  case (Cons m ms)
  from inproc_recv[OF Cons.prems] obtain t zt where
    r: "zcm_trans_recvmsg (nb_zt z) 0 = Some (ZCM_EOK, Some (m\<lparr>msg_utime := t\<rparr>), zt)" "over_inproc utime ms (z\<lparr>nb_zt := zt\<rparr>)" by auto
  from Cons.IH[OF r(2)] obtain calls z' where
    l: "flush_loop (z\<lparr>nb_zt := zt\<rparr>) = Some (calls, z')" "over_inproc utime [] z'" "nb_abs z' = nb_abs z"
      "map nb_view calls = concat (map (\<lambda>m. map nb_view (spec_calls (nb_abs z) m)) ms)" by auto
  have "flush_loop z = Some (dispatch_message z (m\<lparr>msg_utime := t\<rparr>) @ calls, z')"
    using r(1) l(1) by (subst flush_loop.simps) simp
  moreover have "dispatch_message z (m\<lparr>msg_utime := t\<rparr>) = spec_calls (nb_abs z) (m\<lparr>msg_utime := t\<rparr>)"
    using Cons.prems by (intro dispatch_spec) (simp add: over_inproc_def)
  ultimately show ?case using l by (simp add: view_spec_calls)
qed

lemma flush_inproc:
  assumes "over_inproc utime ms z"
  shows "\<exists>calls z'. zcm_nonblocking_flush z = Some (calls, z') \<and> over_inproc utime [] z' \<and> nb_abs z' = nb_abs z
    \<and> map nb_view calls = concat (map (\<lambda>m. map nb_view (spec_calls (nb_abs z) m)) ms)"
proof -
  have "zcm_trans_update (nb_zt z) = Some (ZCM_EOK, nb_zt z)"
    using assms by (simp add: over_inproc_def zcm_trans_update_def inproc_methods_def inproc_update_def)
  with flush_loop_inproc[OF assms] show ?thesis by (simp add: zcm_nonblocking_flush_def)
qed

lemma publish_inproc:
  assumes "over_inproc utime ms z"
  shows "\<exists>rc z'. nb_exec (Publish (msg_channel m) (msg_buf m) (msg_utime m)) z = Some (Code rc, z') \<and> nb_abs z' = nb_abs z
    \<and> over_inproc utime (if inproc_msg_ok m then ms @ [m] else ms) z'"
  using assms by (cases m) (auto simp: over_inproc_def zcm_nonblocking_publish_def zcm_trans_sendmsg_def inproc_methods_def inproc_sendmsg_eq)

lemma publish_all_inproc:
  assumes "over_inproc utime ms z"
  shows "\<exists>outs z'. nb_run (map (\<lambda>m. Publish (msg_channel m) (msg_buf m) (msg_utime m)) ps) z = Some (outs, z') \<and> nb_abs z' = nb_abs z
    \<and> over_inproc utime (ms @ filter inproc_msg_ok ps) z'"
  using assms
proof (induction ps arbitrary: ms z)
  case (Cons m ps)
  from publish_inproc[OF Cons.prems, of m] obtain rc z1 where
    e: "nb_exec (Publish (msg_channel m) (msg_buf m) (msg_utime m)) z = Some (Code rc, z1)" "nb_abs z1 = nb_abs z"
      "over_inproc utime (if inproc_msg_ok m then ms @ [m] else ms) z1" by auto
  from Cons.IH[OF e(3)] e(1,2) show ?case by (auto split: if_splits)
qed simp

text \<open>A core that was created on an empty in-process transport and has only been subscribed to.\<close>

definition subscribes :: "nb_op \<Rightarrow> bool" where
  "subscribes op \<longleftrightarrow> (case op of Subscribe c cb usr \<Rightarrow> is_cstring c | Unsubscribe h \<Rightarrow> True | _ \<Rightarrow> False)"

definition nb_inproc_new :: "('e \<Rightarrow> u64 \<times> 'e) \<Rightarrow> 'e \<Rightarrow> nb_sub list \<Rightarrow> bool list \<Rightarrow> 'e inproc zcm_nonblocking" where
  "nb_inproc_new utime clock subs isRegex =
     the (snd (zcm_nonblocking_try_create (Some (subs, isRegex)) ZCM_NONBLOCKING
       \<lparr>trans_type = ZCM_NONBLOCKING, trans_vtbl = inproc_methods utime, trans_state = inproc_new False clock\<rparr>))"

lemma inproc_enable: "trans_vtbl zt = inproc_methods utime \<Longrightarrow> zcm_trans_recvmsg_enable zt c b = Some (ZCM_EOK, zt)"
  by (simp add: zcm_trans_recvmsg_enable_def inproc_methods_def inproc_recvmsg_enable_def)

lemma subscribe_loop_zt: "nb_zt (snd (subscribe_loop c cb usr i k z)) = nb_zt z"
  by (induction k arbitrary: i) (auto simp: Let_def)

lemma subscribes_zt:
  assumes "trans_vtbl (nb_zt z) = inproc_methods utime" "subscribes op" "nb_exec op z = Some (out, z')"
  shows "nb_zt z' = nb_zt z"
proof (cases op)
  case (Subscribe c cb usr)
  with assms inproc_enable[OF assms(1), of c True] subscribe_loop_zt[of c cb usr 0 ZCM_NONBLOCK_SUBS_MAX z] show ?thesis
    by (auto simp: zcm_nonblocking_subscribe_def split: prod.splits)
next
  case (Unsubscribe h)
  with assms inproc_enable[OF assms(1), of _ False] show ?thesis
    by (auto simp: zcm_nonblocking_unsubscribe_def Let_def split: if_splits)
qed (use assms in \<open>auto simp: subscribes_def\<close>)

lemma subscribes_inproc:
  assumes "over_inproc utime [] z" "list_all subscribes ops" "nb_run ops z = Some (outs, z')"
  shows "over_inproc utime [] z'"
  using assms
proof (induction ops arbitrary: z outs)
  case (Cons op ops)
  then obtain out z1 outs' where e: "nb_exec op z = Some (out, z1)" "nb_run ops z1 = Some (outs', z')"
    by (auto simp: bind_eq_Some_conv)
  have "inproc.nb_ok utime z" "nb_op_ok op" using Cons.prems(1,2)
    by (auto simp: inproc.nb_ok_def inproc.trans_ok_def over_inproc_def subscribes_def nb_op_ok_def split: nb_op.splits)
  with inproc.exec_ok[of utime z op] e(1) have "nb_inv z1" "trans_vtbl (nb_zt z1) = inproc_methods utime"
    by (auto simp: inproc.nb_ok_def inproc.trans_ok_def)
  moreover have "in_msgs (trans_state (nb_zt z1)) = []"
    using subscribes_zt[OF _ _ e(1)] Cons.prems(1,2) by (auto simp: over_inproc_def)
  ultimately show ?case using Cons.IH[OF _ _ e(2)] Cons.prems(2) by (simp add: over_inproc_def)
qed simp

section \<open>Properties\<close>



text \<open>
  Publish and subscribe within a process: after any subscriptions and unsubscriptions, a flush that follows the publication of any
  messages ends, and calls, for each published message in order that the transport accepts (all but those with too long a channel
  or too much data), exactly the handlers of the subscriptions that accept its channel, with its channel and data, once each.
\<close>

theorem inproc_publish_flush:
  assumes "length subs = ZCM_NONBLOCK_SUBS_MAX" "length isRegex = ZCM_NONBLOCK_SUBS_MAX" "list_all subscribes ops"
    "nb_run ops (nb_inproc_new utime clock subs isRegex) = Some (outs, z)"
  shows "\<exists>codes z1 calls z2. nb_run (map (\<lambda>m. Publish (msg_channel m) (msg_buf m) (msg_utime m)) ms) z = Some (codes, z1)
    \<and> zcm_nonblocking_flush z1 = Some (calls, z2)
    \<and> map nb_view calls = concat (map (\<lambda>m. map nb_view (spec_calls (nb_abs z) m)) (filter inproc_msg_ok ms))"
proof -
  let ?zt = "\<lparr>trans_type = ZCM_NONBLOCKING, trans_vtbl = inproc_methods utime, trans_state = inproc_new False clock\<rparr>"
  have "zcm_nonblocking_try_create (Some (subs, isRegex)) ZCM_NONBLOCKING ?zt = (ZCM_EOK, Some (nb_inproc_new utime clock subs isRegex))"
    by (simp add: nb_inproc_new_def zcm_nonblocking_try_create_def)
  from create_inv[OF this assms(1,2)] have "over_inproc utime [] (nb_inproc_new utime clock subs isRegex)"
    by (simp add: over_inproc_def inproc_new_def)
  from subscribes_inproc[OF this assms(3,4)] have "over_inproc utime [] z" .
  from publish_all_inproc[OF this, of ms] obtain codes z1 where
    p: "nb_run (map (\<lambda>m. Publish (msg_channel m) (msg_buf m) (msg_utime m)) ms) z = Some (codes, z1)" "nb_abs z1 = nb_abs z"
      "over_inproc utime (filter inproc_msg_ok ms) z1" by auto
  from flush_inproc[OF p(3)] p(1,2) show ?thesis by auto
qed

theorem inproc_publish_flush_witness:
  "\<exists>(z :: u64 inproc zcm_nonblocking) codes z1 calls z2. nb_run [Publish [65] [1] 0] z = Some (codes, z1) \<and> zcm_nonblocking_flush z1 = Some (calls, z2)
    \<and> map nb_view calls = [(0, 7, 8, [65], [1])]"
proof -
  let ?subs = "replicate 512 \<lparr>ns_channel = [], ns_callback = 0, ns_usr = 0\<rparr>" and ?rx = "replicate 512 False"
  let ?z = "nb_inproc_new (\<lambda>t. (t, t + 1)) (5 :: u64) ?subs ?rx" and ?m = "\<lparr>msg_utime = 0, msg_channel = [65], msg_buf = [1]\<rparr>"
  let ?s = "\<lparr>ns_channel = [65], ns_callback = 7, ns_usr = 8\<rparr>"
  let ?z1 = "?z\<lparr>nb_subs := ?subs[0 := ?s], nb_subIsRegex := ?rx[0 := False], nb_subInUse := (replicate 512 False)[0 := True], nb_subInUseEnd := 1\<rparr>"
  have M: "ZCM_NONBLOCK_SUBS_MAX = Suc 511" by (simp add: ZCM_NONBLOCK_SUBS_MAX_def)
  have nz: "trans_vtbl (nb_zt ?z) = inproc_methods (\<lambda>t. (t, t + 1))" by (simp add: nb_inproc_new_def zcm_nonblocking_try_create_def)
  have "subscribe_loop [65] 7 8 0 ZCM_NONBLOCK_SUBS_MAX ?z = (Some 0, ?z1)"
    unfolding M subscribe_loop.simps by (simp add: nb_inproc_new_def zcm_nonblocking_try_create_def ZCM_NONBLOCK_SUBS_MAX_def ZCM_CHANNEL_MAXLEN_def nb_isRegexChannel_def Let_def)
  then have r: "nb_run [Subscribe [65] 7 8] ?z = Some ([Handle_of (Some 0)], ?z1)"
    using inproc_enable[OF nz] by (simp add: zcm_nonblocking_subscribe_def)
  have abs: "nb_abs ?z1 = Map.empty(0 \<mapsto> ?s)"
    by (auto simp: nb_abs_def fun_eq_iff nth_list_update M)
  have up: "[0..<ZCM_NONBLOCK_SUBS_MAX] = 0 # [1..<ZCM_NONBLOCK_SUBS_MAX]" by (simp add: M upt_rec[of 0])
  have "filter (\<lambda>i. case (Map.empty(0 \<mapsto> ?s)) i of None \<Rightarrow> False | Some s \<Rightarrow> accepts s [65]) [1..<ZCM_NONBLOCK_SUBS_MAX] = []"
    by (auto simp: filter_empty_conv)
  then have "map nb_view (spec_calls (nb_abs ?z1) ?m) = [(0, 7, 8, [65], [1])]"
    unfolding abs spec_calls_def up by (simp add: nb_view_def accepts_def nb_isRegexChannel_def c_str_def ZCM_CHANNEL_MAXLEN_def)
  moreover have "inproc_msg_ok ?m" by (simp add: ZCM_CHANNEL_MAXLEN_def INPROC_MTU_def)
  moreover have "list_all subscribes [Subscribe [65] 7 8]" by (simp add: subscribes_def is_cstring_def)
  ultimately have "\<exists>codes z1 calls z2. nb_run [Publish [65] [1] 0] ?z1 = Some (codes, z1) \<and> zcm_nonblocking_flush z1 = Some (calls, z2)
      \<and> map nb_view calls = [(0, 7, 8, [65], [1])]"
    using inproc_publish_flush[OF _ _ _ r, of "[?m]"] by (simp add: ZCM_NONBLOCK_SUBS_MAX_def del: nb_run.simps)
  then show ?thesis by (rule exI[where x = ?z1])
qed

end
