(* ===== verification/Eventlog.thy ===== *)
theory Eventlog
  imports Zcm_Prelude
begin

text \<open>
  Event logs (\<^verbatim>\<open>zcm/eventlog.c\<close>, \<^verbatim>\<open>zcm/util/ioutils.h\<close>): records that start with a magic number, written one after the other and
  read forwards or backwards, with resynchronisation after damage. A file is its bytes, a position, whether writes go to its end,
  and the number of bytes that can still be written. Memory that is asked for is available; a size that overflows
  its \<^verbatim>\<open>int\<close> is a fault (\<open>None\<close>).
\<close>

section \<open>Files\<close>

record FILE =
  f_data :: "u8 list"
  f_pos :: nat
  f_append :: bool
  f_room :: nat

definition fgetc :: "FILE \<Rightarrow> u8 option \<times> FILE" where
  "fgetc f = (if f_pos f < length (f_data f) then (Some (f_data f ! f_pos f), f\<lparr>f_pos := f_pos f + 1\<rparr>) else (None, f))"

definition fread :: "nat \<Rightarrow> FILE \<Rightarrow> u8 list \<times> FILE" where
  "fread n f = (let bs = take n (drop (f_pos f) (f_data f)) in (bs, f\<lparr>f_pos := f_pos f + length bs\<rparr>))"

text \<open>Seeking before the start fails and leaves the position as it is.\<close>

definition fseek_cur :: "int \<Rightarrow> FILE \<Rightarrow> FILE" where
  "fseek_cur d f = (if int (f_pos f) + d < 0 then f else f\<lparr>f_pos := nat (int (f_pos f) + d)\<rparr>)"

definition fwrite :: "u8 list \<Rightarrow> FILE \<Rightarrow> nat \<times> FILE" where
  "fwrite bs f =
     (let bs = take (f_room f) bs;
          pos = (if f_append f then length (f_data f) else f_pos f);
          old = f_data f @ replicate (pos - length (f_data f)) 0
      in (length bs, f\<lparr>f_data := take pos old @ bs @ drop (pos + length bs) old, f_pos := pos + length bs, f_room := f_room f - length bs\<rparr>))"

section \<open>Numbers in files (ioutils.h)\<close>

definition fwrite32 :: "FILE \<Rightarrow> u32 \<Rightarrow> int \<times> FILE" where
  "fwrite32 f v = (let (n, f) = fwrite (bytes32 v) f in (if n = 4 then 0 else -1, f))"

definition fwrite64 :: "FILE \<Rightarrow> u64 \<Rightarrow> int \<times> FILE" where
  "fwrite64 f v = (let (r, f) = fwrite32 f (ucast (drop_bit 32 v)) in if r \<noteq> 0 then (-1, f) else fwrite32 f (ucast (v AND 0xffffffff)))"

definition fread32 :: "FILE \<Rightarrow> u32 option \<times> FILE" where
  "fread32 f = (let (bs, f) = fread 4 f in (if length bs = 4 then get32 bs else None, f))"

definition fread64 :: "FILE \<Rightarrow> u64 option \<times> FILE" where
  "fread64 f =
     (let (v1, f) = fread32 f
      in case v1 of
           None \<Rightarrow> (None, f)
         | Some v1 \<Rightarrow>
             (let (v2, f) = fread32 f
              in case v2 of
                   None \<Rightarrow> (None, f)
                 | Some v2 \<Rightarrow> (Some (push_bit 32 (scast v1) OR (scast v2 AND 0xffffffff)), f)))"

section \<open>Event logs\<close>

definition MAGIC :: u32 where "MAGIC = 0xEDA1DA01"

record zcm_eventlog_event_t =
  le_eventnum :: u64
  le_timestamp :: u64
  le_channellen :: u32
  le_datalen :: u32
  le_channel :: "u8 list"
  le_data :: "u8 list"

record zcm_eventlog_t =
  el_f :: FILE
  el_eventcount :: u64

text \<open>
  \<open>disk\<close> is the content of the file at the path, if there is one that can be read, and \<open>room\<close> what can be written to it, if it can be
  opened for writing. Any other mode than the three fails the assertion (\<open>None\<close>); a file that does not open gives no log.
\<close>

definition fopen :: "u8 list option \<Rightarrow> nat option \<Rightarrow> char \<Rightarrow> FILE option" where
  "fopen disk room mode =
     (if mode = CHR ''r'' then map_option (\<lambda>d. \<lparr>f_data = d, f_pos = 0, f_append = False, f_room = 0\<rparr>) disk
      else if mode = CHR ''w'' then map_option (\<lambda>n. \<lparr>f_data = [], f_pos = 0, f_append = False, f_room = n\<rparr>) room
      else map_option (\<lambda>n. let d = case_option [] id disk in \<lparr>f_data = d, f_pos = length d, f_append = True, f_room = n\<rparr>) room)"

definition zcm_eventlog_create :: "u8 list option \<Rightarrow> nat option \<Rightarrow> string \<Rightarrow> zcm_eventlog_t option option" where
  "zcm_eventlog_create disk room mode =
     (if mode \<noteq> ''r'' \<and> mode \<noteq> ''w'' \<and> mode \<noteq> ''a'' then None
      else Some (map_option (\<lambda>f. \<lparr>el_f = f, el_eventcount = 0\<rparr>) (fopen disk room (hd mode))))"

function sync_loop :: "u32 \<Rightarrow> FILE \<Rightarrow> bool \<times> FILE" where
  "sync_loop magic f =
     (case fgetc f of
        (None, f) \<Rightarrow> (False, f)
      | (Some r, f) \<Rightarrow>
          (let magic = push_bit 8 magic OR ucast r in if magic = MAGIC then (True, f) else sync_loop magic f))"
  by pat_completeness auto
termination
  by (relation "measure (\<lambda>(magic, f). length (f_data f) - f_pos f)") (auto simp: fgetc_def split: if_splits)

definition sync_stream :: "FILE \<Rightarrow> bool \<times> FILE" where
  "sync_stream f = sync_loop 0 f"

text \<open>The result is that of the C function: \<open>-1\<close> at the start of the file, \<open>1\<close> when a byte cannot be read, \<open>0\<close> when found.\<close>

function sync_back_loop :: "u32 \<Rightarrow> FILE \<Rightarrow> int \<times> FILE" where
  "sync_back_loop magic f =
     (if f_pos f < 2 then (-1, f)
      else case fgetc (fseek_cur (-2) f) of
          (None, f) \<Rightarrow> (1, f)
        | (Some r, f) \<Rightarrow>
            (let magic = (drop_bit 8 magic AND 0x00ffffff) OR (push_bit 24 (ucast r) AND 0xff000000)
             in if magic = MAGIC then (0, fseek_cur 3 f) else sync_back_loop magic f))"
  by pat_completeness auto
termination
  by (relation "measure (\<lambda>(magic, f). f_pos f)") (auto simp: fgetc_def fseek_cur_def split: if_splits)

definition sync_stream_backwards :: "FILE \<Rightarrow> int \<times> FILE" where
  "sync_stream_backwards f = sync_back_loop 0 f"

text \<open>\<^verbatim>\<open>zcm_event_read_helper\<close> up to the label \<^verbatim>\<open>done\<close>. \<^verbatim>\<open>le->datalen+1\<close> is an \<^verbatim>\<open>int\<close>.\<close>

definition read_fields :: "FILE \<Rightarrow> zcm_eventlog_event_t option \<times> FILE" where
  "read_fields f =
     (case fread64 f of
        (None, f) \<Rightarrow> (None, f)
      | (Some eventnum, f) \<Rightarrow>
     (case fread64 f of
        (None, f) \<Rightarrow> (None, f)
      | (Some timestamp, f) \<Rightarrow>
     (case fread32 f of
        (None, f) \<Rightarrow> (None, f)
      | (Some channellen, f) \<Rightarrow>
     (case fread32 f of
        (None, f) \<Rightarrow> (None, f)
      | (Some datalen, f) \<Rightarrow>
          (Some \<lparr>le_eventnum = eventnum, le_timestamp = timestamp, le_channellen = channellen, le_datalen = datalen,
                 le_channel = [], le_data = []\<rparr>, f)))))"

definition read_payload :: "zcm_eventlog_event_t \<Rightarrow> FILE \<Rightarrow> (zcm_eventlog_event_t option \<times> FILE) option" where
  "read_payload le f =
     (if sint (le_channellen le) \<le> 0 \<or> sint (le_channellen le) \<ge> 1000 then Some (None, f)
      else if sint (le_datalen le) < 0 then Some (None, f)
      else let (channel, f) = fread (unat (le_channellen le)) f
           in if length channel \<noteq> unat (le_channellen le) then Some (None, f)
              else if sint (le_datalen le) + 1 \<ge> 2 ^ 31 then None
              else let (data, f) = fread (unat (le_datalen le)) f
                   in if length data \<noteq> unat (le_datalen le) then Some (None, f)
                      else case fread32 f of
                          (None, f) \<Rightarrow> Some (Some (le\<lparr>le_channel := channel, le_data := data\<rparr>), f)
                        | (Some next_magic, f) \<Rightarrow>
                            if next_magic \<noteq> MAGIC then Some (None, f)
                            else Some (Some (le\<lparr>le_channel := channel, le_data := data\<rparr>), fseek_cur (-4) f))"

definition zcm_event_read_helper :: "bool \<Rightarrow> FILE \<Rightarrow> (zcm_eventlog_event_t option \<times> FILE) option" where
  "zcm_event_read_helper rewindWhenDone f0 =
     do {
       (le, f) \<leftarrow> (case read_fields f0 of (None, f) \<Rightarrow> Some (None, f) | (Some le, f) \<Rightarrow> read_payload le f);
       let numRead = int (f_pos f) - int (f_pos f0);
       Some (le, if rewindWhenDone then fseek_cur (- (numRead + 4)) f else if le = None then fseek_cur (- numRead) f else f)
     }"

section \<open>The loops make progress\<close>

lemma sync_loop_progress:
  "sync_loop magic f = (r, f') \<Longrightarrow> f_data f' = f_data f \<and> f_pos f \<le> f_pos f' \<and> (r \<longrightarrow> f_pos f < f_pos f' \<and> f_pos f' \<le> length (f_data f))"
proof (induction magic f rule: sync_loop.induct)
  case (1 magic f)
  show ?case
  proof (cases "f_pos f < length (f_data f)")
    case True
    let ?f = "f\<lparr>f_pos := f_pos f + 1\<rparr>" and ?m = "push_bit 8 magic OR ucast (f_data f ! f_pos f)"
    have g: "fgetc f = (Some (f_data f ! f_pos f), ?f)" using True by (simp add: fgetc_def)
    show ?thesis
    proof (cases "?m = MAGIC")
      case m: True
      with 1(2) g True show ?thesis by (subst (asm) sync_loop.simps) auto
    next
      case False
      with 1(2) g have "sync_loop ?m ?f = (r, f')" by (subst (asm) sync_loop.simps) simp
      from 1(1)[OF g[symmetric] refl refl False this] show ?thesis by auto
    qed
  next
    case False
    then have "fgetc f = (None, f)" by (simp add: fgetc_def)
    with 1(2) show ?thesis by (subst (asm) sync_loop.simps) simp
  qed
qed

declare sync_loop.simps [simp del] sync_back_loop.simps [simp del]

lemma fread_pos: "fread n f = (bs, f') \<Longrightarrow> f_data f' = f_data f \<and> f_pos f \<le> f_pos f'"
  by (auto simp: fread_def Let_def)

lemma fread32_pos: "fread32 f = (v, f') \<Longrightarrow> f_data f' = f_data f \<and> f_pos f \<le> f_pos f'"
  using fread_pos by (auto simp: fread32_def split: prod.splits)

lemma fread64_pos: "fread64 f = (v, f') \<Longrightarrow> f_data f' = f_data f \<and> f_pos f \<le> f_pos f'"
  by (auto simp: fread64_def split: prod.splits option.splits dest!: fread32_pos)

lemma read_fields_pos: "read_fields f = (v, f') \<Longrightarrow> f_data f' = f_data f \<and> f_pos f \<le> f_pos f'"
  by (auto simp: read_fields_def split: prod.splits option.splits dest!: fread32_pos fread64_pos)

lemma fread32_Some_pos: "fread32 f = (Some v, f') \<Longrightarrow> f_pos f' = f_pos f + 4 \<and> f_data f' = f_data f"
  by (auto simp: fread32_def fread_def Let_def split: if_splits)

lemma read_payload_pos: "read_payload le f = Some (v, f') \<Longrightarrow> f_data f' = f_data f \<and> f_pos f \<le> f_pos f'"
  unfolding read_payload_def
  by (auto simp: Let_def fseek_cur_def split: prod.splits option.splits if_splits dest!: fread32_pos fread32_Some_pos fread_pos)

text \<open>A helper call that finds no event leaves the position where it was.\<close>

lemma helper_pos:
  assumes "zcm_event_read_helper False f = Some (le, f')"
  shows "f_data f' = f_data f \<and> f_pos f \<le> f_pos f' \<and> (le = None \<longrightarrow> f_pos f' = f_pos f)"
proof -
  from assms obtain f1 where f1: "(case read_fields f of (None, f) \<Rightarrow> Some (None, f) | (Some le, f) \<Rightarrow> read_payload le f) = Some (le, f1)"
    "f' = (if le = None then fseek_cur (- (int (f_pos f1) - int (f_pos f))) f1 else f1)"
    by (auto simp: zcm_event_read_helper_def bind_eq_Some_conv Let_def)
  have "f_data f1 = f_data f \<and> f_pos f \<le> f_pos f1"
    using f1(1) by (fastforce split: prod.splits option.splits dest!: read_fields_pos read_payload_pos)
  with f1(2) show ?thesis by (auto simp: fseek_cur_def)
qed

function read_next_loop :: "FILE \<Rightarrow> (zcm_eventlog_event_t option \<times> FILE) option" where
  "read_next_loop f =
     (case sync_stream f of
        (False, f) \<Rightarrow> Some (None, f)
      | (True, f) \<Rightarrow>
          (case zcm_event_read_helper False f of
             None \<Rightarrow> None
           | Some (Some le, f) \<Rightarrow> Some (Some le, f)
           | Some (None, f) \<Rightarrow> read_next_loop f))"
  by pat_completeness auto
termination
  by (relation "measure (\<lambda>f. length (f_data f) - f_pos f)")
    (fastforce simp: sync_stream_def dest!: sync_loop_progress[OF sym] helper_pos)+

definition zcm_eventlog_read_next_event :: "zcm_eventlog_t \<Rightarrow> (zcm_eventlog_event_t option \<times> zcm_eventlog_t) option" where
  "zcm_eventlog_read_next_event l = map_option (\<lambda>(le, f). (le, l\<lparr>el_f := f\<rparr>)) (read_next_loop (el_f l))"

definition zcm_eventlog_read_event_at_offset :: "zcm_eventlog_t \<Rightarrow> nat \<Rightarrow> (zcm_eventlog_event_t option \<times> zcm_eventlog_t) option" where
  "zcm_eventlog_read_event_at_offset l offset =
     map_option (\<lambda>(le, f). (le, l\<lparr>el_f := f\<rparr>)) (read_next_loop ((el_f l)\<lparr>f_pos := offset\<rparr>))"

text \<open>Backwards: a helper call rewinds to the first byte of the magic number, which precedes the position it is called at.\<close>

lemma sync_back_unfold:
  "sync_back_loop magic f =
     (if f_pos f < 2 then (-1, f)
      else if length (f_data f) \<le> f_pos f - 2 then (1, f\<lparr>f_pos := f_pos f - 2\<rparr>)
      else let m = (drop_bit 8 magic AND 0x00ffffff) OR (push_bit 24 (ucast (f_data f ! (f_pos f - 2))) AND 0xff000000)
           in if m = MAGIC then (0, f\<lparr>f_pos := f_pos f + 2\<rparr>) else sync_back_loop m (f\<lparr>f_pos := f_pos f - 1\<rparr>))"
proof (cases "f_pos f < 2")
  case False
  then obtain p where p: "f_pos f = Suc (Suc p)" by (metis add_2_eq_Suc le_Suc_ex not_less)
  then have seek: "fseek_cur (-2) f = f\<lparr>f_pos := p\<rparr>" "fseek_cur 3 (f\<lparr>f_pos := Suc p\<rparr>) = f\<lparr>f_pos := f_pos f + 2\<rparr>"
    by (simp_all add: fseek_cur_def nat_add_distrib)
  show ?thesis
  proof (cases "length (f_data f) \<le> p")
    case True
    with p seek show ?thesis by (subst sync_back_loop.simps) (simp add: fgetc_def)
  next
    case less: False
    then have "fgetc (f\<lparr>f_pos := p\<rparr>) = (Some (f_data f ! p), f\<lparr>f_pos := Suc p\<rparr>)" by (simp add: fgetc_def)
    with p seek less show ?thesis by (subst sync_back_loop.simps) (simp add: Let_def)
  qed
qed (subst sync_back_loop.simps, simp)

lemma sync_back_progress:
  "sync_back_loop magic f = (r, f') \<Longrightarrow> f_data f' = f_data f
     \<and> (r < 0 \<or> r = 1 \<and> f_pos f' + 2 \<le> f_pos f \<and> length (f_data f) \<le> f_pos f' \<or> r = 0 \<and> 4 \<le> f_pos f' \<and> f_pos f' \<le> f_pos f + 2)"
proof (induction "f_pos f" arbitrary: magic f rule: less_induct)
  case less
  let ?m = "(drop_bit 8 magic AND 0x00ffffff) OR (push_bit 24 (ucast (f_data f ! (f_pos f - 2))) AND 0xff000000)"
  show ?case
  proof (cases "f_pos f < 2 \<or> length (f_data f) \<le> f_pos f - 2 \<or> ?m = MAGIC")
    case True
    with less.prems show ?thesis by (subst (asm) sync_back_unfold) (auto simp: Let_def split: if_splits)
  next
    case False
    then have "sync_back_loop ?m (f\<lparr>f_pos := f_pos f - 1\<rparr>) = (r, f')" using less.prems by (subst (asm) sync_back_unfold) (simp add: Let_def)
    from less.hyps[OF _ this] False show ?thesis by auto
  qed
qed

lemma helper_rewind:
  assumes "zcm_event_read_helper True f = Some (le, f')" "4 \<le> f_pos f \<or> length (f_data f) \<le> f_pos f"
  shows "f_data f' = f_data f \<and> (f_pos f' + 4 = f_pos f \<or> f_pos f < 4 \<and> f' = f)"
proof -
  from assms(1) obtain f1 where f1: "(case read_fields f of (None, f) \<Rightarrow> Some (None, f) | (Some le, f) \<Rightarrow> read_payload le f) = Some (le, f1)"
    "f' = fseek_cur (- (int (f_pos f1) - int (f_pos f) + 4)) f1"
    by (auto simp: zcm_event_read_helper_def bind_eq_Some_conv Let_def)
  have p: "f_data f1 = f_data f \<and> f_pos f \<le> f_pos f1"
    using f1(1) by (fastforce split: prod.splits option.splits dest!: read_fields_pos read_payload_pos)
  show ?thesis
  proof (cases "4 \<le> f_pos f")
    case True
    with p f1(2) show ?thesis by (auto simp: fseek_cur_def)
  next
    case False
    with assms(2) have "read_fields f = (None, f)" by (simp add: read_fields_def fread64_def fread32_def fread_def)
    with f1 False show ?thesis by (auto simp: fseek_cur_def)
  qed
qed

function read_prev_loop :: "FILE \<Rightarrow> (zcm_eventlog_event_t option \<times> FILE) option" where
  "read_prev_loop f =
     (case sync_stream_backwards f of
        (r, f) \<Rightarrow>
          if r < 0 then Some (None, f)
          else case zcm_event_read_helper True f of
              None \<Rightarrow> None
            | Some (Some le, f) \<Rightarrow> Some (Some le, f)
            | Some (None, f) \<Rightarrow> read_prev_loop f)"
  by pat_completeness auto
termination
  by (relation "measure f_pos")
    (fastforce simp: sync_stream_backwards_def dest!: sync_back_progress[OF sym] helper_rewind)+

declare read_next_loop.simps [simp del] read_prev_loop.simps [simp del]

definition zcm_eventlog_read_prev_event :: "zcm_eventlog_t \<Rightarrow> (zcm_eventlog_event_t option \<times> zcm_eventlog_t) option" where
  "zcm_eventlog_read_prev_event l = map_option (\<lambda>(le, f). (le, l\<lparr>el_f := f\<rparr>)) (read_prev_loop (el_f l))"

text \<open>
  Writing. The lengths are converted to \<^verbatim>\<open>size_t\<close>, so a negative one reads past the end of the buffer; each step stops
  with \<open>-1\<close> when not everything could be written.
\<close>

definition zcm_eventlog_write_event :: "zcm_eventlog_t \<Rightarrow> zcm_eventlog_event_t \<Rightarrow> (int \<times> zcm_eventlog_t) option" where
  "zcm_eventlog_write_event l le =
     (let (r, f) = fwrite32 (el_f l) MAGIC in if r \<noteq> 0 then Some (-1, l\<lparr>el_f := f\<rparr>)
      else let (r, f) = fwrite64 f (el_eventcount l) in if r \<noteq> 0 then Some (-1, l\<lparr>el_f := f\<rparr>)
      else let (r, f) = fwrite64 f (le_timestamp le) in if r \<noteq> 0 then Some (-1, l\<lparr>el_f := f\<rparr>)
      else let (r, f) = fwrite32 f (le_channellen le) in if r \<noteq> 0 then Some (-1, l\<lparr>el_f := f\<rparr>)
      else let (r, f) = fwrite32 f (le_datalen le) in if r \<noteq> 0 then Some (-1, l\<lparr>el_f := f\<rparr>)
      else if sint (le_channellen le) < 0 then None
      else do {
        channel \<leftarrow> mem_slice (le_channel le) 0 (unat (le_channellen le));
        let (n, f) = fwrite channel f;
        if n \<noteq> unat (le_channellen le) then Some (-1, l\<lparr>el_f := f\<rparr>)
        else if sint (le_datalen le) < 0 then None
        else do {
          data \<leftarrow> mem_slice (le_data le) 0 (unat (le_datalen le));
          let (n, f) = fwrite data f;
          if n \<noteq> unat (le_datalen le) then Some (-1, l\<lparr>el_f := f\<rparr>)
          else Some (0, \<lparr>el_f = f, el_eventcount = el_eventcount l + 1\<rparr>)
        }
      })"

end
