(* ===== verification/Eventlog_Props.thy ===== *)
theory Eventlog_Props
  imports Eventlog
begin

text \<open>
  What the reader of an event log finds: exactly the first complete record at or after its position, whatever precedes it, so that a
  log that was written is read back in order, forwards and backwards.
\<close>

section \<open>The bytes of a record\<close>

definition bytes64 :: "u64 \<Rightarrow> u8 list" where
  "bytes64 v = bytes32 (ucast (drop_bit 32 v)) @ bytes32 (ucast v)"

definition head_bytes :: "zcm_eventlog_event_t \<Rightarrow> u8 list" where
  "head_bytes le = bytes64 (le_eventnum le) @ bytes64 (le_timestamp le) @ bytes32 (le_channellen le) @ bytes32 (le_datalen le)"

definition event_bytes :: "zcm_eventlog_event_t \<Rightarrow> u8 list" where
  "event_bytes le = bytes32 MAGIC @ head_bytes le @ le_channel le @ le_data le"

definition event_ok :: "zcm_eventlog_event_t \<Rightarrow> bool" where
  "event_ok le \<longleftrightarrow> 0 < length (le_channel le) \<and> length (le_channel le) < 1000 \<and> length (le_data le) < 2 ^ 31 - 1
     \<and> le_channellen le = of_nat (length (le_channel le)) \<and> le_datalen le = of_nat (length (le_data le))"

text \<open>A complete record at an offset, followed by the next one or by the end of the file.\<close>

definition ends_ok :: "u8 list \<Rightarrow> bool" where
  "ends_ok rest \<longleftrightarrow> length rest < 4 \<or> take 4 rest = bytes32 MAGIC"

definition event_at :: "u8 list \<Rightarrow> nat \<Rightarrow> zcm_eventlog_event_t \<Rightarrow> bool" where
  "event_at d q le \<longleftrightarrow> event_ok le \<and> (\<exists>rest. drop q d = event_bytes le @ rest \<and> ends_ok rest)"

lemma length_head [simp]: "length (head_bytes le) = 24" "length (bytes64 v) = 8"
  by (simp_all add: head_bytes_def bytes64_def)

section \<open>Reading numbers\<close>

abbreviation frest :: "FILE \<Rightarrow> u8 list" where "frest f \<equiv> drop (f_pos f) (f_data f)"
abbreviation advance :: "nat \<Rightarrow> FILE \<Rightarrow> FILE" where "advance n f \<equiv> f\<lparr>f_pos := f_pos f + n\<rparr>"

lemma get32_iff: "get32 xs = Some v \<longleftrightarrow> (\<exists>r. xs = bytes32 v @ r)"
proof
  assume "get32 xs = Some v"
  then show "\<exists>r. xs = bytes32 v @ r" by (cases xs rule: get32.cases) (auto simp: bytes32_def be32_byte)
qed auto

lemma frest_advance: "frest f = xs @ r \<Longrightarrow> length xs = n \<Longrightarrow> frest (advance n f) = r"
  by (metis (no_types, lifting) FILE.select_convs(1,2) FILE.simps(6) FILE.simps(9) add.commute append_eq_conv_conj drop_drop FILE.surjective FILE.update_convs(2))

lemma fread_append: "frest f = xs @ r \<Longrightarrow> length xs = n \<Longrightarrow> fread n f = (xs, advance n f)"
  by (auto simp: fread_def Let_def)

lemma fread32_bytes: "frest f = bytes32 v @ r \<Longrightarrow> fread32 f = (Some v, advance 4 f)"
  using fread_append[of f "bytes32 v" r 4] get32_bytes[of v "[]"] by (simp add: fread32_def)

lemma fread32_SomeD: "fread32 f = (Some v, f') \<Longrightarrow> f' = advance 4 f \<and> frest f = bytes32 v @ frest f'"
proof -
  assume a: "fread32 f = (Some v, f')"
  then have t: "length (take 4 (frest f)) = 4" "get32 (take 4 (frest f)) = Some v" "f' = advance 4 f"
    by (auto simp: fread32_def fread_def Let_def split: if_splits)
  then obtain r where r: "take 4 (frest f) = bytes32 v @ r" by (auto simp: get32_iff)
  with t(1) have "length (bytes32 v @ r) = 4" by simp
  with r have "take 4 (frest f) = bytes32 v" by simp
  then have "frest f = bytes32 v @ drop 4 (frest f)" by (metis append_take_drop_id)
  with t(3) show ?thesis by (simp add: add.commute)
qed

lemma scast_64: "push_bit 32 (scast (ucast (drop_bit 32 v) :: u32)) OR (scast (ucast v :: u32) AND 0xffffffff) = (v :: u64)"
proof -
  have m: "(0xffffffff :: u64) = mask 32" by (simp add: mask_eq_exp_minus_1)
  show ?thesis unfolding m
  proof (rule bit_word_eqI)
    fix n assume n: "n < LENGTH(64)"
    show "bit (push_bit 32 (scast (ucast (drop_bit 32 v) :: u32)) OR (scast (ucast v :: u32) AND mask 32) :: u64) n = bit v n"
      using n by (cases "n < 32") (auto simp: bit_simps not_less)
  qed
qed

lemma fread64_bytes: "frest f = bytes64 v @ r \<Longrightarrow> fread64 f = (Some v, advance 8 f)"
proof -
  assume a: "frest f = bytes64 v @ r"
  then have 1: "fread32 f = (Some (ucast (drop_bit 32 v)), advance 4 f)" by (intro fread32_bytes) (simp add: bytes64_def)
  have "frest (advance 4 f) = bytes32 (ucast v) @ r" using a by (intro frest_advance[of f "bytes32 (ucast (drop_bit 32 v))"]) (simp_all add: bytes64_def)
  from fread32_bytes[OF this] 1 show ?thesis by (simp add: fread64_def scast_64)
qed

lemma bytes64_of: "bytes64 (push_bit 32 (scast a) OR (scast b AND 0xffffffff)) = bytes32 a @ bytes32 b"
proof -
  let ?v = "push_bit 32 (scast a) OR (scast b AND 0xffffffff) :: u64"
  have m: "(0xffffffff :: u64) = mask 32" by (simp add: mask_eq_exp_minus_1)
  have "ucast (drop_bit 32 ?v) = a" "ucast ?v = b" unfolding m by (rule bit_word_eqI, force simp: bit_simps)+
  then show ?thesis by (simp add: bytes64_def)
qed

lemma fread64_SomeD: "fread64 f = (Some v, f') \<Longrightarrow> f' = advance 8 f \<and> frest f = bytes64 v @ frest f'"
proof -
  assume "fread64 f = (Some v, f')"
  then obtain a f1 b where ab: "fread32 f = (Some a, f1)" "fread32 f1 = (Some b, f')" "v = push_bit 32 (scast a) OR (scast b AND 0xffffffff)"
    by (auto simp: fread64_def split: prod.splits option.splits)
  from fread32_SomeD[OF ab(1)] fread32_SomeD[OF ab(2)] show ?thesis by (simp add: ab(3) bytes64_of)
qed

section \<open>Reading a record\<close>

abbreviation bare :: "zcm_eventlog_event_t \<Rightarrow> zcm_eventlog_event_t" where "bare le \<equiv> le\<lparr>le_channel := [], le_data := []\<rparr>"

lemma read_fields_bytes: "frest f = head_bytes le @ r \<Longrightarrow> read_fields f = (Some (bare le), advance 24 f)"
proof -
  assume a: "frest f = head_bytes le @ r"
  have 1: "fread64 f = (Some (le_eventnum le), advance 8 f)" using a by (intro fread64_bytes) (simp add: head_bytes_def)
  have f1: "frest (advance 8 f) = bytes64 (le_timestamp le) @ bytes32 (le_channellen le) @ bytes32 (le_datalen le) @ r"
    using a by (intro frest_advance) (auto simp: head_bytes_def)
  from fread64_bytes[OF f1] have 2: "fread64 (advance 8 f) = (Some (le_timestamp le), advance 16 f)" by simp
  have f2: "frest (advance 16 f) = bytes32 (le_channellen le) @ bytes32 (le_datalen le) @ r"
    using frest_advance[OF f1, of 8] by (simp add: add.commute)
  from fread32_bytes[OF f2] have 3: "fread32 (advance 16 f) = (Some (le_channellen le), advance 20 f)" by simp
  have f3: "frest (advance 20 f) = bytes32 (le_datalen le) @ r" using frest_advance[OF f2, of 4] by (simp add: add.commute)
  from fread32_bytes[OF f3] have 4: "fread32 (advance 20 f) = (Some (le_datalen le), advance 24 f)" by simp
  from 1 2 3 4 show ?thesis by (cases le) (simp add: read_fields_def)
qed

lemma read_fields_SomeD: "read_fields f = (Some le, f') \<Longrightarrow> f' = advance 24 f \<and> frest f = head_bytes le @ frest f' \<and> le = bare le"
proof -
  assume "read_fields f = (Some le, f')"
  then obtain n t c d f1 f2 f3 where r: "fread64 f = (Some n, f1)" "fread64 f1 = (Some t, f2)" "fread32 f2 = (Some c, f3)" "fread32 f3 = (Some d, f')"
    "le = \<lparr>le_eventnum = n, le_timestamp = t, le_channellen = c, le_datalen = d, le_channel = [], le_data = []\<rparr>"
    by (auto simp: read_fields_def split: prod.splits option.splits)
  from fread64_SomeD[OF r(1)] fread64_SomeD[OF r(2)] fread32_SomeD[OF r(3)] fread32_SomeD[OF r(4)] r(5) show ?thesis
    by (simp add: head_bytes_def)
qed

lemma fread_exact:
  assumes "fread n f = (bs, f')" "length bs = n"
  shows "f' = advance n f \<and> frest f = bs @ frest f'"
proof -
  from assms(1) have "bs = take n (frest f)" "f' = advance (length bs) f" by (auto simp: fread_def Let_def)
  with assms(2) show ?thesis using append_take_drop_id[of n "frest f"] by (simp add: add.commute)
qed

lemma fread32_None: "fread32 f = (None, f') \<Longrightarrow> length (frest f) < 4 \<and> f' = advance (length (frest f)) f"
proof -
  assume a: "fread32 f = (None, f')"
  have "length (frest f) < 4"
  proof (rule ccontr)
    assume "\<not> length (frest f) < 4"
    then have "get32 (frest f) \<noteq> None" by (cases "frest f" rule: get32.cases) (auto dest: arg_cong[where f = length])
    then obtain v r where "frest f = bytes32 v @ r" by (auto simp: get32_iff)
    from fread32_bytes[OF this] a show False by simp
  qed
  with a show ?thesis by (auto simp: fread32_def fread_def Let_def split: if_splits)
qed

text \<open>What lies behind a record decides where the reader stops.\<close>

definition trailing :: "u8 list \<Rightarrow> nat" where "trailing rest = (if length rest < 4 then length rest else 0)"

lemma next_magic:
  assumes "frest f = rest"
  shows "(case fread32 f of (None, f) \<Rightarrow> (True, f) | (Some m, f) \<Rightarrow> (m = MAGIC, if m = MAGIC then fseek_cur (-4) f else f)) =
    (ends_ok rest, if ends_ok rest then advance (trailing rest) f else advance 4 f)"
proof (cases "fread32 f")
  case (Pair v f')
  show ?thesis
  proof (cases v)
    case None
    with Pair fread32_None[of f f'] assms show ?thesis by (simp add: ends_ok_def trailing_def)
  next
    case (Some m)
    with Pair fread32_SomeD[of f m f'] assms have m: "rest = bytes32 m @ frest f'" "f' = advance 4 f" by auto
    have "ends_ok rest \<longleftrightarrow> m = MAGIC"
    proof
      assume "ends_ok rest"
      then have "get32 (bytes32 m @ []) = get32 (bytes32 MAGIC @ [])" using m(1) by (simp add: ends_ok_def)
      then show "m = MAGIC" by (simp only: get32_bytes option.inject)
    qed (simp add: m(1) ends_ok_def)
    moreover have "fseek_cur (-4) f' = f" using m(2) by (simp add: fseek_cur_def)
    moreover have "trailing rest = 0" using m(1) by (simp add: trailing_def)
    ultimately show ?thesis using Pair Some m(2) by simp
  qed
qed

lemma read_payload_ok:
  assumes ok: "event_ok le" and f: "frest f = le_channel le @ le_data le @ rest" "ends_ok rest"
  shows "read_payload (bare le) f = Some (Some le, advance (length (le_channel le) + length (le_data le) + trailing rest) f)"
proof -
  let ?c = "length (le_channel le)" and ?d = "length (le_data le)"
  have len: "sint (le_channellen le) = int ?c" "unat (le_channellen le) = ?c" "sint (le_datalen le) = int ?d" "unat (le_datalen le) = ?d"
    using ok by (simp_all add: event_ok_def sint_of_nat_small unat_of_nat_small)
  have size: "0 < ?c" "?c < 1000" "?d < 2 ^ 31 - 1" using ok by (simp_all add: event_ok_def)
  have 1: "fread ?c f = (le_channel le, advance ?c f)" by (rule fread_append[OF f(1)]) simp
  have f1: "frest (advance ?c f) = le_data le @ rest" by (rule frest_advance[OF f(1)]) simp
  have 2: "fread ?d (advance ?c f) = (le_data le, advance (?c + ?d) f)" using fread_append[OF f1, of ?d] by simp
  have f2: "frest (advance (?c + ?d) f) = rest" using frest_advance[OF f1, of ?d] by (simp add: add.assoc)
  have le: "bare le\<lparr>le_channel := le_channel le, le_data := le_data le\<rparr> = le" by (cases le) simp
  show ?thesis
  proof (cases "fread32 (advance (?c + ?d) f)")
    case (Pair v f')
    from next_magic[OF f2] f(2) Pair have "(case v of None \<Rightarrow> (True, f') | Some m \<Rightarrow> (m = MAGIC, if m = MAGIC then fseek_cur (-4) f' else f'))
        = (True, advance (?c + ?d + trailing rest) f)" by (simp add: add.assoc)
    with size 1 2 Pair le show ?thesis by (cases v) (auto simp: read_payload_def len split: if_splits)
  qed
qed

lemma read_payload_SomeD:
  assumes "read_payload le0 f = Some (Some le, f')" "le0 = bare le0"
  shows "bare le = le0 \<and> event_ok le \<and> (\<exists>rest. frest f = le_channel le @ le_data le @ rest \<and> ends_ok rest)"
proof -
  from assms obtain f1 f2 where
    c: "fread (unat (le_channellen le0)) f = (le_channel le, f1)" "length (le_channel le) = unat (le_channellen le0)"
      "0 < sint (le_channellen le0)" "sint (le_channellen le0) < 1000"
    and d: "fread (unat (le_datalen le0)) f1 = (le_data le, f2)" "length (le_data le) = unat (le_datalen le0)"
      "0 \<le> sint (le_datalen le0)" "sint (le_datalen le0) + 1 < 2 ^ 31"
    and m: "case fread32 f2 of (None, f) \<Rightarrow> True | (Some m, f) \<Rightarrow> m = MAGIC" and le: "le = le0\<lparr>le_channel := le_channel le, le_data := le_data le\<rparr>"
    by (auto simp: read_payload_def Let_def split: prod.splits option.splits if_splits)
  from fread_exact[OF c(1,2)] fread_exact[OF d(1,2)] have r: "frest f = le_channel le @ le_data le @ frest f2" by simp
  have "fst (case fread32 f2 of (None, f) \<Rightarrow> (True, f) | (Some m, f) \<Rightarrow> (m = MAGIC, if m = MAGIC then fseek_cur (-4) f else f))"
    using m by (auto split: prod.splits option.splits)
  then have e: "ends_ok (frest f2)" unfolding next_magic[OF refl] by simp
  have b: "bare le = le0" using assms(2) by (subst le) (metis (no_types, lifting) le zcm_eventlog_event_t.update_convs(5,6) zcm_eventlog_event_t.surjective)
  have "unat (le_channellen le0) < 1000" "0 < unat (le_channellen le0)" using c(3,4) sint_nonneg(1)[of "le_channellen le0"] by linarith+
  moreover have "unat (le_datalen le0) < 2 ^ 31 - 1" using d(4) by (intro sint_less_unat[OF d(3)]) simp
  moreover have "le_channellen le = le_channellen le0" "le_datalen le = le_datalen le0" using le by (metis zcm_eventlog_event_t.ext_inject zcm_eventlog_event_t.surjective zcm_eventlog_event_t.update_convs(5,6))+
  ultimately have "event_ok le" using c(2) d(2) by (simp add: event_ok_def)
  with b r e show ?thesis by blast
qed

section \<open>Synchronising\<close>

definition magic_at :: "u8 list \<Rightarrow> nat \<Rightarrow> bool" where
  "magic_at d q \<longleftrightarrow> take 4 (drop q d) = bytes32 MAGIC"

lemma magic_bytes: "bytes32 MAGIC = [0xED, 0xA1, 0xDA, 0x01]"
  by (simp add: bytes32_def MAGIC_def)

lemma be32_magic: "be32 a b c e = MAGIC \<longleftrightarrow> [a, b, c, e] = bytes32 MAGIC"
proof
  assume "be32 a b c e = MAGIC"
  then have "bytes32 (be32 a b c e) = bytes32 MAGIC" by simp
  then show "[a, b, c, e] = bytes32 MAGIC" by (simp add: bytes32_def be32_byte)
next
  assume "[a, b, c, e] = bytes32 MAGIC"
  then have "get32 [a, b, c, e] = get32 (bytes32 MAGIC @ [])" by simp
  then show "be32 a b c e = MAGIC" by (simp only: get32_bytes) simp
qed

lemma be32_shift: "push_bit 8 (be32 a b c e) OR ucast x = be32 b c e x"
proof (rule bit_word_eqI)
  fix n assume "n < LENGTH(32)"
  then consider "n < 8" | "8 \<le> n" "n < 16" | "16 \<le> n" "n < 24" | "24 \<le> n" "n < 32" by fastforce
  then show "bit (push_bit 8 (be32 a b c e) OR ucast x) n = bit (be32 b c e x) n"
    by cases (auto simp: be32_def bit_simps)
qed

text \<open>The magic number is the window of the last four bytes.\<close>

lemma sync_window:
  assumes "sync_loop (be32 a b c e) f = (r, f')"
  defines "ys \<equiv> [a, b, c, e] @ frest f"
  shows "if r then \<exists>i \<ge> 1. take 4 (drop i ys) = bytes32 MAGIC \<and> (\<forall>j. 1 \<le> j \<and> j < i \<longrightarrow> take 4 (drop j ys) \<noteq> bytes32 MAGIC) \<and> f' = advance i f
    else \<forall>j \<ge> 1. take 4 (drop j ys) \<noteq> bytes32 MAGIC"
  using assms(1) unfolding ys_def
proof (induction "length (frest f)" arbitrary: a b c e f)
  case 0
  then have "frest f = []" by simp
  then have "sync_loop (be32 a b c e) f = (False, f)" by (subst sync_loop.simps) (simp add: fgetc_def)
  with 0 have "\<not> r" by simp
  moreover have "take 4 (drop j ([a, b, c, e] @ frest f)) \<noteq> bytes32 MAGIC" if "1 \<le> j" for j
    using that \<open>frest f = []\<close> by (auto simp: magic_bytes dest!: arg_cong[where f = length])
  ultimately show ?case by simp
next
  case (Suc n)
  then obtain x xs where x: "frest f = x # xs" by (cases "frest f") auto
  then have lt: "f_pos f < length (f_data f)" by (metis drop_eq_Nil2 list.distinct(1) not_le)
  have fx: "f_data f ! f_pos f = x" "frest (advance 1 f) = xs"
    using nth_via_drop[OF x] frest_advance[of f "[x]" xs 1] x by simp_all
  have g: "fgetc f = (Some x, advance 1 f)" using lt fx(1) by (simp add: fgetc_def)
  show ?case
  proof (cases "be32 b c e x = MAGIC")
    case True
    then have "r" "f' = advance 1 f" using Suc.prems g by (auto simp: sync_loop.simps[of _ f] be32_shift)
    moreover have "take 4 (drop 1 ([a, b, c, e] @ frest f)) = bytes32 MAGIC" using True x by (simp add: be32_magic)
    ultimately show ?thesis by (auto intro!: exI[of _ 1])
  next
    case False
    have "sync_loop (be32 b c e x) (advance 1 f) = (r, f')" using Suc.prems g False by (simp add: sync_loop.simps[of _ f] be32_shift)
    moreover have "n = length (frest (advance 1 f))" unfolding fx(2) using Suc.hyps(2) x by simp
    ultimately have
      IH: "if r then \<exists>i \<ge> 1. take 4 (drop i ([b, c, e, x] @ xs)) = bytes32 MAGIC
          \<and> (\<forall>j. 1 \<le> j \<and> j < i \<longrightarrow> take 4 (drop j ([b, c, e, x] @ xs)) \<noteq> bytes32 MAGIC) \<and> f' = advance i (advance 1 f)
        else \<forall>j \<ge> 1. take 4 (drop j ([b, c, e, x] @ xs)) \<noteq> bytes32 MAGIC"
      using Suc.hyps(1)[of "advance 1 f" b c e x] unfolding fx(2) by blast
    have d: "drop (Suc j) ([a, b, c, e] @ frest f) = drop j ([b, c, e, x] @ xs)" for j using x by simp
    have one: "take 4 (drop 1 ([a, b, c, e] @ frest f)) \<noteq> bytes32 MAGIC" using False x by (simp add: be32_magic)
    show ?thesis
    proof (cases r)
      case True
      with IH obtain i where i: "1 \<le> i" "take 4 (drop i ([b, c, e, x] @ xs)) = bytes32 MAGIC"
        "\<And>j. 1 \<le> j \<Longrightarrow> j < i \<Longrightarrow> take 4 (drop j ([b, c, e, x] @ xs)) \<noteq> bytes32 MAGIC" "f' = advance i (advance 1 f)" by auto
      have "take 4 (drop j ([a, b, c, e] @ frest f)) \<noteq> bytes32 MAGIC" if "1 \<le> j" "j < Suc i" for j
        using that one i(3) d[of "j - 1"] by (cases "j = 1") auto
      then show ?thesis using True i d[of i] by (auto intro!: exI[of _ "Suc i"])
    next
      case False
      have "take 4 (drop j ([a, b, c, e] @ frest f)) \<noteq> bytes32 MAGIC" if "1 \<le> j" for j
        using that one IH False d[of "j - 1"] by (cases "j = 1") auto
      then show ?thesis using False by simp
    qed
  qed
qed

lemma sync_stream_spec:
  assumes "sync_stream f = (r, f')"
  shows "if r then \<exists>q \<ge> f_pos f. magic_at (f_data f) q \<and> (\<forall>q'. f_pos f \<le> q' \<and> q' < q \<longrightarrow> \<not> magic_at (f_data f) q') \<and> f' = f\<lparr>f_pos := q + 4\<rparr>
    else \<forall>q \<ge> f_pos f. \<not> magic_at (f_data f) q"
proof -
  let ?ys = "[0, 0, 0, 0] @ frest f"
  have z: "be32 0 0 0 0 = 0" by (simp add: be32_def)
  have early: "take 4 (drop i ?ys) \<noteq> bytes32 MAGIC" if "i < 4" for i
  proof -
    have zs: "[0, 0, 0, 0] = replicate 4 (0 :: u8)" by (simp add: numeral_eq_Suc)
    have "drop i ?ys = 0 # drop (Suc i) ?ys" using that unfolding zs by (subst Cons_nth_drop_Suc[symmetric]) (simp_all add: nth_append)
    then show ?thesis by (simp add: magic_bytes)
  qed
  have late: "take 4 (drop (4 + k) ?ys) = bytes32 MAGIC \<longleftrightarrow> magic_at (f_data f) (f_pos f + k)" for k
  proof -
    have "drop (4 + k) ?ys = drop k (drop 4 ?ys)" by (simp only: drop_drop add.commute)
    also have "\<dots> = drop (f_pos f + k) (f_data f)" by (simp add: add.commute)
    finally show ?thesis by (simp only: magic_at_def)
  qed
  from sync_window[of 0 0 0 0 f r f'] assms z have w: "if r then \<exists>i \<ge> 1. take 4 (drop i ?ys) = bytes32 MAGIC
      \<and> (\<forall>j. 1 \<le> j \<and> j < i \<longrightarrow> take 4 (drop j ?ys) \<noteq> bytes32 MAGIC) \<and> f' = advance i f
    else \<forall>j \<ge> 1. take 4 (drop j ?ys) \<noteq> bytes32 MAGIC" by (simp add: sync_stream_def)
  show ?thesis
  proof (cases r)
    case True
    with w obtain i where i: "take 4 (drop i ?ys) = bytes32 MAGIC" "\<And>j. 1 \<le> j \<Longrightarrow> j < i \<Longrightarrow> take 4 (drop j ?ys) \<noteq> bytes32 MAGIC" "f' = advance i f" by auto
    then obtain k where k: "i = 4 + k" using early[of i] by (metis le_Suc_ex not_less)
    have "\<not> magic_at (f_data f) q'" if "f_pos f \<le> q'" "q' < f_pos f + k" for q'
      using that i(2)[of "4 + (q' - f_pos f)"] late[of "q' - f_pos f"] k by simp
    then show ?thesis using True i(1,3) late[of k] k by (auto intro!: exI[of _ "f_pos f + k"])
  next
    case False
    have "\<not> magic_at (f_data f) q" if "f_pos f \<le> q" for q
      using that w False late[of "q - f_pos f"] by auto
    then show ?thesis using False by simp
  qed
qed

section \<open>The reader finds the first record\<close>

text \<open>A header whose data length is the largest \<^verbatim>\<open>int\<close>.\<close>

definition huge_at :: "u8 list \<Rightarrow> nat \<Rightarrow> bool" where
  "huge_at d q \<longleftrightarrow> (\<exists>le r. drop q d = bytes32 MAGIC @ head_bytes le @ r \<and> le_datalen le = 0x7fffffff)"

lemma event_at_magic: "event_at d q le \<Longrightarrow> magic_at d q"
  by (auto simp: event_at_def magic_at_def event_bytes_def)

lemma magic_at_nth: "magic_at d q \<Longrightarrow> k < 4 \<Longrightarrow> d ! (q + k) = bytes32 MAGIC ! k"
proof -
  assume m: "magic_at d q" and k: "k < 4"
  then have "length (take 4 (drop q d)) = 4" by (simp add: magic_at_def)
  then have "take 4 (drop q d) ! k = d ! (q + k)" using k by (simp add: add.commute)
  with m show ?thesis by (simp add: magic_at_def)
qed

lemma magic_no_overlap: "magic_at d q \<Longrightarrow> magic_at d q' \<Longrightarrow> q \<le> q' \<Longrightarrow> q' = q \<or> q + 4 \<le> q'"
proof (rule ccontr)
  assume m: "magic_at d q" "magic_at d q'" "q \<le> q'" "\<not> (q' = q \<or> q + 4 \<le> q')"
  then obtain k where k: "q' = q + k" "k = 1 \<or> k = 2 \<or> k = 3" by (intro that[of "q' - q"]) linarith+
  have "bytes32 MAGIC ! k = bytes32 MAGIC ! 0"
    using magic_at_nth[OF m(1), of k] magic_at_nth[OF m(2), of 0] k by auto
  with k(2) show False by (auto simp: magic_bytes)
qed

text \<open>A helper call after the magic number at \<open>q\<close>.\<close>

lemma helper_event:
  assumes "event_at (f_data f) q le" "f_pos f = q + 4"
  shows "\<exists>rest. drop (q + length (event_bytes le)) (f_data f) = rest
    \<and> zcm_event_read_helper False f = Some (Some le, f\<lparr>f_pos := q + length (event_bytes le) + trailing rest\<rparr>)"
proof -
  from assms(1) obtain rest where r: "event_ok le" "drop q (f_data f) = event_bytes le @ rest" "ends_ok rest" by (auto simp: event_at_def)
  have "frest f = drop 4 (drop q (f_data f))" by (simp add: assms(2) add.commute)
  also have "\<dots> = head_bytes le @ le_channel le @ le_data le @ rest" unfolding r(2) by (simp add: event_bytes_def)
  finally have f: "frest f = head_bytes le @ le_channel le @ le_data le @ rest" .
  have "frest (advance 24 f) = le_channel le @ le_data le @ rest" by (rule frest_advance[OF f]) simp
  from read_payload_ok[OF r(1) this r(3)] read_fields_bytes[OF f] have
    "zcm_event_read_helper False f = Some (Some le, f\<lparr>f_pos := q + length (event_bytes le) + trailing rest\<rparr>)"
    by (simp add: zcm_event_read_helper_def assms(2) event_bytes_def add.assoc)
  moreover have "drop (q + length (event_bytes le)) (f_data f) = rest"
    using r(2) by (metis add.commute append_eq_conv_conj drop_drop)
  ultimately show ?thesis by blast
qed

lemma helper_eventD:
  assumes "zcm_event_read_helper b f = Some (Some le, f')" "f_pos f = q + 4" "magic_at (f_data f) q"
  shows "event_at (f_data f) q le"
proof -
  from assms(1) obtain le0 f1 f2 where h: "read_fields f = (Some le0, f1)" "read_payload le0 f1 = Some (Some le, f2)"
    by (auto simp: zcm_event_read_helper_def bind_eq_Some_conv Let_def split: prod.splits option.splits)
  from read_fields_SomeD[OF h(1)] read_payload_SomeD[OF h(2)] obtain rest where
    r: "frest f = head_bytes le0 @ le_channel le @ le_data le @ rest" "ends_ok rest" "bare le = le0" "event_ok le" by auto
  have "head_bytes le0 = head_bytes le" by (simp add: r(3)[symmetric] head_bytes_def)
  moreover have "drop q (f_data f) = bytes32 MAGIC @ frest f"
    using assms(2,3) append_take_drop_id[of 4 "drop q (f_data f)"] by (simp add: magic_at_def add.commute)
  ultimately show ?thesis using r by (auto simp: event_at_def event_bytes_def)
qed

lemma helper_fault:
  assumes "zcm_event_read_helper b f = None" "f_pos f = q + 4" "magic_at (f_data f) q"
  shows "huge_at (f_data f) q"
proof -
  from assms(1) obtain le f1 where h: "read_fields f = (Some le, f1)" "read_payload le f1 = None"
    by (auto simp: zcm_event_read_helper_def bind_eq_None_conv Let_def split: prod.splits option.splits)
  have d: "0 \<le> sint (le_datalen le)" "sint (le_datalen le) + 1 \<ge> 2 ^ 31"
    using h(2) by (auto simp: read_payload_def Let_def split: prod.splits option.splits if_splits)
  define n where "n = unat (le_datalen le)"
  have "int n = sint (le_datalen le)" "n < 2 ^ 31" using sint_nonneg[OF d(1)] by (simp_all only: n_def)
  with d(2) have "n = 0x7fffffff" by simp
  moreover have "le_datalen le = of_nat n" by (simp add: n_def)
  ultimately have "le_datalen le = 0x7fffffff" by simp
  moreover have "drop q (f_data f) = bytes32 MAGIC @ frest f"
    using assms(2,3) append_take_drop_id[of 4 "drop q (f_data f)"] by (simp add: magic_at_def add.commute)
  ultimately show ?thesis using read_fields_SomeD[OF h(1)] by (auto simp: huge_at_def)
qed

definition first_event :: "u8 list \<Rightarrow> nat \<Rightarrow> nat \<Rightarrow> zcm_eventlog_event_t \<Rightarrow> bool" where
  "first_event d p q le \<longleftrightarrow> p \<le> q \<and> event_at d q le \<and> (\<forall>q' le'. p \<le> q' \<and> q' < q \<longrightarrow> \<not> event_at d q' le')"

definition next_pos :: "u8 list \<Rightarrow> nat \<Rightarrow> zcm_eventlog_event_t \<Rightarrow> nat" where
  "next_pos d q le = q + length (event_bytes le) + trailing (drop (q + length (event_bytes le)) d)"

lemma read_next_unfold:
  "read_next_loop f = (if fst (sync_stream f) then
     (case zcm_event_read_helper False (snd (sync_stream f)) of None \<Rightarrow> None | Some (Some le, f) \<Rightarrow> Some (Some le, f) | Some (None, f) \<Rightarrow> read_next_loop f)
     else Some (None, snd (sync_stream f)))"
  by (subst read_next_loop.simps) (auto split: prod.splits bool.splits)

lemma read_next_spec:
  "case read_next_loop f of
     None \<Rightarrow> \<exists>q \<ge> f_pos f. huge_at (f_data f) q \<and> (\<forall>q' le. f_pos f \<le> q' \<and> q' < q \<longrightarrow> \<not> event_at (f_data f) q' le)
   | Some (None, f') \<Rightarrow> f_data f' = f_data f \<and> (\<forall>q le. f_pos f \<le> q \<longrightarrow> \<not> event_at (f_data f) q le)
   | Some (Some le, f') \<Rightarrow> \<exists>q. first_event (f_data f) (f_pos f) q le \<and> f_data f' = f_data f \<and> f_pos f' = next_pos (f_data f) q le"
proof (induction "length (f_data f) - f_pos f" arbitrary: f rule: less_induct)
  case less
  let ?d = "f_data f"
  obtain r f1 where s: "sync_stream f = (r, f1)" by fastforce
  note sp = sync_stream_spec[OF s]
  show ?case
  proof (cases r)
    case False
    with s have "read_next_loop f = Some (None, f1)" by (subst read_next_unfold) simp
    moreover have "f_data f1 = ?d" using s sync_loop_progress by (simp add: sync_stream_def)
    moreover have "\<not> event_at ?d q le" if "f_pos f \<le> q" for q le using sp False that event_at_magic by auto
    ultimately show ?thesis by simp
  next
    case True
    with sp obtain q where q: "f_pos f \<le> q" "magic_at ?d q" "\<And>q'. f_pos f \<le> q' \<Longrightarrow> q' < q \<Longrightarrow> \<not> magic_at ?d q'" "f1 = f\<lparr>f_pos := q + 4\<rparr>" by auto
    have before: "\<not> event_at ?d q' le" if "f_pos f \<le> q'" "q' < q" for q' le using q(3)[OF that] event_at_magic by blast
    have f1: "f_pos f1 = q + 4" "f_data f1 = ?d" using q(4) by simp_all
    show ?thesis
    proof (cases "zcm_event_read_helper False f1")
      case None
      with True s have "read_next_loop f = None" by (subst read_next_unfold) simp
      moreover have "huge_at ?d q" using helper_fault[OF None f1(1)] q(2) f1(2) by simp
      ultimately show ?thesis using q(1) before by auto
    next
      case (Some p)
      obtain le f2 where p: "p = (le, f2)" by (cases p)
      show ?thesis
      proof (cases le)
        case None
        have f2: "f_data f2 = ?d" "f_pos f2 = q + 4" using helper_pos[of f1 le f2] Some p None f1 by auto
        have same: "read_next_loop f = read_next_loop f2" using True s Some p None by (subst read_next_unfold) simp
        have "q + 4 \<le> length ?d" using q(2) by (auto simp: magic_at_def magic_bytes dest!: arg_cong[where f = length])
        then have "length (f_data f2) - f_pos f2 < length ?d - f_pos f" using f2 q(1) by simp
        note IH = less.hyps[OF this]
        have none: "\<not> event_at ?d q' le'" if "f_pos f \<le> q'" "q' < q + 4" for q' le'
        proof
          assume e: "event_at ?d q' le'"
          with before that(1) have "q \<le> q'" by (metis not_le)
          with magic_no_overlap[OF q(2) event_at_magic[OF e]] that(2) have "q' = q" by simp
          with helper_event[of f1 q le'] e f1 Some p None show False by auto
        qed
        have mono: "first_event ?d (q + 4) q' le' \<Longrightarrow> first_event ?d (f_pos f) q' le'" for q' le'
          using none q(1) by (force simp: first_event_def not_less)
        have ext: "\<forall>q' le'. q + 4 \<le> q' \<longrightarrow> \<not> event_at ?d q' le' \<Longrightarrow> \<not> event_at ?d q' le'" if "f_pos f \<le> q'" for q' le'
          using none[OF that] by (metis not_less)
        show ?thesis
        proof (cases "read_next_loop f2")
          case None
          with IH f2 obtain q' where q': "q + 4 \<le> q'" "huge_at ?d q'" "\<And>x le. q + 4 \<le> x \<Longrightarrow> x < q' \<Longrightarrow> \<not> event_at ?d x le" by auto
          have "\<not> event_at ?d x le" if "f_pos f \<le> x" "x < q'" for x le using none[OF that(1)] q'(3)[OF _ that(2)] by (metis not_less)
          with q(1) q'(1,2) None same show ?thesis by (auto intro!: exI[of _ q'])
        next
          case (Some x)
          obtain le' f3 where x: "x = (le', f3)" by (cases x)
          show ?thesis
          proof (cases le')
            case None
            with IH f2 Some x have "f_data f3 = ?d" "\<forall>q' le'. q + 4 \<le> q' \<longrightarrow> \<not> event_at ?d q' le'" by auto
            with ext same Some x None show ?thesis by auto
          next
            case ev: (Some ev)
            with IH f2 Some x obtain q' where "first_event ?d (q + 4) q' ev" "f_data f3 = ?d" "f_pos f3 = next_pos ?d q' ev" by auto
            with mono same Some x ev show ?thesis by auto
          qed
        qed
      next
        case ev: (Some ev)
        from ev Some p have h: "zcm_event_read_helper False f1 = Some (Some ev, f2)" by simp
        have e: "event_at ?d q ev" using helper_eventD[OF h f1(1)] q(2) f1(2) by simp
        with helper_event[of f1 q ev] h f1 q(4) have "f_data f2 = ?d" "f_pos f2 = next_pos ?d q ev" by (auto simp: next_pos_def)
        moreover have "read_next_loop f = Some (Some ev, f2)" using True s h by (subst read_next_unfold) simp
        ultimately show ?thesis using e before q(1) by (auto simp: first_event_def)
      qed
    qed
  qed
qed

section \<open>Writing\<close>

definition appended :: "u8 list \<Rightarrow> FILE \<Rightarrow> FILE" where
  "appended bs f = f\<lparr>f_data := f_data f @ bs, f_pos := f_pos f + length bs, f_room := f_room f - length bs\<rparr>"

text \<open>A file that is written at its end and has room for \<open>n\<close> bytes.\<close>

definition at_end :: "nat \<Rightarrow> FILE \<Rightarrow> bool" where
  "at_end n f \<longleftrightarrow> f_pos f = length (f_data f) \<and> n \<le> f_room f"

lemma fwrite_end: "at_end n f \<Longrightarrow> length bs \<le> n \<Longrightarrow> fwrite bs f = (length bs, appended bs f) \<and> at_end (n - length bs) (appended bs f)"
  by (auto simp: fwrite_def at_end_def appended_def Let_def)

lemma appended_append: "appended ys (appended xs f) = appended (xs @ ys) f"
  by (simp add: appended_def)

lemma fwrite32_end: "at_end n f \<Longrightarrow> 4 \<le> n \<Longrightarrow> fwrite32 f v = (0, appended (bytes32 v) f) \<and> at_end (n - 4) (appended (bytes32 v) f)"
  using fwrite_end[of n f "bytes32 v"] by (simp add: fwrite32_def)

lemma fwrite64_end: "at_end n f \<Longrightarrow> 8 \<le> n \<Longrightarrow> fwrite64 f v = (0, appended (bytes64 v) f) \<and> at_end (n - 8) (appended (bytes64 v) f)"
proof -
  assume a: "at_end n f" "8 \<le> n"
  have m: "ucast (v AND 0xffffffff) = (ucast v :: u32)"
  proof -
    have eq: "(0xffffffff :: u64) = mask 32" by (simp add: mask_eq_exp_minus_1)
    show ?thesis unfolding eq by (rule bit_word_eqI) (simp add: bit_simps)
  qed
  let ?f = "appended (bytes32 (ucast (drop_bit 32 v))) f"
  from fwrite32_end[OF a(1), of "ucast (drop_bit 32 v)"] a(2) have 1: "fwrite32 f (ucast (drop_bit 32 v)) = (0, ?f)" "at_end (n - 4) ?f" by auto
  from fwrite32_end[OF 1(2), of "ucast v"] a(2) 1(1) show ?thesis
    by (simp add: fwrite64_def m appended_append bytes64_def)
qed

definition numbered :: "u64 \<Rightarrow> zcm_eventlog_event_t \<Rightarrow> zcm_eventlog_event_t" where
  "numbered n le = le\<lparr>le_eventnum := n\<rparr>"

lemma write_event_ok:
  assumes ok: "event_ok le" and f: "at_end n (el_f l)" "length (event_bytes le) \<le> n"
  shows "zcm_eventlog_write_event l le
      = Some (0, \<lparr>el_f = appended (event_bytes (numbered (el_eventcount l) le)) (el_f l), el_eventcount = el_eventcount l + 1\<rparr>)"
    "at_end (n - length (event_bytes le)) (appended (event_bytes (numbered (el_eventcount l) le)) (el_f l))"
proof -
  let ?n = "el_eventcount l" and ?f = "el_f l"
  have len: "length (event_bytes le) = 28 + length (le_channel le) + length (le_data le)" by (simp add: event_bytes_def)
  have cl: "unat (le_channellen le) = length (le_channel le)" "\<not> sint (le_channellen le) < 0"
    "unat (le_datalen le) = length (le_data le)" "\<not> sint (le_datalen le) < 0"
    using ok by (simp_all add: event_ok_def unat_of_nat_small sint_of_nat_small)
  let ?b1 = "bytes32 MAGIC" let ?b2 = "?b1 @ bytes64 ?n" let ?b3 = "?b2 @ bytes64 (le_timestamp le)" let ?b4 = "?b3 @ bytes32 (le_channellen le)"
  let ?b5 = "?b4 @ bytes32 (le_datalen le)" let ?b6 = "?b5 @ le_channel le" let ?b7 = "?b6 @ le_data le"
  note ap = appended_append
  have 1: "fwrite32 ?f MAGIC = (0, appended ?b1 ?f)" "at_end (n - 4) (appended ?b1 ?f)" using fwrite32_end[OF f(1), of MAGIC] f(2) len by auto
  have 2: "fwrite64 (appended ?b1 ?f) ?n = (0, appended ?b2 ?f)" "at_end (n - 12) (appended ?b2 ?f)"
    using fwrite64_end[OF 1(2), of ?n] f(2) len by (auto simp: ap)
  have 3: "fwrite64 (appended ?b2 ?f) (le_timestamp le) = (0, appended ?b3 ?f)" "at_end (n - 20) (appended ?b3 ?f)"
    using fwrite64_end[OF 2(2), of "le_timestamp le"] f(2) len by (auto simp: ap)
  have 4: "fwrite32 (appended ?b3 ?f) (le_channellen le) = (0, appended ?b4 ?f)" "at_end (n - 24) (appended ?b4 ?f)"
    using fwrite32_end[OF 3(2), of "le_channellen le"] f(2) len by (auto simp: ap)
  have 5: "fwrite32 (appended ?b4 ?f) (le_datalen le) = (0, appended ?b5 ?f)" "at_end (n - 28) (appended ?b5 ?f)"
    using fwrite32_end[OF 4(2), of "le_datalen le"] f(2) len by (auto simp: ap)
  have 6: "fwrite (le_channel le) (appended ?b5 ?f) = (length (le_channel le), appended ?b6 ?f)" "at_end (n - 28 - length (le_channel le)) (appended ?b6 ?f)"
    using fwrite_end[OF 5(2), of "le_channel le"] f(2) len by (auto simp: ap)
  have 7: "fwrite (le_data le) (appended ?b6 ?f) = (length (le_data le), appended ?b7 ?f)" "at_end (n - length (event_bytes le)) (appended ?b7 ?f)"
    using fwrite_end[OF 6(2), of "le_data le"] f(2) len by (auto simp: ap)
  have b: "?b7 = event_bytes (numbered ?n le)" by (simp add: event_bytes_def head_bytes_def numbered_def)
  show "at_end (n - length (event_bytes le)) (appended (event_bytes (numbered ?n le)) ?f)" using 7(2) unfolding b .
  show "zcm_eventlog_write_event l le = Some (0, \<lparr>el_f = appended (event_bytes (numbered ?n le)) ?f, el_eventcount = ?n + 1\<rparr>)"
    unfolding zcm_eventlog_write_event_def
    by (simp only: 1(1) 2(1) 3(1) 4(1) 5(1) Let_def prod.case) (simp add: cl mem_slice_def 6(1) 7(1)[unfolded b] del: append_assoc)
qed

section \<open>Whole logs\<close>

fun write_all :: "zcm_eventlog_event_t list \<Rightarrow> zcm_eventlog_t \<Rightarrow> (int list \<times> zcm_eventlog_t) option" where
  "write_all [] l = Some ([], l)"
| "write_all (le # les) l = do { (r, l) \<leftarrow> zcm_eventlog_write_event l le; (rs, l) \<leftarrow> write_all les l; Some (r # rs, l) }"

fun read_n :: "(zcm_eventlog_t \<Rightarrow> (zcm_eventlog_event_t option \<times> zcm_eventlog_t) option) \<Rightarrow> nat \<Rightarrow> zcm_eventlog_t
    \<Rightarrow> (zcm_eventlog_event_t option list \<times> zcm_eventlog_t) option" where
  "read_n rd 0 l = Some ([], l)"
| "read_n rd (Suc n) l = do { (le, l) \<leftarrow> rd l; (les, l) \<leftarrow> read_n rd n l; Some (le # les, l) }"

text \<open>The events with the numbers that the writer gives them.\<close>

fun number :: "u64 \<Rightarrow> zcm_eventlog_event_t list \<Rightarrow> zcm_eventlog_event_t list" where
  "number n [] = []"
| "number n (le # les) = numbered n le # number (n + 1) les"

definition log_bytes :: "zcm_eventlog_event_t list \<Rightarrow> u8 list" where
  "log_bytes les = concat (map event_bytes les)"

lemma event_ok_numbered [simp]: "event_ok (numbered n le) = event_ok le" "length (event_bytes (numbered n le)) = length (event_bytes le)"
  by (simp_all add: event_ok_def numbered_def event_bytes_def)

lemma number_ok: "list_all event_ok (number n les) = list_all event_ok les" "length (log_bytes (number n les)) = length (log_bytes les)"
    "length (number n les) = length les"
  by (induction les arbitrary: n) (auto simp: log_bytes_def)

lemma write_all_ok:
  assumes "list_all event_ok les" "at_end n (el_f l)" "length (log_bytes les) \<le> n"
  shows "\<exists>l'. write_all les l = Some (replicate (length les) 0, l') \<and> f_data (el_f l') = f_data (el_f l) @ log_bytes (number (el_eventcount l) les)"
  using assms
proof (induction les arbitrary: l n)
  case (Cons le les)
  let ?l = "\<lparr>el_f = appended (event_bytes (numbered (el_eventcount l) le)) (el_f l), el_eventcount = el_eventcount l + 1\<rparr>"
  from Cons.prems have n: "length (event_bytes le) \<le> n" "length (log_bytes les) \<le> n - length (event_bytes le)" "event_ok le" by (auto simp: log_bytes_def)
  note w = write_event_ok[OF n(3) Cons.prems(2) n(1)]
  from Cons.IH[of "n - length (event_bytes le)" ?l] Cons.prems(1) n(2) w(2) obtain l' where
    "write_all les ?l = Some (replicate (length les) 0, l')" "f_data (el_f l') = f_data (el_f ?l) @ log_bytes (number (el_eventcount l + 1) les)" by auto
  with w(1) show ?case by (simp add: appended_def log_bytes_def)
qed (simp add: log_bytes_def)

lemma ends_ok_log: "ends_ok (log_bytes les)"
  by (cases les) (simp_all add: ends_ok_def log_bytes_def event_bytes_def)

lemma read_next_at:
  assumes "event_at (f_data (el_f l)) (f_pos (el_f l)) le"
  shows "\<exists>l'. zcm_eventlog_read_next_event l = Some (Some le, l') \<and> f_data (el_f l') = f_data (el_f l)
    \<and> f_pos (el_f l') = next_pos (f_data (el_f l)) (f_pos (el_f l)) le"
proof -
  let ?f = "el_f l"
  let ?d = "f_data ?f" and ?p = "f_pos ?f"
  obtain r f1 where s: "sync_stream ?f = (r, f1)" by fastforce
  have m: "magic_at ?d ?p" using assms by (rule event_at_magic)
  have f1: "r" "f1 = ?f\<lparr>f_pos := ?p + 4\<rparr>"
    using sync_stream_spec[OF s] m by (auto split: if_splits simp: nat_less_le)
  from helper_event[of f1 ?p le] assms f1(2) have h: "zcm_event_read_helper False f1 = Some (Some le, f1\<lparr>f_pos := next_pos ?d ?p le\<rparr>)"
    by (auto simp: next_pos_def)
  have "read_next_loop ?f = Some (Some le, f1\<lparr>f_pos := next_pos ?d ?p le\<rparr>)" using s f1(1) h by (subst read_next_unfold) simp
  then show ?thesis using f1(2) by (simp add: zcm_eventlog_read_next_event_def)
qed

lemma read_next_end:
  assumes "frest (el_f l) = []"
  shows "\<exists>l'. zcm_eventlog_read_next_event l = Some (None, l')"
proof -
  have "sync_stream (el_f l) = (False, el_f l)" using assms unfolding sync_stream_def by (subst sync_loop.simps) (simp add: fgetc_def)
  then show ?thesis by (simp add: zcm_eventlog_read_next_event_def read_next_unfold)
qed

lemma read_log:
  assumes "list_all event_ok les" "frest (el_f l) = log_bytes les"
  shows "\<exists>l'. read_n zcm_eventlog_read_next_event (length les + 1) l = Some (map Some les @ [None], l')"
  using assms
proof (induction les arbitrary: l)
  case Nil
  with read_next_end[of l] show ?case by (auto simp: log_bytes_def)
next
  case (Cons le les)
  let ?f = "el_f l"
  have r: "frest ?f = event_bytes le @ log_bytes les" using Cons.prems(2) by (simp add: log_bytes_def)
  have e: "event_at (f_data ?f) (f_pos ?f) le" using r Cons.prems(1) ends_ok_log by (auto simp: event_at_def)
  have d: "drop (f_pos ?f + length (event_bytes le)) (f_data ?f) = log_bytes les" using r by (metis add.commute append_eq_conv_conj drop_drop)
  have "trailing (log_bytes les) = 0" by (cases les) (simp_all add: trailing_def log_bytes_def event_bytes_def)
  then have "next_pos (f_data ?f) (f_pos ?f) le = f_pos ?f + length (event_bytes le)" by (simp add: next_pos_def d)
  with read_next_at[OF e] obtain l1 where
    l1: "zcm_eventlog_read_next_event l = Some (Some le, l1)" "frest (el_f l1) = log_bytes les" by (auto simp: d)
  from Cons.IH[OF _ l1(2)] Cons.prems(1) obtain l' where
    "read_n zcm_eventlog_read_next_event (length les + 1) l1 = Some (map Some les @ [None], l')" by auto
  then have "read_n zcm_eventlog_read_next_event (Suc (length les + 1)) l = Some (Some le # map Some les @ [None], l')"
    unfolding read_n.simps(2)[of _ "length les + 1"] l1(1) by (simp del: read_n.simps)
  then show ?case by simp
qed

section \<open>Backwards\<close>

lemma be32_shift_back: "(drop_bit 8 (be32 a b c e) AND 0x00ffffff) OR (push_bit 24 (ucast x) AND 0xff000000) = be32 x a b c"
proof -
  have m: "(0x00ffffff :: u32) = mask 24" "(0xff000000 :: u32) = push_bit 24 (mask 8)" by (simp_all add: mask_eq_exp_minus_1)
  show ?thesis unfolding m
  proof (rule bit_word_eqI)
    fix n assume "n < LENGTH(32)"
    then consider "n < 8" | "8 \<le> n" "n < 16" | "16 \<le> n" "n < 24" | "24 \<le> n" "n < 32" by fastforce
    then show "bit ((drop_bit 8 (be32 a b c e) AND mask 24) OR (push_bit 24 (ucast x) AND push_bit 24 (mask 8))) n = bit (be32 x a b c) n"
      by cases (auto simp: be32_def bit_simps)
  qed
qed

text \<open>The window is what precedes the position, followed by the four bytes of the magic number so far.\<close>

lemma sync_back_window:
  assumes "sync_back_loop (be32 a b c e) f = (r, f')" "f_pos f \<le> length (f_data f)"
  defines "ys \<equiv> take (f_pos f - 1) (f_data f) @ [a, b, c, e]"
  shows "if r = 0 then \<exists>i. i + 2 \<le> f_pos f \<and> take 4 (drop i ys) = bytes32 MAGIC \<and> (\<forall>j. i < j \<and> j + 2 \<le> f_pos f \<longrightarrow> take 4 (drop j ys) \<noteq> bytes32 MAGIC)
      \<and> f_data f' = f_data f \<and> f_pos f' = i + 4
    else r < 0 \<and> (\<forall>j. j + 2 \<le> f_pos f \<longrightarrow> take 4 (drop j ys) \<noteq> bytes32 MAGIC)"
  using assms(1,2) unfolding ys_def
proof (induction "f_pos f" arbitrary: a b c e f rule: less_induct)
  case less
  let ?d = "f_data f" and ?p = "f_pos f"
  let ?Y = "take (?p - 1) ?d @ [a, b, c, e]"
  show ?case
  proof (cases "?p < 2")
    case True
    with less.prems(1) have "r < 0" by (subst (asm) sync_back_unfold) auto
    with True show ?thesis by auto
  next
    case False
    let ?x = "?d ! (?p - 2)" and ?f = "f\<lparr>f_pos := ?p - 1\<rparr>"
    let ?Y' = "take (?p - 2) ?d @ [?x, a, b, c]"
    have in_d: "?p - 2 < length ?d" using False less.prems(2) by linarith
    have "?p - 1 = Suc (?p - 2)" using False by simp
    then have "take (?p - 1) ?d = take (?p - 2) ?d @ [?x]" using take_Suc_conv_app_nth[OF in_d] by simp
    then have Y: "?Y = ?Y' @ [e]" by simp
    have lenY: "length ?Y' = ?p + 2" using False in_d by simp
    have gen: "j + 4 \<le> length ys \<Longrightarrow> take 4 (drop j (ys @ [e])) = take 4 (drop j ys)" for j and ys :: "u8 list" by simp
    have win: "take 4 (drop j ?Y) = take 4 (drop j ?Y')" if "j + 2 \<le> ?p" for j unfolding Y using that lenY by (intro gen) linarith
    have top: "take 4 (drop (?p - 2) ?Y') = [?x, a, b, c]" using in_d by simp
    show ?thesis
    proof (cases "be32 ?x a b c = MAGIC")
      case True
      then have "r = 0" "f' = f\<lparr>f_pos := ?p + 2\<rparr>"
        using less.prems(1) False in_d by (auto simp: sync_back_unfold[of _ f] be32_shift_back Let_def)
      moreover have "take 4 (drop (?p - 2) ?Y) = bytes32 MAGIC" using win[of "?p - 2"] top True False by (simp add: be32_magic)
      ultimately show ?thesis using False by (auto intro!: exI[of _ "?p - 2"])
    next
      case no: False
      have "sync_back_loop (be32 ?x a b c) ?f = (r, f')"
        using less.prems(1) False in_d no by (simp add: sync_back_unfold[of _ f] be32_shift_back Let_def)
      note h = less.hyps[of ?f, OF _ this]
      have eqs: "f_pos ?f = ?p - 1" "?p - 1 - 1 = ?p - 2" "f_data ?f = ?d" "?p - 1 < ?p" "?p - 1 \<le> length ?d" using False less.prems(2) by auto
      have IH: "if r = 0 then \<exists>i. i + 2 \<le> ?p - 1 \<and> take 4 (drop i ?Y') = bytes32 MAGIC
          \<and> (\<forall>j. i < j \<and> j + 2 \<le> ?p - 1 \<longrightarrow> take 4 (drop j ?Y') \<noteq> bytes32 MAGIC) \<and> f_data f' = ?d \<and> f_pos f' = i + 4
        else r < 0 \<and> (\<forall>j. j + 2 \<le> ?p - 1 \<longrightarrow> take 4 (drop j ?Y') \<noteq> bytes32 MAGIC)"
        using h[unfolded eqs(1-3), OF eqs(4,5)] .
      have here: "take 4 (drop (?p - 2) ?Y') \<noteq> bytes32 MAGIC" using top no by (simp add: be32_magic)
      have step: "take 4 (drop j ?Y) \<noteq> bytes32 MAGIC" if "j + 2 \<le> ?p" "j + 2 \<le> ?p - 1 \<Longrightarrow> take 4 (drop j ?Y') \<noteq> bytes32 MAGIC" for j
        using that win[OF that(1)] here by (cases "j = ?p - 2") auto
      show ?thesis
      proof (cases "r = 0")
        case True
        with IH obtain i where i: "i + 2 \<le> ?p - 1" "take 4 (drop i ?Y') = bytes32 MAGIC"
          "\<And>j. i < j \<Longrightarrow> j + 2 \<le> ?p - 1 \<Longrightarrow> take 4 (drop j ?Y') \<noteq> bytes32 MAGIC" "f_data f' = ?d" "f_pos f' = i + 4" by auto
        have "take 4 (drop i ?Y) = bytes32 MAGIC" "i + 2 \<le> ?p" using win[of i] i(1,2) by auto
        moreover have "take 4 (drop j ?Y) \<noteq> bytes32 MAGIC" if "i < j" "j + 2 \<le> ?p" for j using step[OF that(2)] i(3)[OF that(1)] by blast
        ultimately show ?thesis using True i(4,5) by auto
      next
        case r: False
        with IH step show ?thesis by auto
      qed
    qed
  qed
qed

lemma sync_back_spec:
  assumes "sync_stream_backwards f = (r, f')" "f_pos f \<le> length (f_data f)"
  shows "if r = 0 then \<exists>q. q + 5 \<le> f_pos f \<and> magic_at (f_data f) q \<and> (\<forall>q'. q < q' \<and> q' + 5 \<le> f_pos f \<longrightarrow> \<not> magic_at (f_data f) q')
      \<and> f_data f' = f_data f \<and> f_pos f' = q + 4
    else r < 0 \<and> (\<forall>q. q + 5 \<le> f_pos f \<longrightarrow> \<not> magic_at (f_data f) q)"
proof -
  let ?d = "f_data f" and ?p = "f_pos f"
  let ?ys = "take (?p - 1) ?d @ [0, 0, 0, 0]"
  have z: "be32 0 0 0 0 = 0" by (simp add: be32_def)
  have real: "take 4 (drop i ?ys) = bytes32 MAGIC \<longleftrightarrow> magic_at ?d i" if "i + 5 \<le> ?p" for i
    using that assms(2) by (simp add: magic_at_def drop_take)
  have late: "take 4 (drop i ?ys) \<noteq> bytes32 MAGIC" if "\<not> i + 5 \<le> ?p" "i + 2 \<le> ?p" for i
  proof -
    have z4: "[0, 0, 0, 0] = replicate 4 (0 :: u8)" by (simp add: numeral_eq_Suc)
    have "i + 3 < length ?ys" "?p - 1 \<le> i + 3" using that assms(2) by auto
    then have "?ys ! (i + 3) = 0" using assms(2) unfolding z4 by (subst nth_append) (auto intro!: nth_replicate)
    moreover have "take 4 (drop i ?ys) ! 3 = ?ys ! (i + 3)" using \<open>i + 3 < length ?ys\<close> by (simp del: append.simps drop_append take_append)
    ultimately have "take 4 (drop i ?ys) ! 3 = 0" by (simp only:)
    then show ?thesis by (auto simp: magic_bytes)
  qed
  from sync_back_window[of 0 0 0 0 f r f'] assms z have w: "if r = 0 then \<exists>i. i + 2 \<le> ?p \<and> take 4 (drop i ?ys) = bytes32 MAGIC
      \<and> (\<forall>j. i < j \<and> j + 2 \<le> ?p \<longrightarrow> take 4 (drop j ?ys) \<noteq> bytes32 MAGIC) \<and> f_data f' = ?d \<and> f_pos f' = i + 4
    else r < 0 \<and> (\<forall>j. j + 2 \<le> ?p \<longrightarrow> take 4 (drop j ?ys) \<noteq> bytes32 MAGIC)" by (simp add: sync_stream_backwards_def)
  show ?thesis
  proof (cases "r = 0")
    case True
    with w obtain i where i: "i + 2 \<le> ?p" "take 4 (drop i ?ys) = bytes32 MAGIC" "\<And>j. i < j \<Longrightarrow> j + 2 \<le> ?p \<Longrightarrow> take 4 (drop j ?ys) \<noteq> bytes32 MAGIC"
      "f_data f' = ?d" "f_pos f' = i + 4" by auto
    have five: "i + 5 \<le> ?p" using late i(1,2) by blast
    moreover have "\<not> magic_at ?d q" if "i < q" "q + 5 \<le> ?p" for q using i(3)[OF that(1)] real[OF that(2)] that(2) by auto
    ultimately show ?thesis using True i real[OF five] by auto
  next
    case False
    with w have "r < 0" "\<And>j. j + 2 \<le> ?p \<Longrightarrow> take 4 (drop j ?ys) \<noteq> bytes32 MAGIC" by auto
    with False real show ?thesis by fastforce
  qed
qed

text \<open>A record without the magic number inside.\<close>

definition no_inner_magic :: "zcm_eventlog_event_t \<Rightarrow> bool" where
  "no_inner_magic le \<longleftrightarrow> (\<forall>j. 0 < j \<and> j < length (event_bytes le) \<longrightarrow> \<not> magic_at (event_bytes le) j)"

lemma no_inner_magicI: "0xED \<notin> set (drop 1 (event_bytes le)) \<Longrightarrow> no_inner_magic le"
proof -
  assume a: "0xED \<notin> set (drop 1 (event_bytes le))"
  have False if "0 < j" "magic_at (event_bytes le) j" for j
  proof -
    have "0xED \<in> set (take 4 (drop j (event_bytes le)))" using that(2) by (simp add: magic_at_def magic_bytes)
    then have "0xED \<in> set (drop j (event_bytes le))" by (rule in_set_takeD)
    with a that(1) set_drop_subset_set_drop[of 1 j "event_bytes le"] show False by auto
  qed
  then show ?thesis by (auto simp: no_inner_magic_def)
qed

lemma helper_rewound:
  assumes "event_at (f_data f) q le" "f_pos f = q + 4"
  shows "\<exists>f'. zcm_event_read_helper True f = Some (Some le, f') \<and> f_data f' = f_data f \<and> f_pos f' = q"
proof -
  from helper_event[OF assms] obtain f1 where "zcm_event_read_helper False f = Some (Some le, f1)" by blast
  then have "\<exists>f'. zcm_event_read_helper True f = Some (Some le, f')"
    by (auto simp: zcm_event_read_helper_def bind_eq_Some_conv Let_def)
  then obtain f' where f': "zcm_event_read_helper True f = Some (Some le, f')" by blast
  with helper_rewind[OF f'] assms(2) show ?thesis by auto
qed

lemma read_prev_at:
  assumes d: "f_data (el_f l) = A @ event_bytes le @ B" "f_pos (el_f l) = length A + length (event_bytes le)"
    and ok: "event_ok le" "no_inner_magic le" "ends_ok B"
  shows "\<exists>l'. zcm_eventlog_read_prev_event l = Some (Some le, l') \<and> f_data (el_f l') = f_data (el_f l) \<and> f_pos (el_f l') = length A"
proof -
  let ?f = "el_f l" and ?q = "length A"
  let ?d = "f_data ?f"
  have e: "event_at ?d ?q le" using d(1) ok(1,3) by (simp add: event_at_def)
  have len: "29 \<le> length (event_bytes le)" using ok(1) by (cases "le_channel le") (auto simp: event_bytes_def event_ok_def)
  have inner: "\<not> magic_at ?d j" if "?q < j" "j + 5 \<le> f_pos ?f" for j
  proof -
    have "take 4 (drop j ?d) = take 4 (drop (j - ?q) (event_bytes le))" using that d by (simp add: drop_take)
    moreover have "\<not> magic_at (event_bytes le) (j - ?q)" using ok(2) that d(2) by (simp add: no_inner_magic_def)
    ultimately show ?thesis by (simp add: magic_at_def)
  qed
  obtain r f1 where s: "sync_stream_backwards ?f = (r, f1)" by fastforce
  have q5: "?q + 5 \<le> f_pos ?f" "f_pos ?f \<le> length ?d" using d len by auto
  have "r = 0 \<and> f_data f1 = ?d \<and> f_pos f1 = ?q + 4"
  proof (cases "r = 0")
    case True
    with sync_back_spec[OF s q5(2)] obtain q where q: "q + 5 \<le> f_pos ?f" "magic_at ?d q" "\<And>q'. q < q' \<Longrightarrow> q' + 5 \<le> f_pos ?f \<Longrightarrow> \<not> magic_at ?d q'"
      "f_data f1 = ?d" "f_pos f1 = q + 4" by auto
    have "q = ?q" using q(3)[of ?q] inner[of q] event_at_magic[OF e] q(1,2) q5(1) by (metis linorder_neqE_nat)
    with q True show ?thesis by simp
  next
    case False
    with sync_back_spec[OF s q5(2)] event_at_magic[OF e] q5(1) show ?thesis by auto
  qed
  then have f1: "r = 0" "f_data f1 = ?d" "f_pos f1 = ?q + 4" by auto
  from helper_rewound[of f1 ?q le] e f1 obtain f2 where f2: "zcm_event_read_helper True f1 = Some (Some le, f2)" "f_data f2 = ?d" "f_pos f2 = ?q" by auto
  have "read_prev_loop ?f = Some (Some le, f2)" using s f1(1) f2(1) by (subst read_prev_loop.simps) simp
  then show ?thesis using f2 by (simp add: zcm_eventlog_read_prev_event_def)
qed

lemma read_log_back:
  assumes "list_all event_ok les" "list_all no_inner_magic les" "f_data (el_f l) = log_bytes les @ B" "f_pos (el_f l) = length (log_bytes les)" "ends_ok B"
  shows "\<exists>l'. read_n zcm_eventlog_read_prev_event (length les + 1) l = Some (map Some (rev les) @ [None], l')"
  using assms
proof (induction les arbitrary: l B rule: rev_induct)
  case Nil
  then have "sync_stream_backwards (el_f l) = (-1, el_f l)" by (simp add: sync_stream_backwards_def sync_back_unfold log_bytes_def)
  then have "read_prev_loop (el_f l) = Some (None, el_f l)" by (subst read_prev_loop.simps) simp
  then show ?case by (simp add: zcm_eventlog_read_prev_event_def)
next
  case (snoc le les)
  have eq: "log_bytes (les @ [le]) = log_bytes les @ event_bytes le" by (simp add: log_bytes_def)
  from read_prev_at[of l "log_bytes les" le B] snoc.prems eq obtain l1 where
    l1: "zcm_eventlog_read_prev_event l = Some (Some le, l1)" "f_data (el_f l1) = f_data (el_f l)" "f_pos (el_f l1) = length (log_bytes les)" by auto
  have "ends_ok (event_bytes le @ B)" by (simp add: ends_ok_def event_bytes_def)
  with snoc.IH[of l1 "event_bytes le @ B"] snoc.prems eq l1 obtain l' where
    "read_n zcm_eventlog_read_prev_event (length les + 1) l1 = Some (map Some (rev les) @ [None], l')" by auto
  then have "read_n zcm_eventlog_read_prev_event (Suc (length les + 1)) l = Some (Some le # map Some (rev les) @ [None], l')"
    unfolding read_n.simps(2)[of _ "length les + 1"] l1(1) by (simp del: read_n.simps)
  then show ?case by simp
qed

section \<open>Properties\<close>

text \<open>
  C13. Reading the next event of any file, damaged or not, ends, and gives exactly the first complete record at or after the position: it starts with
  the magic number, has a channel of 1 to 999 bytes and is followed by another magic number or by the end of the file (fewer than four bytes). The
  position moves behind it. No event is given exactly when there is no complete record left, unless the file holds, before any complete record, a header whose data
  length is the largest \<^verbatim>\<open>int\<close>, the only input that makes the reader overflow.
\<close>

theorem eventlog_read_next_first:
  "case zcm_eventlog_read_next_event l of
     None \<Rightarrow> \<exists>q \<ge> f_pos (el_f l). huge_at (f_data (el_f l)) q \<and> (\<forall>q' le. f_pos (el_f l) \<le> q' \<and> q' < q \<longrightarrow> \<not> event_at (f_data (el_f l)) q' le)
   | Some (None, l') \<Rightarrow> f_data (el_f l') = f_data (el_f l) \<and> (\<forall>q le. f_pos (el_f l) \<le> q \<longrightarrow> \<not> event_at (f_data (el_f l)) q le)
   | Some (Some le, l') \<Rightarrow> \<exists>q. first_event (f_data (el_f l)) (f_pos (el_f l)) q le \<and> f_data (el_f l') = f_data (el_f l)
       \<and> f_pos (el_f l') = next_pos (f_data (el_f l)) q le"
  using read_next_spec[of "el_f l"]
  by (cases "read_next_loop (el_f l)") (auto simp: zcm_eventlog_read_next_event_def split: option.splits)

theorem eventlog_read_next_first_witness:
  "case zcm_eventlog_read_next_event \<lparr>el_f = \<lparr>f_data = [], f_pos = 0, f_append = False, f_room = 0\<rparr>, el_eventcount = 0\<rparr> of
     None \<Rightarrow> False | Some (None, l') \<Rightarrow> f_data (el_f l') = [] | Some (Some le, l') \<Rightarrow> False"
  using eventlog_read_next_first[of "\<lparr>el_f = \<lparr>f_data = [], f_pos = 0, f_append = False, f_room = 0\<rparr>, el_eventcount = 0\<rparr>"]
  by (auto simp: huge_at_def first_event_def event_at_def event_bytes_def bytes32_def split: option.splits)

text \<open>
  C7. Events that are written to a new log, with room for all of them, are all accepted, and the log read again gives back exactly these events in order,
  numbered from zero, and then no more: whatever bytes the data holds, the magic number included.
\<close>

theorem eventlog_roundtrip:
  assumes "list_all event_ok les" "length (log_bytes les) \<le> n"
  shows "\<exists>l l' m m'. zcm_eventlog_create disk (Some n) ''w'' = Some (Some l) \<and> write_all les l = Some (replicate (length les) 0, l')
    \<and> zcm_eventlog_create (Some (f_data (el_f l'))) room ''r'' = Some (Some m)
    \<and> read_n zcm_eventlog_read_next_event (length les + 1) m = Some (map Some (number 0 les) @ [None], m')"
proof -
  let ?l = "\<lparr>el_f = \<lparr>f_data = [], f_pos = 0, f_append = False, f_room = n\<rparr>, el_eventcount = 0\<rparr>"
  have "at_end n (el_f ?l)" by (simp add: at_end_def)
  from write_all_ok[OF assms(1) this assms(2)] obtain l' where
    w: "write_all les ?l = Some (replicate (length les) 0, l')" "f_data (el_f l') = log_bytes (number 0 les)" by auto
  let ?m = "\<lparr>el_f = \<lparr>f_data = f_data (el_f l'), f_pos = 0, f_append = False, f_room = 0\<rparr>, el_eventcount = 0\<rparr>"
  from read_log[of "number 0 les" ?m] assms(1) w(2) obtain m' where
    "read_n zcm_eventlog_read_next_event (length les + 1) ?m = Some (map Some (number 0 les) @ [None], m')" by (auto simp: number_ok)
  with w(1) show ?thesis by (intro exI[of _ ?l] exI[of _ l'] exI[of _ ?m] exI[of _ m']) (simp add: zcm_eventlog_create_def fopen_def)
qed

abbreviation sample_event :: "zcm_eventlog_event_t" where
  "sample_event \<equiv> \<lparr>le_eventnum = 0, le_timestamp = 7, le_channellen = 1, le_datalen = 4, le_channel = [65], le_data = [0xED, 0xA1, 0xDA, 0x01]\<rparr>"

theorem eventlog_roundtrip_witness:
  "\<exists>l l' m m'. zcm_eventlog_create None (Some 99) ''w'' = Some (Some l) \<and> write_all [sample_event, sample_event] l = Some ([0, 0], l')
    \<and> zcm_eventlog_create (Some (f_data (el_f l'))) None ''r'' = Some (Some m)
    \<and> read_n zcm_eventlog_read_next_event 3 m = Some ([Some sample_event, Some (sample_event\<lparr>le_eventnum := 1\<rparr>), None], m')"
  using eventlog_roundtrip[of "[sample_event, sample_event]" 99 None None]
  by (simp add: event_ok_def log_bytes_def event_bytes_def numbered_def numeral_3_eq_3 del: read_n.simps write_all.simps)

text \<open>
  C37. The same log read backwards from its end gives the events in reverse order and then no more, provided that no record holds the magic number
  other than at its start: the backward search stops at any magic number it meets.
\<close>

theorem eventlog_backwards:
  assumes "list_all event_ok les" "list_all no_inner_magic les" "f_data (el_f l) = log_bytes les" "f_pos (el_f l) = length (log_bytes les)"
  shows "\<exists>l'. read_n zcm_eventlog_read_prev_event (length les + 1) l = Some (map Some (rev les) @ [None], l')"
  using read_log_back[OF assms(1,2), of l "[]"] assms(3,4) by (simp add: ends_ok_def)

abbreviation plain_event :: "zcm_eventlog_event_t" where
  "plain_event \<equiv> \<lparr>le_eventnum = 0, le_timestamp = 7, le_channellen = 1, le_datalen = 2, le_channel = [65], le_data = [5, 6]\<rparr>"

theorem eventlog_backwards_witness:
  "\<exists>l'. read_n zcm_eventlog_read_prev_event 3 \<lparr>el_f = \<lparr>f_data = log_bytes [plain_event, plain_event\<lparr>le_timestamp := 8\<rparr>],
        f_pos = length (log_bytes [plain_event, plain_event\<lparr>le_timestamp := 8\<rparr>]), f_append = False, f_room = 0\<rparr>, el_eventcount = 0\<rparr>
    = Some ([Some (plain_event\<lparr>le_timestamp := 8\<rparr>), Some plain_event, None], l')"
proof -
  have "no_inner_magic plain_event" "no_inner_magic (plain_event\<lparr>le_timestamp := 8\<rparr>)"
    by (rule no_inner_magicI, simp only: event_bytes_def magic_bytes, simp add: head_bytes_def bytes64_def bytes32_def)+
  then show ?thesis
    using eventlog_backwards[of "[plain_event, plain_event\<lparr>le_timestamp := 8\<rparr>]" "\<lparr>el_f = \<lparr>f_data = log_bytes [plain_event, plain_event\<lparr>le_timestamp := 8\<rparr>],
        f_pos = length (log_bytes [plain_event, plain_event\<lparr>le_timestamp := 8\<rparr>]), f_append = False, f_room = 0\<rparr>, el_eventcount = 0\<rparr>"]
    by (simp add: event_ok_def numeral_3_eq_3 del: read_n.simps)
qed

text \<open>
  A header with a valid channel length and the data length \<^verbatim>\<open>0x7fffffff\<close>, followed by its channel, makes the reader compute \<^verbatim>\<open>datalen + 1\<close> beyond the largest
  \<^verbatim>\<open>int\<close>: it faults instead of rejecting the record.
\<close>

theorem eventlog_huge_length_faults:
  assumes "drop (f_pos (el_f l)) (f_data (el_f l)) = bytes32 MAGIC @ bytes64 n @ bytes64 t @ bytes32 (of_nat (length channel)) @ bytes32 0x7fffffff @ channel @ rest"
    and "0 < length channel" "length channel < 1000"
  shows "zcm_eventlog_read_next_event l = None"
proof -
  let ?f = "el_f l" let ?d = "f_data ?f" and ?p = "f_pos ?f"
  let ?le = "\<lparr>le_eventnum = n, le_timestamp = t, le_channellen = of_nat (length channel), le_datalen = 0x7fffffff, le_channel = [], le_data = []\<rparr>"
  obtain r f1 where s: "sync_stream ?f = (r, f1)" by fastforce
  have m: "magic_at ?d ?p" using assms(1) by (simp add: magic_at_def)
  have f1: "r" "f1 = ?f\<lparr>f_pos := ?p + 4\<rparr>" using sync_stream_spec[OF s] m by (auto split: if_splits simp: nat_less_le)
  have h: "frest f1 = head_bytes ?le @ channel @ rest" using frest_advance[OF assms(1), of 4] unfolding f1(2) by (simp add: head_bytes_def)
  note r = read_fields_bytes[OF h]
  have "fread (length channel) (advance 24 f1) = (channel, advance (length channel) (advance 24 f1))"
    by (rule fread_append[OF frest_advance[OF h]]) simp_all
  moreover have "sint (of_nat (length channel) :: u32) = int (length channel)" "unat (of_nat (length channel) :: u32) = length channel"
    using assms(3) by (simp_all add: sint_of_nat_small unat_of_nat_small)
  ultimately have "read_payload ?le (advance 24 f1) = None"
    using assms(2,3) by (simp add: read_payload_def)
  with r have "zcm_event_read_helper False f1 = None" by (simp add: zcm_event_read_helper_def)
  with s f1(1) have "read_next_loop ?f = None" by (subst read_next_unfold) simp
  then show ?thesis by (simp add: zcm_eventlog_read_next_event_def)
qed

theorem eventlog_huge_length_faults_witness:
  "zcm_eventlog_read_next_event \<lparr>el_f = \<lparr>f_data = bytes32 MAGIC @ bytes64 0 @ bytes64 0 @ bytes32 1 @ bytes32 0x7fffffff @ [65],
      f_pos = 0, f_append = False, f_room = 0\<rparr>, el_eventcount = 0\<rparr> = None"
  by (rule eventlog_huge_length_faults[of _ 0 0 "[65]" "[]"]) simp_all

end
