(* ===== verification/Eventlog_Seek.thy ===== *)
theory Eventlog_Seek
  imports Eventlog_Props Complex_Main "HOL-Library.Log_Nat"
begin

text \<open>
  Seeking in an event log by time (\<^verbatim>\<open>zcm_eventlog_seek_to_timestamp\<close>): a bisection over fractions of the length of the file, in
  \<^verbatim>\<open>double\<close> arithmetic. A \<^verbatim>\<open>double\<close> is the rational number it stands for, and every operation rounds to 53 significant bits, half to even.
\<close>

section \<open>Doubles\<close>

definition round53 :: "nat \<Rightarrow> nat" where
  "round53 n =
     (let e = floorlog 2 n - 53; q = n div 2 ^ e; r = n mod 2 ^ e
      in (if 2 * r > 2 ^ e \<or> 2 * r = 2 ^ e \<and> odd q then q + 1 else q) * 2 ^ e)"

definition double :: "rat \<Rightarrow> rat" where
  "double x = (let (a, b) = quotient_of x in of_int (sgn a * int (round53 (nat \<bar>a\<bar>))) / of_int b)"

section \<open>The search\<close>

definition get_next_event_time :: "zcm_eventlog_t \<Rightarrow> int \<times> zcm_eventlog_t" where
  "get_next_event_time l =
     (let (r, f) = sync_stream (el_f l) in
      if \<not> r then (-1, l\<lparr>el_f := f\<rparr>)
      else let (event_num, f) = fread64 f in
      case event_num of
        None \<Rightarrow> (-1, l\<lparr>el_f := f\<rparr>)
      | Some event_num \<Rightarrow>
          (let (timestamp, f) = fread64 f in
           case timestamp of
             None \<Rightarrow> (-1, l\<lparr>el_f := f\<rparr>)
           | Some timestamp \<Rightarrow> (sint timestamp, l\<lparr>el_f := fseek_cur (-20) f, el_eventcount := event_num\<rparr>)))"

text \<open>
  The loop. The bound is given as fuel; \<open>None\<close> is a search that has used it up, and 40 rounds are enough for every log (\<open>seek_loop_total\<close>).
\<close>

fun seek_loop :: "nat \<Rightarrow> int \<Rightarrow> nat \<Rightarrow> rat \<Rightarrow> rat \<Rightarrow> rat \<Rightarrow> zcm_eventlog_t \<Rightarrow> (int \<times> zcm_eventlog_t) option" where
  "seek_loop 0 timestamp file_len frac1 frac2 prev_frac l = None"
| "seek_loop (Suc fuel) timestamp file_len frac1 frac2 prev_frac l =
     (let frac = double (1 / 2 * double (frac1 + frac2));
          offset = nat \<lfloor>double (frac * double (of_nat file_len))\<rfloor>;
          (cur_time, l) = get_next_event_time (l\<lparr>el_f := (el_f l)\<lparr>f_pos := offset\<rparr>\<rparr>)
      in if cur_time < 0 then Some (-1, l)
         else if frac > frac2 \<or> frac < frac1 \<or> frac1 \<ge> frac2 then Some (0, l)
         else let df = double (frac - prev_frac);
                  df = (if df < 0 then - df else df)
         in if df < 1 / 10 ^ 12 then Some (0, l)
            else if cur_time = timestamp then Some (0, l)
            else if cur_time < timestamp then seek_loop fuel timestamp file_len frac frac2 frac l
            else seek_loop fuel timestamp file_len frac1 frac frac l)"

definition zcm_eventlog_seek_to_timestamp :: "zcm_eventlog_t \<Rightarrow> u64 \<Rightarrow> (int \<times> zcm_eventlog_t) option" where
  "zcm_eventlog_seek_to_timestamp l timestamp = seek_loop 40 (sint timestamp) (length (f_data (el_f l))) 0 1 (-1) l"

section \<open>The arithmetic is exact\<close>

lemma round53_small: "n < 2 ^ 53 \<Longrightarrow> round53 n = n"
proof -
  assume "n < 2 ^ 53"
  then have "floorlog 2 n \<le> 53" by (rule floorlog_leI) auto
  then show ?thesis by (simp add: round53_def)
qed

lemma double_exact:
  assumes "x = of_int k / 2 ^ n" "\<bar>k\<bar> < 2 ^ 53"
  shows "double x = x"
proof -
  obtain a b where q: "quotient_of x = (a, b)" by fastforce
  then have b: "b > 0" "coprime a b" "x = of_int a / of_int b" by (auto simp: quotient_of_denom_pos quotient_of_coprime quotient_of_div)
  have "(of_int (a * 2 ^ n) :: rat) = of_int (k * b)" using b(1,3) assms(1) by (simp add: field_simps)
  then have "a * 2 ^ n = k * b" by (simp only: of_int_eq_iff)
  then have "a dvd k * b" by (metis dvd_triv_left)
  then have dvd: "a dvd k" using b(2) by (simp add: coprime_dvd_mult_left_iff)
  have "\<bar>a\<bar> < 2 ^ 53"
  proof (cases "k = 0")
    case True
    with \<open>a * 2 ^ n = k * b\<close> show ?thesis by simp
  next
    case False
    with dvd_imp_le_int[OF False dvd] assms(2) show ?thesis by linarith
  qed
  then have "nat \<bar>a\<bar> < 2 ^ 53" by simp
  from round53_small[OF this] have "sgn a * int (round53 (nat \<bar>a\<bar>)) = a" by (simp add: sgn_mult_abs)
  then show ?thesis using q b(3) by (simp only: double_def Let_def prod.case)
qed

text \<open>The bracket after \<open>n\<close> rounds is one of the \<open>2 ^ n\<close> equal parts of the file.\<close>

definition bracket :: "nat \<Rightarrow> int \<Rightarrow> rat \<Rightarrow> rat \<Rightarrow> rat \<Rightarrow> bool" where
  "bracket n a frac1 frac2 prev_frac \<longleftrightarrow> n < 40 \<and> 0 \<le> a \<and> a < 2 ^ n \<and> frac1 = of_int a / 2 ^ n \<and> frac2 = of_int (a + 1) / 2 ^ n
     \<and> (prev_frac = frac1 \<or> prev_frac = frac2 \<or> n = 0 \<and> prev_frac = -1)"

lemma bracket_middle:
  assumes "bracket n a frac1 frac2 prev_frac"
  defines "m \<equiv> of_int (2 * a + 1) / 2 ^ Suc n"
  shows "double (1 / 2 * double (frac1 + frac2)) = m" "frac1 < m" "m < frac2" "n < 39 \<Longrightarrow> bracket (Suc n) (2 * a + 1) m frac2 m"
    "n < 39 \<Longrightarrow> bracket (Suc n) (2 * a) frac1 m m"
proof -
  note b = assms(1)[unfolded bracket_def]
  have "(2 :: int) ^ n \<le> 2 ^ 40" using b by (intro power_increasing) auto
  with b have small: "\<bar>2 * a + 1\<bar> < 2 ^ 53" by auto
  have "frac1 + frac2 = of_int (2 * a + 1) / 2 ^ n" using b by (simp add: field_simps)
  from double_exact[OF this small] have s: "double (frac1 + frac2) = of_int (2 * a + 1) / 2 ^ n" by (simp add: \<open>frac1 + frac2 = _\<close>)
  show "double (1 / 2 * double (frac1 + frac2)) = m" unfolding s
    using double_exact[of "1 / 2 * (of_int (2 * a + 1) / 2 ^ n)" "2 * a + 1" "Suc n"] small by (simp add: m_def)
  show "frac1 < m" "m < frac2" using b by (simp_all add: m_def field_simps)
  show "n < 39 \<Longrightarrow> bracket (Suc n) (2 * a + 1) m frac2 m" "n < 39 \<Longrightarrow> bracket (Suc n) (2 * a) frac1 m m"
    using b by (auto simp: bracket_def m_def field_simps)
qed

lemma bracket_last:
  assumes "bracket n a frac1 frac2 prev_frac"
  shows "\<bar>double (of_int (2 * a + 1) / 2 ^ Suc n - prev_frac)\<bar> < 1 / 10 ^ 12 \<longleftrightarrow> n = 39"
proof -
  let ?df = "of_int (2 * a + 1) / 2 ^ Suc n - prev_frac"
  note b = assms[unfolded bracket_def]
  have "?df = of_int 1 / 2 ^ Suc n \<or> ?df = of_int (-1) / 2 ^ Suc n \<or> n = 0 \<and> ?df = of_int 3 / 2 ^ 1"
  proof -
    have "of_int (2 * a + 1) / 2 ^ Suc n - of_int a / 2 ^ n = (of_int 1 / 2 ^ Suc n :: rat)"
      "of_int (2 * a + 1) / 2 ^ Suc n - of_int (a + 1) / 2 ^ n = (of_int (-1) / 2 ^ Suc n :: rat)" by (simp_all add: field_simps)
    with b show ?thesis by auto
  qed
  then consider k :: int where "k = 1 \<or> k = -1" "?df = of_int k / 2 ^ Suc n" | "n = 0" "?df = of_int 3 / 2 ^ 1" by metis
  then show ?thesis
  proof cases
    case 1
    have "double ?df = of_int k / 2 ^ Suc n" unfolding 1(2) by (rule double_exact[OF refl]) (use 1(1) in auto)
    with 1(1) have df: "\<bar>double ?df\<bar> = 1 / 2 ^ Suc n" by auto
    show ?thesis
    proof (cases "n = 39")
      case True
      then show ?thesis unfolding df by simp
    next
      case False
      with b have "(2 :: rat) ^ Suc n \<le> 2 ^ 39" by (intro power_increasing) auto
      then have "1 / 2 ^ 39 \<le> (1 / 2 ^ Suc n :: rat)" by (intro divide_left_mono) auto
      with False show ?thesis unfolding df by simp
    qed
  next
    case 2
    then show ?thesis unfolding 2(2) by (subst double_exact[of _ 3 1]) simp_all
  qed
qed

section \<open>What a probe finds\<close>

text \<open>The first magic number at or after an offset, followed by an event number and a time.\<close>

definition probe :: "u8 list \<Rightarrow> nat \<Rightarrow> nat \<Rightarrow> u64 \<Rightarrow> u64 \<Rightarrow> bool" where
  "probe d p q n t \<longleftrightarrow> p \<le> q \<and> (\<forall>q'. p \<le> q' \<and> q' < q \<longrightarrow> \<not> magic_at d q') \<and> (\<exists>rest. drop q d = bytes32 MAGIC @ bytes64 n @ bytes64 t @ rest)"

lemma probe_magic: "probe d p q n t \<Longrightarrow> magic_at d q"
  by (auto simp: probe_def magic_at_def)

lemma probe_length: "probe d p q n t \<Longrightarrow> q + 20 \<le> length d"
  by (auto simp: probe_def dest!: arg_cong[where f = length])

lemma get_next_event_time_cases:
  assumes "get_next_event_time l = (t, l')"
  shows "f_data (el_f l') = f_data (el_f l)"
    and "0 \<le> t \<Longrightarrow> \<exists>n ts. probe (f_data (el_f l)) (f_pos (el_f l)) (f_pos (el_f l')) n ts \<and> t = sint ts \<and> el_eventcount l' = n"
    and "\<forall>q \<ge> f_pos (el_f l). \<not> magic_at (f_data (el_f l)) q \<Longrightarrow> t = -1"
proof -
  let ?f = "el_f l" let ?d = "f_data ?f"
  obtain r f1 where s: "sync_stream ?f = (r, f1)" by fastforce
  note sp = sync_stream_spec[OF s]
  have d1: "f_data f1 = ?d" using s sync_loop_progress by (simp add: sync_stream_def)
  obtain v f2 where 2: "fread64 f1 = (v, f2)" by fastforce
  obtain w f3 where 3: "fread64 f2 = (w, f3)" by fastforce
  have d: "f_data f2 = ?d" "f_data f3 = ?d" using d1 2 3 fread64_pos by metis+
  note g = assms[unfolded get_next_event_time_def s]
  show "f_data (el_f l') = ?d" using g 2 3 d1 d by (auto simp: fseek_cur_def split: if_splits option.splits)
  show "t = -1" if "\<forall>q \<ge> f_pos ?f. \<not> magic_at ?d q" using that sp g by (cases r) auto
  show "\<exists>n ts. probe ?d (f_pos ?f) (f_pos (el_f l')) n ts \<and> t = sint ts \<and> el_eventcount l' = n" if "0 \<le> t"
  proof -
    from that g 2 3 obtain n ts where n: "r" "v = Some n" "w = Some ts" "t = sint ts" "l' = l\<lparr>el_f := fseek_cur (-20) f3, el_eventcount := n\<rparr>"
      by (auto split: if_splits option.splits)
    from sp n(1) obtain q where q: "f_pos ?f \<le> q" "magic_at ?d q" "\<forall>q'. f_pos ?f \<le> q' \<and> q' < q \<longrightarrow> \<not> magic_at ?d q'" "f1 = ?f\<lparr>f_pos := q + 4\<rparr>" by auto
    from fread64_SomeD[OF 2[unfolded n(2)]] fread64_SomeD[OF 3[unfolded n(3)]] have
      f3: "f3 = ?f\<lparr>f_pos := q + 20\<rparr>" "frest f1 = bytes64 n @ bytes64 ts @ frest f3" by (auto simp: q(4))
    have "drop q ?d = take 4 (drop q ?d) @ frest f1" using q(4) append_take_drop_id[of 4 "drop q ?d"] by (simp add: add.commute)
    then have "drop q ?d = bytes32 MAGIC @ bytes64 n @ bytes64 ts @ frest f3" using q(2) f3(2) by (simp only: magic_at_def)
    with q(1,3) n(4,5) f3(1) show ?thesis by (auto simp: probe_def fseek_cur_def nat_diff_distrib)
  qed
qed

section \<open>The search ends\<close>

definition probe_pos :: "u8 list \<Rightarrow> rat \<Rightarrow> nat" where
  "probe_pos d x = nat \<lfloor>double (x * double (of_nat (length d)))\<rfloor>"

definition before_ts :: "u8 list \<Rightarrow> int \<Rightarrow> rat \<Rightarrow> bool" where
  "before_ts d ts x \<longleftrightarrow> x = 0 \<or> (\<exists>q n t. probe d (probe_pos d x) q n t \<and> sint t < ts)"

definition after_ts :: "u8 list \<Rightarrow> int \<Rightarrow> rat \<Rightarrow> bool" where
  "after_ts d ts x \<longleftrightarrow> x = 1 \<or> (\<exists>q n t. probe d (probe_pos d x) q n t \<and> ts < sint t)"

definition sought :: "u8 list \<Rightarrow> int \<Rightarrow> nat \<Rightarrow> u64 \<Rightarrow> bool" where
  "sought d ts q n \<longleftrightarrow> (\<exists>m t. probe d (probe_pos d m) q n t \<and> 0 \<le> sint t \<and> 0 \<le> m
     \<and> (sint t = ts \<or> (\<exists>a f1 f2 prev. bracket 39 a f1 f2 prev \<and> m = of_int (2 * a + 1) / 2 ^ 40 \<and> before_ts d ts f1 \<and> after_ts d ts f2)))"

lemma seek_loop_total:
  assumes "bracket n a f1 f2 prev" "fuel + n = 40" "before_ts (f_data (el_f l)) ts f1" "after_ts (f_data (el_f l)) ts f2"
  shows "\<exists>r l'. seek_loop fuel ts (length (f_data (el_f l))) f1 f2 prev l = Some (r, l') \<and> f_data (el_f l') = f_data (el_f l)
    \<and> (r = -1 \<or> r = 0 \<and> sought (f_data (el_f l)) ts (f_pos (el_f l')) (el_eventcount l'))"
  using assms
proof (induction fuel arbitrary: n a f1 f2 prev l)
  case 0
  then show ?case by (simp add: bracket_def)
next
  case (Suc fuel)
  let ?d = "f_data (el_f l)" and ?m = "of_int (2 * a + 1) / 2 ^ Suc n :: rat"
  note b = bracket_middle[OF Suc.prems(1)]
  obtain t l1 where g: "get_next_event_time (l\<lparr>el_f := (el_f l)\<lparr>f_pos := probe_pos ?d ?m\<rparr>\<rparr>) = (t, l1)" by fastforce
  have d1: "f_data (el_f l1) = ?d" using get_next_event_time_cases(1)[OF g] by simp
  have step: "seek_loop (Suc fuel) ts (length ?d) f1 f2 prev l =
    (if t < 0 then Some (-1, l1)
     else if \<bar>double (?m - prev)\<bar> < 1 / 10 ^ 12 \<or> t = ts then Some (0, l1)
     else if t < ts then seek_loop fuel ts (length ?d) ?m f2 ?m l1 else seek_loop fuel ts (length ?d) f1 ?m ?m l1)"
    using b(2,3) g unfolding seek_loop.simps b(1) probe_pos_def by (simp add: Let_def abs_rat_def)
  show ?case
  proof (cases "t < 0")
    case True
    then show ?thesis unfolding step using d1 by simp
  next
    case False
    from get_next_event_time_cases(2)[OF g] False obtain c s where
      p: "probe ?d (probe_pos ?d ?m) (f_pos (el_f l1)) c s" "t = sint s" "el_eventcount l1 = c" by auto
    have m0: "0 \<le> ?m" using Suc.prems(1) by (simp add: bracket_def)
    show ?thesis
    proof (cases "n = 39")
      case True
      have "sought ?d ts (f_pos (el_f l1)) c" unfolding sought_def
        using p(1,2) False m0 Suc.prems True by (intro exI[of _ ?m] exI[of _ s]) (auto simp del: of_int_add of_int_mult)
      with bracket_last[OF Suc.prems(1)] True show ?thesis unfolding step using False d1 p(3) by simp
    next
      case n: False
      with Suc.prems(1) have n: "n < 39" by (auto simp: bracket_def)
      show ?thesis
      proof (cases "t = ts")
        case True
        then have "sought ?d ts (f_pos (el_f l1)) c" unfolding sought_def
          using p(1,2) False m0 by (intro exI[of _ ?m] exI[of _ s]) (auto simp del: of_int_add of_int_mult)
        with True False d1 p(3) show ?thesis unfolding step by simp
      next
        case go: False
        have "t < ts \<Longrightarrow> before_ts ?d ts ?m" "ts < t \<Longrightarrow> after_ts ?d ts ?m" using p by (auto simp: before_ts_def after_ts_def)
        with Suc.IH[of "Suc n" "2 * a + 1" ?m f2 ?m l1, OF b(4)[OF n]] Suc.IH[of "Suc n" "2 * a" f1 ?m ?m l1, OF b(5)[OF n]] Suc.prems d1 go False bracket_last[OF Suc.prems(1)] n
        show ?thesis unfolding step by (cases "t < ts") auto
      qed
    qed
  qed
qed

section \<open>Offsets\<close>

text \<open>Rounding does not cross a whole number.\<close>

lemma dvd_power_two: "0 < (b :: int) \<Longrightarrow> b dvd 2 ^ n \<Longrightarrow> \<exists>j. b = 2 ^ j"
proof (induction n arbitrary: b)
  case 0
  then show ?case by (intro exI[of _ 0]) auto
next
  case (Suc n)
  show ?case
  proof (cases "even b")
    case True
    then obtain c where c: "b = 2 * c" by blast
    with Suc obtain j where "c = 2 ^ j" by fastforce
    with c show ?thesis by (metis power_Suc)
  next
    case False
    then have "coprime b 2" by simp
    with Suc.prems(2) have "b dvd 2 ^ n" by (simp add: coprime_dvd_mult_right_iff)
    with Suc show ?thesis by blast
  qed
qed

lemma round53_between:
  assumes "a div 2 ^ j < 2 ^ 53"
  shows "a div 2 ^ j * 2 ^ j \<le> round53 a" "round53 a \<le> (a div 2 ^ j + 1) * 2 ^ j"
proof -
  let ?N = "a div 2 ^ j" and ?e = "floorlog 2 a - 53"
  have "a < (?N + 1) * 2 ^ j" by (metis add.commute dividend_less_times_div mult.commute mult_Suc plus_1_eq_Suc zero_less_numeral zero_less_power)
  also have "\<dots> \<le> 2 ^ 53 * 2 ^ j" using assms by (intro mult_right_mono) auto
  finally have "a < 2 ^ (53 + j)" by (simp only: power_add)
  then have "floorlog 2 a \<le> 53 + j" by (rule floorlog_leI) auto
  then have e: "?e \<le> j" by simp
  define M where "M = (2 :: nat) ^ (j - ?e)"
  have J: "2 ^ j = M * 2 ^ ?e" using e by (simp add: M_def flip: power_add)
  let ?q = "a div 2 ^ ?e"
  have "?N * M * 2 ^ ?e \<le> a" using div_times_less_eq_dividend[of a "2 ^ j"] by (simp add: J mult.assoc)
  then have lo: "?N * M \<le> ?q" by (simp add: less_eq_div_iff_mult_less_eq)
  have "a < (?N + 1) * M * 2 ^ ?e" using \<open>a < (?N + 1) * 2 ^ j\<close> J by (simp only: mult.assoc)
  then have hi: "?q < (?N + 1) * M" by (simp add: div_less_iff_less_mult)
  obtain q' where q': "round53 a = q' * 2 ^ ?e" "?q \<le> q'" "q' \<le> ?q + 1"
    by (intro that[of "if 2 * (a mod 2 ^ ?e) > 2 ^ ?e \<or> 2 * (a mod 2 ^ ?e) = 2 ^ ?e \<and> odd ?q then ?q + 1 else ?q"]) (simp_all add: round53_def Let_def)
  have "?N * M * 2 ^ ?e \<le> q' * 2 ^ ?e" using lo q'(2) by (intro mult_right_mono) auto
  then show "?N * 2 ^ j \<le> round53 a" by (simp only: q'(1) J mult.assoc)
  have "q' * 2 ^ ?e \<le> (?N + 1) * M * 2 ^ ?e" using hi q'(3) by (intro mult_right_mono) auto
  then show "round53 a \<le> (?N + 1) * 2 ^ j" by (simp only: q'(1) J mult.assoc)
qed

lemma double_floor:
  assumes "x = of_nat k / 2 ^ n" "x < 2 ^ 53"
  shows "\<lfloor>x\<rfloor> \<le> \<lfloor>double x\<rfloor>" "\<lfloor>double x\<rfloor> \<le> \<lfloor>x\<rfloor> + 1"
proof -
  obtain a b where q: "quotient_of x = (a, b)" by fastforce
  then have b: "b > 0" "coprime a b" "x = of_int a / of_int b" by (auto simp: quotient_of_denom_pos quotient_of_coprime quotient_of_div)
  have "(of_int (a * 2 ^ n) :: rat) = of_int (int k * b)" using b(1,3) assms(1) by (simp add: field_simps)
  then have ab: "a * 2 ^ n = int k * b" by (simp only: of_int_eq_iff)
  then have "b dvd a * 2 ^ n" by simp
  then have "b dvd 2 ^ n" using b(2) by (simp add: coprime_dvd_mult_right_iff coprime_commute)
  with b(1) obtain j where j: "b = 2 ^ j" using dvd_power_two by blast
  have "0 \<le> a" using ab b(1) by (metis mult_nonneg_nonneg of_nat_0_le_iff order_less_imp_le zero_le_mult_iff zero_less_numeral zero_less_power not_le)
  then obtain c where c: "a = int c" by (metis nonneg_int_cases)
  have x: "x = of_nat c / of_nat (2 ^ j)" using b(3) by (simp add: c j)
  then have fl: "\<lfloor>x\<rfloor> = int (c div 2 ^ j)" by (simp only: floor_divide_of_nat_eq)
  have "of_int \<lfloor>x\<rfloor> < (2 ^ 53 :: rat)" using assms(2) of_int_floor_le[of x] by linarith
  then have "c div 2 ^ j < 2 ^ 53" unfolding fl by (metis of_int_of_nat_eq of_nat_less_iff of_nat_numeral of_nat_power)
  note r = round53_between[OF this]
  have dx: "double x = of_nat (round53 c) / 2 ^ j" using q by (cases "c = 0") (simp_all add: double_def c j round53_def)
  have "of_nat (c div 2 ^ j * 2 ^ j) \<le> (of_nat (round53 c) :: rat)" "(of_nat (round53 c) :: rat) \<le> of_nat ((c div 2 ^ j + 1) * 2 ^ j)"
    using r by (simp_all only: of_nat_le_iff)
  then have "of_nat (c div 2 ^ j) \<le> double x" "double x \<le> of_nat (c div 2 ^ j) + 1" by (simp_all add: dx field_simps)
  then show "\<lfloor>x\<rfloor> \<le> \<lfloor>double x\<rfloor>" "\<lfloor>double x\<rfloor> \<le> \<lfloor>x\<rfloor> + 1" unfolding fl by (auto simp: le_floor_iff) linarith
qed

lemma probe_pos_bounds:
  assumes "length d < 2 ^ 39" "x = of_nat k / 2 ^ n" "x \<le> 1"
  shows "nat \<lfloor>x * of_nat (length d)\<rfloor> \<le> probe_pos d x" "probe_pos d x \<le> nat \<lfloor>x * of_nat (length d)\<rfloor> + 1"
proof -
  have "double (of_nat (length d)) = of_nat (length d)" using assms(1) by (intro double_exact[of _ "int (length d)" 0]) auto
  then have p: "probe_pos d x = nat \<lfloor>double (x * of_nat (length d))\<rfloor>" by (simp add: probe_pos_def)
  have "x * of_nat (length d) \<le> 1 * of_nat (length d)" using assms(3) by (intro mult_right_mono) auto
  also have "\<dots> < of_nat (2 ^ 39)" using assms(1) by (simp only: mult_1 of_nat_less_iff)
  finally have "x * of_nat (length d) < 2 ^ 53" by simp
  moreover have "x * of_nat (length d) = of_nat (k * length d) / 2 ^ n" by (simp add: assms(2))
  ultimately have "\<lfloor>x * of_nat (length d)\<rfloor> \<le> \<lfloor>double (x * of_nat (length d))\<rfloor>" "\<lfloor>double (x * of_nat (length d))\<rfloor> \<le> \<lfloor>x * of_nat (length d)\<rfloor> + 1"
    using double_floor by blast+
  then show "nat \<lfloor>x * of_nat (length d)\<rfloor> \<le> probe_pos d x" "probe_pos d x \<le> nat \<lfloor>x * of_nat (length d)\<rfloor> + 1"
    unfolding p by linarith+
qed

text \<open>Two magic numbers with none between them.\<close>

definition adjacent :: "u8 list \<Rightarrow> nat \<Rightarrow> nat \<Rightarrow> bool" where
  "adjacent d q q' \<longleftrightarrow> magic_at d q \<and> magic_at d q' \<and> q < q' \<and> (\<forall>z. q < z \<and> z < q' \<longrightarrow> \<not> magic_at d z)"

lemma probes_adjacent:
  assumes "probe d p q n t" "probe d p' q' n' t'" "w \<le> p" "p \<le> w + 2" "w \<le> p'" "p' \<le> w + 2"
  shows "q = q' \<or> adjacent d q q' \<or> adjacent d q' q"
proof -
  have wlog: "q = q' \<or> adjacent d q q'" if "probe d p q n t" "probe d p' q' n' t'" "w \<le> p" "p \<le> p'" "p' \<le> w + 2" for p q n t p' q' n' t'
  proof (cases "p' \<le> q")
    case True
    have "\<not> q' < q" using probe_magic[OF that(2)] that(1,2,4) by (auto simp: probe_def)
    moreover have "\<not> q < q'" using probe_magic[OF that(1)] that(2) True by (auto simp: probe_def)
    ultimately show ?thesis by simp
  next
    case False
    have "\<not> magic_at d z" if "q < z" "z < q'" for z
    proof
      assume z: "magic_at d z"
      with magic_no_overlap[OF probe_magic[OF \<open>probe d p q n t\<close>] z] that(1) have "q + 4 \<le> z" by simp
      then have "p' \<le> z" using \<open>probe d p q n t\<close> \<open>w \<le> p\<close> \<open>p' \<le> w + 2\<close> by (auto simp: probe_def)
      with z that(2) \<open>probe d p' q' n' t'\<close> show False by (auto simp: probe_def)
    qed
    moreover have "q < q'" using that(2) False by (auto simp: probe_def)
    ultimately show ?thesis using probe_magic[OF that(1)] probe_magic[OF that(2)] by (simp add: adjacent_def)
  qed
  show ?thesis
  proof (cases "p \<le> p'")
    case True
    with wlog[OF assms(1,2,3) _ assms(6)] show ?thesis by blast
  next
    case False
    with wlog[OF assms(2,1,5) _ assms(4)] show ?thesis by auto
  qed
qed

definition stamped :: "u8 list \<Rightarrow> nat \<Rightarrow> u64 \<Rightarrow> u64 \<Rightarrow> bool" where
  "stamped d q n t \<longleftrightarrow> (\<exists>rest. drop q d = bytes32 MAGIC @ bytes64 n @ bytes64 t @ rest)"

lemma bytes64_inj: "bytes64 v = bytes64 w \<longleftrightarrow> v = w"
proof
  assume e: "bytes64 v = bytes64 w"
  let ?f = "\<lparr>f_data = bytes64 v, f_pos = 0, f_append = False, f_room = 0\<rparr>"
  have "fread64 ?f = (Some v, advance 8 ?f)" by (rule fread64_bytes[of _ _ "[]"]) simp
  moreover have "fread64 ?f = (Some w, advance 8 ?f)" by (rule fread64_bytes[of _ _ "[]"]) (simp add: e)
  ultimately show "v = w" by simp
qed simp

lemma stamped_unique: "stamped d q n t \<Longrightarrow> stamped d q n' t' \<Longrightarrow> n = n' \<and> t = t'"
  by (auto simp: stamped_def bytes64_inj)

lemma probe_stamped: "probe d p q n t \<Longrightarrow> stamped d q n t"
  by (auto simp: probe_def stamped_def)

text \<open>
  Where the search ends: at a record with the time, at one of two neighbours with the time between them, or at the first record of
  the file, which is later.
\<close>

definition crossing :: "u8 list \<Rightarrow> int \<Rightarrow> nat \<Rightarrow> int \<Rightarrow> bool" where
  "crossing d ts q t \<longleftrightarrow> (\<exists>q' n' t'. stamped d q' n' t' \<and> (adjacent d q q' \<or> adjacent d q' q) \<and> (t < ts \<and> ts < sint t' \<or> sint t' < ts \<and> ts < t))"

lemma sought_crossing:
  assumes "sought d ts q n" "length d < 2 ^ 39"
  shows "\<exists>t. stamped d q n t \<and> 0 \<le> sint t \<and> (sint t = ts \<or> crossing d ts q (sint t) \<or> ts < sint t \<and> (\<forall>q' < q. \<not> magic_at d q'))"
proof -
  obtain m t where p: "probe d (probe_pos d m) q n t" "0 \<le> sint t"
    "sint t = ts \<or> (\<exists>a f1 f2 prev. bracket 39 a f1 f2 prev \<and> m = of_int (2 * a + 1) / 2 ^ 40 \<and> before_ts d ts f1 \<and> after_ts d ts f2)"
    using assms(1) unfolding sought_def by blast
  have "crossing d ts q (sint t) \<or> ts < sint t \<and> (\<forall>q' < q. \<not> magic_at d q')" if ne: "sint t \<noteq> ts"
  proof -
    let ?L = "of_nat (length d) :: rat"
    from p(3) ne obtain a f1 f2 prev where b: "bracket 39 a f1 f2 prev" "m = of_int (2 * a + 1) / 2 ^ 40" "before_ts d ts f1" "after_ts d ts f2" by blast
    obtain c where c: "a = int c" "c < 2 ^ 39" using b(1) by (auto simp: bracket_def elim!: nonneg_int_cases)
    have f: "f1 = of_nat c / 2 ^ 39" "f2 = of_nat (c + 1) / 2 ^ 39" "m = of_nat (2 * c + 1) / 2 ^ 40"
      using b(1,2) c(1) by (simp_all add: bracket_def)
    have le1: "f1 \<le> 1" "f2 \<le> 1" "m \<le> 1"
    proof -
      have "of_nat (c + 1) \<le> (of_nat (2 ^ 39) :: rat)" using c(2) by (simp only: of_nat_le_iff)
      then show "f1 \<le> 1" "f2 \<le> 1" "m \<le> 1" by (simp_all add: f)
    qed
    note pos = probe_pos_bounds[OF assms(2) f(1) le1(1)] probe_pos_bounds[OF assms(2) f(2) le1(2)] probe_pos_bounds[OF assms(2) f(3) le1(3)]
    let ?w = "nat \<lfloor>f1 * ?L\<rfloor>"
    have L: "?L < 2 ^ 39" "0 \<le> ?L" using assms(2) by (metis of_nat_less_iff of_nat_numeral of_nat_power) simp
    have mid: "f1 * ?L \<le> m * ?L" "m * ?L \<le> f2 * ?L" "f2 * ?L < f1 * ?L + 1" using L by (simp_all add: f field_simps)
    have "\<lfloor>m * ?L\<rfloor> \<le> \<lfloor>f2 * ?L\<rfloor>" "\<lfloor>f1 * ?L\<rfloor> \<le> \<lfloor>m * ?L\<rfloor>" "\<lfloor>f2 * ?L\<rfloor> \<le> \<lfloor>f1 * ?L\<rfloor> + 1"
      using mid by linarith+
    then have w: "?w \<le> probe_pos d m" "probe_pos d m \<le> ?w + 2" "probe_pos d f1 \<le> ?w + 2" "?w \<le> probe_pos d f2" "probe_pos d f2 \<le> ?w + 2"
      using pos by linarith+
    have "f2 \<noteq> 1"
    proof
      assume "f2 = 1"
      then have "c + 1 = 2 ^ 39" unfolding f(2) by (simp add: field_simps)
      then have "?L - 1 \<le> m * ?L" using L unfolding f(3) by (simp add: field_simps)
      then have "int (length d) - 1 \<le> \<lfloor>m * ?L\<rfloor>" by (simp add: le_floor_iff)
      with pos(5) probe_length[OF p(1)] p(1) show False by (auto simp: probe_def)
    qed
    then obtain B k s where B: "probe d (probe_pos d f2) B k s" "ts < sint s" using b(4) by (auto simp: after_ts_def)
    have nextB: "sint t < ts \<Longrightarrow> crossing d ts q (sint t)"
      using probes_adjacent[OF p(1) B(1) w(1,2,4,5)] stamped_unique[OF probe_stamped[OF p(1)] probe_stamped] B probe_stamped[OF B(1)] unfolding crossing_def by fastforce
    show ?thesis
    proof (cases "f1 = 0")
      case True
      then have c0: "c = 0" by (simp add: f)
      have z: "probe_pos d m = 0"
      proof -
        have "double ?L = ?L" using assms(2) by (intro double_exact[of _ "int (length d)" 0]) auto
        moreover have "double (m * ?L) = m * ?L" using assms(2) unfolding f(3) c0 by (intro double_exact[of _ "int (length d)" 40]) auto
        moreover have "\<lfloor>m * ?L\<rfloor> = 0" using L unfolding f(3) c0 by (simp add: floor_eq_iff)
        ultimately show ?thesis by (simp add: probe_pos_def)
      qed
      with p(1) have "\<forall>q' < q. \<not> magic_at d q'" by (simp add: probe_def)
      with nextB ne show ?thesis by (cases "sint t < ts") auto
    next
      case False
      then obtain A k s where A: "probe d (probe_pos d f1) A k s" "sint s < ts" using b(3) by (auto simp: before_ts_def)
      have "ts < sint t \<Longrightarrow> crossing d ts q (sint t)"
        using probes_adjacent[OF p(1) A(1) w(1,2) pos(1) w(3)] stamped_unique[OF probe_stamped[OF p(1)] probe_stamped] A probe_stamped[OF A(1)] unfolding crossing_def by fastforce
      with nextB ne show ?thesis by (cases "sint t < ts") auto
    qed
  qed
  with p probe_stamped show ?thesis by blast
qed

section \<open>Properties\<close>

text \<open>
  C14. Seeking by time always ends, on every file and for every time, within 40 rounds of the bisection: it gives \<open>-1\<close>, or \<open>0\<close> with the
  position at the magic number of a record whose event number has become the log's event count. In a file below 512 GiB a success means
  that this record has the time sought, or is one of two neighbouring records with the time between theirs, or is the first of
  the file and is later than the time. The file is not changed.
\<close>

theorem seek_ends_at_crossing:
  "\<exists>r l'. zcm_eventlog_seek_to_timestamp l ts = Some (r, l') \<and> f_data (el_f l') = f_data (el_f l)
    \<and> (r = -1 \<or> r = 0 \<and> (\<exists>t. stamped (f_data (el_f l)) (f_pos (el_f l')) (el_eventcount l') t \<and> 0 \<le> sint t
         \<and> (length (f_data (el_f l)) < 2 ^ 39 \<longrightarrow>
              sint t = sint ts \<or> crossing (f_data (el_f l)) (sint ts) (f_pos (el_f l')) (sint t)
              \<or> sint ts < sint t \<and> (\<forall>q' < f_pos (el_f l'). \<not> magic_at (f_data (el_f l)) q'))))"
proof -
  have "bracket 0 0 0 1 (-1)" by (simp add: bracket_def)
  from seek_loop_total[OF this, of 40 l "sint ts"] obtain r l' where
    s: "zcm_eventlog_seek_to_timestamp l ts = Some (r, l')" "f_data (el_f l') = f_data (el_f l)"
      "r = -1 \<or> r = 0 \<and> sought (f_data (el_f l)) (sint ts) (f_pos (el_f l')) (el_eventcount l')"
    by (auto simp: before_ts_def after_ts_def zcm_eventlog_seek_to_timestamp_def)
  have "\<exists>t. stamped (f_data (el_f l)) (f_pos (el_f l')) (el_eventcount l') t \<and> 0 \<le> sint t"
    if "sought (f_data (el_f l)) (sint ts) (f_pos (el_f l')) (el_eventcount l')" using that probe_stamped unfolding sought_def by blast
  with s sought_crossing[of "f_data (el_f l)" "sint ts" "f_pos (el_f l')" "el_eventcount l'"] show ?thesis by metis
qed

theorem seek_ends_at_crossing_witness:
  "\<exists>r l'. zcm_eventlog_seek_to_timestamp \<lparr>el_f = \<lparr>f_data = [], f_pos = 0, f_append = False, f_room = 0\<rparr>, el_eventcount = 0\<rparr> 7 = Some (r, l')
    \<and> f_data (el_f l') = []"
  using seek_ends_at_crossing[of "\<lparr>el_f = \<lparr>f_data = [], f_pos = 0, f_append = False, f_room = 0\<rparr>, el_eventcount = 0\<rparr>" 7] by auto

text \<open>
  A log whose last record takes up more than half of the file cannot be searched: whatever time is sought, the one of that record or of any
  earlier one included, the first probe falls behind the last magic number and the search fails. A log of one record is such a log.
\<close>

theorem seek_long_last_record_fails:
  assumes "f_data (el_f l) = A @ event_bytes le" "2 * (length A + 1) \<le> length (f_data (el_f l))" "length (f_data (el_f l)) < 2 ^ 39"
    and "no_inner_magic le"
  shows "\<exists>l'. zcm_eventlog_seek_to_timestamp l ts = Some (-1, l')"
proof -
  let ?d = "f_data (el_f l)" let ?p = "probe_pos ?d (1 / 2)"
  have "length A + 1 \<le> nat \<lfloor>1 / 2 * (of_nat (length ?d) :: rat)\<rfloor>"
  proof -
    have "of_nat (2 * (length A + 1)) \<le> (of_nat (length ?d) :: rat)" using assms(2) by (simp only: of_nat_le_iff)
    then show ?thesis by (simp add: le_nat_iff le_floor_iff)
  qed
  also have "\<dots> \<le> ?p" by (rule probe_pos_bounds(1)[OF assms(3), of _ 1 1]) simp_all
  finally have p: "length A < ?p" by simp
  have none: "\<not> magic_at ?d q" if "?p \<le> q" for q
  proof
    assume m: "magic_at ?d q"
    have "drop q ?d = drop (q - length A) (event_bytes le)" using that p by (simp add: assms(1))
    with m have i: "magic_at (event_bytes le) (q - length A)" by (simp add: magic_at_def)
    have "q - length A < length (event_bytes le)" using i by (rule contrapos_pp) (simp add: magic_at_def magic_bytes)
    with i assms(4) that p show False by (auto simp: no_inner_magic_def)
  qed
  let ?l = "l\<lparr>el_f := (el_f l)\<lparr>f_pos := ?p\<rparr>\<rparr>"
  obtain t l' where g: "get_next_event_time ?l = (t, l')" by fastforce
  have "t = -1" using get_next_event_time_cases(3)[OF g] none by simp
  moreover have "double (1 / 2 * double (0 + 1)) = 1 / 2" using double_exact[of 1 1 0] double_exact[of "1 / 2" 1 1] by simp
  ultimately have "seek_loop (Suc 39) (sint ts) (length ?d) 0 1 (-1) l = Some (-1, l')"
    using g unfolding seek_loop.simps probe_pos_def by (simp only: Let_def prod.case) simp
  then have "zcm_eventlog_seek_to_timestamp l ts = Some (-1, l')" by (simp add: zcm_eventlog_seek_to_timestamp_def)
  then show ?thesis by blast
qed

theorem seek_long_last_record_fails_witness:
  "\<exists>l'. zcm_eventlog_seek_to_timestamp \<lparr>el_f = \<lparr>f_data = event_bytes \<lparr>le_eventnum = 0, le_timestamp = 7, le_channellen = 1, le_datalen = 0, le_channel = [65], le_data = []\<rparr>,
      f_pos = 0, f_append = False, f_room = 0\<rparr>, el_eventcount = 0\<rparr> 7 = Some (-1, l')"
proof -
  let ?le = "\<lparr>le_eventnum = 0, le_timestamp = 7, le_channellen = 1, le_datalen = 0, le_channel = [65], le_data = []\<rparr>"
  have "event_bytes ?le = [0xED, 0xA1, 0xDA, 0x01, 0, 0, 0, 0, 0, 0, 0, 0, 0, 0, 0, 0, 0, 0, 0, 7, 0, 0, 0, 1, 0, 0, 0, 0, 65]"
    unfolding event_bytes_def magic_bytes by (simp add: head_bytes_def bytes64_def bytes32_def)
  moreover from this have "no_inner_magic ?le"
    by (intro no_inner_magicI) simp
  ultimately show ?thesis by (intro seek_long_last_record_fails[where A = "[]" and le = ?le]) simp_all
qed

end
