(* ===== verification/Tokenize.thy ===== *)
theory Tokenize
  imports Zcm_Prelude
begin

text \<open>
  The tokenizer of the type generator (\<^verbatim>\<open>gen/tokenize.c\<close>): characters come from a line buffer that is filled from the file, one character can be put
  back, tokens are collected in a memory block that doubles when it is full. Characters are read as signed \<^verbatim>\<open>char\<close> values, so the
  byte \<^verbatim>\<open>0xff\<close> is \<^verbatim>\<open>EOF\<close>. Results distinguish a computation that does not end (\<open>None\<close>), one that leaves its memory
  (\<open>Fault\<close>), one that ends the program, and one that returns.
\<close>

section \<open>Runs\<close>

datatype stop = Fault | Parse_Error | Semantic_Error | Assert_Failed

type_synonym 'a run = "(stop + 'a) option"

abbreviation ok :: "'a \<Rightarrow> 'a run" where "ok x \<equiv> Some (Inr x)"
abbreviation stop :: "stop \<Rightarrow> 'a run" where "stop e \<equiv> Some (Inl e)"

definition rbind :: "'a run \<Rightarrow> ('a \<Rightarrow> 'b run) \<Rightarrow> 'b run" where
  "rbind m f = Option.bind m (\<lambda>r. case r of Inl e \<Rightarrow> Some (Inl e) | Inr x \<Rightarrow> f x)"

lemma rbind_simps [simp]: "rbind None f = None" "rbind (Some (Inl e)) f = Some (Inl e)" "rbind (Some (Inr x)) f = f x"
  by (simp_all add: rbind_def)

lemma rbind_ok [simp]: "rbind m f = Some (Inr y) \<longleftrightarrow> (\<exists>x. m = Some (Inr x) \<and> f x = Some (Inr y))"
  by (cases m) (auto simp: rbind_def split: sum.splits)

lemma rbind_None [simp]: "rbind m f = None \<longleftrightarrow> m = None \<or> (\<exists>x. m = Some (Inr x) \<and> f x = None)"
  by (cases m) (auto simp: rbind_def split: sum.splits)

lemma rbind_stop: "rbind m f = Some (Inl e) \<longleftrightarrow> m = Some (Inl e) \<or> (\<exists>x. m = Some (Inr x) \<and> f x = Some (Inl e))"
  by (cases m) (auto simp: rbind_def split: sum.splits)

lemma rbind_mono [partial_function_mono]:
  assumes "mono_option B" "\<And>y. mono_option (\<lambda>f. C y f)"
  shows "mono_option (\<lambda>f. rbind (B f) (\<lambda>y. C y f))"
  unfolding rbind_def
proof (rule bind_mono[OF assms(1)])
  show "mono_option (\<lambda>f. case r of Inl e \<Rightarrow> Some (Inl e) | Inr x \<Rightarrow> C x f)" for r
    by (cases r) (auto intro: assms(2) option.const_mono)
qed

section \<open>Characters\<close>

abbreviation EOF :: int where "EOF \<equiv> -1"
abbreviation TAB :: int where "TAB \<equiv> 9"
abbreviation NEWLINE :: int where "NEWLINE \<equiv> 10"
abbreviation SPACE :: int where "SPACE \<equiv> 32"
abbreviation DQUOTE :: int where "DQUOTE \<equiv> 34"
abbreviation QUOTE :: int where "QUOTE \<equiv> 39"
abbreviation STAR :: int where "STAR \<equiv> 42"
abbreviation SLASH :: int where "SLASH \<equiv> 47"
abbreviation BACKSLASH :: int where "BACKSLASH \<equiv> 92"

definition str :: "string \<Rightarrow> u8 list" where "str s = map of_char s"

definition isspace :: "int \<Rightarrow> bool" where "isspace c \<longleftrightarrow> c = 32 \<or> 9 \<le> c \<and> c \<le> 13"

text \<open>\<^verbatim>\<open>strchr\<close> converts to \<^verbatim>\<open>char\<close> and also finds the terminating zero.\<close>

definition strchr :: "u8 list \<Rightarrow> int \<Rightarrow> bool" where
  "strchr s c \<longleftrightarrow> (let b = word_of_int c in b = 0 \<or> b \<in> set s)"

definition single_char_toks :: "u8 list" where
  "single_char_toks = str ''();'' @ [34] @ str '',:'' @ [39] @ str ''[]''"

definition op_chars :: "u8 list" where
  "op_chars = str ''!~<>=&|^%*+=''"

definition MAX_LINE_LEN :: nat where "MAX_LINE_LEN = 1024"

definition unescape :: "int \<Rightarrow> int" where
  "unescape c = (if c = 110 then 10 else if c = 114 then 13 else if c = 116 then 9 else c)"

section \<open>State\<close>

datatype zcm_token_type_t = ZCM_TOK_INVALID | ZCM_TOK_EOF | ZCM_TOK_COMMENT | ZCM_TOK_OTHER

text \<open>The capacity of the token is the length of its block; \<open>tk_junk\<close> is what \<^verbatim>\<open>realloc\<close> leaves in new memory.\<close>

record tokenize_t =
  tk_token :: "u8 list"
  tk_junk :: u8
  token_line :: int
  token_column :: int
  current_char :: int
  current_line :: int
  current_column :: int
  unget_char :: int
  unget_line :: int
  unget_column :: int
  tk_buffer :: "u8 list"
  buffer_line :: int
  buffer_column :: nat
  buffer_len :: nat
  tk_f :: "u8 list"
  hasnext :: bool
  token_type :: zcm_token_type_t

definition tokenize_create :: "u8 list option \<Rightarrow> u8 \<Rightarrow> tokenize_t option" where
  "tokenize_create file junk =
     map_option (\<lambda>f.
       \<lparr>tk_token = replicate 1024 0, tk_junk = junk, token_line = -1, token_column = -1, current_char = 0, current_line = 0, current_column = 0,
        unget_char = -1, unget_line = 0, unget_column = 0, tk_buffer = replicate MAX_LINE_LEN 0, buffer_line = 0, buffer_column = 0, buffer_len = 0,
        tk_f = f, hasnext = False, token_type = ZCM_TOK_INVALID\<rparr>) file"

text \<open>The token as the C string that the parser sees.\<close>

definition token_str :: "tokenize_t \<Rightarrow> u8 list" where
  "token_str t = takeWhile (\<lambda>b. b \<noteq> 0) (tk_token t)"

section \<open>Characters of the file\<close>

definition fgets :: "nat \<Rightarrow> u8 list \<Rightarrow> u8 list \<Rightarrow> (u8 list \<times> u8 list) option" where
  "fgets n buf f =
     (if f = [] then None
      else let l = takeWhile (\<lambda>b. b \<noteq> 10) f;
               s = take (n - 1) (if length l < length f then l @ [10] else l)
           in Some (s @ [0] @ drop (length s + 1) buf, drop (length s) f))"

definition take_char :: "tokenize_t \<Rightarrow> (int \<times> tokenize_t) run" where
  "take_char t =
     (if buffer_column t < length (tk_buffer t) then
        (let c = sint (tk_buffer t ! buffer_column t)
         in ok (c, t\<lparr>current_char := c, current_line := buffer_line t, current_column := int (buffer_column t), buffer_column := buffer_column t + 1\<rparr>))
      else stop Fault)"

definition tokenize_next_char :: "tokenize_t \<Rightarrow> (int \<times> tokenize_t) run" where
  "tokenize_next_char t =
     (if unget_char t \<ge> 0 then
        ok (unget_char t, t\<lparr>current_char := unget_char t, current_line := unget_line t, current_column := unget_column t, unget_char := -1\<rparr>)
      else if buffer_column t = buffer_len t then
        (case fgets MAX_LINE_LEN (tk_buffer t) (tk_f t) of
           None \<Rightarrow> ok (EOF, t)
         | Some (buf, f) \<Rightarrow>
             take_char (t\<lparr>tk_buffer := buf, tk_f := f, buffer_len := length (takeWhile (\<lambda>b. b \<noteq> 0) buf), buffer_line := buffer_line t + 1, buffer_column := 0\<rparr>))
      else take_char t)"

definition tokenize_ungetc :: "tokenize_t \<Rightarrow> int \<Rightarrow> tokenize_t" where
  "tokenize_ungetc t c = t\<lparr>unget_char := current_char t, unget_column := current_column t, unget_line := current_line t\<rparr>"

partial_function (option) tokenize_flush_line :: "tokenize_t \<Rightarrow> tokenize_t run" where
  "tokenize_flush_line t =
     rbind (tokenize_next_char t) (\<lambda>(c, t). if c \<noteq> EOF \<and> c \<noteq> NEWLINE then tokenize_flush_line t else ok t)"

section \<open>Characters of the token\<close>

definition ensure_token_capacity :: "tokenize_t \<Rightarrow> nat \<Rightarrow> tokenize_t" where
  "ensure_token_capacity t pos =
     (if pos \<ge> length (tk_token t) then t\<lparr>tk_token := tk_token t @ replicate (length (tk_token t)) (tk_junk t)\<rparr> else t)"

text \<open>\<^verbatim>\<open>t->token[pos] = c\<close>\<close>

definition put_token :: "tokenize_t \<Rightarrow> nat \<Rightarrow> int \<Rightarrow> tokenize_t run" where
  "put_token t pos c = (if pos < length (tk_token t) then ok (t\<lparr>tk_token := (tk_token t)[pos := word_of_int c]\<rparr>) else stop Fault)"

definition add_char_to_token :: "tokenize_t \<Rightarrow> nat \<Rightarrow> int \<Rightarrow> tokenize_t run" where
  "add_char_to_token t pos c = put_token (ensure_token_capacity t pos) pos c"

section \<open>Comments\<close>

partial_function (option) ext_white :: "tokenize_t \<Rightarrow> nat \<Rightarrow> (int \<times> nat \<times> tokenize_t) run" where
  "ext_white t pos =
     rbind (tokenize_next_char t) (\<lambda>(c, t).
       if c \<noteq> EOF \<and> (c = SPACE \<or> c = TAB) then rbind (add_char_to_token t pos c) (\<lambda>t. ext_white t (pos + 1)) else ok (c, pos, t))"

partial_function (option) ext_stars :: "int \<Rightarrow> tokenize_t \<Rightarrow> nat \<Rightarrow> bool \<Rightarrow> (int \<times> nat \<times> bool \<times> tokenize_t) run" where
  "ext_stars c t pos got_asterisk =
     (if c = STAR then
        rbind (add_char_to_token t pos c) (\<lambda>t. rbind (tokenize_next_char t) (\<lambda>(c, t). ext_stars c t (pos + 1) True))
      else ok (c, pos, got_asterisk, t))"

partial_function (option) ext_content :: "int \<Rightarrow> tokenize_t \<Rightarrow> nat \<Rightarrow> bool \<Rightarrow> (int \<times> nat \<times> bool \<times> tokenize_t) run" where
  "ext_content c t pos comment_finished =
     (if \<not> comment_finished \<and> c \<noteq> EOF \<and> c \<noteq> NEWLINE then
        rbind (add_char_to_token t pos c) (\<lambda>t.
        rbind (tokenize_next_char t) (\<lambda>(c', t).
          if c = STAR \<and> c' = SLASH then ext_content c' t pos True else ext_content c' t (pos + 1) comment_finished))
      else ok (c, pos, comment_finished, t))"

text \<open>One round for every line; the position at the end, or \<^verbatim>\<open>EOF\<close>.\<close>

partial_function (option) ext_lines :: "tokenize_t \<Rightarrow> nat \<Rightarrow> (nat option \<times> tokenize_t) run" where
  "ext_lines t pos_line_start =
     rbind (ext_white t pos_line_start) (\<lambda>(c, pos, t).
     rbind (ext_stars c t pos False) (\<lambda>(c, pos, got_asterisk, t).
       if got_asterisk \<and> c = SLASH then ok (Some pos_line_start, t)
       else
       rbind (if got_asterisk then (if c = SPACE then rbind (tokenize_next_char t) (\<lambda>(c, t). ok (c, pos_line_start, t)) else ok (c, pos_line_start, t))
              else ok (c, pos, t)) (\<lambda>(c, pos, t).
       rbind (ext_content c t pos False) (\<lambda>(c, pos, comment_finished, t).
         if comment_finished then ok (Some pos, t)
         else if c = EOF then ok (None, t)
         else if c \<noteq> NEWLINE then stop Assert_Failed
         else if pos_line_start \<noteq> pos then rbind (add_char_to_token t pos c) (\<lambda>t. ext_lines t (pos + 1))
         else ext_lines t pos))))"

definition tokenize_extended_comment :: "tokenize_t \<Rightarrow> (int \<times> tokenize_t) run" where
  "tokenize_extended_comment t =
     rbind (ext_lines t 0) (\<lambda>(pos, t).
       case pos of
         None \<Rightarrow> ok (EOF, t)
       | Some pos \<Rightarrow> rbind (put_token t pos 0) (\<lambda>t. ok (int pos, t\<lparr>token_type := ZCM_TOK_COMMENT\<rparr>)))"

section \<open>Tokens\<close>

partial_function (option) skip_space :: "tokenize_t \<Rightarrow> (int \<times> tokenize_t) run" where
  "skip_space t =
     rbind (tokenize_next_char t) (\<lambda>(c, t).
       if c = EOF then ok (EOF, t\<lparr>token_type := ZCM_TOK_EOF\<rparr>) else if isspace c then skip_space t else ok (c, t))"

definition end_tok :: "tokenize_t \<Rightarrow> nat \<Rightarrow> (int \<times> tokenize_t) run" where
  "end_tok t pos = rbind (put_token t pos 0) (\<lambda>t. ok (int pos, t))"

definition char_literal :: "tokenize_t \<Rightarrow> int \<Rightarrow> (int \<times> tokenize_t) run" where
  "char_literal t c =
     rbind (put_token t 0 c) (\<lambda>t.
     rbind (tokenize_next_char t) (\<lambda>(c, t).
     rbind (if c = BACKSLASH then rbind (tokenize_next_char t) (\<lambda>(c, t). ok (unescape c, t)) else ok (c, t)) (\<lambda>(c, t).
       if c = EOF then ok (-4, t)
       else
       rbind (put_token t 1 c) (\<lambda>t.
       rbind (tokenize_next_char t) (\<lambda>(c, t).
         if c \<noteq> QUOTE then ok (-5, t)
         else rbind (put_token t 2 c) (\<lambda>t. end_tok (t\<lparr>token_type := ZCM_TOK_OTHER\<rparr>) 3))))))"

partial_function (option) string_loop :: "tokenize_t \<Rightarrow> nat \<Rightarrow> bool \<Rightarrow> (int \<times> tokenize_t) run" where
  "string_loop t pos escape =
     rbind (tokenize_next_char (ensure_token_capacity t pos)) (\<lambda>(c, t).
       if c = EOF then end_tok t pos
       else if escape then string_loop t pos False
       else if c = DQUOTE then rbind (put_token t pos c) (\<lambda>t. end_tok t (pos + 1))
       else if c = BACKSLASH then string_loop t pos True
       else rbind (put_token t pos c) (\<lambda>t. string_loop t (pos + 1) False))"

partial_function (option) operator_loop :: "int \<Rightarrow> tokenize_t \<Rightarrow> nat \<Rightarrow> (int \<times> tokenize_t) run" where
  "operator_loop c t pos =
     (if strchr op_chars c then
        rbind (add_char_to_token t pos c) (\<lambda>t. rbind (tokenize_next_char t) (\<lambda>(c, t). operator_loop c t (pos + 1)))
      else end_tok (tokenize_ungetc (t\<lparr>token_type := ZCM_TOK_OTHER\<rparr>) c) pos)"

partial_function (option) skip_char :: "int \<Rightarrow> int \<Rightarrow> tokenize_t \<Rightarrow> (int \<times> tokenize_t) run" where
  "skip_char ch c t =
     (if c \<noteq> EOF \<and> c = ch then rbind (tokenize_next_char t) (\<lambda>(c, t). skip_char ch c t) else ok (c, t))"

partial_function (option) comment_loop :: "int \<Rightarrow> tokenize_t \<Rightarrow> nat \<Rightarrow> (int \<times> tokenize_t) run" where
  "comment_loop c t pos =
     (if c \<noteq> EOF \<and> c \<noteq> NEWLINE then
        rbind (add_char_to_token t pos c) (\<lambda>t. rbind (tokenize_next_char t) (\<lambda>(c, t). comment_loop c t (pos + 1)))
      else end_tok (tokenize_ungetc t c) pos)"

definition slash_token :: "tokenize_t \<Rightarrow> int \<Rightarrow> (int \<times> tokenize_t) run" where
  "slash_token t c =
     rbind (add_char_to_token t 0 c) (\<lambda>t.
     rbind (tokenize_next_char t) (\<lambda>(c, t).
       if c = EOF then end_tok (t\<lparr>token_type := ZCM_TOK_OTHER\<rparr>) 1
       else if c = STAR then tokenize_extended_comment t
       else if c = SLASH then
         rbind (tokenize_next_char (t\<lparr>token_type := ZCM_TOK_COMMENT\<rparr>)) (\<lambda>(c, t).
         rbind (skip_char SLASH c t) (\<lambda>(c, t).
         rbind (skip_char SPACE c t) (\<lambda>(c, t). comment_loop c t 0)))
       else end_tok (tokenize_ungetc (t\<lparr>token_type := ZCM_TOK_OTHER\<rparr>) c) 1))"

partial_function (option) word_loop :: "int \<Rightarrow> tokenize_t \<Rightarrow> nat \<Rightarrow> (int \<times> tokenize_t) run" where
  "word_loop c t pos =
     rbind (add_char_to_token t pos c) (\<lambda>t.
       let t = t\<lparr>token_type := ZCM_TOK_OTHER\<rparr> in
       if strchr single_char_toks c then end_tok t (pos + 1)
       else
       rbind (tokenize_next_char t) (\<lambda>(c, t).
         if strchr single_char_toks c \<or> strchr op_chars c then end_tok (tokenize_ungetc t c) (pos + 1)
         else if \<not> isspace c \<and> c \<noteq> EOF then word_loop c t (pos + 1)
         else end_tok t (pos + 1)))"

definition tokenize_next_internal :: "tokenize_t \<Rightarrow> (int \<times> tokenize_t) run" where
  "tokenize_next_internal t =
     rbind (skip_space (t\<lparr>token_type := ZCM_TOK_INVALID\<rparr>)) (\<lambda>(c, t).
       if c = EOF then ok (EOF, t)
       else let t = t\<lparr>token_line := current_line t, token_column := current_column t\<rparr> in
       if c = QUOTE then char_literal t c
       else if c = DQUOTE then rbind (put_token t 0 c) (\<lambda>t. string_loop t 1 False)
       else if strchr op_chars c then operator_loop c t 0
       else if c = SLASH then slash_token t c
       else word_loop c t 0)"

definition tokenize_next :: "tokenize_t \<Rightarrow> (int \<times> tokenize_t) run" where
  "tokenize_next t = (if hasnext t then ok (0, t\<lparr>hasnext := False\<rparr>) else tokenize_next_internal t)"

definition tokenize_peek :: "tokenize_t \<Rightarrow> (int \<times> tokenize_t) run" where
  "tokenize_peek t =
     (if hasnext t then ok (0, t)
      else rbind (tokenize_next t) (\<lambda>(res, t). ok (res, if res \<noteq> EOF then t\<lparr>hasnext := True\<rparr> else t)))"

declare tokenize_flush_line.simps [code]
  ext_white.simps [code]
  ext_stars.simps [code]
  ext_content.simps [code]
  ext_lines.simps [code]
  skip_space.simps [code]
  string_loop.simps [code]
  operator_loop.simps [code]
  skip_char.simps [code]
  comment_loop.simps [code]
  word_loop.simps [code]

end
