(* ===== verification/Zcmgen.thy ===== *)
theory Zcmgen
  imports Tokenize String_Util Complex_Main
begin

text \<open>
  The parser of the type generator (\<^verbatim>\<open>gen/ZCMGen.cpp\<close>): a recursive-descent parser over the tokenizer, with the semantic checks of
  type definitions and the hash that identifies a type on the wire. An error that ends the program is a value of \<open>stop\<close>. The options of the
  command line are the record \<open>gopt\<close>; \<^verbatim>\<open>strtod\<close> is a parameter of it (the number of characters read and the value).
\<close>

section \<open>Types of the language\<close>

type_synonym name = "u8 list"

definition primitiveTypes :: "name list" where
  "primitiveTypes = map str [''int8_t'', ''int16_t'', ''int32_t'', ''int64_t'', ''byte'', ''float'', ''double'', ''string'', ''boolean'']"

definition arrayDimTypes :: "name list" where
  "arrayDimTypes = map str [''int8_t'', ''int16_t'', ''int32_t'', ''int64_t'']"

definition constTypes :: "name list" where
  "constTypes = map str [''byte'', ''int8_t'', ''int16_t'', ''int32_t'', ''int64_t'', ''float'', ''double'', ''string'']"

definition fixedPointTypes :: "name list" where
  "fixedPointTypes = map str [''byte'', ''int8_t'', ''int16_t'', ''int32_t'', ''int64_t'']"

definition primitiveTypeSize :: "(name \<times> nat) list" where
  "primitiveTypeSize = [(str ''int8_t'', 1), (str ''int16_t'', 2), (str ''int32_t'', 4), (str ''int64_t'', 8), (str ''byte'', 1), (str ''float'', 4),
     (str ''double'', 8), (str ''boolean'', 1)]"

definition isPrimitiveType :: "name \<Rightarrow> bool" where "isPrimitiveType t \<longleftrightarrow> t \<in> set primitiveTypes"
definition isArrayDimType :: "name \<Rightarrow> bool" where "isArrayDimType t \<longleftrightarrow> t \<in> set arrayDimTypes"
definition isLegalConstType :: "name \<Rightarrow> bool" where "isLegalConstType t \<longleftrightarrow> t \<in> set constTypes"
definition isFixedPoint :: "name \<Rightarrow> bool" where "isFixedPoint t \<longleftrightarrow> t \<in> set fixedPointTypes"

text \<open>\<^verbatim>\<open>None\<close>: the program ends with a message.\<close>

definition getPrimitiveTypeSize :: "name \<Rightarrow> nat option" where
  "getPrimitiveTypeSize tn = map_of primitiveTypeSize tn"

definition getPrimitiveTypeNumBits :: "name \<Rightarrow> nat option" where
  "getPrimitiveTypeNumBits tn = map_option (\<lambda>n. n * 8) (getPrimitiveTypeSize tn)"

definition isdigit :: "u8 \<Rightarrow> bool" where "isdigit c \<longleftrightarrow> 48 \<le> c \<and> c \<le> 57"
definition isalpha :: "u8 \<Rightarrow> bool" where "isalpha c \<longleftrightarrow> 65 \<le> c \<and> c \<le> 90 \<or> 97 \<le> c \<and> c \<le> 122"

text \<open>The first character of a string, which is the terminating zero of an empty one.\<close>

definition char0 :: "u8 list \<Rightarrow> u8" where "char0 s = (case s of [] \<Rightarrow> 0 | c # _ \<Rightarrow> c)"

definition isLegalMemberName :: "name \<Rightarrow> bool" where
  "isLegalMemberName t \<longleftrightarrow> isalpha (char0 t) \<or> char0 t = 95"

definition isLegalTypeName :: "name \<Rightarrow> bool" where
  "isLegalTypeName t \<longleftrightarrow> isLegalMemberName t \<or> char0 t = 46"

section \<open>Definitions of types\<close>

record ZCMTypename =
  fullname :: name
  package :: name
  shortname :: name
  tn_numbits :: u8
  tn_signExtend :: bool

datatype ZCMDimensionMode = ZCM_CONST | ZCM_VAR

record ZCMDimension =
  dim_mode :: ZCMDimensionMode
  dim_size :: name

record ZCMMember =
  m_type :: ZCMTypename
  m_membername :: name
  m_dimensions :: "ZCMDimension list"
  m_comment :: name

text \<open>A \<^verbatim>\<open>double\<close> is a rational number, an infinity or not a number; the union of a constant holds an integer or a \<^verbatim>\<open>double\<close>.\<close>

datatype dbl = Fin rat | Inf | NaN

datatype const_val = V_None | V_Int u64 | V_Flt dbl

record ZCMConstant =
  c_type :: name
  c_membername :: name
  c_val :: const_val
  c_valstr :: name
  c_numbits :: u8
  c_signExtend :: bool
  c_comment :: name

record ZCMStruct =
  structname :: ZCMTypename
  members :: "ZCMMember list"
  constants :: "ZCMConstant list"
  zcmfile :: name
  hash :: u64
  zs_comment :: name

record gopt =
  package_prefix :: name
  opt_tokenize :: bool
  strtod :: "u8 list \<Rightarrow> nat \<times> dbl"

text \<open>The parsing context, with the state of \<^verbatim>\<open>errno\<close>.\<close>

record ZCMGen =
  gopt :: gopt
  structs :: "ZCMStruct list"
  zg_package :: name
  zg_comment :: name
  errno_ERANGE :: bool

definition rfind_dot :: "name \<Rightarrow> nat option" where
  "rfind_dot s = (if 46 \<in> set s then Some (length s - 1 - length (takeWhile (\<lambda>c. c \<noteq> 46) (rev s))) else None)"

definition mkTypename :: "gopt \<Rightarrow> name \<Rightarrow> bool \<Rightarrow> ZCMTypename" where
  "mkTypename g nm skipPrefix =
     (let packagePrefix = (if skipPrefix then [] else package_prefix g);
          (pkg, short) = (case rfind_dot nm of None \<Rightarrow> ([], nm) | Some dot \<Rightarrow> (take dot nm, drop (dot + 1) nm))
      in if packagePrefix \<noteq> [] \<and> \<not> isPrimitiveType short then
           (let pkg = (if pkg \<noteq> [] then packagePrefix @ [46] @ pkg else packagePrefix)
            in \<lparr>fullname = pkg @ [46] @ short, package = pkg, shortname = short, tn_numbits = 0, tn_signExtend = False\<rparr>)
         else \<lparr>fullname = nm, package = pkg, shortname = short, tn_numbits = 0, tn_signExtend = False\<rparr>)"

definition findMember :: "ZCMStruct \<Rightarrow> name \<Rightarrow> ZCMMember option" where
  "findMember zs nm = find (\<lambda>zm. m_membername zm = nm) (members zs)"

definition findConst :: "ZCMStruct \<Rightarrow> name \<Rightarrow> ZCMConstant option" where
  "findConst zs nm = find (\<lambda>zc. c_membername zc = nm) (constants zs)"

definition isConstantSizeArray :: "ZCMMember \<Rightarrow> bool" where
  "isConstantSizeArray m \<longleftrightarrow> (if m_dimensions m = [] then True else \<not> list_ex (\<lambda>d. dim_mode d = ZCM_VAR) (m_dimensions m))"

definition hasConstantSizeArray :: "ZCMMember \<Rightarrow> bool" where
  "hasConstantSizeArray m \<longleftrightarrow> (if m_dimensions m = [] then True else list_ex (\<lambda>d. dim_mode d = ZCM_CONST) (m_dimensions m))"

section \<open>The hash\<close>

text \<open>The mask is an \<^verbatim>\<open>int\<close> in the source, which is wide enough for the one shift that is used, by 55.\<close>

definition signExtendedRightShift :: "u64 \<Rightarrow> nat \<Rightarrow> u64" where
  "signExtendedRightShift val nShift =
     (if drop_bit 63 val = 0 then drop_bit nShift val else drop_bit nShift val OR NOT (push_bit (64 - nShift) 1 - 1))"

definition hashUpdate :: "u64 \<Rightarrow> u8 \<Rightarrow> u64" where
  "hashUpdate v c = (push_bit 8 v XOR signExtendedRightShift v 55) + scast c"

definition hashString :: "u64 \<Rightarrow> name \<Rightarrow> u64" where
  "hashString v s = foldl hashUpdate (hashUpdate v (of_nat (length s))) s"

definition mode_char :: "ZCMDimensionMode \<Rightarrow> u8" where
  "mode_char m = (case m of ZCM_CONST \<Rightarrow> 0 | ZCM_VAR \<Rightarrow> 1)"

definition hash_dim :: "u64 \<Rightarrow> ZCMDimension \<Rightarrow> u64" where
  "hash_dim v d = hashString (hashUpdate v (mode_char (dim_mode d))) (dim_size d)"

text \<open>The two flags are the compile-time options \<^verbatim>\<open>ENABLE_TYPENAME_HASHING\<close> and \<^verbatim>\<open>ENABLE_MEMBERNAME_HASHING\<close>.\<close>

definition hash_member :: "bool \<Rightarrow> u64 \<Rightarrow> ZCMMember \<Rightarrow> u64" where
  "hash_member membername_hashing v m =
     (let v = (if membername_hashing then hashString v (m_membername m) else v);
          v = (if isPrimitiveType (fullname (m_type m)) then
                 (let v = hashString v (fullname (m_type m)) in if tn_numbits (m_type m) \<noteq> 0 then hashUpdate v (tn_numbits (m_type m)) else v)
               else v);
          v = hashUpdate v (of_nat (length (m_dimensions m)))
      in foldl hash_dim v (m_dimensions m))"

definition computeHash :: "bool \<Rightarrow> bool \<Rightarrow> ZCMStruct \<Rightarrow> u64" where
  "computeHash typename_hashing membername_hashing zs =
     (let v = 0x12345678; v = (if typename_hashing then hashString v (shortname (structname zs)) else v)
      in foldl (hash_member membername_hashing) v (members zs))"

section \<open>Numbers\<close>

definition digit_val :: "u8 \<Rightarrow> nat option" where
  "digit_val c =
     (if 48 \<le> c \<and> c \<le> 57 then Some (unat c - 48)
      else if 97 \<le> c \<and> c \<le> 122 then Some (unat c - 87)
      else if 65 \<le> c \<and> c \<le> 90 then Some (unat c - 55)
      else None)"

definition is_digit_of :: "nat \<Rightarrow> u8 \<Rightarrow> bool" where
  "is_digit_of base c \<longleftrightarrow> (case digit_val c of None \<Rightarrow> False | Some d \<Rightarrow> d < base)"

definition digits_value :: "nat \<Rightarrow> u8 list \<Rightarrow> nat" where
  "digits_value base ds = foldl (\<lambda>v c. v * base + the (digit_val c)) 0 ds"

text \<open>What the \<^verbatim>\<open>strto\<close> functions read: sign, magnitude, and the number of characters; no character when there are no digits.\<close>

definition strto_scan :: "nat \<Rightarrow> u8 list \<Rightarrow> bool \<times> nat \<times> nat" where
  "strto_scan base s =
     (let ws = takeWhile (\<lambda>c. isspace (uint c)) s;
          s1 = drop (length ws) s;
          signed = (char0 s1 = 45 \<or> char0 s1 = 43);
          s2 = (if signed then drop 1 s1 else s1);
          hex = (base = 0 \<or> base = 16) \<and> char0 s2 = 48 \<and> (char0 (drop 1 s2) = 120 \<or> char0 (drop 1 s2) = 88) \<and> is_digit_of 16 (char0 (drop 2 s2));
          base = (if base = 0 then (if hex then 16 else if char0 s2 = 48 then 8 else 10) else base);
          s3 = (if hex then drop 2 s2 else s2);
          ds = takeWhile (is_digit_of base) s3
      in if ds = [] then (False, 0, 0)
         else (char0 s1 = 45, digits_value base ds, length s - length s3 + length ds))"

text \<open>\<^verbatim>\<open>strtoll\<close>: the value, whether it is out of range, and the characters read.\<close>

definition strtoll :: "nat \<Rightarrow> u8 list \<Rightarrow> int \<times> bool \<times> nat" where
  "strtoll base s =
     (let (neg, mag, n) = strto_scan base s; v = (if neg then - int mag else int mag)
      in if v > 2 ^ 63 - 1 then (2 ^ 63 - 1, True, n) else if v < - (2 ^ 63) then (- (2 ^ 63), True, n) else (v, False, n))"

definition strtoull :: "nat \<Rightarrow> u8 list \<Rightarrow> u64 \<times> bool \<times> nat" where
  "strtoull base s =
     (let (neg, mag, n) = strto_scan base s
      in if mag \<ge> 2 ^ 64 then (- 1, True, n) else (if neg then - of_nat mag else of_nat mag, False, n))"

text \<open>\<^verbatim>\<open>(int) strtol(s, NULL, base)\<close>, which is also \<^verbatim>\<open>atoi\<close>.\<close>

definition strtol_int :: "nat \<Rightarrow> u8 list \<Rightarrow> u32" where
  "strtol_int base s = word_of_int (fst (strtoll base s))"

definition dec_digit :: "nat \<Rightarrow> u8" where "dec_digit d = of_nat (if d < 10 then 48 + d else 87 + d)"

fun digits :: "nat \<Rightarrow> nat \<Rightarrow> u8 list" where
  "digits base n = (if base < 2 \<or> n < base then [dec_digit n] else digits base (n div base) @ [dec_digit (n mod base)])"

definition print_int :: "int \<Rightarrow> u8 list" where
  "print_int v = (if v < 0 then 45 # digits 10 (nat (- v)) else digits 10 (nat v))"

section \<open>Constants\<close>

text \<open>The conversion to the C type of a fixed-point type of the given width; \<^verbatim>\<open>byte\<close> is unsigned.\<close>

definition ctype_cast :: "name \<Rightarrow> nat \<Rightarrow> int \<Rightarrow> int" where
  "ctype_cast type width v = (if type = str ''byte'' then v mod 2 ^ width else signed_take_bit (width - 1) v)"

definition ctype_min :: "name \<Rightarrow> nat \<Rightarrow> int" where
  "ctype_min type width = (if type = str ''byte'' then 0 else - (2 ^ (width - 1)))"

definition ctype_max :: "name \<Rightarrow> nat \<Rightarrow> int" where
  "ctype_max type width = (if type = str ''byte'' then 2 ^ width - 1 else 2 ^ (width - 1) - 1)"

definition is_hex :: "u8 list \<Rightarrow> bool" where
  "is_hex tok \<longleftrightarrow> length tok > 2 \<and> tok ! 0 = 48 \<and> (tok ! 1 = 120 \<or> tok ! 1 = 88)"

text \<open>The checks on the value of an integer constant.\<close>

definition int_in_bounds :: "name \<Rightarrow> nat \<Rightarrow> nat \<Rightarrow> bool \<Rightarrow> u8 list \<Rightarrow> int \<Rightarrow> bool" where
  "int_in_bounds type width numbits signExtend tok v =
     (if is_hex tok then
        length tok \<le> width div 8 * 2 + 2
        \<and> (numbits \<noteq> 0 \<and> numbits \<noteq> 64 \<longrightarrow>
             (let mask = ctype_cast type width (- (2 ^ numbits)); vtop = ctype_cast type width (ctype_cast type width v AND mask) in vtop = mask \<or> vtop = 0))
      else if numbits \<noteq> 0 then
        (if signExtend then
           (let min = ctype_cast type width (- (2 ^ (numbits - 1))); max = ctype_cast type width (NOT min) in min \<le> v \<and> v \<le> max)
         else 0 \<le> v \<and> v \<le> ctype_cast type width (2 ^ numbits - 1))
      else ctype_min type width \<le> v \<and> v \<le> ctype_max type width)"

definition int_value :: "name \<Rightarrow> nat \<Rightarrow> nat \<Rightarrow> bool \<Rightarrow> int \<Rightarrow> int" where
  "int_value type width numbits signExtend v =
     (if signExtend then (let shift = width - numbits in ctype_cast type width (v * 2 ^ shift) div 2 ^ shift) else ctype_cast type width v)"

definition print_const :: "nat \<Rightarrow> u8 list \<Rightarrow> int \<Rightarrow> u8 list" where
  "print_const width tok v =
     (if is_hex tok then
        (let ds = digits 16 (nat (v mod 2 ^ width)) in [48, 120] @ replicate (width div 8 * 2 - length ds) 48 @ ds)
      else print_int v)"

text \<open>\<^verbatim>\<open>INT_CASE\<close>: the text and the value of the constant, and \<^verbatim>\<open>errno\<close>, which is never reset.\<close>

definition int_case :: "name \<Rightarrow> nat \<Rightarrow> bool \<Rightarrow> bool \<Rightarrow> u8 list \<Rightarrow> (u8 list \<times> u64 \<times> bool) run" where
  "int_case type numbits signExtend errno tok =
     (case getPrimitiveTypeNumBits type of
        None \<Rightarrow> stop Assert_Failed
      | Some width \<Rightarrow>
          (let (v, erange, n) = strtoll 0 tok;
               errno = (errno \<or> erange);
               (v, n) = (if errno then (sint (fst (strtoull 0 tok)), snd (snd (strtoull 0 tok))) else (v, n))
           in if n = 0 \<or> n < length tok then stop Parse_Error
              else if \<not> int_in_bounds type width numbits signExtend tok v then stop Semantic_Error
              else let v = int_value type width numbits signExtend v
                   in ok (print_const width tok v, word_of_int v, errno)))"

definition FLT_MAX :: rat where "FLT_MAX = (2 - 1 / 2 ^ 23) * 2 ^ 127"
definition DBL_MAX :: rat where "DBL_MAX = (2 - 1 / 2 ^ 52) * 2 ^ 1023"

definition flt_case :: "gopt \<Rightarrow> rat \<Rightarrow> u8 list \<Rightarrow> dbl run" where
  "flt_case g maxval tok =
     (let (n, v) = strtod g tok
      in if n = 0 \<or> n < length tok then stop Parse_Error
         else if (case v of Fin r \<Rightarrow> \<bar>r\<bar> > maxval \<or> \<bar>r\<bar> < - maxval | Inf \<Rightarrow> True | NaN \<Rightarrow> False) then stop Semantic_Error
         else ok v)"

text \<open>The value of a constant of the given type.\<close>

definition const_value :: "ZCMGen \<Rightarrow> name \<Rightarrow> nat \<Rightarrow> bool \<Rightarrow> u8 list \<Rightarrow> (u8 list \<times> const_val \<times> bool) run" where
  "const_value zg type numbits signExtend tok =
     (if isFixedPoint type then
        rbind (int_case type numbits signExtend (errno_ERANGE zg) tok) (\<lambda>(valstr, v, errno). ok (valstr, V_Int v, errno))
      else if type = str ''float'' then rbind (flt_case (gopt zg) FLT_MAX tok) (\<lambda>v. ok (tok, V_Flt v, errno_ERANGE zg))
      else if type = str ''double'' then rbind (flt_case (gopt zg) DBL_MAX tok) (\<lambda>v. ok (tok, V_Flt v, errno_ERANGE zg))
      else if type \<noteq> str ''string'' then stop Assert_Failed
      else ok (tok, V_None, errno_ERANGE zg))"

section \<open>The parser\<close>

partial_function (option) skip_comments :: "tokenize_t \<Rightarrow> tokenize_t run" where
  "skip_comments t =
     rbind (tokenize_peek t) (\<lambda>(res, t).
       if res \<noteq> EOF \<and> token_type t = ZCM_TOK_COMMENT then rbind (tokenize_next t) (\<lambda>(_, t). skip_comments t) else ok t)"

text \<open>\<^verbatim>\<open>parseTryConsumeComment\<close> with a context collects the comments, without one (\<open>skip_comments\<close>) it drops them.\<close>

partial_function (option) collect_comments :: "ZCMGen \<Rightarrow> tokenize_t \<Rightarrow> (ZCMGen \<times> tokenize_t) run" where
  "collect_comments zg t =
     rbind (tokenize_peek t) (\<lambda>(res, t).
       if res \<noteq> EOF \<and> token_type t = ZCM_TOK_COMMENT then
         rbind (tokenize_next t) (\<lambda>(_, t).
           collect_comments (zg\<lparr>zg_comment := (if zg_comment zg \<noteq> [] then zg_comment zg @ [10] else zg_comment zg) @ token_str t\<rparr>) t)
       else ok (zg, t))"

definition parseTryConsumeComment :: "ZCMGen \<Rightarrow> tokenize_t \<Rightarrow> (ZCMGen \<times> tokenize_t) run" where
  "parseTryConsumeComment zg t = collect_comments (zg\<lparr>zg_comment := []\<rparr>) t"

definition parseTryConsume :: "tokenize_t \<Rightarrow> name \<Rightarrow> (bool \<times> tokenize_t) run" where
  "parseTryConsume t tok =
     rbind (skip_comments t) (\<lambda>t.
     rbind (tokenize_peek t) (\<lambda>(res, t).
       if res = EOF then stop Parse_Error
       else if token_type t \<noteq> ZCM_TOK_COMMENT \<and> token_str t = tok then rbind (tokenize_next t) (\<lambda>(_, t). ok (True, t))
       else ok (False, t)))"

partial_function (option) next_uncommented :: "tokenize_t \<Rightarrow> (int \<times> tokenize_t) run" where
  "next_uncommented t =
     rbind (tokenize_next t) (\<lambda>(res, t). if token_type t = ZCM_TOK_COMMENT then next_uncommented t else ok (res, t))"

definition parseRequire :: "tokenize_t \<Rightarrow> name \<Rightarrow> tokenize_t run" where
  "parseRequire t tok =
     rbind (skip_comments t) (\<lambda>t.
     rbind (next_uncommented t) (\<lambda>(res, t). if res = EOF \<or> token_str t \<noteq> tok then stop Parse_Error else ok t))"

definition tokenizeNextOrFail :: "tokenize_t \<Rightarrow> tokenize_t run" where
  "tokenizeNextOrFail t = rbind (tokenize_next t) (\<lambda>(res, t). if res = EOF then stop Parse_Error else ok t)"

text \<open>The bit field of a constant: the number of bits and whether it is signed.\<close>

definition const_bits :: "name \<Rightarrow> tokenize_t \<Rightarrow> (nat \<times> bool \<times> tokenize_t) run" where
  "const_bits type t =
     rbind (parseTryConsume t (str '':'')) (\<lambda>(bitfield, t).
       if \<not> bitfield then ok (0, False, t)
       else if \<not> isFixedPoint type then stop Semantic_Error
       else
       rbind (tokenizeNextOrFail t) (\<lambda>t.
         let bits = sint (strtol_int 10 (token_str t)); numbits = nat \<bar>bits\<bar>; signExtend = (bits < 0)
         in case getPrimitiveTypeNumBits type of
              None \<Rightarrow> stop Assert_Failed
            | Some width \<Rightarrow>
                if numbits = 0 then stop Parse_Error
                else if numbits > width then stop Semantic_Error
                else if type = str ''byte'' \<and> signExtend then stop Semantic_Error
                else if type \<noteq> str ''byte'' \<and> numbits = width \<and> \<not> signExtend then stop Semantic_Error
                else ok (numbits, signExtend, t)))"

partial_function (option) const_loop :: "name \<Rightarrow> nat \<Rightarrow> bool \<Rightarrow> ZCMGen \<Rightarrow> ZCMStruct \<Rightarrow> tokenize_t \<Rightarrow> (ZCMGen \<times> ZCMStruct \<times> tokenize_t) run" where
  "const_loop type numbits signExtend zg zs t =
     rbind (skip_comments t) (\<lambda>t.
     rbind (tokenizeNextOrFail t) (\<lambda>t.
       let membername = token_str t in
       if \<not> isLegalMemberName membername then stop Parse_Error
       else if findMember zs membername \<noteq> None then stop Semantic_Error
       else if findConst zs membername \<noteq> None then stop Semantic_Error
       else
       rbind (parseRequire t (str ''='')) (\<lambda>t.
       rbind (skip_comments t) (\<lambda>t.
       rbind (tokenizeNextOrFail t) (\<lambda>t.
       rbind (const_value zg type numbits signExtend (token_str t)) (\<lambda>(valstr, v, errno).
         let zc = \<lparr>c_type = type, c_membername = membername, c_val = v, c_valstr = valstr, c_numbits = of_nat numbits,
                   c_signExtend = signExtend, c_comment = zg_comment zg\<rparr>;
             zg = zg\<lparr>zg_comment := [], errno_ERANGE := errno\<rparr>;
             zs = zs\<lparr>constants := constants zs @ [zc]\<rparr>
         in rbind (parseTryConsume t (str '','')) (\<lambda>(more, t).
              if more then const_loop type numbits signExtend zg zs t
              else rbind (parseRequire t (str '';'')) (\<lambda>t. ok (zg, zs, t)))))))))"

definition parseConst :: "ZCMGen \<Rightarrow> ZCMStruct \<Rightarrow> tokenize_t \<Rightarrow> (ZCMGen \<times> ZCMStruct \<times> tokenize_t) run" where
  "parseConst zg zs t =
     rbind (skip_comments t) (\<lambda>t.
     rbind (tokenizeNextOrFail t) (\<lambda>t.
       let type = token_str t in
       if \<not> isLegalConstType type then stop Parse_Error
       else rbind (const_bits type t) (\<lambda>(numbits, signExtend, t). const_loop type numbits signExtend zg zs t)))"

text \<open>The bit field of a member. The number of bits is stored as a \<^verbatim>\<open>uint8_t\<close> and checked then.\<close>

definition check_bits :: "ZCMTypename \<Rightarrow> u32 \<Rightarrow> ZCMTypename run" where
  "check_bits zt bits =
     (if sint bits < 0 \<and> fullname zt = str ''byte'' then stop Semantic_Error
      else
      let zt = (if sint bits < 0 then zt\<lparr>tn_numbits := ucast (- bits), tn_signExtend := True\<rparr> else zt\<lparr>tn_numbits := ucast bits\<rparr>)
      in case getPrimitiveTypeNumBits (fullname zt) of
           None \<Rightarrow> stop Assert_Failed
         | Some width \<Rightarrow>
             if tn_numbits zt = 0 then stop Semantic_Error
             else if unat (tn_numbits zt) > width then stop Semantic_Error
             else if fullname zt = str ''byte'' \<and> tn_signExtend zt then stop Semantic_Error
             else if fullname zt \<noteq> str ''byte'' \<and> unat (tn_numbits zt) = width \<and> \<not> tn_signExtend zt then stop Semantic_Error
             else ok zt)"

definition member_bits :: "ZCMTypename \<Rightarrow> tokenize_t \<Rightarrow> (ZCMTypename \<times> tokenize_t) run" where
  "member_bits zt t =
     rbind (parseTryConsume t (str '':'')) (\<lambda>(bitfield, t).
       if \<not> bitfield then ok (zt, t)
       else if \<not> isFixedPoint (fullname zt) then stop Semantic_Error
       else
       rbind (tokenizeNextOrFail t) (\<lambda>t.
       rbind (check_bits zt (strtol_int 10 (token_str t))) (\<lambda>zt. ok (zt, t))))"

text \<open>The dimension that a token stands for.\<close>

definition parse_dim :: "ZCMStruct \<Rightarrow> name \<Rightarrow> ZCMDimension run" where
  "parse_dim zs tok =
     (case findConst zs tok of
        Some c \<Rightarrow> if \<not> isArrayDimType (c_type c) then stop Semantic_Error else ok \<lparr>dim_mode = ZCM_CONST, dim_size = c_valstr c\<rparr>
      | None \<Rightarrow>
          if isdigit (char0 tok) then
            (if sint (strtol_int 0 tok) \<le> 0 then stop Semantic_Error else ok \<lparr>dim_mode = ZCM_CONST, dim_size = tok\<rparr>)
          else if char0 tok = 93 then stop Semantic_Error
          else if \<not> isLegalMemberName tok then stop Semantic_Error
          else
          (case findMember zs tok of
             None \<Rightarrow> stop Semantic_Error
           | Some m \<Rightarrow>
               if m_dimensions m \<noteq> [] then stop Semantic_Error
               else if \<not> isArrayDimType (fullname (m_type m)) then stop Semantic_Error
               else ok \<lparr>dim_mode = ZCM_VAR, dim_size = tok\<rparr>))"

partial_function (option) dims_loop :: "ZCMStruct \<Rightarrow> ZCMDimension list \<Rightarrow> tokenize_t \<Rightarrow> (ZCMDimension list \<times> tokenize_t) run" where
  "dims_loop zs ds t =
     rbind (parseTryConsume t (str ''['')) (\<lambda>(more, t).
       if \<not> more then ok (ds, t)
       else
       rbind (skip_comments t) (\<lambda>t.
       rbind (tokenizeNextOrFail t) (\<lambda>t.
       rbind (parse_dim zs (token_str t)) (\<lambda>dim.
       rbind (parseRequire t (str '']'')) (\<lambda>t. dims_loop zs (ds @ [dim]) t)))))"

partial_function (option) member_loop :: "ZCMTypename \<Rightarrow> ZCMGen \<Rightarrow> ZCMStruct \<Rightarrow> tokenize_t \<Rightarrow> (ZCMGen \<times> ZCMStruct \<times> tokenize_t) run" where
  "member_loop zt zg zs t =
     rbind (skip_comments t) (\<lambda>t.
     rbind (tokenizeNextOrFail t) (\<lambda>t.
       let nm = token_str t in
       if \<not> isLegalMemberName nm then stop Parse_Error
       else if findMember zs nm \<noteq> None then stop Semantic_Error
       else if findConst zs nm \<noteq> None then stop Semantic_Error
       else let comment = zg_comment zg; zg = zg\<lparr>zg_comment := []\<rparr> in
       rbind (dims_loop zs [] t) (\<lambda>(ds, t).
         let zm = \<lparr>m_type = zt, m_membername = nm, m_dimensions = ds, m_comment = comment\<rparr>;
             zs = zs\<lparr>members := members zs @ [zm]\<rparr>
         in rbind (parseTryConsume t (str '','')) (\<lambda>(more, t).
              if more then member_loop zt zg zs t
              else rbind (parseRequire t (str '';'')) (\<lambda>t. ok (zg, zs, t))))))"

text \<open>The full name of a member type.\<close>

definition member_type :: "ZCMGen \<Rightarrow> ZCMStruct \<Rightarrow> name \<Rightarrow> name" where
  "member_type zg zs type =
     (if isPrimitiveType type then type
      else if char0 type \<noteq> 46 then
        (if package (structname zs) \<noteq> [] then package (structname zs) @ [46] @ type else type)
      else let packagePrefix = package_prefix (gopt zg)
           in if packagePrefix = [] then drop 1 type else packagePrefix @ [46] @ drop 1 type)"

definition parseMember :: "ZCMGen \<Rightarrow> ZCMStruct \<Rightarrow> tokenize_t \<Rightarrow> (ZCMGen \<times> ZCMStruct \<times> tokenize_t) run" where
  "parseMember zg zs t =
     rbind (parseTryConsume t (str ''struct'')) (\<lambda>(is_struct, t).
       if is_struct then stop Parse_Error
       else
       rbind (parseTryConsume t (str ''const'')) (\<lambda>(is_const, t).
         if is_const then parseConst zg zs t
         else
         rbind (skip_comments t) (\<lambda>t.
         rbind (tokenizeNextOrFail t) (\<lambda>t.
           let type = token_str t in
           if \<not> isLegalTypeName type then stop Parse_Error
           else if type = str ''int'' then stop Semantic_Error
           else
           rbind (member_bits (mkTypename (gopt zg) (member_type zg zs type) True) t) (\<lambda>(zt, t). member_loop zt zg zs t)))))"

partial_function (option) struct_loop :: "ZCMGen \<Rightarrow> ZCMStruct \<Rightarrow> tokenize_t \<Rightarrow> (ZCMGen \<times> ZCMStruct \<times> tokenize_t) run" where
  "struct_loop zg zs t =
     rbind (parseTryConsume t (str ''}'')) (\<lambda>(close, t).
       if close then ok (zg, zs, t)
       else
       rbind (parseTryConsumeComment zg t) (\<lambda>(zg, t).
       rbind (parseTryConsume t (str ''}'')) (\<lambda>(close, t).
         if close then ok (zg, zs, t)
         else rbind (parseMember zg zs t) (\<lambda>(zg, zs, t). struct_loop zg zs t))))"

text \<open>The compile-time options of the hash are the pair \<open>hashing\<close>.\<close>

definition parseStruct :: "bool \<times> bool \<Rightarrow> ZCMGen \<Rightarrow> name \<Rightarrow> name \<Rightarrow> tokenize_t \<Rightarrow> (ZCMGen \<times> ZCMStruct \<times> tokenize_t) run" where
  "parseStruct hashing zg file pkg t =
     rbind (skip_comments t) (\<lambda>t.
     rbind (tokenizeNextOrFail t) (\<lambda>t.
       let nm = token_str t;
           zs = \<lparr>structname = mkTypename (gopt zg) (if pkg = [] then nm else pkg @ [46] @ nm) False, members = [], constants = [],
                 zcmfile = file, hash = 0, zs_comment = zg_comment zg\<rparr>;
           zg = zg\<lparr>zg_comment := []\<rparr>
       in rbind (parseRequire t (str ''{'')) (\<lambda>t.
          rbind (struct_loop zg zs t) (\<lambda>(zg, zs, t).
            ok (zg, zs\<lparr>hash := computeHash (fst hashing) (snd hashing) zs\<rparr>, t)))))"

definition findStruct :: "ZCMGen \<Rightarrow> name \<Rightarrow> name \<Rightarrow> ZCMStruct option" where
  "findStruct zg pkg nm = find (\<lambda>zs. pkg = package (structname zs) \<and> nm = shortname (structname zs)) (structs zg)"

definition parseEntity :: "bool \<times> bool \<Rightarrow> ZCMGen \<Rightarrow> name \<Rightarrow> tokenize_t \<Rightarrow> (int \<times> ZCMGen \<times> tokenize_t) run" where
  "parseEntity hashing zg file t =
     rbind (parseTryConsumeComment zg t) (\<lambda>(zg, t).
     rbind (tokenize_next t) (\<lambda>(res, t).
       if res = EOF then ok (EOF, zg, t)
       else if token_str t = str ''package'' then
         rbind (parseTryConsumeComment zg t) (\<lambda>(zg, t).
         rbind (tokenizeNextOrFail t) (\<lambda>t.
           let zg = zg\<lparr>zg_package := token_str t\<rparr>
           in rbind (parseRequire t (str '';'')) (\<lambda>t. ok (0, zg, t))))
       else if token_str t \<noteq> str ''struct'' then stop Parse_Error
       else
       rbind (parseStruct hashing zg file (zg_package zg) t) (\<lambda>(zg, zs, t).
         if findStruct zg (package (structname zs)) (shortname (structname zs)) \<noteq> None then ok (1, zg, t)
         else ok (0, zg\<lparr>structs := structs zg @ [zs], zg_package := []\<rparr>, t))))"

partial_function (option) entity_loop :: "bool \<times> bool \<Rightarrow> ZCMGen \<Rightarrow> name \<Rightarrow> tokenize_t \<Rightarrow> (int \<times> ZCMGen \<times> tokenize_t) run" where
  "entity_loop hashing zg file t =
     rbind (parseEntity hashing zg file t) (\<lambda>(res, zg, t). if res = 0 then entity_loop hashing zg file t else ok (res, zg, t))"

text \<open>The mode that only prints the tokens: the tokens in order.\<close>

partial_function (option) tokenize_all :: "name list \<Rightarrow> tokenize_t \<Rightarrow> name list run" where
  "tokenize_all toks t =
     rbind (tokenize_next t) (\<lambda>(res, t). if res \<noteq> EOF then tokenize_all (toks @ [token_str t]) t else ok toks)"

definition handleFile :: "bool \<times> bool \<Rightarrow> u8 \<Rightarrow> ZCMGen \<Rightarrow> name \<Rightarrow> u8 list option \<Rightarrow> (int \<times> ZCMGen) run" where
  "handleFile hashing junk zg path file =
     (case tokenize_create file junk of
        None \<Rightarrow> ok (-1, zg)
      | Some t \<Rightarrow>
          if opt_tokenize (gopt zg) then rbind (tokenize_all [] t) (\<lambda>_. ok (0, zg))
          else rbind (entity_loop hashing zg path t) (\<lambda>(res, zg, _). ok (if res = EOF then 0 else res, zg)))"

section \<open>Conflicts with reserved words\<close>

text \<open>The nested structs of a struct, which the parser never makes, are left out.\<close>

definition typename_conflicts :: "ZCMTypename \<Rightarrow> name set \<Rightarrow> name set" where
  "typename_conflicts tn reservedTokens =
     (if isPrimitiveType (fullname tn) then {} else set (filter (\<lambda>p. p \<in> reservedTokens) (split (fullname tn) 46)))"

definition member_conflicts :: "ZCMMember \<Rightarrow> name set \<Rightarrow> name set" where
  "member_conflicts m reservedTokens =
     (if m_membername m \<in> reservedTokens then {m_membername m} else {}) \<union> typename_conflicts (m_type m) reservedTokens"

definition const_conflicts :: "ZCMConstant \<Rightarrow> name set \<Rightarrow> name set" where
  "const_conflicts c reservedTokens = (if c_membername c \<in> reservedTokens then {c_membername c} else {})"

definition struct_conflicts :: "ZCMStruct \<Rightarrow> name set \<Rightarrow> name set" where
  "struct_conflicts zs reservedTokens =
     typename_conflicts (structname zs) reservedTokens \<union> \<Union> (set (map (\<lambda>m. member_conflicts m reservedTokens) (members zs)))
     \<union> \<Union> (set (map (\<lambda>c. const_conflicts c reservedTokens) (constants zs)))"

definition getConflictingTokens :: "ZCMGen \<Rightarrow> name set \<Rightarrow> (ZCMStruct \<times> name set) list" where
  "getConflictingTokens zg reservedTokens = map (\<lambda>zs. (zs, struct_conflicts zs reservedTokens)) (structs zg)"

declare skip_comments.simps [code]
  collect_comments.simps [code]
  next_uncommented.simps [code]
  const_loop.simps [code]
  dims_loop.simps [code]
  member_loop.simps [code]
  struct_loop.simps [code]
  entity_loop.simps [code]
  tokenize_all.simps [code]

end
