(* ===== verification/Zcmgen_Hash.thy ===== *)
theory Zcmgen_Hash
  imports Zcmgen
begin

text \<open>
  The hash of a type (\<^verbatim>\<open>ZCMStruct::computeHash\<close>), by which a receiver recognises messages of another type: a fold over a description of the
  members as bytes, each step of which is a bijection.
\<close>

unbundle bit_operations_syntax

section \<open>One step of the hash\<close>

lemma bit_signExtended: "bit (signExtendedRightShift v 55) n \<longleftrightarrow> n < 64 \<and> (if n < 9 then bit v (n + 55) else bit v 63)"
proof -
  have top: "drop_bit 63 v = 0 \<longleftrightarrow> \<not> bit v 63"
  proof
    show "drop_bit 63 v = 0 \<Longrightarrow> \<not> bit v 63" using bit_drop_bit_eq[of 63 v] by (metis add_0_right bit_0_eq bot_apply comp_def bot_bool_def)
    assume low: "\<not> bit v 63"
    have "\<not> bit v (63 + n)" for n using low bit_imp_le_length[of v "63 + n"] by (cases n) auto
    then show "drop_bit 63 v = 0" by (intro bit_word_eqI) (simp add: bit_drop_bit_eq)
  qed
  have mask: "push_bit (64 - 55) 1 - 1 = (mask 9 :: u64)" by (simp add: mask_eq_decr_exp push_bit_eq_mult)
  have over: "\<not> bit v (n + 55)" if "\<not> n < 9" using that bit_imp_le_length[of v "n + 55"] by auto
  show ?thesis unfolding signExtendedRightShift_def mask top
    using over by (auto simp: bit_drop_bit_eq bit_or_iff bit_not_iff bit_mask_iff add.commute dest: bit_imp_le_length)
qed

lemma bit_hash_mix: "bit (push_bit 8 v XOR signExtendedRightShift v 55) n \<longleftrightarrow> n < 64 \<and> ((8 \<le> n \<and> bit v (n - 8)) \<noteq> (if n < 9 then bit v (n + 55) else bit v 63))"
  by (auto simp: bit_xor_iff bit_push_bit_iff bit_signExtended)

text \<open>Mixing loses nothing: the top bits are folded in at the bottom, and bit 55 ends up in two places, once alone.\<close>

lemma hash_mix_inj:
  assumes "push_bit 8 v XOR signExtendedRightShift v 55 = push_bit 8 w XOR signExtendedRightShift w 55"
  shows "v = (w :: u64)"
proof -
  have b: "((8 \<le> n \<and> bit v (n - 8)) \<noteq> (if n < 9 then bit v (n + 55) else bit v 63)) = ((8 \<le> n \<and> bit w (n - 8)) \<noteq> (if n < 9 then bit w (n + 55) else bit w 63))" if "n < 64" for n
    using that arg_cong[OF assms, of "\<lambda>x. bit x n"] by (simp add: bit_hash_mix)
  have high: "bit v (k + 55) = bit w (k + 55)" if "k < 8" for k using b[of k] that by simp
  have top: "bit v 63 = bit w 63" using b[of 63] high[of 0] by auto
  have low: "bit v n = bit w n" if "n < 55" for n
    using b[of 8] b[of "n + 8"] top that by (cases n) auto
  have "bit v n = bit w n" if "n < 64" for n
  proof -
    consider "n < 55" | "n = 63" | k where "n = k + 55" "k < 8"
    proof (cases "n < 55 \<or> n = 63")
      case False
      then have "n = (n - 55) + 55" "n - 55 < 8" using \<open>n < 64\<close> by linarith+
      then show thesis by (rule that(3))
    qed (use that in blast)
    then show ?thesis using low high top by cases simp_all
  qed
  then show ?thesis by (intro bit_word_eqI) simp
qed

lemma hashUpdate_inj: "hashUpdate v c = hashUpdate w c \<longleftrightarrow> v = w"
  by (auto simp: hashUpdate_def dest: hash_mix_inj)

lemma hashUpdate_char: "hashUpdate v c = hashUpdate v d \<longleftrightarrow> c = d"
proof
  assume "hashUpdate v c = hashUpdate v d"
  then have e: "scast c = (scast d :: u64)" by (simp add: hashUpdate_def)
  show "c = d"
  proof (rule bit_word_eqI)
    fix n assume "n < LENGTH(8)"
    then have "n < 7 \<or> n = 7" by auto
    then show "bit c n = bit d n" using arg_cong[OF e, of "\<lambda>x. bit x n"] by (auto simp: bit_signed_iff min_def split: if_splits)
  qed
qed simp

lemma fold_hash_inj: "foldl hashUpdate v s = foldl hashUpdate w s \<longleftrightarrow> v = w"
  by (induction s arbitrary: v w) (simp_all add: hashUpdate_inj)
section \<open>The description that is hashed\<close>

definition hash_str :: "name \<Rightarrow> u8 list" where
  "hash_str s = of_nat (length s) # s"

definition hash_dim_bytes :: "ZCMDimension \<Rightarrow> u8 list" where
  "hash_dim_bytes d = mode_char (dim_mode d) # hash_str (dim_size d)"

definition hash_member_bytes :: "bool \<Rightarrow> ZCMMember \<Rightarrow> u8 list" where
  "hash_member_bytes membername_hashing m =
     (if membername_hashing then hash_str (m_membername m) else [])
     @ (if isPrimitiveType (fullname (m_type m)) then
          hash_str (fullname (m_type m)) @ (if tn_numbits (m_type m) \<noteq> 0 then [tn_numbits (m_type m)] else [])
        else [])
     @ of_nat (length (m_dimensions m)) # concat (map hash_dim_bytes (m_dimensions m))"

definition hash_bytes :: "bool \<Rightarrow> bool \<Rightarrow> ZCMStruct \<Rightarrow> u8 list" where
  "hash_bytes typename_hashing membername_hashing zs =
     (if typename_hashing then hash_str (shortname (structname zs)) else [])
     @ concat (map (hash_member_bytes membername_hashing) (members zs))"

lemma foldl_concat: "foldl f v (concat (map g xs)) = foldl (\<lambda>v x. foldl f v (g x)) v xs"
  by (induction xs arbitrary: v) simp_all

lemma hash_string_bytes: "hashString v s = foldl hashUpdate v (hash_str s)"
  by (simp add: hashString_def hash_str_def)

lemma hash_dim_bytes_fold: "hash_dim v d = foldl hashUpdate v (hash_dim_bytes d)"
  by (simp add: hash_dim_def hash_dim_bytes_def hash_string_bytes)

lemma hash_member_bytes_fold: "hash_member mh v m = foldl hashUpdate v (hash_member_bytes mh m)"
  by (simp add: hash_member_def hash_member_bytes_def hash_string_bytes foldl_concat hash_dim_bytes_fold[abs_def] Let_def)

lemma computeHash_bytes: "computeHash th mh zs = foldl hashUpdate 0x12345678 (hash_bytes th mh zs)"
  by (simp add: computeHash_def hash_bytes_def hash_string_bytes foldl_concat hash_member_bytes_fold[abs_def] Let_def)

text \<open>The description leaves out whether a bit field is signed, the names of struct types (whose own hashes are added at run time), and the constants.\<close>

lemma computeHash_ignores_sign:
  "computeHash th mh (zs\<lparr>members := ms @ m\<lparr>m_type := (m_type m)\<lparr>tn_signExtend := b\<rparr>\<rparr> # ms'\<rparr>) = computeHash th mh (zs\<lparr>members := ms @ m # ms'\<rparr>)"
  by (simp add: computeHash_bytes hash_bytes_def hash_member_bytes_def)

lemma fold_hash_detects: "foldl hashUpdate v (p @ c # s) = foldl hashUpdate v (p @ d # s) \<longleftrightarrow> c = d"
  by (simp add: fold_hash_inj hashUpdate_char)

section \<open>Properties\<close>

text \<open>
  C38. The hash of a type detects every change of a single byte of its description, which consists of the name of the struct and of the members (when the
  library is built to include them) and of the types, bit widths and dimensions of the members: two structs whose descriptions
  differ in one byte, whatever precedes and follows it, have different hashes.
\<close>

theorem computeHash_detects_byte:
  assumes "hash_bytes th mh zs = p @ c # s" "hash_bytes th mh zs' = p @ d # s"
  shows "computeHash th mh zs = computeHash th mh zs' \<longleftrightarrow> c = d"
  unfolding computeHash_bytes assms by (rule fold_hash_detects)

definition one_member :: "name \<Rightarrow> u8 \<Rightarrow> ZCMStruct" where
  "one_member nm bits =
     \<lparr>structname = \<lparr>fullname = str ''s'', package = [], shortname = str ''s'', tn_numbits = 0, tn_signExtend = False\<rparr>,
      members = [\<lparr>m_type = \<lparr>fullname = str ''int8_t'', package = [], shortname = str ''int8_t'', tn_numbits = bits, tn_signExtend = False\<rparr>,
        m_membername = nm, m_dimensions = [], m_comment = []\<rparr>],
      constants = [], zcmfile = [], hash = 0, zs_comment = []\<rparr>"

theorem computeHash_detects_byte_witness:
  "computeHash False True (one_member (str ''x'') 3) \<noteq> computeHash False True (one_member (str ''x'') 5)"
proof -
  have b: "hash_bytes False True (one_member (str ''x'') n) = ([1, 120, 6] @ str ''int8_t'') @ n # [0]" if "n \<noteq> 0" for n
    using that by (simp add: hash_bytes_def one_member_def hash_member_bytes_def hash_str_def isPrimitiveType_def primitiveTypes_def str_def)
  show ?thesis using computeHash_detects_byte[OF b b, of 3 5] by simp
qed

end
