(* ===== verification/Tokenize_Props.thy ===== *)
theory Tokenize_Props
  imports Tokenize
begin

text \<open>
  The tokenizer on any file: every call ends, and consumes input unless it is at the end of the file or puts back an operator there.
\<close>

section \<open>Runs that end\<close>

text \<open>A run that ends, and if it returns does so with a value that satisfies \<open>P\<close>.\<close>

definition ends :: "'a run \<Rightarrow> ('a \<Rightarrow> bool) \<Rightarrow> bool" where
  "ends m P \<longleftrightarrow> (case m of None \<Rightarrow> False | Some (Inl _) \<Rightarrow> True | Some (Inr x) \<Rightarrow> P x)"

lemma ends_simps [simp]: "ends (Some (Inr x)) P = P x" "ends (Some (Inl e)) P" "\<not> ends None P"
  by (simp_all add: ends_def)

lemma ends_rbind [simp]: "ends (rbind m f) P \<longleftrightarrow> ends m (\<lambda>x. ends (f x) P)"
  by (cases m) (auto simp: ends_def rbind_def split: sum.splits)

lemma ends_mono: "ends m P \<Longrightarrow> (\<And>x. P x \<Longrightarrow> Q x) \<Longrightarrow> ends m Q"
  by (auto simp: ends_def split: option.splits sum.splits)

lemma ends_conj: "ends m P \<Longrightarrow> ends m Q \<Longrightarrow> ends m (\<lambda>x. P x \<and> Q x)"
  by (auto simp: ends_def split: option.splits sum.splits)

lemma ends_bindI: "ends m Q \<Longrightarrow> (\<And>x. Q x \<Longrightarrow> ends (f x) P) \<Longrightarrow> ends (rbind m f) P"
  by (cases m) (auto simp: ends_def rbind_def split: sum.splits)

lemma ends_ok: "ends m P \<Longrightarrow> m = Some (Inr x) \<Longrightarrow> P x"
  by simp

lemma ends_not_None: "ends m P \<Longrightarrow> m \<noteq> None"
  by (cases m) auto

section \<open>What is left of the file\<close>

definition tk_inv :: "tokenize_t \<Rightarrow> bool" where
  "tk_inv t \<longleftrightarrow> length (tk_buffer t) = 1024 \<and> buffer_len t < 1024 \<and> buffer_column t \<le> 1024"

text \<open>
  A bound for the number of characters that can still be read. A line that starts with a zero byte has length zero, and the column, once behind it,
  runs to the end of the buffer.
\<close>

definition left :: "tokenize_t \<Rightarrow> nat" where
  "left t = (if unget_char t \<ge> 0 then 1 else 0)
     + (if buffer_column t \<le> buffer_len t then buffer_len t - buffer_column t else 1024 - buffer_column t) + 1025 * length (tk_f t)"

abbreviation same_token :: "tokenize_t \<Rightarrow> tokenize_t \<Rightarrow> bool" where
  "same_token t t' \<equiv> tk_token t' = tk_token t \<and> token_type t' = token_type t \<and> hasnext t' = hasnext t"

lemma left_updates [simp]:
  "left (t\<lparr>tk_token := x\<rparr>) = left t" "left (t\<lparr>token_type := y\<rparr>) = left t" "left (t\<lparr>hasnext := b\<rparr>) = left t"
  "left (t\<lparr>token_line := i\<rparr>) = left t" "left (t\<lparr>token_column := i\<rparr>) = left t"
  by (simp_all add: left_def)

lemma tk_inv_updates [simp]:
  "tk_inv (t\<lparr>tk_token := x\<rparr>) = tk_inv t" "tk_inv (t\<lparr>token_type := y\<rparr>) = tk_inv t" "tk_inv (t\<lparr>hasnext := b\<rparr>) = tk_inv t"
  "tk_inv (t\<lparr>token_line := i\<rparr>) = tk_inv t" "tk_inv (t\<lparr>token_column := i\<rparr>) = tk_inv t"
  by (simp_all add: tk_inv_def)

lemma take_char_ends:
  assumes "tk_inv t" "unget_char t < 0" "buffer_column t \<noteq> buffer_len t \<or> buffer_column t = 0"
    and "(if buffer_column t = buffer_len t then 1024 + 1025 * length (tk_f t) else left t) \<le> B"
  shows "ends (take_char t) (\<lambda>(c, t'). tk_inv t' \<and> unget_char t' < 0 \<and> same_token t t' \<and> left t' < B)"
proof (cases "buffer_column t < 1024")
  case True
  let ?t = "t\<lparr>current_char := sint (tk_buffer t ! buffer_column t), current_line := buffer_line t, current_column := int (buffer_column t), buffer_column := buffer_column t + 1\<rparr>"
  have "left ?t < (if buffer_column t = buffer_len t then 1024 + 1025 * length (tk_f t) else left t)"
    using assms(1-3) True by (auto simp: left_def tk_inv_def)
  then have "left ?t < B" using assms(4) by (rule less_le_trans)
  moreover have "tk_inv ?t" using assms(1) True by (simp add: tk_inv_def)
  moreover have "take_char t = ok (sint (tk_buffer t ! buffer_column t), ?t)" using assms(1) True by (simp add: take_char_def tk_inv_def Let_def)
  ultimately show ?thesis using assms(2) by (simp only: ends_simps prod.case) simp
next
  case False
  with assms(1) show ?thesis by (simp add: take_char_def tk_inv_def)
qed

lemma length_upto_zero: "length (takeWhile (\<lambda>b. b \<noteq> 0) (s @ 0 # r)) \<le> length s"
  by (induction s) auto

lemma fgets_Some:
  assumes "fgets n buf f = Some (buf', f')" "length buf = 1024" "n = 1024"
  shows "length buf' = 1024" "length (takeWhile (\<lambda>b. b \<noteq> 0) buf') < 1024" "length f' < length f"
proof -
  let ?l = "takeWhile (\<lambda>b. b \<noteq> 10) f"
  let ?s = "take (n - 1) (if length ?l < length f then ?l @ [10] else ?l)"
  from assms(1) have b: "f \<noteq> []" "buf' = ?s @ [0] @ drop (length ?s + 1) buf" "f' = drop (length ?s) f"
    by (auto simp: fgets_def Let_def split: if_splits)
  have s: "length ?s \<le> 1023" "0 < length ?s" using assms(3) b(1) by (auto split: if_splits)
  show "length buf' = 1024" using b(2) assms(2) s by simp
  have "length (takeWhile (\<lambda>b. b \<noteq> 0) buf') \<le> length ?s" unfolding b(2) append_Cons append_Nil by (rule length_upto_zero)
  with s(1) show "length (takeWhile (\<lambda>b. b \<noteq> 0) buf') < 1024" by linarith
  show "length f' < length f" using b s(2) by simp
qed

lemma next_char_ends:
  assumes "tk_inv t"
  shows "ends (tokenize_next_char t) (\<lambda>(c, t'). tk_inv t' \<and> unget_char t' < 0 \<and> same_token t t' \<and> (left t' < left t \<or> c = EOF \<and> t' = t))"
proof (cases "unget_char t \<ge> 0")
  case True
  with assms show ?thesis by (simp add: tokenize_next_char_def left_def tk_inv_def)
next
  case ug: False
  show ?thesis
  proof (cases "buffer_column t = buffer_len t")
    case False
    with take_char_ends[OF assms, of "left t"] ug show ?thesis by (auto simp: tokenize_next_char_def elim!: ends_mono)
  next
    case True
    show ?thesis
    proof (cases "fgets MAX_LINE_LEN (tk_buffer t) (tk_f t)")
      case None
      with True ug assms show ?thesis by (simp add: tokenize_next_char_def)
    next
      case (Some p)
      obtain buf f where p: "p = (buf, f)" by (cases p)
      define u where "u = t\<lparr>tk_buffer := buf, tk_f := f, buffer_len := length (takeWhile (\<lambda>b. b \<noteq> 0) buf), buffer_line := buffer_line t + 1, buffer_column := 0\<rparr>"
      have len: "length (tk_buffer t) = 1024" using assms by (simp add: tk_inv_def)
      note b = fgets_Some[OF Some[unfolded p] len MAX_LINE_LEN_def]
      have inv: "tk_inv u" using b(1,2) by (simp add: tk_inv_def u_def)
      have "length f < length (tk_f t)" by (rule b(3))
      then have bound: "(if buffer_column u = buffer_len u then 1024 + 1025 * length (tk_f u) else left u) \<le> left t"
        using inv ug by (auto simp: left_def tk_inv_def u_def)
      have u: "unget_char u < 0" "buffer_column u \<noteq> buffer_len u \<or> buffer_column u = 0" "same_token t u" using ug by (simp_all add: u_def)
      have "ends (take_char u) (\<lambda>(c, t'). tk_inv t' \<and> unget_char t' < 0 \<and> same_token t t' \<and> (left t' < left t \<or> c = EOF \<and> t' = t))"
        by (rule ends_mono[OF take_char_ends[OF inv u(1,2) bound]]) (simp only: split_beta u(3) simp_thms)
      then show ?thesis using ug True Some p by (simp add: tokenize_next_char_def u_def)
    qed
  qed
qed

lemma ungetc_left: "unget_char t < 0 \<Longrightarrow> left (tokenize_ungetc t c) \<le> left t + 1"
  by (auto simp: left_def tokenize_ungetc_def)

lemma ungetc_simps [simp]:
  "tk_inv (tokenize_ungetc t c) = tk_inv t" "tk_token (tokenize_ungetc t c) = tk_token t" "token_type (tokenize_ungetc t c) = token_type t"
  "hasnext (tokenize_ungetc t c) = hasnext t"
  by (simp_all add: tokenize_ungetc_def tk_inv_def)

section \<open>Loops\<close>

text \<open>Characters have been read, none is put back.\<close>

definition adv :: "tokenize_t \<Rightarrow> tokenize_t \<Rightarrow> bool" where
  "adv t t' \<longleftrightarrow> tk_inv t' \<and> unget_char t' < 0 \<and> hasnext t' = hasnext t \<and> left t' \<le> left t"

lemma adv_trans: "adv t t' \<Longrightarrow> adv t' t'' \<Longrightarrow> adv t t''"
  by (simp add: adv_def)

lemma adv_inv: "adv t t' \<Longrightarrow> tk_inv t'"
  by (simp add: adv_def)

lemma adv_refl: "tk_inv t \<Longrightarrow> unget_char t < 0 \<Longrightarrow> adv t t"
  by (simp add: adv_def)

lemma adv_updates [simp]:
  "adv t (t'\<lparr>tk_token := x\<rparr>) = adv t t'" "adv t (t'\<lparr>token_type := y\<rparr>) = adv t t'" "adv (t\<lparr>tk_token := x\<rparr>) t' = adv t t'" "adv (t\<lparr>token_type := y\<rparr>) t' = adv t t'"
  "adv (t\<lparr>token_line := i\<rparr>) t' = adv t t'" "adv (t\<lparr>token_column := i\<rparr>) t' = adv t t'" "adv t (t'\<lparr>token_line := i\<rparr>) = adv t t'" "adv t (t'\<lparr>token_column := i\<rparr>) = adv t t'"
  by (simp_all add: adv_def)

lemma next_char_adv:
  assumes "tk_inv t"
  shows "ends (tokenize_next_char t) (\<lambda>(c, t'). adv t t' \<and> same_token t t' \<and> (c = EOF \<or> left t' < left t))"
  by (rule ends_mono[OF next_char_ends[OF assms]]) (auto simp: adv_def)

text \<open>Writing to the token changes nothing else.\<close>

definition wrote :: "nat \<Rightarrow> tokenize_t \<Rightarrow> tokenize_t \<Rightarrow> bool" where
  "wrote pos t t' \<longleftrightarrow> (\<exists>x. t' = t\<lparr>tk_token := x\<rparr> \<and> (0 < pos \<and> tk_token t \<noteq> [] \<longrightarrow> x \<noteq> [] \<and> x ! 0 = tk_token t ! 0))"

lemma put_token_ends: "ends (put_token t pos c) (\<lambda>t'. wrote pos t t' \<and> (pos = 0 \<longrightarrow> tk_token t' \<noteq> [] \<and> tk_token t' ! 0 = word_of_int c))"
  by (auto simp: put_token_def wrote_def)

lemma ensure_wrote: "wrote (Suc pos) t (ensure_token_capacity t pos)"
  by (auto simp: ensure_token_capacity_def wrote_def nth_append intro: exI[of _ "tk_token t"])

lemma wrote_trans: "wrote p t t' \<Longrightarrow> wrote q t' t'' \<Longrightarrow> p \<le> q \<or> q = 0 \<Longrightarrow> wrote (min p q) t t''"
  by (auto simp: wrote_def)

lemma add_char_ends: "ends (add_char_to_token t pos c) (\<lambda>t'. wrote pos t t' \<and> (pos = 0 \<longrightarrow> tk_token t' \<noteq> [] \<and> tk_token t' ! 0 = word_of_int c))"
  unfolding add_char_to_token_def
proof (rule ends_mono[OF put_token_ends])
  fix t' assume a: "wrote pos (ensure_token_capacity t pos) t' \<and> (pos = 0 \<longrightarrow> tk_token t' \<noteq> [] \<and> tk_token t' ! 0 = word_of_int c)"
  have "wrote pos t t'" using a ensure_wrote[of pos t] by (auto simp: wrote_def)
  with a show "wrote pos t t' \<and> (pos = 0 \<longrightarrow> tk_token t' \<noteq> [] \<and> tk_token t' ! 0 = word_of_int c)" by simp
qed

lemma wrote_simps:
  assumes "wrote pos t t'"
  shows "left t' = left t" "tk_inv t' = tk_inv t" "unget_char t' = unget_char t" "hasnext t' = hasnext t" "token_type t' = token_type t"
    "current_char t' = current_char t" "adv t' u = adv t u" "adv u t' = adv u t"
  using assms by (auto simp: wrote_def)

lemma skip_space_ends:
  "tk_inv t \<Longrightarrow> ends (skip_space t) (\<lambda>(c, t'). adv t t' \<and> (c = EOF \<longrightarrow> token_type t' = ZCM_TOK_EOF) \<and> (c \<noteq> EOF \<longrightarrow> left t' < left t \<and> token_type t' = token_type t))"
proof (induction "left t" arbitrary: t rule: less_induct)
  case less
  let ?P = "\<lambda>(c, t'). adv t t' \<and> (c = EOF \<longrightarrow> token_type t' = ZCM_TOK_EOF) \<and> (c \<noteq> EOF \<longrightarrow> left t' < left t \<and> token_type t' = token_type t)"
  have again: "ends (skip_space u) ?P" if "adv t u" "left u < left t" "token_type u = token_type t" for u
    by (rule ends_mono[OF less.hyps[OF that(2) adv_inv[OF that(1)]]]) (use that in \<open>auto intro: adv_trans\<close>)
  show ?case
    by (subst skip_space.simps, rule ends_bindI[OF next_char_adv[OF less.prems]]) (auto intro: again)
qed

text \<open>The same, and the type of the token has not changed.\<close>

definition advt :: "tokenize_t \<Rightarrow> tokenize_t \<Rightarrow> bool" where
  "advt t t' \<longleftrightarrow> adv t t' \<and> token_type t' = token_type t"

lemma advt_trans: "advt t t' \<Longrightarrow> advt t' t'' \<Longrightarrow> advt t t''"
  by (simp add: advt_def adv_def)

lemma advt_inv: "advt t t' \<Longrightarrow> tk_inv t'"
  by (simp add: advt_def adv_def)

lemma advt_refl: "tk_inv t \<Longrightarrow> unget_char t < 0 \<Longrightarrow> advt t t"
  by (simp add: advt_def adv_def)

lemma next_char_advt:
  assumes "tk_inv t"
  shows "ends (tokenize_next_char t) (\<lambda>(c, t'). advt t t' \<and> (c = EOF \<or> left t' < left t))"
  by (rule ends_mono[OF next_char_adv[OF assms]]) (auto simp: advt_def)

lemma wrote_advt: "wrote p u v \<Longrightarrow> advt t v = advt t u" "wrote p t t' \<Longrightarrow> advt t' v = advt t v" "wrote p u v \<Longrightarrow> left v = left u"
  by (auto simp: advt_def wrote_simps)

lemma add_next_advt:
  assumes "tk_inv u" "\<And>c v. advt u v \<Longrightarrow> c = EOF \<or> left v < left u \<Longrightarrow> ends (f (c, v)) P"
  shows "ends (rbind (add_char_to_token u pos ch) (\<lambda>t. rbind (tokenize_next_char t) f)) P"
proof (rule ends_bindI[OF add_char_ends])
  fix v assume v: "wrote pos u v \<and> (pos = 0 \<longrightarrow> tk_token v \<noteq> [] \<and> tk_token v ! 0 = word_of_int ch)"
  then have "tk_inv v" using assms(1) by (auto simp: wrote_simps)
  then show "ends (rbind (tokenize_next_char v) f) P"
    by (rule ends_bindI[OF next_char_advt]) (use v assms(2) in \<open>auto simp: wrote_advt\<close>)
qed

lemma ext_white_ends: "tk_inv t \<Longrightarrow> ends (ext_white t pos) (\<lambda>(c, pos, t'). advt t t' \<and> (c = EOF \<or> left t' < left t))"
proof (induction "left t" arbitrary: t pos rule: less_induct)
  case less
  have again: "ends (ext_white u p) (\<lambda>(c, pos, t'). advt t t' \<and> (c = EOF \<or> left t' < left t))" if "advt t u" "left u < left t" for u p
    by (rule ends_mono[OF less.hyps[OF that(2) advt_inv[OF that(1)]]]) (use that in \<open>auto intro: advt_trans\<close>)
  have put: "ends (rbind (add_char_to_token u pos c) (\<lambda>t. ext_white t (pos + 1))) (\<lambda>(c, pos, t'). advt t t' \<and> (c = EOF \<or> left t' < left t))"
    if "advt t u" "left u < left t" for u c
    by (rule ends_bindI[OF add_char_ends], rule again) (use that in \<open>auto simp: wrote_advt\<close>)
  show ?case
    by (subst ext_white.simps, rule ends_bindI[OF next_char_advt[OF less.prems]]) (auto intro: put[simplified])
qed

text \<open>The first character of the token.\<close>

definition starts :: "tokenize_t \<Rightarrow> u8 \<Rightarrow> bool" where
  "starts t b \<longleftrightarrow> tk_token t \<noteq> [] \<and> tk_token t ! 0 = b"

lemma starts_updates [simp]: "starts (t\<lparr>token_type := y\<rparr>) b = starts t b" "starts (t\<lparr>hasnext := h\<rparr>) b = starts t b"
  "starts (tokenize_ungetc t c) b = starts t b"
  by (simp_all add: starts_def)

lemma add_next_ends:
  assumes "tk_inv u" "pos = 0 \<and> b = word_of_int ch \<or> 0 < pos \<and> starts u b"
    and "\<And>c v. adv u v \<Longrightarrow> c = EOF \<or> left v < left u \<Longrightarrow> starts v b \<Longrightarrow> token_type v = token_type u \<Longrightarrow> ends (f (c, v)) P"
  shows "ends (rbind (add_char_to_token u pos ch) (\<lambda>t. rbind (tokenize_next_char t) f)) P"
proof (rule ends_bindI[OF add_char_ends])
  fix v assume v: "wrote pos u v \<and> (pos = 0 \<longrightarrow> tk_token v \<noteq> [] \<and> tk_token v ! 0 = word_of_int ch)"
  then have w: "wrote pos u v" and st: "starts v b" using assms(2) by (auto simp: starts_def wrote_def)
  have "tk_inv v" using assms(1) w by (simp add: wrote_simps)
  then show "ends (rbind (tokenize_next_char v) f) P"
  proof (rule ends_bindI[OF next_char_adv])
    fix x assume x: "case x of (c, t') \<Rightarrow> adv v t' \<and> same_token v t' \<and> (c = EOF \<or> left t' < left v)"
    obtain c t' where c: "x = (c, t')" by fastforce
    show "ends (f x) P" unfolding c by (rule assms(3)) (use x c st w in \<open>auto simp: wrote_simps starts_def\<close>)
  qed
qed

lemma ext_stars_ends: "tk_inv t \<Longrightarrow> unget_char t < 0 \<Longrightarrow> ends (ext_stars c t pos got) (\<lambda>(c, pos, got, t'). advt t t')"
proof (induction "left t" arbitrary: c t pos got rule: less_induct)
  case less
  have again: "ends (ext_stars c u p g) (\<lambda>(c, pos, got, t'). advt t t')" if "advt t u" "c = EOF \<or> left u < left t" for c u p g
  proof (cases "c = EOF")
    case True
    with that(1) show ?thesis by (subst ext_stars.simps) simp
  next
    case False
    with that(2) have "left u < left t" by simp
    moreover have "tk_inv u" "unget_char u < 0" using that(1) by (simp_all add: advt_def adv_def)
    ultimately show ?thesis by (rule ends_mono[OF less.hyps]) (use that(1) in \<open>auto intro: advt_trans\<close>)
  qed
  show ?case
  proof (cases "c = STAR")
    case True
    show ?thesis by (subst ext_stars.simps) (simp add: True del: ends_rbind, rule add_next_advt[OF less.prems(1)], auto intro: again)
  next
    case False
    then show ?thesis by (subst ext_stars.simps) (simp add: advt_refl less.prems)
  qed
qed

lemma ext_content_ends: "tk_inv t \<Longrightarrow> unget_char t < 0 \<Longrightarrow> ends (ext_content c t pos fin) (\<lambda>(c, pos, fin, t'). advt t t')"
proof (induction "left t" arbitrary: c t pos fin rule: less_induct)
  case less
  have again: "ends (ext_content c u p g) (\<lambda>(c, pos, fin, t'). advt t t')" if "advt t u" "c = EOF \<or> left u < left t" for c u p g
  proof (cases "c = EOF")
    case True
    with that(1) show ?thesis by (subst ext_content.simps) simp
  next
    case False
    with that(2) have "left u < left t" by simp
    moreover have "tk_inv u" "unget_char u < 0" using that(1) by (simp_all add: advt_def adv_def)
    ultimately show ?thesis by (rule ends_mono[OF less.hyps]) (use that(1) in \<open>auto intro: advt_trans\<close>)
  qed
  show ?case
  proof (cases "\<not> fin \<and> c \<noteq> EOF \<and> c \<noteq> NEWLINE")
    case True
    show ?thesis
      by (subst ext_content.simps) (simp add: True del: ends_rbind, rule add_next_advt[OF less.prems(1)], auto intro: again)
  next
    case False
    then show ?thesis by (subst ext_content.simps) (auto simp: advt_refl less.prems)
  qed
qed

lemma ext_EOF: "ext_stars EOF t pos got = ok (EOF, pos, got, t)" "ext_content EOF t pos fin = ok (EOF, pos, fin, t)"
  by (subst ext_stars.simps, simp) (subst ext_content.simps, simp)

lemma ext_lines_ends: "tk_inv t \<Longrightarrow> ends (ext_lines t pos) (\<lambda>(p, t'). advt t t')"
proof (induction "left t" arbitrary: t pos rule: less_induct)
  case less
  let ?P = "\<lambda>(p, t'). advt t t'"
  have again: "ends (ext_lines u p) ?P" if "advt t u" "left u < left t" for u p
    by (rule ends_mono[OF less.hyps[OF that(2) advt_inv[OF that(1)]]]) (use that in \<open>auto intro: advt_trans\<close>)
  have put: "ends (rbind (add_char_to_token u p c) (\<lambda>t. ext_lines t (p + 1))) ?P" if "advt t u" "left u < left t" for u c p
    by (rule ends_bindI[OF add_char_ends], rule again) (use that in \<open>auto simp: wrote_advt\<close>)
  have content: "ends (rbind (ext_content c u q False) (\<lambda>(c, pos', fin, t).
         if fin then ok (Some pos', t) else if c = EOF then ok (None, t) else if c \<noteq> NEWLINE then stop Assert_Failed
         else if pos \<noteq> pos' then rbind (add_char_to_token t pos' c) (\<lambda>t. ext_lines t (pos' + 1)) else ext_lines t pos')) ?P"
    if "advt t u" "left u < left t" for c u q
  proof -
    have "tk_inv u" "unget_char u < 0" using that(1) by (simp_all add: advt_def adv_def)
    note e = ext_content_ends[OF this]
    show ?thesis
    proof (rule ends_bindI[OF e])
      fix x :: "int \<times> nat \<times> bool \<times> tokenize_t" assume x: "case x of (c, pos, fin, t') \<Rightarrow> advt u t'"
      obtain c p f v where eq: "x = (c, p, f, v)" by (cases x)
      have v: "advt t v" "left v < left t" using x that by (auto simp: eq advt_def adv_def)
      show "ends (case x of (c, pos', fin, t) \<Rightarrow>
         if fin then ok (Some pos', t) else if c = EOF then ok (None, t) else if c \<noteq> NEWLINE then stop Assert_Failed
         else if pos \<noteq> pos' then rbind (add_char_to_token t pos' c) (\<lambda>t. ext_lines t (pos' + 1)) else ext_lines t pos') ?P"
        using again[OF v, of p] put[OF v, of p NEWLINE] v(1) by (simp add: eq del: ends_rbind)
    qed
  qed
  have stars: "ends (rbind (ext_stars c u p False) (\<lambda>(c, p', got, t).
       if got \<and> c = SLASH then ok (Some pos, t)
       else
       rbind (if got then (if c = SPACE then rbind (tokenize_next_char t) (\<lambda>(c, t). ok (c, pos, t)) else ok (c, pos, t)) else ok (c, p', t)) (\<lambda>(c, p', t).
       rbind (ext_content c t p' False) (\<lambda>(c, pos', fin, t).
         if fin then ok (Some pos', t) else if c = EOF then ok (None, t) else if c \<noteq> NEWLINE then stop Assert_Failed
         else if pos \<noteq> pos' then rbind (add_char_to_token t pos' c) (\<lambda>t. ext_lines t (pos' + 1)) else ext_lines t pos')))) ?P"
    if "advt t u" "left u < left t" for c u p
  proof -
    have "tk_inv u" "unget_char u < 0" using that(1) by (simp_all add: advt_def adv_def)
    note e = ext_stars_ends[OF this]
    show ?thesis
    proof (rule ends_bindI[OF e], clarify)
      fix c p' got v assume "advt u v"
      then have v: "advt t v" "left v < left t" using that by (auto simp: advt_def adv_def)
      have q: "ends (if got then (if c = SPACE then rbind (tokenize_next_char v) (\<lambda>(c, t). ok (c, pos, t)) else ok (c, pos, v)) else ok (c, p', v))
        (\<lambda>(c, p', t'). advt t t' \<and> left t' < left t)"
        using v by (auto intro!: ends_mono[OF next_char_advt[OF advt_inv[OF v(1)]]] dest: advt_trans simp: advt_def adv_def)
      show "ends (if got \<and> c = SLASH then ok (Some pos, v) else
        rbind (if got then (if c = SPACE then rbind (tokenize_next_char v) (\<lambda>(c, t). ok (c, pos, t)) else ok (c, pos, v)) else ok (c, p', v)) (\<lambda>(c, p', t).
        rbind (ext_content c t p' False) (\<lambda>(c, pos', fin, t).
         if fin then ok (Some pos', t) else if c = EOF then ok (None, t) else if c \<noteq> NEWLINE then stop Assert_Failed
         else if pos \<noteq> pos' then rbind (add_char_to_token t pos' c) (\<lambda>t. ext_lines t (pos' + 1)) else ext_lines t pos'))) ?P"
      proof (cases "got \<and> c = SLASH")
        case True
        then show ?thesis using v(1) by simp
      next
        case False
        then show ?thesis unfolding if_not_P[OF False] by (intro ends_bindI[OF q]) (auto intro: content simp del: ends_rbind)
      qed
    qed
  qed
  show ?case
    by (subst ext_lines.simps, rule ends_bindI[OF ext_white_ends[OF less.prems]])
      (auto simp: ext_EOF simp del: ends_rbind intro: stars)
qed

lemma add_next_ends':
  assumes "tk_inv u" "\<And>c v. adv u v \<Longrightarrow> c = EOF \<or> left v < left u \<Longrightarrow> ends (f (c, v)) P"
  shows "ends (rbind (add_char_to_token u pos ch) (\<lambda>t. rbind (tokenize_next_char t) f)) P"
  by (rule add_next_advt[OF assms(1)]) (auto simp: advt_def intro: assms(2))

section \<open>Tokens\<close>

text \<open>A token has been read from \<open>t\<close>, at most \<open>k\<close> characters of which are still there.\<close>

definition got :: "nat \<Rightarrow> tokenize_t \<Rightarrow> tokenize_t \<Rightarrow> bool" where
  "got k t t' \<longleftrightarrow> tk_inv t' \<and> hasnext t' = hasnext t \<and> left t' \<le> left t + k"

lemma adv_got: "adv t t' \<Longrightarrow> got k t t'"
  by (simp add: adv_def got_def)

lemma adv_got_trans: "adv t t' \<Longrightarrow> got 0 t' t'' \<Longrightarrow> got 0 t t''"
  by (simp add: adv_def got_def)

lemma got_unget: "adv t t' \<Longrightarrow> got 1 t (tokenize_ungetc t' c)" "adv t t' \<Longrightarrow> left t' < left t \<Longrightarrow> got 0 t (tokenize_ungetc t' c)"
  using ungetc_left[of t' c] by (auto simp: adv_def got_def)

lemma got_updates [simp]: "got k t (t'\<lparr>token_type := y\<rparr>) = got k t t'" "got k (t\<lparr>token_type := y\<rparr>) t' = got k t t'"
  by (simp_all add: got_def)

lemma wrote_got: "wrote p u v \<Longrightarrow> got k t u \<Longrightarrow> got k t v"
  by (simp only: got_def wrote_simps)

lemma wrote_adv: "wrote p u v \<Longrightarrow> adv t u \<Longrightarrow> adv t v" "wrote p u v \<Longrightarrow> tk_inv u \<Longrightarrow> tk_inv v"
  by (simp_all only: wrote_simps)

lemma end_tok_ends:
  assumes "got k t u"
  shows "ends (end_tok u pos) (\<lambda>(res, t'). got k t t' \<and> res \<noteq> EOF \<and> token_type t' = token_type u \<and> (0 < pos \<and> starts u b \<longrightarrow> starts t' b))"
  unfolding end_tok_def
proof (rule ends_bindI[OF put_token_ends])
  fix v assume "wrote pos u v \<and> (pos = 0 \<longrightarrow> tk_token v \<noteq> [] \<and> tk_token v ! 0 = word_of_int 0)"
  then have w: "wrote pos u v" by simp
  have "got k t v" using w assms by (rule wrote_got)
  moreover have "0 < pos \<and> starts u b \<longrightarrow> starts v b" using w by (auto simp: wrote_def starts_def)
  ultimately show "ends (ok (int pos, v)) (\<lambda>(res, t'). got k t t' \<and> res \<noteq> EOF \<and> token_type t' = token_type u \<and> (0 < pos \<and> starts u b \<longrightarrow> starts t' b))"
    using wrote_simps(5)[OF w] by simp
qed

lemma end_tok_got: "got k t u \<Longrightarrow> ends (end_tok u pos) (\<lambda>(res, t'). res \<noteq> EOF \<and> got k t t')"
  by (rule ends_mono[OF end_tok_ends]) auto

lemma ext_comment_ends: "tk_inv t \<Longrightarrow> ends (tokenize_extended_comment t) (\<lambda>(res, t'). got 0 t t' \<and> (res = EOF \<longrightarrow> token_type t' = token_type t))"
  unfolding tokenize_extended_comment_def
proof (rule ends_bindI[OF ext_lines_ends], assumption, clarify)
  fix p u assume "advt t u"
  then have u: "adv t u" "token_type u = token_type t" by (simp_all add: advt_def)
  let ?P = "\<lambda>(res, t'). got 0 t t' \<and> (res = EOF \<longrightarrow> token_type t' = token_type t)"
  show "ends (case p of None \<Rightarrow> ok (EOF, u) | Some pos \<Rightarrow> rbind (put_token u pos 0) (\<lambda>t. ok (int pos, t\<lparr>token_type := ZCM_TOK_COMMENT\<rparr>))) ?P"
  proof (cases p)
    case None
    with u show ?thesis by (simp add: adv_got)
  next
    case (Some pos)
    have "ends (rbind (put_token u pos 0) (\<lambda>t. ok (int pos, t\<lparr>token_type := ZCM_TOK_COMMENT\<rparr>))) ?P"
      by (rule ends_bindI[OF put_token_ends]) (use u in \<open>auto simp: wrote_simps got_def adv_def\<close>)
    with Some show ?thesis by simp
  qed
qed

lemma char_literal_ends: "tk_inv t \<Longrightarrow> ends (char_literal t c) (\<lambda>(res, t'). res \<noteq> EOF \<and> got 0 t t')"
proof -
  assume inv: "tk_inv t"
  have fin: "ends (rbind (put_token w 2 d) (\<lambda>t. end_tok (t\<lparr>token_type := ZCM_TOK_OTHER\<rparr>) 3)) (\<lambda>(res, t'). res \<noteq> EOF \<and> got 0 t t')" if "adv t w" for w d
    by (rule ends_bindI[OF put_token_ends], rule end_tok_got) (use that in \<open>auto simp: wrote_simps got_def adv_def\<close>)
  have closing: "ends (rbind (tokenize_next_char w) (\<lambda>(c, t). if c \<noteq> QUOTE then ok (-5, t) else rbind (put_token t 2 c) (\<lambda>t. end_tok (t\<lparr>token_type := ZCM_TOK_OTHER\<rparr>) 3)))
      (\<lambda>(res, t'). res \<noteq> EOF \<and> got 0 t t')" if "adv t w" for w
  proof (rule ends_bindI[OF next_char_adv[OF adv_inv[OF that]]], clarify)
    fix c v assume "adv w v"
    then have v: "adv t v" using that by (rule adv_trans[rotated])
    show "ends (if c \<noteq> QUOTE then ok (-5, v) else rbind (put_token v 2 c) (\<lambda>t. end_tok (t\<lparr>token_type := ZCM_TOK_OTHER\<rparr>) 3)) (\<lambda>(res, t'). res \<noteq> EOF \<and> got 0 t t')"
      using fin[OF v] adv_got[OF v] by (simp del: ends_rbind)
  qed
  have second: "ends (rbind (put_token w 1 c) (\<lambda>t. rbind (tokenize_next_char t) (\<lambda>(c, t). if c \<noteq> QUOTE then ok (-5, t)
      else rbind (put_token t 2 c) (\<lambda>t. end_tok (t\<lparr>token_type := ZCM_TOK_OTHER\<rparr>) 3)))) (\<lambda>(res, t'). res \<noteq> EOF \<and> got 0 t t')" if "adv t w" for w c
    by (rule ends_bindI[OF put_token_ends], rule closing) (use that in \<open>auto simp: wrote_simps\<close>)
  have escape: "ends (if c = BACKSLASH then rbind (tokenize_next_char w) (\<lambda>(c, t). ok (unescape c, t)) else ok (c, w)) (\<lambda>(c, t'). adv t t')" if "adv t w" for w c
  proof (cases "c = BACKSLASH")
    case True
    have "ends (rbind (tokenize_next_char w) (\<lambda>(c, t). ok (unescape c, t))) (\<lambda>(c, t'). adv t t')"
      by (rule ends_bindI[OF next_char_adv[OF adv_inv[OF that]]]) (use that in \<open>auto intro: adv_trans\<close>)
    with True show ?thesis by simp
  qed (use that in simp)
  show ?thesis unfolding char_literal_def
  proof (rule ends_bindI[OF put_token_ends])
    fix u assume u: "wrote 0 t u \<and> (0 = (0::nat) \<longrightarrow> tk_token u \<noteq> [] \<and> tk_token u ! 0 = word_of_int c)"
    then have "tk_inv u" using inv by (auto simp: wrote_simps)
    then show "ends (rbind (tokenize_next_char u) (\<lambda>(c, t). rbind (if c = BACKSLASH then rbind (tokenize_next_char t) (\<lambda>(c, t). ok (unescape c, t)) else ok (c, t))
        (\<lambda>(c, t). if c = EOF then ok (-4, t) else rbind (put_token t 1 c) (\<lambda>t. rbind (tokenize_next_char t) (\<lambda>(c, t). if c \<noteq> QUOTE then ok (-5, t)
           else rbind (put_token t 2 c) (\<lambda>t. end_tok (t\<lparr>token_type := ZCM_TOK_OTHER\<rparr>) 3)))))) (\<lambda>(res, t'). res \<noteq> EOF \<and> got 0 t t')"
    proof (rule ends_bindI[OF next_char_adv], clarify)
      fix c v assume "adv u v"
      then have v: "adv t v" using u by (auto simp: wrote_simps)
      show "ends (rbind (if c = BACKSLASH then rbind (tokenize_next_char v) (\<lambda>(c, t). ok (unescape c, t)) else ok (c, v))
        (\<lambda>(c, t). if c = EOF then ok (-4, t) else rbind (put_token t 1 c) (\<lambda>t. rbind (tokenize_next_char t) (\<lambda>(c, t). if c \<noteq> QUOTE then ok (-5, t)
           else rbind (put_token t 2 c) (\<lambda>t. end_tok (t\<lparr>token_type := ZCM_TOK_OTHER\<rparr>) 3))))) (\<lambda>(res, t'). res \<noteq> EOF \<and> got 0 t t')"
        by (rule ends_bindI[OF escape[OF v]]) (auto intro: second[simplified One_nat_def] adv_got simp del: ends_rbind)
    qed
  qed
qed

lemma string_loop_ends: "tk_inv t \<Longrightarrow> ends (string_loop t pos esc) (\<lambda>(res, t'). res \<noteq> EOF \<and> got 0 t t')"
proof (induction "left t" arbitrary: t pos esc rule: less_induct)
  case less
  let ?P = "\<lambda>(res, t'). res \<noteq> EOF \<and> got 0 t t'"
  have again: "ends (string_loop u p e) ?P" if "adv t u" "left u < left t" for u p e
    by (rule ends_mono[OF less.hyps[OF that(2) adv_inv[OF that(1)]]]) (use that in \<open>auto intro: adv_got_trans\<close>)
  have put: "ends (rbind (put_token u p c) (\<lambda>t. string_loop t q False)) ?P" if "adv t u" "left u < left t" for u p c q
    by (rule ends_bindI[OF put_token_ends], rule again) (use that in \<open>auto intro: wrote_adv simp: wrote_simps\<close>)
  have close: "ends (rbind (put_token u p c) (\<lambda>t. end_tok t q)) ?P" if "adv t u" for u p c q
    by (rule ends_bindI[OF put_token_ends], rule end_tok_got) (use that in \<open>auto intro: adv_got wrote_adv\<close>)
  have w: "wrote (Suc pos) t (ensure_token_capacity t pos)" by (rule ensure_wrote)
  show ?case
  proof (subst string_loop.simps, rule ends_bindI[OF next_char_adv[OF wrote_adv(2)[OF w less.prems]]], clarify)
    fix c u assume u: "adv (ensure_token_capacity t pos) u" "c = EOF \<or> left u < left (ensure_token_capacity t pos)"
    then have a: "adv t u" "c = EOF \<or> left u < left t" using w by (simp_all add: wrote_simps)
    show "ends (if c = EOF then end_tok u pos else if esc then string_loop u pos False else if c = DQUOTE then rbind (put_token u pos c) (\<lambda>t. end_tok t (pos + 1))
        else if c = BACKSLASH then string_loop u pos True else rbind (put_token u pos c) (\<lambda>t. string_loop t (pos + 1) False)) ?P"
      using a(2) again[OF a(1)] put[OF a(1)] close[OF a(1)] end_tok_got[OF adv_got[OF a(1), of 0]] by (cases "c = EOF") (simp_all del: ends_rbind)
  qed
qed

text \<open>An operator at the end of the file is put back, so that nothing may have been consumed.\<close>

definition opish :: "tokenize_t \<Rightarrow> bool" where
  "opish t \<longleftrightarrow> strchr op_chars (sint (case token_str t of [] \<Rightarrow> 0 | b # _ \<Rightarrow> b))"

lemma strchr_EOF [simp]: "\<not> strchr op_chars EOF" "\<not> strchr single_char_toks EOF"
  by (simp_all add: strchr_def op_chars_def single_char_toks_def str_def)

lemma starts_opish: "starts t b \<Longrightarrow> strchr op_chars (sint b) \<Longrightarrow> opish t"
  by (cases "tk_token t") (auto simp: starts_def opish_def token_str_def strchr_def)

lemma operator_loop_ends:
  assumes "tk_inv t" "unget_char t < 0" "pos = 0 \<and> strchr op_chars c \<and> b = word_of_int c \<or> 0 < pos \<and> starts t b"
  shows "ends (operator_loop c t pos) (\<lambda>(res, t'). got 1 t t' \<and> res \<noteq> EOF \<and> starts t' b \<and> token_type t' = ZCM_TOK_OTHER)"
  using assms
proof (induction "left t" arbitrary: c t pos rule: less_induct)
  case less
  let ?P = "\<lambda>(res, t'). got 1 t t' \<and> res \<noteq> EOF \<and> starts t' b \<and> token_type t' = ZCM_TOK_OTHER"
  have stop: "ends (end_tok (tokenize_ungetc (u\<lparr>token_type := ZCM_TOK_OTHER\<rparr>) c) p) ?P" if "adv t u" "0 < p" "starts u b" for u p c
  proof -
    have "got 1 t (tokenize_ungetc (u\<lparr>token_type := ZCM_TOK_OTHER\<rparr>) c)" using that(1) by (intro got_unget) simp
    from end_tok_ends[OF this, of p b] show ?thesis by (rule ends_mono) (use that in auto)
  qed
  have again: "ends (operator_loop c u p) ?P" if "adv t u" "c = EOF \<or> left u < left t" "0 < p" "starts u b" for c u p
  proof (cases "c = EOF")
    case True
    show ?thesis by (subst operator_loop.simps) (use stop[OF that(1,3,4)] True in simp)
  next
    case False
    with that(2) have lt: "left u < left t" by simp
    have "tk_inv u" "unget_char u < 0" using that(1) by (simp_all add: adv_def)
    note h = less.hyps[OF lt this, of p c]
    show ?thesis by (rule ends_mono[OF h]) (use that(1,3,4) in \<open>auto simp: adv_def got_def\<close>)
  qed
  show ?case
  proof (cases "strchr op_chars c")
    case True
    have "ends (rbind (add_char_to_token t pos c) (\<lambda>t. rbind (tokenize_next_char t) (\<lambda>(c, t). operator_loop c t (pos + 1)))) ?P"
    proof (rule add_next_ends[OF less.prems(1)])
      show "pos = 0 \<and> b = word_of_int c \<or> 0 < pos \<and> starts t b" using less.prems(3) by auto
      fix c v assume "adv t v" "c = EOF \<or> left v < left t" "starts v b"
      then show "ends (case (c, v) of (c, t) \<Rightarrow> operator_loop c t (pos + 1)) ?P" using again[of v c "pos + 1"] by simp
    qed
    with True show ?thesis by (subst operator_loop.simps) simp
  next
    case False
    with less.prems have "0 < pos" "starts t b" by auto
    with stop[OF adv_refl[OF less.prems(1,2)]] False show ?thesis by (subst operator_loop.simps) simp
  qed
qed

lemma skip_char_ends: "tk_inv t \<Longrightarrow> unget_char t < 0 \<Longrightarrow> ends (skip_char ch c t) (\<lambda>(c', t'). adv t t')"
proof (induction "left t" arbitrary: c t rule: less_induct)
  case less
  have again: "ends (skip_char ch c u) (\<lambda>(c', t'). adv t t')" if "adv t u" "c = EOF \<or> left u < left t" for c u
  proof (cases "c = EOF")
    case True
    with that(1) show ?thesis by (subst skip_char.simps) simp
  next
    case False
    with that(2) have "left u < left t" by simp
    moreover have "tk_inv u" "unget_char u < 0" using that(1) by (simp_all add: adv_def)
    ultimately show ?thesis by (rule ends_mono[OF less.hyps]) (use that(1) in \<open>auto intro: adv_trans\<close>)
  qed
  have step: "ends (rbind (tokenize_next_char t) (\<lambda>(c, t). skip_char ch c t)) (\<lambda>(c', t'). adv t t')"
    by (rule ends_bindI[OF next_char_adv[OF less.prems(1)]]) (auto intro: again)
  show ?case using step adv_refl[OF less.prems] by (subst skip_char.simps) (simp del: ends_rbind)
qed

lemma comment_loop_ends: "tk_inv t \<Longrightarrow> unget_char t < 0 \<Longrightarrow> ends (comment_loop c t pos) (\<lambda>(res, t'). res \<noteq> EOF \<and> got 1 t t')"
proof (induction "left t" arbitrary: c t pos rule: less_induct)
  case less
  let ?P = "\<lambda>(res, t'). res \<noteq> EOF \<and> got 1 t t'"
  have stop: "ends (end_tok (tokenize_ungetc u c) p) ?P" if "adv t u" for u p c
    by (rule end_tok_got, rule got_unget(1), rule that)
  have again: "ends (comment_loop c u p) ?P" if "adv t u" "c = EOF \<or> left u < left t" for c u p
  proof (cases "c = EOF")
    case True
    with stop[OF that(1)] show ?thesis by (subst comment_loop.simps) simp
  next
    case False
    with that(2) have "left u < left t" by simp
    moreover have "tk_inv u" "unget_char u < 0" using that(1) by (simp_all add: adv_def)
    ultimately show ?thesis by (rule ends_mono[OF less.hyps]) (use that(1) in \<open>auto simp: adv_def got_def\<close>)
  qed
  have step: "ends (rbind (add_char_to_token t pos c) (\<lambda>t. rbind (tokenize_next_char t) (\<lambda>(c, t). comment_loop c t (pos + 1)))) ?P"
    by (rule add_next_ends'[OF less.prems(1)]) (auto intro: again[simplified])
  show ?case using step stop[OF adv_refl[OF less.prems]] by (subst comment_loop.simps) (simp del: ends_rbind)
qed

lemma slash_token_ends:
  assumes "tk_inv t"
  shows "ends (slash_token t c) (\<lambda>(res, t'). got 0 t t' \<and> (res = EOF \<longrightarrow> token_type t' = token_type t))"
  unfolding slash_token_def
proof (rule add_next_advt[OF assms], clarify)
  fix c u assume "advt t u" and c: "c = EOF \<or> left u < left t"
  then have u: "adv t u" "c = EOF \<or> left u < left t" "token_type u = token_type t" by (simp_all add: advt_def)
  let ?u = "u\<lparr>token_type := ZCM_TOK_COMMENT\<rparr>"
  have inv: "tk_inv u" using u(1) by (rule adv_inv)
  have comment: "ends (rbind (tokenize_next_char ?u) (\<lambda>(c, t). rbind (skip_char SLASH c t) (\<lambda>(c, t). rbind (skip_char SPACE c t) (\<lambda>(c, t). comment_loop c t 0))))
      (\<lambda>(res, t'). got 0 t t' \<and> (res = EOF \<longrightarrow> token_type t' = token_type t))" if "left u < left t"
  proof -
    have last: "ends (comment_loop c w 0) (\<lambda>(res, t'). got 0 t t' \<and> (res = EOF \<longrightarrow> token_type t' = token_type t))" if "adv u w" for c w
    proof -
      have "tk_inv w" "unget_char w < 0" using that by (simp_all add: adv_def)
      then show ?thesis by (rule ends_mono[OF comment_loop_ends]) (use that u(1) \<open>left u < left t\<close> in \<open>auto simp: adv_def got_def\<close>)
    qed
    have skip: "ends (skip_char ch c w) (\<lambda>(c, t'). adv u t')" if "adv u w" for ch c w
      by (rule ends_mono[OF skip_char_ends]) (use that in \<open>auto simp: adv_def\<close>)
    have "ends (tokenize_next_char ?u) (\<lambda>(c, t'). adv u t')" using inv by (intro ends_mono[OF next_char_adv]) auto
    then show ?thesis by (rule ends_bindI) (auto intro!: ends_bindI[OF skip] last simp del: ends_rbind)
  qed
  have other: "ends (end_tok (tokenize_ungetc (u\<lparr>token_type := ZCM_TOK_OTHER\<rparr>) c) 1) (\<lambda>(res, t'). got 0 t t' \<and> (res = EOF \<longrightarrow> token_type t' = token_type t))" if "left u < left t"
    by (rule ends_mono[OF end_tok_got[OF got_unget(2)]]) (use u(1) that in auto)
  have ext: "ends (tokenize_extended_comment u) (\<lambda>(res, t'). got 0 t t' \<and> (res = EOF \<longrightarrow> token_type t' = token_type t))"
    by (rule ends_mono[OF ext_comment_ends[OF inv]]) (use u(1,3) in \<open>auto intro: adv_got_trans\<close>)
  have eof: "ends (end_tok (u\<lparr>token_type := ZCM_TOK_OTHER\<rparr>) 1) (\<lambda>(res, t'). got 0 t t' \<and> (res = EOF \<longrightarrow> token_type t' = token_type t))"
    by (rule ends_mono[OF end_tok_got[OF adv_got]]) (use u(1) in auto)
  show "ends (if c = EOF then end_tok (u\<lparr>token_type := ZCM_TOK_OTHER\<rparr>) 1 else if c = STAR then tokenize_extended_comment u else if c = SLASH then
         rbind (tokenize_next_char ?u) (\<lambda>(c, t). rbind (skip_char SLASH c t) (\<lambda>(c, t). rbind (skip_char SPACE c t) (\<lambda>(c, t). comment_loop c t 0)))
       else end_tok (tokenize_ungetc (u\<lparr>token_type := ZCM_TOK_OTHER\<rparr>) c) 1) (\<lambda>(res, t'). got 0 t t' \<and> (res = EOF \<longrightarrow> token_type t' = token_type t))"
    using u(2) comment other ext eof by (cases "c = EOF") (simp_all del: ends_rbind)
qed

lemma word_loop_ends: "tk_inv t \<Longrightarrow> unget_char t < 0 \<Longrightarrow> ends (word_loop c t pos) (\<lambda>(res, t'). res \<noteq> EOF \<and> got 0 t t')"
proof (induction "left t" arbitrary: c t pos rule: less_induct)
  case less
  let ?P = "\<lambda>(res, t'). res \<noteq> EOF \<and> got 0 t t'"
  have again: "ends (word_loop c u p) ?P" if "adv t u" "left u < left t" for c u p
  proof -
    have "tk_inv u" "unget_char u < 0" using that(1) by (simp_all add: adv_def)
    with that(2) show ?thesis by (rule ends_mono[OF less.hyps]) (use that(1) in \<open>auto intro: adv_got_trans\<close>)
  qed
  have fin: "ends (end_tok u p) ?P" if "adv t u" for u p by (rule end_tok_got, rule adv_got, rule that)
  have unget: "ends (end_tok (tokenize_ungetc u c) p) ?P" if "adv t u" "left u < left t" for u c p
    by (rule end_tok_got, rule got_unget(2)) (use that in auto)
  show ?case
  proof (subst word_loop.simps, rule ends_bindI[OF add_char_ends])
    fix v assume "wrote pos t v \<and> (pos = 0 \<longrightarrow> tk_token v \<noteq> [] \<and> tk_token v ! 0 = word_of_int c)"
    then have w: "wrote pos t v" by simp
    let ?v = "v\<lparr>token_type := ZCM_TOK_OTHER\<rparr>"
    have v: "adv t ?v" using wrote_adv(1)[OF w adv_refl[OF less.prems]] by simp
    have step: "ends (rbind (tokenize_next_char ?v) (\<lambda>(c, t). if strchr single_char_toks c \<or> strchr op_chars c then end_tok (tokenize_ungetc t c) (pos + 1)
         else if \<not> isspace c \<and> c \<noteq> EOF then word_loop c t (pos + 1) else end_tok t (pos + 1))) ?P"
    proof (rule ends_bindI[OF next_char_adv[OF adv_inv[OF v]]], clarify)
      fix c u assume "adv ?v u" "c = EOF \<or> left u < left ?v"
      then have u: "adv t u" "c = EOF \<or> left u < left t" using adv_trans[OF v] w by (auto simp: wrote_simps)
      show "ends (if strchr single_char_toks c \<or> strchr op_chars c then end_tok (tokenize_ungetc u c) (pos + 1)
         else if \<not> isspace c \<and> c \<noteq> EOF then word_loop c u (pos + 1) else end_tok u (pos + 1)) ?P"
        using u(2) again[OF u(1)] fin[OF u(1)] unget[OF u(1)] by (cases "c = EOF") simp_all
    qed
    show "ends (let t = ?v in if strchr single_char_toks c then end_tok t (pos + 1) else
        rbind (tokenize_next_char t) (\<lambda>(c, t). if strchr single_char_toks c \<or> strchr op_chars c then end_tok (tokenize_ungetc t c) (pos + 1)
         else if \<not> isspace c \<and> c \<noteq> EOF then word_loop c t (pos + 1) else end_tok t (pos + 1))) ?P"
      unfolding Let_def using step fin[OF v] by (simp del: ends_rbind)
  qed
qed

text \<open>
  A call that does not report the end of the file consumes something, unless its token is an operator.
\<close>

lemma next_internal_ends:
  assumes "tk_inv t"
  shows "ends (tokenize_next_internal t) (\<lambda>(res, t'). tk_inv t' \<and> hasnext t' = hasnext t \<and> left t' \<le> left t
    \<and> (left t' < left t \<or> res = EOF \<or> opish t' \<and> token_type t' = ZCM_TOK_OTHER) \<and> (res = EOF \<longrightarrow> token_type t' \<noteq> ZCM_TOK_COMMENT))"
    (is "ends _ ?P")
  unfolding tokenize_next_internal_def
proof (rule ends_bindI[OF skip_space_ends], use assms in simp, clarify)
  fix c u assume "adv (t\<lparr>token_type := ZCM_TOK_INVALID\<rparr>) u" "c = EOF \<longrightarrow> token_type u = ZCM_TOK_EOF"
    "c \<noteq> EOF \<longrightarrow> left u < left (t\<lparr>token_type := ZCM_TOK_INVALID\<rparr>) \<and> token_type u = token_type (t\<lparr>token_type := ZCM_TOK_INVALID\<rparr>)"
  then have u: "adv t u" "c = EOF \<or> left u < left t" "token_type u \<noteq> ZCM_TOK_COMMENT" by auto
  let ?u = "u\<lparr>token_line := current_line u, token_column := current_column u\<rparr>"
  have inv: "tk_inv ?u" "unget_char ?u < 0" using u(1) by (simp_all add: adv_def)
  have less: "ends m ?P" if "ends m (\<lambda>(res, t'). res \<noteq> EOF \<and> got 0 ?u t')" "left u < left t" for m
    by (rule ends_mono[OF that(1)]) (use that(2) u(1) in \<open>auto simp: adv_def got_def\<close>)
  have slash: "ends (slash_token ?u c) ?P" if "left u < left t" for c
    by (rule ends_mono[OF slash_token_ends[OF inv(1)]]) (use that u(1,3) in \<open>auto simp: adv_def got_def\<close>)
  have str: "ends (rbind (put_token ?u 0 c) (\<lambda>t. string_loop t 1 False)) (\<lambda>(res, t'). res \<noteq> EOF \<and> got 0 ?u t')" for c
  proof (rule ends_bindI[OF put_token_ends])
    fix v assume "wrote 0 ?u v \<and> (0 = (0 :: nat) \<longrightarrow> tk_token v \<noteq> [] \<and> tk_token v ! 0 = word_of_int c)"
    then have w: "wrote 0 ?u v" by simp
    show "ends (string_loop v 1 False) (\<lambda>(res, t'). res \<noteq> EOF \<and> got 0 ?u t')"
      by (rule ends_mono[OF string_loop_ends[OF wrote_adv(2)[OF w inv(1)]]]) (use wrote_simps[OF w] in \<open>auto simp: got_def\<close>)
  qed
  have op: "ends (operator_loop c ?u 0) ?P" if "strchr op_chars c" "left u < left t"
  proof (rule ends_mono[OF operator_loop_ends[OF inv, of 0 c "word_of_int c"]])
    fix x assume x: "case x of (res, t') \<Rightarrow> got 1 ?u t' \<and> res \<noteq> EOF \<and> starts t' (word_of_int c) \<and> token_type t' = ZCM_TOK_OTHER"
    obtain res t' where eq: "x = (res, t')" by (cases x)
    have "opish t'" using x eq that(1) starts_opish[of t' "word_of_int c"] by (simp add: strchr_def)
    with x eq that(2) u(1) show "?P x" by (auto simp: adv_def got_def)
  qed (use that in simp)
  show "ends (if c = EOF then ok (EOF, u) else let t = ?u in if c = QUOTE then char_literal t c
       else if c = DQUOTE then rbind (put_token t 0 c) (\<lambda>t. string_loop t 1 False) else if strchr op_chars c then operator_loop c t 0
       else if c = SLASH then slash_token t c else word_loop c t 0) ?P"
  proof (cases "c = EOF")
    case True
    with u(1,3) show ?thesis by (simp add: adv_def)
  next
    case False
    with u(2) have lt: "left u < left t" by simp
    show ?thesis
      using False op[OF _ lt] less[OF char_literal_ends[OF inv(1)] lt] less[OF str[of DQUOTE] lt] slash[OF lt] less[OF word_loop_ends[OF inv] lt]
      by (simp add: Let_def del: ends_rbind One_nat_def)
  qed
qed

text \<open>
  The potential of a state: it never grows, and falls with every token that is taken and is not an operator.
\<close>

definition potential :: "tokenize_t \<Rightarrow> nat" where
  "potential t = 2 * left t + (if hasnext t \<and> \<not> opish t then 1 else 0)"

lemma opish_hasnext [simp]: "opish (t\<lparr>hasnext := h\<rparr>) = opish t" "token_str (t\<lparr>hasnext := h\<rparr>) = token_str t"
  by (simp_all add: opish_def token_str_def)

lemma tokenize_next_ends:
  assumes "tk_inv t"
  shows "ends (tokenize_next t) (\<lambda>(res, t'). tk_inv t' \<and> \<not> hasnext t' \<and> potential t' \<le> potential t \<and> (potential t' < potential t \<or> res = EOF \<or> opish t')
    \<and> (hasnext t \<or> potential t' < potential t \<or> res = EOF \<or> token_type t' = ZCM_TOK_OTHER)
    \<and> (res = EOF \<longrightarrow> token_type t' \<noteq> ZCM_TOK_COMMENT))"
proof (cases "hasnext t")
  case True
  with assms show ?thesis by (simp add: tokenize_next_def potential_def)
next
  case False
  then have n: "tokenize_next t = tokenize_next_internal t" by (simp add: tokenize_next_def)
  show ?thesis unfolding n by (rule ends_mono[OF next_internal_ends[OF assms]]) (use False in \<open>auto simp: potential_def\<close>)
qed

lemma tokenize_peek_ends:
  assumes "tk_inv t"
  shows "ends (tokenize_peek t) (\<lambda>(res, t'). tk_inv t' \<and> potential t' \<le> potential t \<and> (res \<noteq> EOF \<longrightarrow> hasnext t')
    \<and> (hasnext t \<and> t' = t \<or> potential t' < potential t \<or> res = EOF \<or> opish t' \<and> token_type t' = ZCM_TOK_OTHER))"
proof (cases "hasnext t")
  case True
  with assms show ?thesis by (simp add: tokenize_peek_def)
next
  case False
  then have n: "tokenize_next t = tokenize_next_internal t" by (simp add: tokenize_next_def)
  have "ends (rbind (tokenize_next_internal t) (\<lambda>(res, t). ok (res, if res \<noteq> EOF then t\<lparr>hasnext := True\<rparr> else t)))
    (\<lambda>(res, t'). tk_inv t' \<and> potential t' \<le> potential t \<and> (res \<noteq> EOF \<longrightarrow> hasnext t')
    \<and> (hasnext t \<and> t' = t \<or> potential t' < potential t \<or> res = EOF \<or> opish t' \<and> token_type t' = ZCM_TOK_OTHER))"
    by (rule ends_bindI[OF next_internal_ends[OF assms]]) (use False in \<open>auto simp: potential_def\<close>)
  with False n show ?thesis by (simp add: tokenize_peek_def)
qed

end
