(* ===== verification/Zcmgen_Props.thy ===== *)
theory Zcmgen_Props
  imports Zcmgen Tokenize_Props
begin

text \<open>
  The parser ends on every file, and every type definition that it accepts is well formed.
\<close>

section \<open>Reading tokens\<close>

text \<open>The parser has moved on.\<close>

definition fwd :: "tokenize_t \<Rightarrow> tokenize_t \<Rightarrow> bool" where
  "fwd t t' \<longleftrightarrow> tk_inv t' \<and> potential t' \<le> potential t"

lemma fwd_trans: "fwd t t' \<Longrightarrow> fwd t' t'' \<Longrightarrow> fwd t t''"
  by (simp add: fwd_def)

lemma fwd_inv: "fwd t t' \<Longrightarrow> tk_inv t'"
  by (simp add: fwd_def)

lemma fwd_refl: "tk_inv t \<Longrightarrow> fwd t t"
  by (simp add: fwd_def)

definition waiting :: "tokenize_t \<Rightarrow> nat" where
  "waiting t = 2 * potential t + (if hasnext t then 1 else 0)"

lemma peek_comment:
  assumes "tk_inv t"
  shows "ends (tokenize_peek t) (\<lambda>(res, t'). fwd t t' \<and> (res \<noteq> EOF \<longrightarrow> hasnext t')
    \<and> (res \<noteq> EOF \<and> token_type t' = ZCM_TOK_COMMENT \<longrightarrow> potential t' < potential t \<or> hasnext t))"
  by (rule ends_mono[OF tokenize_peek_ends[OF assms]]) (auto simp: fwd_def)

lemma comment_round:
  assumes "tk_inv t" "\<And>u. fwd t u \<Longrightarrow> waiting u < waiting t \<Longrightarrow> ends (f u) P"
    and "\<And>res u. fwd t u \<Longrightarrow> ends (g u) P"
  shows "ends (rbind (tokenize_peek t) (\<lambda>(res, t). if res \<noteq> EOF \<and> token_type t = ZCM_TOK_COMMENT then rbind (tokenize_next t) (\<lambda>(_, t). f t) else g t)) P"
proof (rule ends_bindI[OF peek_comment[OF assms(1)]], clarify)
  fix res u assume u: "fwd t u" "res \<noteq> EOF \<longrightarrow> hasnext u" "res \<noteq> EOF \<and> token_type u = ZCM_TOK_COMMENT \<longrightarrow> potential u < potential t \<or> hasnext t"
  have "ends (rbind (tokenize_next u) (\<lambda>(_, t). f t)) P" if "res \<noteq> EOF" "token_type u = ZCM_TOK_COMMENT"
  proof (rule ends_bindI[OF tokenize_next_ends[OF fwd_inv[OF u(1)]]], clarify)
    fix r v assume v: "tk_inv v" "\<not> hasnext v" "potential v \<le> potential u"
    have "fwd t v" using v u(1) by (simp add: fwd_def)
    moreover have "waiting v < waiting t" using v u that by (auto simp: waiting_def fwd_def)
    ultimately show "ends (f v) P" by (rule assms(2))
  qed
  then show "ends (if res \<noteq> EOF \<and> token_type u = ZCM_TOK_COMMENT then rbind (tokenize_next u) (\<lambda>(_, t). f t) else g u) P"
    using assms(3)[OF u(1)] by simp
qed

lemma skip_comments_ends: "tk_inv t \<Longrightarrow> ends (skip_comments t) (fwd t)"
proof (induction "waiting t" arbitrary: t rule: less_induct)
  case less
  have again: "ends (skip_comments u) (fwd t)" if "fwd t u" "waiting u < waiting t" for u
    by (rule ends_mono[OF less.hyps[OF that(2) fwd_inv[OF that(1)]]]) (rule fwd_trans[OF that(1)])
  show ?case by (subst skip_comments.simps, rule comment_round[OF less.prems]) (auto intro: again)
qed

lemma next_uncommented_ends: "tk_inv t \<Longrightarrow> ends (next_uncommented t) (\<lambda>(res, t'). fwd t t')"
proof (induction "waiting t" arbitrary: t rule: less_induct)
  case less
  show ?case
  proof (subst next_uncommented.simps, rule ends_bindI[OF tokenize_next_ends[OF less.prems]], clarify)
    fix res u assume u: "tk_inv u" "\<not> hasnext u" "potential u \<le> potential t"
      "hasnext t \<or> potential u < potential t \<or> res = EOF \<or> token_type u = ZCM_TOK_OTHER" "res = EOF \<longrightarrow> token_type u \<noteq> ZCM_TOK_COMMENT"
    have f: "fwd t u" using u by (simp add: fwd_def)
    have "ends (next_uncommented u) (\<lambda>(res, t'). fwd t t')" if "token_type u = ZCM_TOK_COMMENT"
    proof -
      have "waiting u < waiting t" using u that by (auto simp: waiting_def)
      from less.hyps[OF this u(1)] show ?thesis by (rule ends_mono) (auto intro: fwd_trans[OF f])
    qed
    with f show "ends (if token_type u = ZCM_TOK_COMMENT then next_uncommented u else ok (res, u)) (\<lambda>(res, t'). fwd t t')" by simp
  qed
qed

lemma collect_comments_ends: "tk_inv t \<Longrightarrow> ends (collect_comments zg t) (\<lambda>(zg', t'). fwd t t' \<and> (\<exists>c. zg' = zg\<lparr>zg_comment := c\<rparr>))"
proof (induction "waiting t" arbitrary: t zg rule: less_induct)
  case less
  let ?P = "\<lambda>(zg', t'). fwd t t' \<and> (\<exists>c. zg' = zg\<lparr>zg_comment := c\<rparr>)"
  have again: "ends (collect_comments (zg\<lparr>zg_comment := c\<rparr>) u) ?P" if "fwd t u" "waiting u < waiting t" for u c
    by (rule ends_mono[OF less.hyps[OF that(2) fwd_inv[OF that(1)]]]) (use fwd_trans[OF that(1)] in auto)
  show ?case by (subst collect_comments.simps, rule comment_round[OF less.prems]) (auto intro: again exI[of _ "zg_comment zg"])
qed

lemma parseTryConsumeComment_ends: "tk_inv t \<Longrightarrow> ends (parseTryConsumeComment zg t) (\<lambda>(zg', t'). fwd t t' \<and> (\<exists>c. zg' = zg\<lparr>zg_comment := c\<rparr>))"
  unfolding parseTryConsumeComment_def by (rule ends_mono[OF collect_comments_ends]) auto

text \<open>A name that is not an operator.\<close>

definition plain :: "name \<Rightarrow> bool" where
  "plain tok \<longleftrightarrow> \<not> strchr op_chars (sint (char0 tok))"

lemma opish_plain: "opish t \<longleftrightarrow> \<not> plain (token_str t)"
  by (simp add: opish_def plain_def char0_def)

lemma next_or_fail_ends:
  assumes "tk_inv t"
  shows "ends (tokenizeNextOrFail t) (\<lambda>t'. fwd t t' \<and> (plain (token_str t') \<longrightarrow> potential t' < potential t))"
  unfolding tokenizeNextOrFail_def
  by (rule ends_bindI[OF tokenize_next_ends[OF assms]]) (auto simp: fwd_def opish_plain)

lemma parseTryConsume_ends:
  assumes "tk_inv t"
  shows "ends (parseTryConsume t tok) (\<lambda>(b, t'). fwd t t' \<and> (b \<and> plain tok \<longrightarrow> potential t' < potential t))"
  unfolding parseTryConsume_def
proof (rule ends_bindI[OF skip_comments_ends[OF assms]], rule ends_bindI[OF tokenize_peek_ends[OF fwd_inv]], assumption, clarify)
  fix u res v assume u: "fwd t u" and v: "tk_inv v" "potential v \<le> potential u" "res \<noteq> EOF \<longrightarrow> hasnext v"
  have f: "fwd t v" using u v by (simp add: fwd_def)
  have "ends (rbind (tokenize_next v) (\<lambda>(_, t). ok (True, t))) (\<lambda>(b, t'). fwd t t' \<and> (b \<and> plain tok \<longrightarrow> potential t' < potential t))"
    if "res \<noteq> EOF" "token_str v = tok"
    using that v f by (auto simp: tokenize_next_def fwd_def potential_def opish_plain)
  with f show "ends (if res = EOF then stop Parse_Error else if token_type v \<noteq> ZCM_TOK_COMMENT \<and> token_str v = tok then rbind (tokenize_next v) (\<lambda>(_, t). ok (True, t))
     else ok (False, v)) (\<lambda>(b, t'). fwd t t' \<and> (b \<and> plain tok \<longrightarrow> potential t' < potential t))" by simp
qed

lemma parseRequire_ends: "tk_inv t \<Longrightarrow> ends (parseRequire t tok) (fwd t)"
  unfolding parseRequire_def
  by (rule ends_bindI[OF skip_comments_ends], assumption, rule ends_bindI[OF next_uncommented_ends[OF fwd_inv]], assumption) (auto intro: fwd_trans)

lemma plain_iff: "plain tok \<longleftrightarrow> char0 tok \<noteq> 0 \<and> char0 tok \<notin> set op_chars"
  by (simp add: plain_def strchr_def Let_def)

lemma plain_names [simp]: "isLegalMemberName s \<Longrightarrow> plain s" "isLegalTypeName s \<Longrightarrow> plain s"
  "plain (str ''['')" "plain (str ''const'')" "plain (str ''struct'')" "plain (str ''package'')" "plain (str '','')" "plain (str '':'')"
  by (auto simp: plain_iff isLegalTypeName_def isLegalMemberName_def isalpha_def op_chars_def str_def char0_def)

section \<open>Well-formed definitions\<close>

text \<open>The width of a bit field fits its type, and uses all bits of the type only when it is signed (or a byte, which never is).\<close>

definition wf_type :: "ZCMTypename \<Rightarrow> bool" where
  "wf_type zt \<longleftrightarrow> tn_numbits zt = 0 \<or>
     isFixedPoint (fullname zt)
     \<and> (case getPrimitiveTypeNumBits (fullname zt) of
          None \<Rightarrow> False
        | Some w \<Rightarrow> unat (tn_numbits zt) \<le> w \<and> (fullname zt = str ''byte'' \<longrightarrow> \<not> tn_signExtend zt)
            \<and> (fullname zt \<noteq> str ''byte'' \<and> unat (tn_numbits zt) = w \<longrightarrow> tn_signExtend zt))"

text \<open>The value of an integer constant fits its type.\<close>

definition wf_const :: "ZCMConstant \<Rightarrow> bool" where
  "wf_const c \<longleftrightarrow> isLegalConstType (c_type c) \<and> isLegalMemberName (c_membername c)
     \<and> (isFixedPoint (c_type c) \<longrightarrow> (\<exists>w v. getPrimitiveTypeNumBits (c_type c) = Some w \<and> c_val c = V_Int v
          \<and> ctype_min (c_type c) w \<le> sint v \<and> sint v \<le> ctype_max (c_type c) w))"

text \<open>
  A dimension is the value of an integer constant, a positive number, or the name of a scalar integer member among those before.
\<close>

definition wf_dim :: "ZCMConstant list \<Rightarrow> ZCMMember list \<Rightarrow> ZCMDimension \<Rightarrow> bool" where
  "wf_dim cs before d \<longleftrightarrow>
     (case dim_mode d of
        ZCM_CONST \<Rightarrow> (\<exists>c \<in> set cs. isArrayDimType (c_type c) \<and> dim_size d = c_valstr c) \<or> isdigit (char0 (dim_size d)) \<and> 0 < sint (strtol_int 0 (dim_size d))
      | ZCM_VAR \<Rightarrow> \<exists>m \<in> set before. m_membername m = dim_size d \<and> m_dimensions m = [] \<and> isArrayDimType (fullname (m_type m)))"

definition wf_member :: "ZCMConstant list \<Rightarrow> ZCMMember list \<Rightarrow> ZCMMember \<Rightarrow> bool" where
  "wf_member cs before m \<longleftrightarrow> isLegalMemberName (m_membername m) \<and> wf_type (m_type m) \<and> (\<forall>d \<in> set (m_dimensions m). wf_dim cs before d)"

fun wf_members :: "ZCMConstant list \<Rightarrow> ZCMMember list \<Rightarrow> ZCMMember list \<Rightarrow> bool" where
  "wf_members cs before [] = True"
| "wf_members cs before (m # ms) = (wf_member cs before m \<and> wf_members cs (before @ [m]) ms)"

definition wf_body :: "ZCMStruct \<Rightarrow> bool" where
  "wf_body zs \<longleftrightarrow> distinct (map m_membername (members zs) @ map c_membername (constants zs))
     \<and> wf_members (constants zs) [] (members zs)
     \<and> (\<forall>c \<in> set (constants zs). wf_const c)"

definition wf_struct :: "bool \<times> bool \<Rightarrow> ZCMStruct \<Rightarrow> bool" where
  "wf_struct hashing zs \<longleftrightarrow> wf_body zs \<and> hash zs = computeHash (fst hashing) (snd hashing) zs"

definition wf_gen :: "bool \<times> bool \<Rightarrow> ZCMGen \<Rightarrow> bool" where
  "wf_gen hashing zg \<longleftrightarrow> (\<forall>zs \<in> set (structs zg). wf_struct hashing zs)
     \<and> distinct (map (\<lambda>zs. (package (structname zs), shortname (structname zs))) (structs zg))"

lemma find_None_notin: "find P xs = None \<longleftrightarrow> (\<forall>x \<in> set xs. \<not> P x)"
  by (auto simp: find_None_iff)

lemma findMember_None: "findMember zs nm = None \<longleftrightarrow> nm \<notin> m_membername ` set (members zs)"
  by (auto simp: findMember_def find_None_notin)

lemma findConst_None: "findConst zs nm = None \<longleftrightarrow> nm \<notin> c_membername ` set (constants zs)"
  by (auto simp: findConst_def find_None_notin)

lemma find_Some_in: "find P xs = Some x \<Longrightarrow> x \<in> set xs \<and> P x"
  by (auto simp: find_Some_iff)

lemma wf_dim_mono: "wf_dim cs before d \<Longrightarrow> set cs \<subseteq> set cs' \<Longrightarrow> wf_dim cs' before d"
  by (cases "dim_mode d") (auto simp: wf_dim_def)

lemma wf_members_mono: "wf_members cs before ms \<Longrightarrow> set cs \<subseteq> set cs' \<Longrightarrow> wf_members cs' before ms"
  by (induction ms arbitrary: before) (auto simp: wf_member_def intro: wf_dim_mono)

lemma wf_members_append: "wf_members cs before (ms @ [m]) \<longleftrightarrow> wf_members cs before ms \<and> wf_member cs (before @ ms) m"
  by (induction ms arbitrary: before) auto

lemma wf_add_const:
  assumes "wf_body zs" "wf_const c" "findMember zs (c_membername c) = None" "findConst zs (c_membername c) = None"
  shows "wf_body (zs\<lparr>constants := constants zs @ [c]\<rparr>)"
  using assms by (auto simp: wf_body_def findMember_None findConst_None intro: wf_members_mono)

lemma wf_add_member:
  assumes "wf_body zs" "wf_member (constants zs) (members zs) m" "findMember zs (m_membername m) = None" "findConst zs (m_membername m) = None"
  shows "wf_body (zs\<lparr>members := members zs @ [m]\<rparr>)"
  using assms by (auto simp: wf_body_def findMember_None findConst_None wf_members_append)

section \<open>Values of constants\<close>

lemma ctype_cast_range:
  assumes "0 < w"
  shows "ctype_min type w \<le> ctype_cast type w v" "ctype_cast type w v \<le> ctype_max type w"
proof -
  have "- (2 ^ (w - 1)) \<le> signed_take_bit (w - 1) v" "signed_take_bit (w - 1) v < 2 ^ (w - 1)"
    by (rule signed_take_bit_int_greater_eq_minus_exp, rule signed_take_bit_int_less_exp)
  moreover have "v mod 2 ^ w < 2 ^ w" by (rule pos_mod_bound) simp
  ultimately show "ctype_min type w \<le> ctype_cast type w v" "ctype_cast type w v \<le> ctype_max type w"
    by (auto simp: ctype_min_def ctype_max_def ctype_cast_def)
qed

lemma int_value_range:
  assumes "0 < w"
  shows "ctype_min type w \<le> int_value type w n s v" "int_value type w n s v \<le> ctype_max type w"
proof -
  have div: "lo \<le> x div 2 ^ k \<and> x div 2 ^ k \<le> hi" if "lo \<le> x" "x \<le> hi" "lo \<le> 0" "0 \<le> hi" for lo x hi :: int and k
  proof -
    have "lo * 2 ^ k \<le> x" using that(1,3) mult_left_mono_neg[of 1 "2 ^ k" lo] by simp
    then have "lo \<le> x div 2 ^ k" by (simp add: zdiv_mono1[of "lo * 2 ^ k" x "2 ^ k", simplified])
    moreover have "x div 2 ^ k \<le> hi"
    proof (cases "0 \<le> x")
      case True
      then have "x div 2 ^ k \<le> x div 1" by (intro zdiv_mono2) auto
      then have "x div 2 ^ k \<le> x" by simp
      with that(2) show ?thesis by linarith
    next
      case False
      then have "x div 2 ^ k \<le> 0" by (simp add: div_nonpos_pos_le0)
      with that(4) show ?thesis by linarith
    qed
    ultimately show ?thesis by simp
  qed
  have "ctype_min type w \<le> 0" "0 \<le> ctype_max type w" by (auto simp: ctype_min_def ctype_max_def)
  note b = div[OF ctype_cast_range[OF assms, of type "v * 2 ^ (w - n)"] this, of "w - n"]
  show "ctype_min type w \<le> int_value type w n s v" "int_value type w n s v \<le> ctype_max type w"
    using b ctype_cast_range[OF assms, of type v] by (simp_all add: int_value_def Let_def)
qed

lemma width_cases: "getPrimitiveTypeNumBits tn = Some w \<Longrightarrow> w \<in> {8, 16, 32, 64} \<and> (tn = str ''byte'' \<longrightarrow> w = 8)"
  by (auto simp: getPrimitiveTypeNumBits_def getPrimitiveTypeSize_def primitiveTypeSize_def str_def split: if_splits)

lemma sint_in_type: "getPrimitiveTypeNumBits tn = Some w \<Longrightarrow> ctype_min tn w \<le> v \<Longrightarrow> v \<le> ctype_max tn w \<Longrightarrow> sint (word_of_int v :: u64) = v"
proof -
  assume a: "getPrimitiveTypeNumBits tn = Some w" "ctype_min tn w \<le> v" "v \<le> ctype_max tn w"
  have w: "w \<in> {8, 16, 32, 64}" "tn = str ''byte'' \<longrightarrow> w = 8" using width_cases[OF a(1)] by auto
  have "- (2 ^ 63) \<le> ctype_min tn w" "ctype_max tn w < 2 ^ 63" using w by (auto simp: ctype_min_def ctype_max_def)
  with a(2,3) have "- (2 ^ 63) \<le> v" "v < 2 ^ 63" by linarith+
  then show ?thesis by (simp add: signed_of_int signed_take_bit_int_eq_self)
qed

lemma const_value_ends:
  "ends (const_value zg type numbits s tok) (\<lambda>(valstr, v, errno). isFixedPoint type \<longrightarrow> (\<exists>w x. getPrimitiveTypeNumBits type = Some w \<and> v = V_Int x
     \<and> ctype_min type w \<le> sint x \<and> sint x \<le> ctype_max type w))"
proof (cases "isFixedPoint type")
  case True
  show ?thesis
  proof (cases "getPrimitiveTypeNumBits type")
    case None
    with True show ?thesis by (simp add: const_value_def int_case_def)
  next
    case (Some w)
    have "0 < w" using width_cases[OF Some] by auto
    note r = int_value_range[OF this, of type]
    have "sint (word_of_int (int_value type w n s v) :: u64) = int_value type w n s v" for n s v by (rule sint_in_type[OF Some r])
    with True Some r show ?thesis by (simp add: const_value_def int_case_def Let_def split_beta)
  qed
next
  case False
  then show ?thesis by (simp add: const_value_def flt_case_def Let_def split_beta)
qed

section \<open>The parser ends\<close>

text \<open>A bound on the potential, and rules for the calls that read tokens.\<close>

definition budget :: "nat \<Rightarrow> tokenize_t \<Rightarrow> bool" where
  "budget n t \<longleftrightarrow> tk_inv t \<and> potential t \<le> n"

lemma budget_fwd: "budget n t \<Longrightarrow> fwd t u \<Longrightarrow> budget n u"
  by (simp add: budget_def fwd_def)

lemma budget_inv: "budget n t \<Longrightarrow> tk_inv t"
  by (simp add: budget_def)

lemma budget_less: "budget n t \<Longrightarrow> fwd t u \<Longrightarrow> potential u < potential t \<Longrightarrow> 0 < n \<and> budget (n - 1) u"
  by (auto simp: budget_def fwd_def)

lemma budget_mono: "budget n t \<Longrightarrow> n \<le> m \<Longrightarrow> budget m t"
  by (simp add: budget_def)

lemma ends_if: "ends (if b then m else k) P \<longleftrightarrow> (b \<longrightarrow> ends m P) \<and> (\<not> b \<longrightarrow> ends k P)"
  by simp

lemma skip_bind:
  assumes "budget n t" "\<And>u. budget n u \<Longrightarrow> ends (f u) P"
  shows "ends (rbind (skip_comments t) f) P"
  by (rule ends_bindI[OF skip_comments_ends[OF budget_inv[OF assms(1)]]]) (use assms budget_fwd in blast)

lemma comment_bind:
  assumes "budget n t" "\<And>c u. budget n u \<Longrightarrow> ends (f (zg\<lparr>zg_comment := c\<rparr>, u)) P"
  shows "ends (rbind (parseTryConsumeComment zg t) f) P"
  by (rule ends_bindI[OF parseTryConsumeComment_ends[OF budget_inv[OF assms(1)]]]) (use assms budget_fwd in blast)

lemma next_bind:
  assumes "budget n t" "\<And>u. budget n u \<Longrightarrow> plain (token_str u) \<longrightarrow> 0 < n \<and> budget (n - 1) u \<Longrightarrow> ends (f u) P"
  shows "ends (rbind (tokenizeNextOrFail t) f) P"
proof (rule ends_bindI[OF next_or_fail_ends[OF budget_inv[OF assms(1)]]])
  fix u assume u: "fwd t u \<and> (plain (token_str u) \<longrightarrow> potential u < potential t)"
  then show "ends (f u) P" using budget_fwd[OF assms(1)] budget_less[OF assms(1)] by (intro assms(2)) auto
qed

lemma try_bind:
  assumes "budget n t" "\<And>b u. budget n u \<Longrightarrow> b \<and> plain tok \<longrightarrow> 0 < n \<and> budget (n - 1) u \<Longrightarrow> ends (f (b, u)) P"
  shows "ends (rbind (parseTryConsume t tok) f) P"
proof (rule ends_bindI[OF parseTryConsume_ends[OF budget_inv[OF assms(1)]]], clarify)
  fix b u assume "fwd t u" "b \<and> plain tok \<longrightarrow> potential u < potential t"
  then show "ends (f (b, u)) P" using budget_fwd[OF assms(1)] budget_less[OF assms(1)] by (intro assms(2)) auto
qed

lemma require_bind:
  assumes "budget n t" "\<And>u. budget n u \<Longrightarrow> ends (f u) P"
  shows "ends (rbind (parseRequire t tok) f) P"
  by (rule ends_bindI[OF parseRequire_ends[OF budget_inv[OF assms(1)]]]) (use assms budget_fwd in blast)

text \<open>The struct in work, its context and the input after a step.\<close>

definition parsed :: "nat \<Rightarrow> ZCMGen \<Rightarrow> ZCMStruct \<Rightarrow> ZCMGen \<times> ZCMStruct \<times> tokenize_t \<Rightarrow> bool" where
  "parsed n zg zs = (\<lambda>(zg', zs', t'). budget n t' \<and> wf_body zs' \<and> structname zs' = structname zs \<and> structs zg' = structs zg)"

lemma parsed_mono: "parsed m zg' zs' r \<Longrightarrow> m \<le> n \<Longrightarrow> structname zs' = structname zs \<Longrightarrow> structs zg' = structs zg \<Longrightarrow> parsed n zg zs r"
  by (auto simp: parsed_def intro: budget_mono)

lemma const_loop_ends:
  assumes "budget n t" "wf_body zs" "isLegalConstType type"
  shows "ends (const_loop type numbits s zg zs t) (parsed n zg zs)"
  using assms
proof (induction n arbitrary: zg zs t rule: less_induct)
  case (less n)
  have again: "ends (const_loop type numbits s zg' zs' u) (parsed n zg zs)"
    if "0 < n" "budget (n - 1) u" "wf_body zs'" "structname zs' = structname zs" "structs zg' = structs zg" for zg' zs' u
    by (rule ends_mono[OF less.IH[OF _ that(2,3) less.prems(3)]]) (use that parsed_mono in auto)
  show ?case
  proof (subst const_loop.simps, rule skip_bind[OF less.prems(1)], rule next_bind, assumption, unfold Let_def)
    fix u assume "budget n u" and strict: "plain (token_str u) \<longrightarrow> 0 < n \<and> budget (n - 1) u"
    let ?nm = "token_str u"
    show "ends (if \<not> isLegalMemberName ?nm then stop Parse_Error else if findMember zs ?nm \<noteq> None then stop Semantic_Error
      else if findConst zs ?nm \<noteq> None then stop Semantic_Error
      else rbind (parseRequire u (str ''='')) (\<lambda>t. rbind (skip_comments t) (\<lambda>t. rbind (tokenizeNextOrFail t) (\<lambda>t.
        rbind (const_value zg type numbits s (token_str t)) (\<lambda>(valstr, v, errno).
          rbind (parseTryConsume t (str '','')) (\<lambda>(more, t).
            if more then const_loop type numbits s (zg\<lparr>zg_comment := [], errno_ERANGE := errno\<rparr>)
              (zs\<lparr>constants := constants zs @ [\<lparr>c_type = type, c_membername = ?nm, c_val = v, c_valstr = valstr, c_numbits = of_nat numbits, c_signExtend = s, c_comment = zg_comment zg\<rparr>]\<rparr>) t
            else rbind (parseRequire t (str '';'')) (\<lambda>t. ok (zg\<lparr>zg_comment := [], errno_ERANGE := errno\<rparr>,
              zs\<lparr>constants := constants zs @ [\<lparr>c_type = type, c_membername = ?nm, c_val = v, c_valstr = valstr, c_numbits = of_nat numbits, c_signExtend = s, c_comment = zg_comment zg\<rparr>]\<rparr>, t)))))))) (parsed n zg zs)"
    proof (cases "isLegalMemberName ?nm \<and> findMember zs ?nm = None \<and> findConst zs ?nm = None")
      case True
      then have n: "0 < n" "budget (n - 1) u" using strict by simp_all
      let ?zg = "\<lambda>errno. zg\<lparr>zg_comment := [], errno_ERANGE := errno\<rparr>"
      let ?zs = "\<lambda>valstr v. zs\<lparr>constants := constants zs @ [\<lparr>c_type = type, c_membername = ?nm, c_val = v, c_valstr = valstr, c_numbits = of_nat numbits, c_signExtend = s, c_comment = zg_comment zg\<rparr>]\<rparr>"
      have one: "ends (rbind (parseTryConsume t (str '','')) (\<lambda>(more, t). if more then const_loop type numbits s (?zg errno) (?zs valstr v) t
          else rbind (parseRequire t (str '';'')) (\<lambda>t. ok (?zg errno, ?zs valstr v, t)))) (parsed n zg zs)"
        if "budget (n - 1) t" "isFixedPoint type \<longrightarrow> (\<exists>w x. getPrimitiveTypeNumBits type = Some w \<and> v = V_Int x
          \<and> ctype_min type w \<le> sint x \<and> sint x \<le> ctype_max type w)" for t valstr v errno
      proof (rule try_bind[OF that(1)], clarify)
        fix more w assume w: "budget (n - 1) w"
        have wf: "wf_body (?zs valstr v)" using True that(2) less.prems(2,3) by (intro wf_add_const) (simp_all add: wf_const_def)
        have "ends (rbind (parseRequire w (str '';'')) (\<lambda>t. ok (?zg errno, ?zs valstr v, t))) (parsed n zg zs)"
          by (rule require_bind[OF w]) (use wf budget_mono in \<open>auto simp: parsed_def\<close>)
        with again[OF n(1) w wf] show "ends (if more then const_loop type numbits s (?zg errno) (?zs valstr v) w
          else rbind (parseRequire w (str '';'')) (\<lambda>t. ok (?zg errno, ?zs valstr v, t))) (parsed n zg zs)" by simp
      qed
      show ?thesis using True
        by (simp del: ends_rbind)
          (rule require_bind[OF n(2)], rule skip_bind, assumption, rule next_bind, assumption, rule ends_bindI[OF const_value_ends], clarify, rule one)
    qed auto
  qed
qed

lemma const_bits_ends: "budget n t \<Longrightarrow> ends (const_bits type t) (\<lambda>(numbits, s, t'). budget n t')"
  unfolding const_bits_def
  by (erule try_bind) (auto simp del: ends_rbind simp: Let_def ends_if split: option.splits intro!: next_bind)

lemma parseConst_ends:
  assumes "budget n t" "wf_body zs"
  shows "ends (parseConst zg zs t) (parsed n zg zs)"
  unfolding parseConst_def Let_def
proof (rule skip_bind[OF assms(1)], rule next_bind, assumption)
  fix u assume u: "budget n u"
  have "ends (rbind (const_bits (token_str u) u) (\<lambda>(numbits, s, t). const_loop (token_str u) numbits s zg zs t)) (parsed n zg zs)" if "isLegalConstType (token_str u)"
    by (rule ends_bindI[OF const_bits_ends[OF u]]) (use const_loop_ends assms(2) that in auto)
  then show "ends (if \<not> isLegalConstType (token_str u) then stop Parse_Error
      else rbind (const_bits (token_str u) u) (\<lambda>(numbits, s, t). const_loop (token_str u) numbits s zg zs t)) (parsed n zg zs)" by simp
qed

lemma mkTypename_bits [simp]: "tn_numbits (mkTypename g nm b) = 0"
  by (simp add: mkTypename_def Let_def split: prod.splits)

lemma check_bits_ends: "isFixedPoint (fullname zt) \<Longrightarrow> ends (check_bits zt bits) wf_type"
  by (auto simp: check_bits_def Let_def wf_type_def split: option.splits)

lemma member_bits_ends: "budget n t \<Longrightarrow> tn_numbits zt = 0 \<Longrightarrow> ends (member_bits zt t) (\<lambda>(zt', t'). budget n t' \<and> wf_type zt')"
  unfolding member_bits_def
proof (erule try_bind)
  fix b u assume z: "tn_numbits zt = 0" and u: "budget n u"
  have "ends (rbind (tokenizeNextOrFail u) (\<lambda>t. rbind (check_bits zt (strtol_int 10 (token_str t))) (\<lambda>zt. ok (zt, t)))) (\<lambda>(zt', t'). budget n t' \<and> wf_type zt')"
    if "isFixedPoint (fullname zt)"
    by (rule next_bind[OF u]) (use that in \<open>auto intro: ends_mono[OF check_bits_ends]\<close>)
  with z u show "ends (case (b, u) of (bitfield, t) \<Rightarrow> if \<not> bitfield then ok (zt, t) else if \<not> isFixedPoint (fullname zt) then stop Semantic_Error
       else rbind (tokenizeNextOrFail t) (\<lambda>t. rbind (check_bits zt (strtol_int 10 (token_str t))) (\<lambda>zt. ok (zt, t)))) (\<lambda>(zt', t'). budget n t' \<and> wf_type zt')"
    by (simp add: wf_type_def)
qed

lemma parse_dim_ends: "ends (parse_dim zs tok) (wf_dim (constants zs) (members zs))"
  by (auto simp: parse_dim_def wf_dim_def ends_if findConst_def findMember_def split: option.splits dest!: find_Some_in)

lemma dims_loop_ends:
  "budget n t \<Longrightarrow> \<forall>d \<in> set ds. wf_dim (constants zs) (members zs) d
    \<Longrightarrow> ends (dims_loop zs ds t) (\<lambda>(ds', t'). budget n t' \<and> (\<forall>d \<in> set ds'. wf_dim (constants zs) (members zs) d))"
proof (induction n arbitrary: ds t rule: less_induct)
  case (less n)
  let ?P = "\<lambda>(ds', t'). budget n t' \<and> (\<forall>d \<in> set ds'. wf_dim (constants zs) (members zs) d)"
  have more: "ends (rbind (skip_comments u) (\<lambda>t. rbind (tokenizeNextOrFail t) (\<lambda>t. rbind (parse_dim zs (token_str t)) (\<lambda>d.
      rbind (parseRequire t (str '']'')) (\<lambda>t. dims_loop zs (ds @ [d]) t))))) ?P" if "0 < n" "budget (n - 1) u" for u
  proof (rule skip_bind[OF that(2)], rule next_bind, assumption, rule ends_bindI[OF parse_dim_ends], rule require_bind, assumption)
    fix v d w assume "budget (n - 1) v" "wf_dim (constants zs) (members zs) d" "budget (n - 1) w"
    then show "ends (dims_loop zs (ds @ [d]) w) ?P"
      using that(1) less.prems(2) by (intro ends_mono[OF less.IH[of "n - 1"]]) (auto intro: budget_mono)
  qed
  show ?case
    by (subst dims_loop.simps, rule try_bind[OF less.prems(1)]) (use less.prems(2) more in \<open>auto simp: ends_if simp del: ends_rbind\<close>)
qed

lemma member_loop_ends:
  assumes "budget n t" "wf_body zs" "wf_type zt"
  shows "ends (member_loop zt zg zs t) (parsed n zg zs)"
  using assms
proof (induction n arbitrary: zg zs t rule: less_induct)
  case (less n)
  have again: "ends (member_loop zt zg' zs' u) (parsed n zg zs)"
    if "0 < n" "budget (n - 1) u" "wf_body zs'" "structname zs' = structname zs" "structs zg' = structs zg" for zg' zs' u
    by (rule ends_mono[OF less.IH[OF _ that(2,3) less.prems(3)]]) (use that parsed_mono in auto)
  show ?case
  proof (subst member_loop.simps, rule skip_bind[OF less.prems(1)], rule next_bind, assumption, unfold Let_def)
    fix u assume "budget n u" and strict: "plain (token_str u) \<longrightarrow> 0 < n \<and> budget (n - 1) u"
    let ?nm = "token_str u" and ?zg = "zg\<lparr>zg_comment := []\<rparr>"
    let ?zs = "\<lambda>ds. zs\<lparr>members := members zs @ [\<lparr>m_type = zt, m_membername = ?nm, m_dimensions = ds, m_comment = zg_comment zg\<rparr>]\<rparr>"
    show "ends (if \<not> isLegalMemberName ?nm then stop Parse_Error else if findMember zs ?nm \<noteq> None then stop Semantic_Error
      else if findConst zs ?nm \<noteq> None then stop Semantic_Error
      else rbind (dims_loop zs [] u) (\<lambda>(ds, t). rbind (parseTryConsume t (str '','')) (\<lambda>(more, t).
        if more then member_loop zt ?zg (?zs ds) t else rbind (parseRequire t (str '';'')) (\<lambda>t. ok (?zg, ?zs ds, t))))) (parsed n zg zs)"
    proof (cases "isLegalMemberName ?nm \<and> findMember zs ?nm = None \<and> findConst zs ?nm = None")
      case True
      then have n: "0 < n" "budget (n - 1) u" using strict by simp_all
      have one: "ends (rbind (parseTryConsume t (str '','')) (\<lambda>(more, t). if more then member_loop zt ?zg (?zs ds) t
          else rbind (parseRequire t (str '';'')) (\<lambda>t. ok (?zg, ?zs ds, t)))) (parsed n zg zs)"
        if "budget (n - 1) t" "\<forall>d \<in> set ds. wf_dim (constants zs) (members zs) d" for t ds
      proof (rule try_bind[OF that(1)], clarify)
        fix more w assume w: "budget (n - 1) w"
        have wf: "wf_body (?zs ds)" using True that(2) less.prems(2,3) by (intro wf_add_member) (simp_all add: wf_member_def)
        have "ends (rbind (parseRequire w (str '';'')) (\<lambda>t. ok (?zg, ?zs ds, t))) (parsed n zg zs)"
          by (rule require_bind[OF w]) (use wf budget_mono in \<open>auto simp: parsed_def\<close>)
        with again[OF n(1) w wf] show "ends (if more then member_loop zt ?zg (?zs ds) w
          else rbind (parseRequire w (str '';'')) (\<lambda>t. ok (?zg, ?zs ds, t))) (parsed n zg zs)" by simp
      qed
      show ?thesis using True by (simp del: ends_rbind) (rule ends_bindI[OF dims_loop_ends[OF n(2)]], use one in auto)
    qed auto
  qed
qed

text \<open>A member reads at least its type, and so makes progress.\<close>

lemma parseMember_ends:
  assumes "budget n t" "wf_body zs"
  shows "ends (parseMember zg zs t) (\<lambda>r. 0 < n \<and> parsed (n - 1) zg zs r)"
  unfolding parseMember_def Let_def
proof (rule try_bind[OF assms(1)], clarify)
  fix b u assume u: "budget n u"
  let ?P = "\<lambda>r. 0 < n \<and> parsed (n - 1) zg zs r"
  have decl: "ends (rbind (member_bits (mkTypename (gopt zg) (member_type zg zs (token_str w)) True) w) (\<lambda>(zt, t). member_loop zt zg zs t)) ?P"
    if "0 < n" "budget (n - 1) w" for w
    by (rule ends_bindI[OF member_bits_ends[OF that(2)]]) (use that(1) member_loop_ends assms(2) in \<open>auto intro: ends_mono\<close>)
  have rest: "ends (rbind (parseTryConsume u (str ''const'')) (\<lambda>(is_const, t). if is_const then parseConst zg zs t
      else rbind (skip_comments t) (\<lambda>t. rbind (tokenizeNextOrFail t) (\<lambda>t. if \<not> isLegalTypeName (token_str t) then stop Parse_Error
        else if token_str t = str ''int'' then stop Semantic_Error
        else rbind (member_bits (mkTypename (gopt zg) (member_type zg zs (token_str t)) True) t) (\<lambda>(zt, t). member_loop zt zg zs t))))) ?P"
  proof (rule try_bind[OF u], clarify)
    fix is_const v assume v: "budget n v" "is_const \<and> plain (str ''const'') \<longrightarrow> 0 < n \<and> budget (n - 1) v"
    have "ends (parseConst zg zs v) ?P" if is_const
      using that v(2) by (intro ends_mono[OF parseConst_ends[OF _ assms(2)]]) auto
    moreover have "ends (rbind (skip_comments v) (\<lambda>t. rbind (tokenizeNextOrFail t) (\<lambda>t. if \<not> isLegalTypeName (token_str t) then stop Parse_Error
        else if token_str t = str ''int'' then stop Semantic_Error
        else rbind (member_bits (mkTypename (gopt zg) (member_type zg zs (token_str t)) True) t) (\<lambda>(zt, t). member_loop zt zg zs t)))) ?P"
      by (rule skip_bind[OF v(1)], rule next_bind, assumption) (use decl in \<open>auto simp: ends_if simp del: ends_rbind\<close>)
    ultimately show "ends (if is_const then parseConst zg zs v else rbind (skip_comments v) (\<lambda>t. rbind (tokenizeNextOrFail t) (\<lambda>t.
        if \<not> isLegalTypeName (token_str t) then stop Parse_Error else if token_str t = str ''int'' then stop Semantic_Error
        else rbind (member_bits (mkTypename (gopt zg) (member_type zg zs (token_str t)) True) t) (\<lambda>(zt, t). member_loop zt zg zs t)))) ?P" by simp
  qed
  then show "ends (if b then stop Parse_Error else rbind (parseTryConsume u (str ''const'')) (\<lambda>(is_const, t). if is_const then parseConst zg zs t
      else rbind (skip_comments t) (\<lambda>t. rbind (tokenizeNextOrFail t) (\<lambda>t. if \<not> isLegalTypeName (token_str t) then stop Parse_Error
        else if token_str t = str ''int'' then stop Semantic_Error
        else rbind (member_bits (mkTypename (gopt zg) (member_type zg zs (token_str t)) True) t) (\<lambda>(zt, t). member_loop zt zg zs t))))) ?P" by simp
qed

lemma struct_loop_ends:
  assumes "budget n t" "wf_body zs"
  shows "ends (struct_loop zg zs t) (parsed n zg zs)"
  using assms
proof (induction n arbitrary: zg zs t rule: less_induct)
  case (less n)
  have member: "ends (rbind (parseMember (zg\<lparr>zg_comment := c\<rparr>) zs u) (\<lambda>(zg, zs, t). struct_loop zg zs t)) (parsed n zg zs)" if "budget n u" for c u
  proof (rule ends_bindI[OF parseMember_ends[OF that less.prems(2)]], clarify)
    fix zg' zs' v assume n: "0 < n" and p: "parsed (n - 1) (zg\<lparr>zg_comment := c\<rparr>) zs (zg', zs', v)"
    then have "ends (struct_loop zg' zs' v) (parsed (n - 1) zg' zs')" by (intro less.IH) (auto simp: parsed_def)
    then show "ends (struct_loop zg' zs' v) (parsed n zg zs)" by (rule ends_mono) (use p n parsed_mono in \<open>auto simp: parsed_def intro: budget_mono\<close>)
  qed
  have fin: "parsed n zg zs (zg\<lparr>zg_comment := c\<rparr>, zs, u)" "parsed n zg zs (zg, zs, u)" if "budget n u" for c u
    using that less.prems(2) by (simp_all add: parsed_def)
  have body: "ends (rbind (parseTryConsumeComment zg u) (\<lambda>(zg, t). rbind (parseTryConsume t (str ''}'')) (\<lambda>(close, t).
      if close then ok (zg, zs, t) else rbind (parseMember zg zs t) (\<lambda>(zg, zs, t). struct_loop zg zs t)))) (parsed n zg zs)" if "budget n u" for u
    by (rule comment_bind[OF that], clarify, rule try_bind, assumption) (use fin member in \<open>auto simp: ends_if simp del: ends_rbind\<close>)
  show ?case
    by (subst struct_loop.simps, rule try_bind[OF less.prems(1)]) (use fin body in \<open>auto simp: ends_if simp del: ends_rbind\<close>)
qed

lemma computeHash_hash [simp]: "computeHash a b (zs\<lparr>hash := h\<rparr>) = computeHash a b zs" "wf_body (zs\<lparr>hash := h\<rparr>) = wf_body zs"
  by (simp_all add: computeHash_def wf_body_def)

lemma parseStruct_ends:
  assumes "budget n t"
  shows "ends (parseStruct hashing zg file pkg t) (\<lambda>(zg', zs', t'). budget n t' \<and> wf_struct hashing zs' \<and> structs zg' = structs zg)"
    (is "ends _ ?P")
  unfolding parseStruct_def Let_def
proof (rule skip_bind[OF assms], rule next_bind, assumption)
  fix u assume u: "budget n u"
  let ?zg = "zg\<lparr>zg_comment := []\<rparr>"
  let ?zs = "\<lparr>structname = mkTypename (gopt zg) (if pkg = [] then token_str u else pkg @ [46] @ token_str u) False, members = [], constants = [],
    zcmfile = file, hash = 0, zs_comment = zg_comment zg\<rparr>"
  have wf: "wf_body ?zs" by (simp add: wf_body_def)
  show "ends (rbind (parseRequire u (str ''{'')) (\<lambda>t. rbind (struct_loop ?zg ?zs t) (\<lambda>(zg, zs, t).
      ok (zg, zs\<lparr>hash := computeHash (fst hashing) (snd hashing) zs\<rparr>, t)))) ?P"
    by (rule require_bind[OF u], rule ends_bindI[OF struct_loop_ends[OF _ wf]], assumption) (auto simp: parsed_def wf_struct_def)
qed

lemma wf_gen_add:
  assumes "wf_gen hashing zg" "structs zg' = structs zg" "wf_struct hashing zs" "findStruct zg' (package (structname zs)) (shortname (structname zs)) = None"
  shows "wf_gen hashing (zg'\<lparr>structs := structs zg' @ [zs], zg_package := []\<rparr>)"
  using assms by (auto simp: wf_gen_def findStruct_def find_None_notin)

text \<open>An entity that is not the end of the file makes progress.\<close>

lemma parseEntity_ends:
  assumes "budget n t" "wf_gen hashing zg"
  shows "ends (parseEntity hashing zg file t) (\<lambda>(res, zg', t'). wf_gen hashing zg' \<and> res \<in> {EOF, 0, 1} \<and> (res = 0 \<longrightarrow> 0 < n \<and> budget (n - 1) t'))"
    (is "ends _ ?P")
  unfolding parseEntity_def Let_def
proof (rule comment_bind[OF assms(1)], clarify)
  fix c u assume u: "budget n u"
  let ?zg = "zg\<lparr>zg_comment := c\<rparr>"
  have pack: "ends (rbind (parseTryConsumeComment ?zg v) (\<lambda>(zg, t). rbind (tokenizeNextOrFail t) (\<lambda>t.
      rbind (parseRequire t (str '';'')) (\<lambda>u. ok (0, zg\<lparr>zg_package := token_str t\<rparr>, u))))) ?P" if "0 < n" "budget (n - 1) v" for v
    by (rule comment_bind[OF that(2)], clarify, rule next_bind, assumption, rule require_bind, assumption) (use that(1) assms(2) in \<open>auto simp: wf_gen_def\<close>)
  have struct: "ends (rbind (parseStruct hashing ?zg file (zg_package ?zg) v) (\<lambda>(zg, zs, t).
      if findStruct zg (package (structname zs)) (shortname (structname zs)) \<noteq> None then ok (1, zg, t)
      else ok (0, zg\<lparr>structs := structs zg @ [zs], zg_package := []\<rparr>, t))) ?P" if "0 < n" "budget (n - 1) v" for v
  proof (rule ends_bindI[OF parseStruct_ends[OF that(2)]], clarify)
    fix zg' :: ZCMGen and zs w assume w: "budget (n - 1) w" "wf_struct hashing zs" "structs zg' = structs ?zg"
    have wf: "wf_gen hashing zg'" using w(3) assms(2) by (simp add: wf_gen_def)
    from wf wf_gen_add[OF wf refl w(2)] w(1) that(1) show "ends (if findStruct zg' (package (structname zs)) (shortname (structname zs)) \<noteq> None then ok (1, zg', w)
      else ok (0, zg'\<lparr>structs := structs zg' @ [zs], zg_package := []\<rparr>, w)) ?P" by simp
  qed
  show "ends (rbind (tokenize_next u) (\<lambda>(res, t). if res = EOF then ok (EOF, ?zg, t) else if token_str t = str ''package'' then
      rbind (parseTryConsumeComment ?zg t) (\<lambda>(zg, t). rbind (tokenizeNextOrFail t) (\<lambda>t. rbind (parseRequire t (str '';'')) (\<lambda>u. ok (0, zg\<lparr>zg_package := token_str t\<rparr>, u))))
      else if token_str t \<noteq> str ''struct'' then stop Parse_Error
      else rbind (parseStruct hashing ?zg file (zg_package ?zg) t) (\<lambda>(zg, zs, t).
        if findStruct zg (package (structname zs)) (shortname (structname zs)) \<noteq> None then ok (1, zg, t)
        else ok (0, zg\<lparr>structs := structs zg @ [zs], zg_package := []\<rparr>, t)))) ?P"
  proof (rule ends_bindI[OF tokenize_next_ends[OF budget_inv[OF u]]], clarify)
    fix res v assume v: "tk_inv v" "potential v \<le> potential u" "potential v < potential u \<or> res = EOF \<or> opish v"
    have b: "0 < n" "budget (n - 1) v" if "res \<noteq> EOF" "plain (token_str v)" using that v u by (auto simp: budget_def opish_plain)
    show "ends (if res = EOF then ok (EOF, ?zg, v) else if token_str v = str ''package'' then
      rbind (parseTryConsumeComment ?zg v) (\<lambda>(zg, t). rbind (tokenizeNextOrFail t) (\<lambda>t. rbind (parseRequire t (str '';'')) (\<lambda>u. ok (0, zg\<lparr>zg_package := token_str t\<rparr>, u))))
      else if token_str v \<noteq> str ''struct'' then stop Parse_Error
      else rbind (parseStruct hashing ?zg file (zg_package ?zg) v) (\<lambda>(zg, zs, t).
        if findStruct zg (package (structname zs)) (shortname (structname zs)) \<noteq> None then ok (1, zg, t)
        else ok (0, zg\<lparr>structs := structs zg @ [zs], zg_package := []\<rparr>, t))) ?P"
      using pack struct b assms(2) by (auto simp: ends_if wf_gen_def simp del: ends_rbind)
  qed
qed

lemma entity_loop_ends:
  "budget n t \<Longrightarrow> wf_gen hashing zg \<Longrightarrow> ends (entity_loop hashing zg file t) (\<lambda>(res, zg', t'). wf_gen hashing zg' \<and> res \<in> {EOF, 1})"
proof (induction n arbitrary: zg t rule: less_induct)
  case (less n)
  show ?case
    by (subst entity_loop.simps, rule ends_bindI[OF parseEntity_ends[OF less.prems]]) (use less.IH[of "n - 1"] in \<open>auto simp: ends_if\<close>)
qed

section \<open>Properties\<close>

text \<open>
  C12. The type generator's parser ends on every file, whatever bytes it holds, and everything that it accepts is well formed: in every struct the names of
  members and constants are distinct and legal, every array dimension is a positive number, the value of an integer constant or the name of
  a scalar integer member declared before, every bit field fits its type, every integer constant is in the range of its type, and the hash is that of the struct;
  no two structs have the same name. (An access outside of a buffer, or an error, ends the program and is not a result.)
\<close>

theorem handleFile_wellformed:
  assumes "wf_gen hashing zg" "\<not> opt_tokenize (gopt zg)"
  shows "ends (handleFile hashing junk zg path file) (\<lambda>(res, zg'). wf_gen hashing zg' \<and> res \<in> {-1, 0, 1})"
proof (cases "file")
  case None
  with assms show ?thesis by (simp add: handleFile_def tokenize_create_def)
next
  case (Some f)
  then obtain t where t: "tokenize_create file junk = Some t" "tk_inv t" by (auto simp: tokenize_create_def tk_inv_def MAX_LINE_LEN_def)
  have "budget (potential t) t" using t(2) by (simp add: budget_def)
  note e = entity_loop_ends[OF this assms(1)]
  have "ends (rbind (entity_loop hashing zg path t) (\<lambda>(res, zg, _). ok (if res = EOF then 0 else res, zg))) (\<lambda>(res, zg'). wf_gen hashing zg' \<and> res \<in> {-1, 0, 1})"
    by (rule ends_bindI[OF e]) auto
  with t(1) assms(2) show ?thesis by (simp add: handleFile_def)
qed

definition sample_gen :: ZCMGen where
  "sample_gen = \<lparr>gopt = \<lparr>package_prefix = [], opt_tokenize = False, strtod = (\<lambda>s. (length s, Fin 0))\<rparr>, structs = [], zg_package = [], zg_comment = [], errno_ERANGE = False\<rparr>"

theorem handleFile_wellformed_witness:
  "ends (handleFile (False, True) 0 sample_gen [] (Some (str ''struct s { int8_t x; }''))) (\<lambda>(res, zg'). wf_gen (False, True) zg' \<and> res \<in> {-1, 0, 1})"
  by (rule handleFile_wellformed) (simp_all add: sample_gen_def wf_gen_def)

end
