(* ===== verification/Tokenize_Stream.thy ===== *)
theory Tokenize_Stream
  imports Tokenize
begin

text \<open>
  The tokenizer on text: as long as the file holds only ASCII characters the line buffer does not show, and the tokens of words separated by
  spaces are the words.
\<close>

section \<open>Runs that return\<close>

definition gives :: "'a run \<Rightarrow> ('a \<Rightarrow> bool) \<Rightarrow> bool" where
  "gives m P \<longleftrightarrow> (\<exists>x. m = ok x \<and> P x)"

lemma gives_ok [simp]: "gives (Some (Inr x)) P = P x"
  by (simp add: gives_def)

lemma gives_bindI: "gives m Q \<Longrightarrow> (\<And>x. Q x \<Longrightarrow> gives (f x) P) \<Longrightarrow> gives (rbind m f) P"
  by (auto simp: gives_def)

lemma gives_mono: "gives m P \<Longrightarrow> (\<And>x. P x \<Longrightarrow> Q x) \<Longrightarrow> gives m Q"
  by (auto simp: gives_def)

section \<open>The characters that are left\<close>

definition ascii :: "u8 \<Rightarrow> bool" where
  "ascii c \<longleftrightarrow> 0 < c \<and> c < 128"

definition stream :: "tokenize_t \<Rightarrow> u8 list" where
  "stream t = (if unget_char t \<ge> 0 then [word_of_int (unget_char t)] else []) @ drop (buffer_column t) (take (buffer_len t) (tk_buffer t)) @ tk_f t"

definition reads :: "tokenize_t \<Rightarrow> u8 list \<Rightarrow> bool" where
  "reads t s \<longleftrightarrow> length (tk_buffer t) = 1024 \<and> buffer_len t < 1024 \<and> buffer_column t \<le> buffer_len t \<and> 1024 \<le> length (tk_token t)
     \<and> unget_char t < 128 \<and> list_all ascii (stream t) \<and> list_all ascii (tk_f t) \<and> s = stream t"

lemma ascii_int:
  assumes "ascii c"
  shows "sint c = uint c" "0 < uint c" "uint c < 128" "word_of_int (uint c) = c"
proof -
  show b: "0 < uint c" "uint c < 128" using assms by (auto simp: ascii_def word_less_alt)
  have "sint c = signed_take_bit 7 (uint c)" by (simp add: sint_uint)
  also have "\<dots> = uint c" using b by (intro signed_take_bit_int_eq_self) simp_all
  finally show "sint c = uint c" .
qed simp

lemma fgets_text:
  assumes "f \<noteq> []" "list_all ascii f" "length buf = 1024"
  obtains s buf' where "fgets MAX_LINE_LEN buf f = Some (buf', drop (length s) f)" "s = take (length s) f" "s \<noteq> []" "length s < 1024"
    "length buf' = 1024" "length (takeWhile (\<lambda>b. b \<noteq> 0) buf') = length s" "take (length s) buf' = s"
proof -
  let ?l = "takeWhile (\<lambda>b. b \<noteq> 10) f"
  define s where "s = take 1023 (if length ?l < length f then ?l @ [10] else ?l)"
  have "?l @ [10] = take (Suc (length ?l)) f" if "length ?l < length f"
    using that nth_length_takeWhile[OF that] by (simp add: take_Suc_conv_app_nth takeWhile_eq_take[symmetric])
  moreover have "?l = f" if "\<not> length ?l < length f"
    by (rule trans[OF takeWhile_eq_take]) (use that in \<open>simp add: not_less\<close>)
  ultimately have "s = take (min 1023 (Suc (length ?l))) f \<or> s = take 1023 f"
    unfolding s_def by (cases "length ?l < length f") (simp_all only: if_True if_False take_take simp_thms)
  then obtain k where "s = take k f" by blast
  then have n: "s = take (length s) f" by (cases "k \<le> length f") simp_all
  have ne: "s \<noteq> []" using assms(1) by (cases f) (auto simp: s_def)
  have len: "length s < 1024" by (simp add: s_def)
  have zero: "takeWhile (\<lambda>b. b \<noteq> 0) s = s" using assms(2) n in_set_takeD[of 0 "length s" f] by (auto simp: takeWhile_eq_all_conv list_all_iff ascii_def)
  have f: "fgets MAX_LINE_LEN buf f = Some (s @ [0] @ drop (length s + 1) buf, drop (length s) f)"
    using assms(1) by (simp add: fgets_def s_def MAX_LINE_LEN_def Let_def)
  have "takeWhile (\<lambda>b. b \<noteq> 0) (s @ [0] @ drop (length s + 1) buf) = s"
    using zero by (subst takeWhile_append2) (auto simp: takeWhile_eq_all_conv)
  then show ?thesis using that[OF f] n ne len assms(3) by simp
qed

text \<open>Reading a character.\<close>

abbreviation same_tok :: "tokenize_t \<Rightarrow> tokenize_t \<Rightarrow> bool" where
  "same_tok t t' \<equiv> tk_token t' = tk_token t \<and> token_type t' = token_type t \<and> hasnext t' = hasnext t"

lemma take_char_reads:
  assumes "reads t s" "unget_char t < 0" "buffer_column t < buffer_len t"
  shows "gives (take_char t) (\<lambda>(c, t'). \<exists>b. s = b # stream t' \<and> ascii b \<and> c = uint b \<and> current_char t' = c \<and> unget_char t' < 0 \<and> same_tok t t' \<and> reads t' (stream t'))"
proof -
  let ?b = "tk_buffer t ! buffer_column t"
  let ?t = "t\<lparr>current_char := sint ?b, current_line := buffer_line t, current_column := int (buffer_column t), buffer_column := buffer_column t + 1\<rparr>"
  have "drop (buffer_column t) (take (buffer_len t) (tk_buffer t)) = ?b # drop (buffer_column t + 1) (take (buffer_len t) (tk_buffer t))"
    using assms by (subst Cons_nth_drop_Suc[symmetric]) (auto simp: reads_def)
  then have s: "stream t = ?b # stream ?t" using assms(2) by (simp add: stream_def)
  have a: "ascii ?b" using assms(1) s by (simp add: reads_def)
  have "take_char t = ok (sint ?b, ?t)" using assms by (simp add: take_char_def reads_def Let_def)
  moreover have "reads ?t (stream ?t)" using assms s by (simp add: reads_def)
  ultimately show ?thesis using s a ascii_int[OF a] assms by (simp add: reads_def)
qed

lemma next_char_reads:
  assumes "reads t (b # s)"
  shows "gives (tokenize_next_char t) (\<lambda>(c, t'). c = uint b \<and> ascii b \<and> current_char t' = c \<and> unget_char t' < 0 \<and> same_tok t t' \<and> reads t' s)"
proof -
  have st: "b # s = stream t" using assms by (simp add: reads_def)
  consider "unget_char t \<ge> 0" | "unget_char t < 0" "buffer_column t < buffer_len t" | "unget_char t < 0" "buffer_column t = buffer_len t"
    using assms by (fastforce simp: reads_def)
  then show ?thesis
  proof cases
    case 1
    let ?t = "t\<lparr>current_char := unget_char t, current_line := unget_line t, current_column := unget_column t, unget_char := -1\<rparr>"
    have b: "b = word_of_int (unget_char t)" "s = stream ?t" using 1 st by (simp_all add: stream_def)
    have "unget_char t = uint b" unfolding b(1) using 1 assms by (simp add: reads_def take_bit_int_eq_self uint_word_of_int_eq)
    moreover have all: "ascii b" "list_all ascii s" using assms unfolding reads_def st[symmetric] by simp_all
    moreover have "reads ?t s" using assms all(2) by (simp add: reads_def flip: b(2))
    ultimately show ?thesis using 1 by (simp add: tokenize_next_char_def)
  next
    case 2
    with gives_mono[OF take_char_reads[OF assms 2]] show ?thesis by (force simp: tokenize_next_char_def)
  next
    case 3
    then have f: "tk_f t = b # s" using st by (simp add: stream_def)
    then have ne: "tk_f t \<noteq> []" by simp
    have a: "list_all ascii (tk_f t)" "length (tk_buffer t) = 1024" using assms by (simp_all add: reads_def)
    obtain l buf where l: "fgets MAX_LINE_LEN (tk_buffer t) (tk_f t) = Some (buf, drop (length l) (tk_f t))" "l = take (length l) (tk_f t)" "l \<noteq> []" "length l < 1024"
      "length buf = 1024" "length (takeWhile (\<lambda>b. b \<noteq> 0) buf) = length l" "take (length l) buf = l"
      by (rule fgets_text[OF ne a])
    let ?t = "t\<lparr>tk_buffer := buf, tk_f := drop (length l) (tk_f t), buffer_len := length l, buffer_line := buffer_line t + 1, buffer_column := 0\<rparr>"
    have "stream ?t = tk_f t" using 3 l(2,7) by (simp add: stream_def) (metis append_take_drop_id)
    then have "reads ?t (b # s)" using assms l(4,5) f a(1) by (auto simp: reads_def list_all_iff dest: in_set_dropD)
    from take_char_reads[OF this] 3 l(1,3,6) have "gives (take_char ?t) (\<lambda>(c, t'). \<exists>b'. b # s = b' # stream t' \<and> ascii b' \<and> c = uint b' \<and> current_char t' = c \<and> unget_char t' < 0 \<and> same_tok ?t t' \<and> reads t' (stream t'))"
      by simp
    then have "gives (take_char ?t) (\<lambda>(c, t'). c = uint b \<and> ascii b \<and> current_char t' = c \<and> unget_char t' < 0 \<and> same_tok t t' \<and> reads t' s)"
      by (rule gives_mono) auto
    with 3 l(1,6) show ?thesis by (simp add: tokenize_next_char_def)
  qed
qed

lemma next_char_end: "reads t [] \<Longrightarrow> tokenize_next_char t = ok (EOF, t)"
  by (auto simp: tokenize_next_char_def reads_def stream_def fgets_def split: if_splits)

lemma ungetc_reads:
  assumes "reads t s" "unget_char t < 0" "current_char t = uint b" "ascii b"
  shows "reads (tokenize_ungetc t c) (b # s)"
  using assms ascii_int[OF assms(4)] by (auto simp: reads_def stream_def tokenize_ungetc_def)

section \<open>Tokens\<close>

lemma reads_updates [simp]:
  "reads (t\<lparr>token_type := y\<rparr>) s = reads t s" "reads (t\<lparr>hasnext := b\<rparr>) s = reads t s" "reads (t\<lparr>token_line := i\<rparr>) s = reads t s" "reads (t\<lparr>token_column := i\<rparr>) s = reads t s"
  by (simp_all add: reads_def stream_def)

lemma stream_token [simp]: "stream (t\<lparr>tk_token := x\<rparr>) = stream t"
  by (simp add: stream_def)

lemma strchr_ascii: "ascii c \<Longrightarrow> strchr s (uint c) \<longleftrightarrow> c \<in> set s"
  using ascii_int(4)[of c] by (auto simp: strchr_def ascii_def)

definition wordch :: "u8 \<Rightarrow> bool" where
  "wordch c \<longleftrightarrow> 32 < c \<and> c < 128 \<and> c \<notin> set single_char_toks \<and> c \<notin> set op_chars"

lemma wordch_ascii: "wordch c \<Longrightarrow> ascii c"
  by (auto simp: wordch_def ascii_def word_less_alt)

lemma ascii_isspace: "32 < c \<Longrightarrow> \<not> isspace (uint (c :: u8))"
  by (auto simp: isspace_def word_less_alt)

text \<open>A word, a single-character token other than a quotation mark, or operators.\<close>

definition good_tok :: "u8 list \<Rightarrow> bool" where
  "good_tok w \<longleftrightarrow> length w < 1024 \<and>
     ((\<exists>c cs. w = c # cs \<and> c \<noteq> 47 \<and> list_all wordch w)
      \<or> (\<exists>c. w = [c] \<and> c \<in> set single_char_toks \<and> c \<noteq> 34 \<and> c \<noteq> 39)
      \<or> w \<noteq> [] \<and> set w \<subseteq> set op_chars)"

text \<open>What has been collected of a token.\<close>

definition holds_tok :: "tokenize_t \<Rightarrow> u8 list \<Rightarrow> bool" where
  "holds_tok t w \<longleftrightarrow> take (length w) (tk_token t) = w \<and> length w < 1024 \<and> 1024 \<le> length (tk_token t) \<and> 0 \<notin> set w"

lemma holds_updates [simp]: "holds_tok (t\<lparr>token_type := y\<rparr>) w = holds_tok t w" "holds_tok (tokenize_ungetc t c) w = holds_tok t w"
  by (simp_all add: holds_tok_def tokenize_ungetc_def)

lemma add_char_holds:
  assumes "reads t s" "holds_tok t w" "length w < 1023" "ascii c"
  shows "gives (add_char_to_token t (length w) (uint c)) (\<lambda>t'. reads t' s \<and> holds_tok t' (w @ [c]) \<and> hasnext t' = hasnext t \<and> unget_char t' = unget_char t \<and> current_char t' = current_char t)"
proof -
  let ?t = "t\<lparr>tk_token := (tk_token t)[length w := c]\<rparr>"
  have len: "length w < length (tk_token t)" "1024 \<le> length (tk_token t)" using assms by (simp_all add: holds_tok_def)
  then have "add_char_to_token t (length w) (uint c) = ok ?t"
    using ascii_int(4)[OF assms(4)] by (simp add: add_char_to_token_def ensure_token_capacity_def put_token_def)
  moreover have "holds_tok ?t (w @ [c])" using assms(2-4) len by (auto simp: holds_tok_def take_Suc_conv_app_nth ascii_def)
  moreover have "reads ?t s" using assms(1) len by (simp add: reads_def)
  ultimately show ?thesis by simp
qed

lemma end_tok_holds:
  assumes "reads t s" "holds_tok t w"
  shows "gives (end_tok t (length w)) (\<lambda>(n, t'). n = int (length w) \<and> token_str t' = w \<and> reads t' s \<and> token_type t' = token_type t \<and> hasnext t' = hasnext t)"
proof -
  let ?t = "t\<lparr>tk_token := (tk_token t)[length w := 0]\<rparr>"
  have len: "length w < length (tk_token t)" "1024 \<le> length (tk_token t)" using assms by (simp_all add: holds_tok_def)
  then have "end_tok t (length w) = ok (int (length w), ?t)" by (simp add: end_tok_def put_token_def)
  moreover have "(tk_token t)[length w := 0] = w @ 0 # drop (Suc (length w)) (tk_token t)"
    using assms(2) len by (simp add: upd_conv_take_nth_drop holds_tok_def)
  then have "token_str ?t = w" using assms(2) by (simp add: token_str_def holds_tok_def) (subst takeWhile_append2, auto)
  moreover have "reads ?t s" using assms(1) len by (simp add: reads_def)
  ultimately show ?thesis by simp
qed

text \<open>The result of reading the token \<open>w\<close>, up to the space behind it.\<close>

definition lexed :: "u8 list \<Rightarrow> u8 list \<Rightarrow> bool \<Rightarrow> int \<times> tokenize_t \<Rightarrow> bool" where
  "lexed w rest h = (\<lambda>(n, t). n = int (length w) \<and> token_str t = w \<and> token_type t = ZCM_TOK_OTHER \<and> hasnext t = h \<and> (reads t rest \<or> reads t (32 # rest)))"

text \<open>One round of the loop that reads a word: \<open>d\<close> is the character that follows.\<close>

lemma word_loop_round:
  assumes "reads t (d # s)" "holds_tok t w" "ascii c" "c \<notin> set single_char_toks" "length w < 1023"
    and "\<And>v. reads v s \<Longrightarrow> holds_tok v (w @ [c]) \<Longrightarrow> hasnext v = hasnext t \<Longrightarrow> token_type v = ZCM_TOK_OTHER \<Longrightarrow> unget_char v < 0 \<Longrightarrow> current_char v = uint d \<Longrightarrow> ascii d \<Longrightarrow>
      gives (if d \<in> set single_char_toks \<or> d \<in> set op_chars then end_tok (tokenize_ungetc v (uint d)) (length (w @ [c]))
         else if \<not> isspace (uint d) then word_loop (uint d) v (length (w @ [c])) else end_tok v (length (w @ [c]))) P"
  shows "gives (word_loop (uint c) t (length w)) P"
proof (subst word_loop.simps, rule gives_bindI[OF add_char_holds[OF assms(1,2,5,3)]])
  fix u assume u: "reads u (d # s) \<and> holds_tok u (w @ [c]) \<and> hasnext u = hasnext t \<and> unget_char u = unget_char t \<and> current_char u = current_char t"
  let ?u = "u\<lparr>token_type := ZCM_TOK_OTHER\<rparr>"
  let ?f = "\<lambda>(c, t). if strchr single_char_toks c \<or> strchr op_chars c then end_tok (tokenize_ungetc t c) (length w + 1)
         else if \<not> isspace c \<and> c \<noteq> EOF then word_loop c t (length w + 1) else end_tok t (length w + 1)"
  have "gives (rbind (tokenize_next_char ?u) ?f) P"
  proof (rule gives_bindI[OF next_char_reads[of ?u d s]])
    show "reads ?u (d # s)" using u by simp
    fix x assume x: "case x of (e, v) \<Rightarrow> e = uint d \<and> ascii d \<and> current_char v = e \<and> unget_char v < 0 \<and> same_tok ?u v \<and> reads v s"
    obtain e v where v: "x = (e, v)" by fastforce
    have a: "ascii d" using x v by simp
    note assms(6)[of v]
    with x v u strchr_ascii[OF a] ascii_int[OF a] show "gives (?f x) P" by (auto simp: holds_tok_def split: if_splits)
  qed
  with assms(4) strchr_ascii[OF assms(3)]
  show "gives (let t = ?u in if strchr single_char_toks (uint c) then end_tok t (length w + 1) else rbind (tokenize_next_char t) ?f) P" by (simp add: Let_def)
qed

lemma word_loop_lexed:
  assumes "reads t (cs @ 32 # rest)" "holds_tok t w" "list_all wordch (c # cs)" "length w + length cs < 1023"
  shows "gives (word_loop (uint c) t (length w)) (lexed (w @ c # cs) rest (hasnext t))"
  using assms
proof (induction cs arbitrary: c t w)
  case Nil
  have c: "ascii c" "c \<notin> set single_char_toks" using Nil.prems(3) by (simp_all add: wordch_ascii wordch_def)
  have sp: "32 \<notin> set single_char_toks" "32 \<notin> set op_chars" "isspace (uint (32 :: u8))" by (simp_all add: single_char_toks_def op_chars_def str_def isspace_def)
  have "reads t (32 # rest)" using Nil.prems(1) by simp
  then show ?case
  proof (rule word_loop_round[OF _ Nil.prems(2) c])
    show "length w < 1023" using Nil.prems(4) by simp
    fix v assume v: "reads v rest" "holds_tok v (w @ [c])" "hasnext v = hasnext t" "token_type v = ZCM_TOK_OTHER"
    from end_tok_holds[OF v(1,2)] v(3,4) have "gives (end_tok v (length (w @ [c]))) (lexed (w @ [c]) rest (hasnext t))"
      by (auto simp: lexed_def elim!: gives_mono)
    with sp show "gives (if 32 \<in> set single_char_toks \<or> 32 \<in> set op_chars then end_tok (tokenize_ungetc v (uint 32)) (length (w @ [c]))
         else if \<not> isspace (uint (32 :: u8)) then word_loop (uint (32 :: u8)) v (length (w @ [c])) else end_tok v (length (w @ [c]))) (lexed (w @ [c]) rest (hasnext t))"
      by (simp only: simp_thms if_False)
  qed
next
  case (Cons d cs)
  have c: "ascii c" "c \<notin> set single_char_toks" using Cons.prems(3) by (simp_all add: wordch_ascii wordch_def)
  have d: "d \<notin> set single_char_toks" "d \<notin> set op_chars" "32 < d" using Cons.prems(3) by (simp_all add: wordch_def)
  have "reads t (d # cs @ 32 # rest)" using Cons.prems(1) by simp
  then show ?case
  proof (rule word_loop_round[OF _ Cons.prems(2) c])
    show "length w < 1023" using Cons.prems(4) by simp
    fix v assume v: "reads v (cs @ 32 # rest)" "holds_tok v (w @ [c])" "hasnext v = hasnext t"
    from Cons.IH[OF v(1,2)] Cons.prems(3,4) v(3) d ascii_isspace[OF d(3)]
    show "gives (if d \<in> set single_char_toks \<or> d \<in> set op_chars then end_tok (tokenize_ungetc v (uint d)) (length (w @ [c]))
         else if \<not> isspace (uint d) then word_loop (uint d) v (length (w @ [c])) else end_tok v (length (w @ [c]))) (lexed (w @ c # d # cs) rest (hasnext t))"
      by simp
  qed
qed

lemma single_lexed:
  assumes "reads t (32 # s)" "c \<in> set single_char_toks"
  shows "gives (word_loop (uint c) t 0) (lexed [c] s (hasnext t))"
proof -
  have a: "ascii c" using assms(2) by (auto simp: single_char_toks_def str_def ascii_def)
  have "holds_tok t []" using assms(1) by (simp add: holds_tok_def reads_def)
  from add_char_holds[OF assms(1) this _ a] have
    "gives (add_char_to_token t 0 (uint c)) (\<lambda>t'. reads t' (32 # s) \<and> holds_tok t' [c] \<and> hasnext t' = hasnext t \<and> unget_char t' = unget_char t \<and> current_char t' = current_char t)" by simp
  then show ?thesis
  proof (subst word_loop.simps, rule gives_bindI)
    fix u assume u: "reads u (32 # s) \<and> holds_tok u [c] \<and> hasnext u = hasnext t \<and> unget_char u = unget_char t \<and> current_char u = current_char t"
    let ?u = "u\<lparr>token_type := ZCM_TOK_OTHER\<rparr>"
    have "gives (end_tok ?u 1) (lexed [c] s (hasnext t))" using end_tok_holds[of ?u "32 # s" "[c]"] u by (auto simp: lexed_def elim!: gives_mono)
    then show "gives (let t = ?u in if strchr single_char_toks (uint c) then end_tok t (0 + 1) else rbind (tokenize_next_char t) (\<lambda>(c, t).
         if strchr single_char_toks c \<or> strchr op_chars c then end_tok (tokenize_ungetc t c) (0 + 1)
         else if \<not> isspace c \<and> c \<noteq> EOF then word_loop c t (0 + 1) else end_tok t (0 + 1))) (lexed [c] s (hasnext t))"
      using strchr_ascii[OF a] assms(2) by simp
  qed
qed

lemma operator_lexed:
  assumes "reads t (cs @ 32 # rest)" "holds_tok t w" "set (c # cs) \<subseteq> set op_chars" "length w + length cs < 1023"
  shows "gives (operator_loop (uint c) t (length w)) (lexed (w @ c # cs) rest (hasnext t))"
  using assms
proof (induction cs arbitrary: c t w)
  case Nil
  have a: "ascii c" using Nil.prems(3) by (auto simp: op_chars_def str_def ascii_def)
  have sp: "\<not> strchr op_chars (uint (32 :: u8))" by (subst strchr_ascii) (simp_all add: ascii_def op_chars_def str_def)
  have "gives (rbind (add_char_to_token t (length w) (uint c)) (\<lambda>t. rbind (tokenize_next_char t) (\<lambda>(c, t). operator_loop c t (length w + 1)))) (lexed (w @ [c]) rest (hasnext t))"
  proof (rule gives_bindI[OF add_char_holds[OF Nil.prems(1,2) _ a]])
    show "length w < 1023" using Nil.prems(4) by simp
    fix u assume u: "reads u ([] @ 32 # rest) \<and> holds_tok u (w @ [c]) \<and> hasnext u = hasnext t \<and> unget_char u = unget_char t \<and> current_char u = current_char t"
    have "reads u (32 # rest)" using u by simp
    then show "gives (rbind (tokenize_next_char u) (\<lambda>(c, t). operator_loop c t (length w + 1))) (lexed (w @ [c]) rest (hasnext t))"
    proof (rule gives_bindI[OF next_char_reads])
      fix x assume x: "case x of (e, v) \<Rightarrow> e = uint (32 :: u8) \<and> ascii 32 \<and> current_char v = e \<and> unget_char v < 0 \<and> same_tok u v \<and> reads v rest"
      obtain e v where v: "x = (e, v)" by fastforce
      let ?v = "v\<lparr>token_type := ZCM_TOK_OTHER\<rparr>"
      have r: "reads (tokenize_ungetc ?v e) (32 # rest)" by (rule ungetc_reads) (use x v in simp_all)
      have h: "holds_tok (tokenize_ungetc ?v e) (w @ [c])" using x v u by (simp add: holds_tok_def tokenize_ungetc_def)
      have "hasnext (tokenize_ungetc ?v e) = hasnext t" "token_type (tokenize_ungetc ?v e) = ZCM_TOK_OTHER" using x v u by (simp_all add: tokenize_ungetc_def)
      with end_tok_holds[OF r h] have "gives (end_tok (tokenize_ungetc ?v e) (length w + 1)) (lexed (w @ [c]) rest (hasnext t))"
        by (auto simp: lexed_def elim!: gives_mono)
      with sp x v show "gives (case x of (c, t) \<Rightarrow> operator_loop c t (length w + 1)) (lexed (w @ [c]) rest (hasnext t))"
        by (simp add: operator_loop.simps[of SPACE])
    qed
  qed
  with Nil.prems(3) strchr_ascii[OF a] show ?case by (subst operator_loop.simps) simp
next
  case (Cons d cs)
  have a: "ascii c" using Cons.prems(3) by (auto simp: op_chars_def str_def ascii_def)
  have "gives (rbind (add_char_to_token t (length w) (uint c)) (\<lambda>t. rbind (tokenize_next_char t) (\<lambda>(c, t). operator_loop c t (length w + 1)))) (lexed (w @ c # d # cs) rest (hasnext t))"
  proof (rule gives_bindI[OF add_char_holds[OF Cons.prems(1,2) _ a]])
    show "length w < 1023" using Cons.prems(4) by simp
    fix u assume u: "reads u ((d # cs) @ 32 # rest) \<and> holds_tok u (w @ [c]) \<and> hasnext u = hasnext t \<and> unget_char u = unget_char t \<and> current_char u = current_char t"
    have "reads u (d # (cs @ 32 # rest))" using u by simp
    then show "gives (rbind (tokenize_next_char u) (\<lambda>(c, t). operator_loop c t (length w + 1))) (lexed (w @ c # d # cs) rest (hasnext t))"
    proof (rule gives_bindI[OF next_char_reads])
      fix x assume x: "case x of (e, v) \<Rightarrow> e = uint d \<and> ascii d \<and> current_char v = e \<and> unget_char v < 0 \<and> same_tok u v \<and> reads v (cs @ 32 # rest)"
      obtain e v where v: "x = (e, v)" by fastforce
      have h: "holds_tok v (w @ [c])" using x v u by (simp add: holds_tok_def)
      from Cons.IH[OF _ h, of d] x v Cons.prems(3,4) u
      show "gives (case x of (c, t) \<Rightarrow> operator_loop c t (length w + 1)) (lexed (w @ c # d # cs) rest (hasnext t))" by simp
    qed
  qed
  with Cons.prems(3) strchr_ascii[OF a] show ?case by (subst operator_loop.simps) simp
qed

lemma skip_space_reads:
  assumes "reads t (replicate k 32 @ c # s)" "32 < c"
  shows "gives (skip_space t) (\<lambda>(e, t'). e = uint c \<and> ascii c \<and> reads t' s \<and> same_tok t t')"
  using assms(1)
proof (induction k arbitrary: t)
  case 0
  show ?case
  proof (subst skip_space.simps, rule gives_bindI[OF next_char_reads])
    show "reads t (c # s)" using 0 by simp
    fix x assume x: "case x of (e, v) \<Rightarrow> e = uint c \<and> ascii c \<and> current_char v = e \<and> unget_char v < 0 \<and> same_tok t v \<and> reads v s"
    then show "gives (case x of (c, t) \<Rightarrow> if c = EOF then ok (EOF, t\<lparr>token_type := ZCM_TOK_EOF\<rparr>) else if isspace c then skip_space t else ok (c, t))
        (\<lambda>(e, t'). e = uint c \<and> ascii c \<and> reads t' s \<and> same_tok t t')"
      using ascii_isspace[OF assms(2)] ascii_int(2)[of c] by (auto split: prod.splits)
  qed
next
  case (Suc k)
  show ?case
  proof (subst skip_space.simps, rule gives_bindI[OF next_char_reads])
    show "reads t (32 # (replicate k 32 @ c # s))" using Suc.prems by simp
    fix x assume x: "case x of (e, v) \<Rightarrow> e = uint (32 :: u8) \<and> ascii 32 \<and> current_char v = e \<and> unget_char v < 0 \<and> same_tok t v \<and> reads v (replicate k 32 @ c # s)"
    obtain e v where v: "x = (e, v)" by fastforce
    from Suc.IH[of v] x v have "gives (skip_space v) (\<lambda>(e, t'). e = uint c \<and> ascii c \<and> reads t' s \<and> same_tok t t')" by (auto elim!: gives_mono)
    then show "gives (case x of (c, t) \<Rightarrow> if c = EOF then ok (EOF, t\<lparr>token_type := ZCM_TOK_EOF\<rparr>) else if isspace c then skip_space t else ok (c, t))
        (\<lambda>(e, t'). e = uint c \<and> ascii c \<and> reads t' s \<and> same_tok t t')"
      using x v by (simp add: isspace_def)
  qed
qed

lemma skip_space_end:
  "reads t (replicate k 32) \<Longrightarrow> gives (skip_space t) (\<lambda>(e, t'). e = EOF \<and> reads t' [] \<and> token_type t' = ZCM_TOK_EOF \<and> hasnext t' = hasnext t)"
proof (induction k arbitrary: t)
  case 0
  then show ?case by (subst skip_space.simps) (simp add: next_char_end)
next
  case (Suc k)
  show ?case
  proof (subst skip_space.simps, rule gives_bindI[OF next_char_reads])
    show "reads t (32 # replicate k 32)" using Suc.prems by simp
    fix x assume x: "case x of (e, v) \<Rightarrow> e = uint (32 :: u8) \<and> ascii 32 \<and> current_char v = e \<and> unget_char v < 0 \<and> same_tok t v \<and> reads v (replicate k 32)"
    obtain e v where v: "x = (e, v)" by fastforce
    from Suc.IH[of v] x v show "gives (case x of (c, t) \<Rightarrow> if c = EOF then ok (EOF, t\<lparr>token_type := ZCM_TOK_EOF\<rparr>) else if isspace c then skip_space t else ok (c, t))
        (\<lambda>(e, t'). e = EOF \<and> reads t' [] \<and> token_type t' = ZCM_TOK_EOF \<and> hasnext t' = hasnext t)" by (auto simp: isspace_def)
  qed
qed

lemma good_tok_head:
  assumes "good_tok (c # cs)"
  shows "32 < c" "c \<noteq> 34" "c \<noteq> 39" "c \<noteq> 47"
  using assms by (auto simp: good_tok_def wordch_def single_char_toks_def op_chars_def str_def)

text \<open>A token of the text is the token that the tokenizer gives.\<close>

lemma next_internal_lexed:
  assumes "reads t (replicate k 32 @ w @ 32 # rest)" "good_tok w" "\<not> hasnext t"
  shows "gives (tokenize_next_internal t) (lexed w rest False)"
proof -
  obtain c cs where w: "w = c # cs" using assms(2) by (cases w) (auto simp: good_tok_def)
  note head = good_tok_head[OF assms(2)[unfolded w]]
  have "reads (t\<lparr>token_type := ZCM_TOK_INVALID\<rparr>) (replicate k 32 @ c # (cs @ 32 # rest))" using assms(1) w by simp
  then show ?thesis unfolding tokenize_next_internal_def
  proof (rule gives_bindI[OF skip_space_reads[OF _ head(1)]])
    fix x assume x: "case x of (e, t') \<Rightarrow> e = uint c \<and> ascii c \<and> reads t' (cs @ 32 # rest) \<and> same_tok (t\<lparr>token_type := ZCM_TOK_INVALID\<rparr>) t'"
    obtain e u where u: "x = (e, u)" by fastforce
    let ?u = "u\<lparr>token_line := current_line u, token_column := current_column u\<rparr>"
    have a: "ascii c" "e = uint c" and r: "reads ?u (cs @ 32 # rest)" "\<not> hasnext ?u" using x u assms(3) by simp_all
    have q: "uint c \<noteq> QUOTE" "uint c \<noteq> DQUOTE" "uint c \<noteq> SLASH" "uint c \<noteq> EOF"
      using head(2-4) ascii_int(2)[OF a(1)] word_uint_eq_iff[of c 34] word_uint_eq_iff[of c 39] word_uint_eq_iff[of c 47] by auto
    have h: "holds_tok ?u []" using r(1) by (simp add: holds_tok_def reads_def)
    have "gives (if strchr op_chars (uint c) then operator_loop (uint c) ?u 0 else word_loop (uint c) ?u 0) (lexed w rest False)"
      using assms(2) unfolding good_tok_def
    proof (elim conjE disjE exE)
      fix d ds assume len: "length w < 1024" and d: "w = d # ds" "list_all wordch w"
      with word_loop_lexed[OF r(1) h, of c] r(2) strchr_ascii[OF a(1)] w show ?thesis by (simp add: wordch_def)
    next
      fix d assume d: "w = [d]" "d \<in> set single_char_toks" "length w < 1024"
      have "c \<notin> set op_chars" using d w by (auto simp: single_char_toks_def op_chars_def str_def)
      with single_lexed[of ?u rest c] r strchr_ascii[OF a(1)] d w show ?thesis by simp
    next
      assume "length w < 1024" "w \<noteq> []" "set w \<subseteq> set op_chars"
      with operator_lexed[OF r(1) h, of c] r(2) strchr_ascii[OF a(1)] w show ?thesis by simp
    qed
    with q a u show "gives (case x of (c, t) \<Rightarrow> if c = EOF then ok (EOF, t) else let t = t\<lparr>token_line := current_line t, token_column := current_column t\<rparr> in
       if c = QUOTE then char_literal t c
       else if c = DQUOTE then rbind (put_token t 0 c) (\<lambda>t. string_loop t 1 False)
       else if strchr op_chars c then operator_loop c t 0
       else if c = SLASH then slash_token t c
       else word_loop c t 0) (lexed w rest False)" by (auto simp: Let_def)
  qed
qed

definition render :: "u8 list list \<Rightarrow> u8 list" where
  "render ws = concat (map (\<lambda>w. w @ [32]) ws)"

lemma render_simps [simp]: "render [] = []" "render (w # ws) = w @ 32 # render ws" "render (ws @ ws') = render ws @ render ws'"
  by (simp_all add: render_def)

text \<open>The tokens that are still to come, the first of which may have been looked at already.\<close>

definition coming :: "tokenize_t \<Rightarrow> u8 list list \<Rightarrow> bool" where
  "coming t ws \<longleftrightarrow> (\<exists>k. \<not> hasnext t \<and> reads t (replicate k 32 @ render ws)
     \<or> hasnext t \<and> ws \<noteq> [] \<and> token_str t = hd ws \<and> token_type t = ZCM_TOK_OTHER \<and> reads t (replicate k 32 @ render (tl ws)))"

lemma coming_lexed:
  assumes "lexed w (render ws) False (n, t)"
  shows "coming t ws" "coming (t\<lparr>hasnext := True\<rparr>) (w # ws)" "n = int (length w)" "token_str t = w" "token_type t = ZCM_TOK_OTHER"
proof -
  have r: "\<exists>k. reads t (replicate k 32 @ render ws)" using assms by (auto simp: lexed_def intro: exI[of _ 0] exI[of _ 1])
  show "coming t ws" using r assms by (simp add: coming_def lexed_def)
  have "token_str (t\<lparr>hasnext := True\<rparr>) = token_str t" by (simp add: token_str_def)
  then show "coming (t\<lparr>hasnext := True\<rparr>) (w # ws)" using r assms by (simp add: coming_def lexed_def)
qed (use assms in \<open>simp_all add: lexed_def\<close>)

lemma next_coming:
  assumes "coming t (w # ws)" "good_tok w"
  shows "gives (tokenize_next t) (\<lambda>(n, t'). n \<ge> 0 \<and> token_str t' = w \<and> token_type t' = ZCM_TOK_OTHER \<and> coming t' ws)"
proof (cases "hasnext t")
  case True
  have "token_str (t\<lparr>hasnext := False\<rparr>) = token_str t" by (simp add: token_str_def)
  with True assms show ?thesis by (auto simp: tokenize_next_def coming_def)
next
  case False
  then obtain k where "reads t (replicate k 32 @ w @ 32 # render ws)" using assms(1) by (auto simp: coming_def)
  from next_internal_lexed[OF this assms(2) False] False show ?thesis
    using coming_lexed(1,3-5)[of w ws] by (fastforce simp: tokenize_next_def elim!: gives_mono)
qed

lemma next_end: "coming t [] \<Longrightarrow> gives (tokenize_next t) (\<lambda>(n, t'). n = EOF \<and> coming t' [] \<and> token_type t' = ZCM_TOK_EOF)"
  unfolding coming_def tokenize_next_def tokenize_next_internal_def
  by (auto intro!: gives_bindI[OF skip_space_end] exI[of _ 0])

lemma peek_coming:
  assumes "coming t (w # ws)" "good_tok w"
  shows "gives (tokenize_peek t) (\<lambda>(n, t'). n \<ge> 0 \<and> hasnext t' \<and> token_str t' = w \<and> token_type t' = ZCM_TOK_OTHER \<and> coming t' (w # ws))"
proof (cases "hasnext t")
  case True
  with assms show ?thesis by (auto simp: tokenize_peek_def coming_def)
next
  case False
  then obtain k where "reads t (replicate k 32 @ w @ 32 # render ws)" using assms(1) by (auto simp: coming_def)
  note l = next_internal_lexed[OF this assms(2) False]
  have "gives (rbind (tokenize_next t) (\<lambda>(res, t). ok (res, if res \<noteq> EOF then t\<lparr>hasnext := True\<rparr> else t)))
     (\<lambda>(n, t'). n \<ge> 0 \<and> hasnext t' \<and> token_str t' = w \<and> token_type t' = ZCM_TOK_OTHER \<and> coming t' (w # ws))"
  proof (rule gives_bindI[of _ "lexed w (render ws) False"])
    show "gives (tokenize_next t) (lexed w (render ws) False)" using l False by (simp add: tokenize_next_def)
    fix x assume x: "lexed w (render ws) False x"
    obtain n u where u: "x = (n, u)" by fastforce
    have "token_str (u\<lparr>hasnext := True\<rparr>) = token_str u" by (simp add: token_str_def)
    with coming_lexed[OF x[unfolded u]] u show "gives (case x of (res, t) \<Rightarrow> ok (res, if res \<noteq> EOF then t\<lparr>hasnext := True\<rparr> else t))
       (\<lambda>(n, t'). n \<ge> 0 \<and> hasnext t' \<and> token_str t' = w \<and> token_type t' = ZCM_TOK_OTHER \<and> coming t' (w # ws))" by simp
  qed
  with False show ?thesis by (simp add: tokenize_peek_def)
qed

lemma peek_end: "coming t [] \<Longrightarrow> gives (tokenize_peek t) (\<lambda>(n, t'). n = EOF \<and> coming t' [])"
  unfolding tokenize_peek_def by (auto simp: coming_def intro!: gives_bindI[OF next_end])

lemma create_coming:
  assumes "list_all good_tok ws"
  shows "\<exists>t. tokenize_create (Some (render ws)) junk = Some t \<and> coming t ws"
proof -
  have "list_all ascii w" if "good_tok w" for w
    using that wordch_ascii by (auto simp: good_tok_def list_all_iff single_char_toks_def op_chars_def str_def ascii_def)
  then have "list_all ascii (render ws)" using assms by (induction ws) (auto simp: ascii_def)
  then show ?thesis by (auto simp: tokenize_create_def coming_def reads_def stream_def MAX_LINE_LEN_def intro!: exI[of _ 0])
qed

end
