(* ===== verification/Zcmgen_Roundtrip.thy ===== *)
theory Zcmgen_Roundtrip
  imports Zcmgen_Props Tokenize_Stream
begin

text \<open>
  Every type definition that follows the rules of the language is accepted, and the parser's result is what it describes: a syntax of definitions, its
  text, the conditions on it and what it means, and the proof that the parser finds that meaning.
\<close>

section \<open>The parser on tokens\<close>

lemma skip_comments_coming:
  assumes "coming t ws" "list_all good_tok ws"
  shows "gives (skip_comments t) (\<lambda>t'. coming t' ws)"
proof (cases ws)
  case Nil
  then show ?thesis using assms(1) by (subst skip_comments.simps) (auto intro!: gives_bindI[OF peek_end])
next
  case (Cons w ws')
  with assms have "gives (tokenize_peek t) (\<lambda>(n, t'). n \<ge> 0 \<and> hasnext t' \<and> token_str t' = w \<and> token_type t' = ZCM_TOK_OTHER \<and> coming t' (w # ws'))"
    by (intro peek_coming) simp_all
  then show ?thesis by (subst skip_comments.simps, rule gives_bindI) (auto simp: Cons)
qed

lemma skip_rule:
  assumes "coming t ws" "list_all good_tok ws" "\<And>t'. coming t' ws \<Longrightarrow> gives (f t') P"
  shows "gives (rbind (skip_comments t) f) P"
  by (rule gives_bindI[OF skip_comments_coming[OF assms(1,2)]]) (rule assms(3))

lemma comment_rule:
  assumes "coming t ws" "list_all good_tok ws" "\<And>t'. coming t' ws \<Longrightarrow> gives (f (zg\<lparr>zg_comment := []\<rparr>, t')) P"
  shows "gives (rbind (parseTryConsumeComment zg t) f) P"
proof -
  have "gives (collect_comments (zg\<lparr>zg_comment := []\<rparr>) t) (\<lambda>(zg', t'). zg' = zg\<lparr>zg_comment := []\<rparr> \<and> coming t' ws)"
  proof (cases ws)
    case Nil
    then show ?thesis using assms(1) by (subst collect_comments.simps) (auto intro!: gives_bindI[OF peek_end])
  next
    case (Cons w ws')
    with assms have "gives (tokenize_peek t) (\<lambda>(n, t'). n \<ge> 0 \<and> hasnext t' \<and> token_str t' = w \<and> token_type t' = ZCM_TOK_OTHER \<and> coming t' (w # ws'))"
      by (intro peek_coming) simp_all
    then show ?thesis by (subst collect_comments.simps, rule gives_bindI) (auto simp: Cons)
  qed
  then show ?thesis unfolding parseTryConsumeComment_def by (rule gives_bindI) (auto intro: assms(3))
qed

lemma next_rule:
  assumes "coming t (w # ws)" "list_all good_tok (w # ws)" "\<And>t'. token_str t' = w \<Longrightarrow> coming t' ws \<Longrightarrow> gives (f t') P"
  shows "gives (rbind (tokenizeNextOrFail t) f) P"
proof -
  have "gives (tokenizeNextOrFail t) (\<lambda>t'. token_str t' = w \<and> coming t' ws)"
    unfolding tokenizeNextOrFail_def by (rule gives_bindI[OF next_coming[OF assms(1)]]) (use assms(2) in auto)
  then show ?thesis by (rule gives_bindI) (auto intro: assms(3))
qed

lemma try_rule:
  assumes "coming t (w # ws)" "list_all good_tok (w # ws)" "\<And>t'. coming t' (if w = tok then ws else w # ws) \<Longrightarrow> gives (f (w = tok, t')) P"
  shows "gives (rbind (parseTryConsume t tok) f) P"
proof -
  have w: "good_tok w" using assms(2) by simp
  have "gives (parseTryConsume t tok) (\<lambda>(b, t'). b = (w = tok) \<and> coming t' (if w = tok then ws else w # ws))"
    unfolding parseTryConsume_def
  proof (rule skip_rule[OF assms(1,2)], rule gives_bindI[OF peek_coming[OF _ w]], assumption, clarify)
    fix u n v assume v: "(n :: int) \<ge> 0" "hasnext v" "token_type v = ZCM_TOK_OTHER" "coming v (token_str v # ws)" "w = token_str v"
    then have "gives (rbind (tokenize_next v) (\<lambda>(_, t). ok (True, t))) (\<lambda>(b, t'). b \<and> coming t' ws)"
      using w by (auto intro!: gives_bindI[OF next_coming[OF v(4)]])
    with v show "gives (if n = EOF then stop Parse_Error else if token_type v \<noteq> ZCM_TOK_COMMENT \<and> token_str v = tok then rbind (tokenize_next v) (\<lambda>(_, t). ok (True, t)) else ok (False, v))
       (\<lambda>(b, t'). b = (token_str v = tok) \<and> coming t' (if token_str v = tok then ws else token_str v # ws))" by (auto elim!: gives_mono)
  qed
  then show ?thesis by (rule gives_bindI) (auto intro: assms(3))
qed

lemma require_rule:
  assumes "coming t (tok # ws)" "list_all good_tok (tok # ws)" "\<And>t'. coming t' ws \<Longrightarrow> gives (f t') P"
  shows "gives (rbind (parseRequire t tok) f) P"
proof -
  have w: "good_tok tok" using assms(2) by simp
  have "gives (parseRequire t tok) (\<lambda>t'. coming t' ws)" unfolding parseRequire_def
  proof (rule skip_rule[OF assms(1,2)])
    fix u assume u: "coming u (tok # ws)"
    have "gives (next_uncommented u) (\<lambda>(n, t'). n \<ge> 0 \<and> token_str t' = tok \<and> coming t' ws)"
      by (subst next_uncommented.simps, rule gives_bindI[OF next_coming[OF u w]]) auto
    then show "gives (rbind (next_uncommented u) (\<lambda>(res, t). if res = EOF \<or> token_str t \<noteq> tok then stop Parse_Error else ok t)) (\<lambda>t'. coming t' ws)"
      by (rule gives_bindI) auto
  qed
  then show ?thesis by (rule gives_bindI) (rule assms(3))
qed

lemma try_hit:
  assumes "coming t (tok # ws)" "list_all good_tok (tok # ws)" "\<And>t'. coming t' ws \<Longrightarrow> gives (f (True, t')) P"
  shows "gives (rbind (parseTryConsume t tok) f) P"
  by (rule try_rule[OF assms(1,2)]) (use assms(3) in simp)

lemma try_miss:
  assumes "coming t (w # ws)" "list_all good_tok (w # ws)" "w \<noteq> tok" "\<And>t'. coming t' (w # ws) \<Longrightarrow> gives (f (False, t')) P"
  shows "gives (rbind (parseTryConsume t tok) f) P"
  by (rule try_rule[OF assms(1,2)]) (use assms(3,4) in simp)

lemmas decided = prod.case if_True if_False not_False_eq_True not_True_eq_False Let_def

section \<open>Numbers\<close>

lemma dec_digit_props:
  assumes "d < 10"
  shows "digit_val (dec_digit d) = Some d" "is_digit_of 10 (dec_digit d)" "isdigit (dec_digit d)" "wordch (dec_digit d)" "dec_digit d = 48 \<longleftrightarrow> d = 0"
    "dec_digit d \<noteq> 45" "dec_digit d \<noteq> 43" "\<not> isspace (uint (dec_digit d))"
proof -
  have "d = 0 \<or> d = 1 \<or> d = 2 \<or> d = 3 \<or> d = 4 \<or> d = 5 \<or> d = 6 \<or> d = 7 \<or> d = 8 \<or> d = 9" using assms by presburger
  then show "digit_val (dec_digit d) = Some d" "is_digit_of 10 (dec_digit d)" "isdigit (dec_digit d)" "wordch (dec_digit d)" "dec_digit d = 48 \<longleftrightarrow> d = 0"
    "dec_digit d \<noteq> 45" "dec_digit d \<noteq> 43" "\<not> isspace (uint (dec_digit d))"
    by (elim disjE; simp add: dec_digit_def digit_val_def is_digit_of_def isdigit_def wordch_def single_char_toks_def op_chars_def str_def isspace_def)+
qed

lemma digits_props:
  "digits 10 n \<noteq> []" "list_all (\<lambda>c. \<exists>d < 10. c = dec_digit d) (digits 10 n)" "digits_value 10 (digits 10 n) = n"
  "0 < n \<Longrightarrow> hd (digits 10 n) \<noteq> 48" "n < 10 ^ k \<Longrightarrow> 0 < k \<Longrightarrow> length (digits 10 n) \<le> k"
proof -
  have value_app: "digits_value 10 (xs @ [dec_digit d]) = digits_value 10 xs * 10 + d" if "d < 10" for xs d
    using dec_digit_props(1)[OF that] by (simp add: digits_value_def)
  show ne: "digits 10 n \<noteq> []" for n by (subst digits.simps) simp
  show "list_all (\<lambda>c. \<exists>d < 10. c = dec_digit d) (digits 10 n)"
    by (induction "10 :: nat" n rule: digits.induct) (subst digits.simps, auto simp del: digits.simps intro: exI[of _ "n mod 10" for n])
  show "digits_value 10 (digits 10 n) = n"
  proof (induction "10 :: nat" n rule: digits.induct)
    case (1 n)
    show ?case
    proof (cases "n < 10")
      case True
      with value_app[of n "[]"] show ?thesis by (subst digits.simps) (simp add: digits_value_def)
    next
      case False
      then have "digits 10 n = digits 10 (n div 10) @ [dec_digit (n mod 10)]" by (subst digits.simps) simp
      with 1 False value_app[of "n mod 10"] show ?thesis by simp
    qed
  qed
  show "0 < n \<Longrightarrow> hd (digits 10 n) \<noteq> 48"
  proof (induction "10 :: nat" n rule: digits.induct)
    case (1 n)
    show ?case
    proof (cases "n < 10")
      case True
      with 1(2) dec_digit_props(5)[of n] show ?thesis by (subst digits.simps) simp
    next
      case False
      then have "digits 10 n = digits 10 (n div 10) @ [dec_digit (n mod 10)]" by (subst digits.simps) simp
      with 1 False ne show ?thesis by simp
    qed
  qed
  show "n < 10 ^ k \<Longrightarrow> 0 < k \<Longrightarrow> length (digits 10 n) \<le> k"
  proof (induction "10 :: nat" n arbitrary: k rule: digits.induct)
    case (1 n)
    show ?case
    proof (cases "n < 10")
      case True
      with 1(3) show ?thesis by (subst digits.simps) simp
    next
      case False
      then have d: "digits 10 n = digits 10 (n div 10) @ [dec_digit (n mod 10)]" by (subst digits.simps) simp
      obtain k' where k: "k = Suc k'" using 1(3) by (cases k) auto
      with 1(2) False have "n div 10 < 10 ^ k'" "0 < k'" by (auto simp: less_mult_imp_div_less mult.commute intro: gr0I)
      with 1(1)[of k'] False d k show ?thesis by simp
    qed
  qed
qed

lemma digits_all:
  "list_all (is_digit_of 10) (digits 10 n)" "list_all wordch (digits 10 n)"
  "isdigit (char0 (digits 10 n))" "char0 (digits 10 n) \<noteq> 45" "char0 (digits 10 n) \<noteq> 43" "0 < n \<Longrightarrow> char0 (digits 10 n) \<noteq> 48" "\<not> isspace (uint (char0 (digits 10 n)))"
proof -
  show "list_all (is_digit_of 10) (digits 10 n)" "list_all wordch (digits 10 n)"
    using digits_props(2)[of n] dec_digit_props by (auto simp: list_all_iff simp del: digits.simps)
  obtain c cs where c: "digits 10 n = c # cs" using digits_props(1)[of n] by (cases "digits 10 n") auto
  then obtain d where d: "d < 10" "c = dec_digit d" using digits_props(2)[of n] by (auto simp del: digits.simps)
  show "isdigit (char0 (digits 10 n))" "char0 (digits 10 n) \<noteq> 45" "char0 (digits 10 n) \<noteq> 43" "\<not> isspace (uint (char0 (digits 10 n)))"
    unfolding c char0_def using dec_digit_props[OF d(1)] d(2) by simp_all
  show "0 < n \<Longrightarrow> char0 (digits 10 n) \<noteq> 48" using digits_props(4)[of n] unfolding c char0_def by simp
qed

lemma takeWhile_isspace: "\<not> isspace (uint (char0 s)) \<Longrightarrow> takeWhile (\<lambda>c. isspace (uint c)) s = []"
  by (cases s) (simp_all add: char0_def)

lemma takeWhile_all: "list_all P s \<Longrightarrow> takeWhile P s = s"
  by (simp add: takeWhile_eq_all_conv list_all_iff)

lemma scan_digits:
  assumes "base = 0 \<or> base = 10"
  shows "strto_scan base (digits 10 n) = (False, n, length (digits 10 n))"
    "0 < n \<Longrightarrow> strto_scan base (45 # digits 10 n) = (True, n, Suc (length (digits 10 n)))"
proof -
  note d = digits_all[of n] digits_props(1,3)[of n]
  show "strto_scan base (digits 10 n) = (False, n, length (digits 10 n))"
  proof (cases "n = 0")
    case True
    then have "digits 10 n = [48]" by (simp add: dec_digit_def)
    with True assms show ?thesis
      by (auto simp: strto_scan_def char0_def isspace_def is_digit_of_def digit_val_def digits_value_def Let_def)
  next
    case False
    with d assms show ?thesis
      by (auto simp: strto_scan_def Let_def takeWhile_isspace[OF d(7)] takeWhile_all[OF d(1)] simp del: digits.simps)
  qed
  have m: "\<not> isspace 45" "char0 (45 # digits 10 n) = 45" by (simp_all add: isspace_def char0_def)
  show "0 < n \<Longrightarrow> strto_scan base (45 # digits 10 n) = (True, n, Suc (length (digits 10 n)))"
    using assms d(1-6,8,9) by (elim disjE) (simp_all add: strto_scan_def m Let_def takeWhile_all[OF d(1)] del: digits.simps)
qed

lemma strtoll_print:
  assumes "base = 0 \<or> base = 10" "- (2 ^ 63) \<le> v" "v < 2 ^ 63"
  shows "strtoll base (print_int v) = (v, False, length (print_int v))"
proof (cases "v < 0")
  case True
  with scan_digits(2)[OF assms(1), of "nat (- v)"] assms(2) show ?thesis by (auto simp: strtoll_def print_int_def Let_def simp del: digits.simps)
next
  case False
  with scan_digits(1)[OF assms(1), of "nat v"] assms(3) show ?thesis by (auto simp: strtoll_def print_int_def Let_def simp del: digits.simps)
qed

lemma isdigit_neq: "isdigit c \<Longrightarrow> c \<noteq> 47 \<and> c \<noteq> 59"
  by (auto simp: isdigit_def)

lemma print_int_props:
  assumes "- (2 ^ 63) \<le> v" "v < 2 ^ 63"
  shows "good_tok (print_int v)" "\<not> is_hex (print_int v)" "print_int v \<noteq> []" "print_int v \<noteq> [59]"
proof -
  obtain c cs where c: "print_int v = c # cs" "c \<noteq> 47" "c \<noteq> 59"
    using digits_props(1) isdigit_neq[OF digits_all(3)[of "nat v"]] by (cases "print_int v") (auto simp: print_int_def char0_def split: if_splits simp del: digits.simps)
  have w: "list_all wordch (print_int v)" using digits_all(2) by (simp add: print_int_def wordch_def single_char_toks_def op_chars_def str_def del: digits.simps)
  have "nat (if v < 0 then - v else v) < 10 ^ 20" using assms by auto
  from digits_props(5)[OF this] have "length (digits 10 (nat (if v < 0 then - v else v))) \<le> 20" by simp
  then have "length (print_int v) \<le> 21" by (auto simp: print_int_def simp del: digits.simps split: if_splits)
  then show "good_tok (print_int v)" using c w by (auto simp: good_tok_def)
  show "print_int v \<noteq> []" "print_int v \<noteq> [59]" using c by simp_all
  show "\<not> is_hex (print_int v)"
  proof (cases "0 < v")
    case True
    with digits_all(6)[of "nat v"] digits_props(1)[of "nat v"] show ?thesis by (cases "digits 10 (nat v)") (auto simp: is_hex_def print_int_def char0_def simp del: digits.simps)
  next
    case False
    then show ?thesis by (cases "v = 0") (auto simp: is_hex_def print_int_def simp del: digits.simps simp: digits.simps[of 10 0])
  qed
qed

section \<open>Definitions of types: text, conditions, meaning\<close>

text \<open>A dimension is a number, a constant or a member.\<close>

datatype dim_src = D_Lit nat | D_Const name | D_Var name

text \<open>A member with its type, perhaps a bit field (a negative number of bits for a signed one), its name and its dimensions; or a constant with its type, name and value.\<close>

datatype item_src = Field name "int option" name "dim_src list" | Const name name int

record struct_src =
  s_pkg :: "name option"
  s_name :: name
  s_items :: "item_src list"

fun dim_tok :: "dim_src \<Rightarrow> name" where
  "dim_tok (D_Lit n) = digits 10 n"
| "dim_tok (D_Const c) = c"
| "dim_tok (D_Var m) = m"

definition bits_toks :: "int option \<Rightarrow> name list" where
  "bits_toks bits = (case bits of None \<Rightarrow> [] | Some b \<Rightarrow> [str '':'', print_int b])"

definition dims_toks :: "dim_src list \<Rightarrow> name list" where
  "dims_toks ds = concat (map (\<lambda>d. [str ''['', dim_tok d, str '']'']) ds)"

fun item_toks :: "item_src \<Rightarrow> name list" where
  "item_toks (Field ty bits nm ds) = [ty] @ bits_toks bits @ [nm] @ dims_toks ds @ [str '';'']"
| "item_toks (Const ty nm v) = [str ''const'', ty, nm, str ''='', print_int v, str '';'']"

definition struct_toks :: "struct_src \<Rightarrow> name list" where
  "struct_toks d =
     (case s_pkg d of None \<Rightarrow> [] | Some p \<Rightarrow> [str ''package'', p, str '';''])
     @ [str ''struct'', s_name d, str ''{''] @ concat (map item_toks (s_items d)) @ [str ''}'']"

text \<open>The text of a file: the tokens, each followed by a space.\<close>

definition file_text :: "struct_src list \<Rightarrow> u8 list" where
  "file_text ds = render (concat (map struct_toks ds))"

text \<open>What the parts of a definition mean, in the struct read so far.\<close>

fun dim_val :: "ZCMStruct \<Rightarrow> dim_src \<Rightarrow> ZCMDimension" where
  "dim_val zs (D_Lit n) = \<lparr>dim_mode = ZCM_CONST, dim_size = digits 10 n\<rparr>"
| "dim_val zs (D_Const c) = \<lparr>dim_mode = ZCM_CONST, dim_size = (case findConst zs c of Some k \<Rightarrow> c_valstr k | None \<Rightarrow> [])\<rparr>"
| "dim_val zs (D_Var m) = \<lparr>dim_mode = ZCM_VAR, dim_size = m\<rparr>"

definition field_type :: "ZCMGen \<Rightarrow> ZCMStruct \<Rightarrow> name \<Rightarrow> int option \<Rightarrow> ZCMTypename" where
  "field_type zg zs ty bits =
     (let zt = mkTypename (gopt zg) (member_type zg zs ty) True
      in case bits of None \<Rightarrow> zt | Some b \<Rightarrow> zt\<lparr>tn_numbits := word_of_int \<bar>b\<bar>, tn_signExtend := b < 0\<rparr>)"

fun add_item :: "ZCMGen \<Rightarrow> ZCMStruct \<Rightarrow> item_src \<Rightarrow> ZCMStruct" where
  "add_item zg zs (Field ty bits nm ds) =
     zs\<lparr>members := members zs @ [\<lparr>m_type = field_type zg zs ty bits, m_membername = nm, m_dimensions = map (dim_val zs) ds, m_comment = []\<rparr>]\<rparr>"
| "add_item zg zs (Const ty nm v) =
     zs\<lparr>constants := constants zs @ [\<lparr>c_type = ty, c_membername = nm, c_val = V_Int (word_of_int v), c_valstr = print_int v, c_numbits = 0, c_signExtend = False, c_comment = []\<rparr>]\<rparr>"

definition empty_struct :: "ZCMGen \<Rightarrow> name \<Rightarrow> struct_src \<Rightarrow> ZCMStruct" where
  "empty_struct zg path d =
     \<lparr>structname = mkTypename (gopt zg) (case s_pkg d of None \<Rightarrow> s_name d | Some p \<Rightarrow> p @ [46] @ s_name d) False, members = [], constants = [],
      zcmfile = path, hash = 0, zs_comment = []\<rparr>"

definition struct_val :: "bool \<times> bool \<Rightarrow> ZCMGen \<Rightarrow> name \<Rightarrow> struct_src \<Rightarrow> ZCMStruct" where
  "struct_val hashing zg path d =
     (let zs = foldl (add_item zg) (empty_struct zg path d) (s_items d) in zs\<lparr>hash := computeHash (fst hashing) (snd hashing) zs\<rparr>)"

text \<open>The rules of the language.\<close>

fun ok_dim :: "ZCMStruct \<Rightarrow> dim_src \<Rightarrow> bool" where
  "ok_dim zs (D_Lit n) = (0 < n \<and> n < 2 ^ 31)"
| "ok_dim zs (D_Const c) = (good_tok c \<and> (case findConst zs c of None \<Rightarrow> False | Some k \<Rightarrow> isArrayDimType (c_type k)))"
| "ok_dim zs (D_Var m) = (good_tok m \<and> isLegalMemberName m \<and> findConst zs m = None
     \<and> (case findMember zs m of None \<Rightarrow> False | Some k \<Rightarrow> m_dimensions k = [] \<and> isArrayDimType (fullname (m_type k))))"

definition ok_bits :: "name \<Rightarrow> int option \<Rightarrow> bool" where
  "ok_bits ty bits =
     (case bits of
        None \<Rightarrow> True
      | Some b \<Rightarrow> isFixedPoint ty \<and> b \<noteq> 0
          \<and> (case getPrimitiveTypeNumBits ty of
               None \<Rightarrow> False
             | Some w \<Rightarrow> \<bar>b\<bar> \<le> int w \<and> (if ty = str ''byte'' then 0 < b else \<bar>b\<bar> = int w \<longrightarrow> b < 0)))"

definition ok_name :: "ZCMStruct \<Rightarrow> name \<Rightarrow> bool" where
  "ok_name zs nm \<longleftrightarrow> good_tok nm \<and> isLegalMemberName nm \<and> findMember zs nm = None \<and> findConst zs nm = None"

fun ok_item :: "ZCMGen \<Rightarrow> ZCMStruct \<Rightarrow> item_src \<Rightarrow> bool" where
  "ok_item zg zs (Field ty bits nm ds) =
     (good_tok ty \<and> isLegalTypeName ty \<and> ty \<noteq> str ''int'' \<and> ty \<noteq> str ''struct'' \<and> ty \<noteq> str ''const''
      \<and> ok_bits (fullname (field_type zg zs ty None)) bits \<and> ok_name zs nm \<and> list_all (ok_dim zs) ds)"
| "ok_item zg zs (Const ty nm v) =
     (isFixedPoint ty \<and> ok_name zs nm
      \<and> (case getPrimitiveTypeNumBits ty of None \<Rightarrow> False | Some w \<Rightarrow> ctype_min ty w \<le> v \<and> v \<le> ctype_max ty w))"

fun ok_items :: "ZCMGen \<Rightarrow> ZCMStruct \<Rightarrow> item_src list \<Rightarrow> bool" where
  "ok_items zg zs [] = True"
| "ok_items zg zs (i # is) = (ok_item zg zs i \<and> ok_items zg (add_item zg zs i) is)"

definition ok_struct :: "ZCMGen \<Rightarrow> name \<Rightarrow> struct_src \<Rightarrow> bool" where
  "ok_struct zg path d \<longleftrightarrow> good_tok (s_name d) \<and> (case s_pkg d of None \<Rightarrow> True | Some p \<Rightarrow> good_tok p) \<and> ok_items zg (empty_struct zg path d) (s_items d)"

section \<open>Members and constants\<close>

lemma good_toks [simp]:
  "good_tok (str '':'')" "good_tok (str ''['')" "good_tok (str '']'')" "good_tok (str '';'')" "good_tok (str ''='')" "good_tok (str '','')"
  "good_tok (str ''const'')" "good_tok (str ''struct'')" "good_tok (str ''package'')" "good_tok (str ''{'')" "good_tok (str ''}'')"
  by (simp_all add: good_tok_def str_def wordch_def single_char_toks_def op_chars_def)

lemma tok_neq [simp]:
  "str '';'' \<noteq> str ''[''" "str '';'' \<noteq> str '',''" "str ''const'' \<noteq> str ''struct''" "str ''const'' \<noteq> str ''}''" "str ''struct'' \<noteq> str ''package''"
  by (simp_all add: str_def)

lemma legal_neq:
  "isLegalMemberName nm \<Longrightarrow> nm \<noteq> str '':''" "isLegalTypeName nm \<Longrightarrow> nm \<noteq> str ''}''"
  by (auto simp: isLegalTypeName_def isLegalMemberName_def isalpha_def char0_def str_def)

lemma legal_not_digit: "isLegalMemberName nm \<Longrightarrow> \<not> isdigit (char0 nm)" "isLegalMemberName nm \<Longrightarrow> char0 nm \<noteq> 93"
  by (auto simp: isLegalMemberName_def isalpha_def isdigit_def word_le_nat_alt)

definition legal_consts :: "ZCMStruct \<Rightarrow> bool" where
  "legal_consts zs \<longleftrightarrow> (\<forall>c \<in> set (constants zs). isLegalMemberName (c_membername c))"

lemma strtol_print:
  assumes "base = 0 \<or> base = 10" "- (2 ^ 31) \<le> v" "v < 2 ^ 31"
  shows "sint (strtol_int base (print_int v)) = v"
proof -
  have "strtoll base (print_int v) = (v, False, length (print_int v))" by (rule strtoll_print) (use assms in auto)
  moreover have "signed_take_bit 31 v = v" using assms by (intro signed_take_bit_int_eq_self) simp_all
  ultimately show ?thesis by (simp add: strtol_int_def signed_of_int)
qed

lemma parse_dim_val:
  assumes "ok_dim zs d" "legal_consts zs"
  shows "parse_dim zs (dim_tok d) = ok (dim_val zs d)"
proof (cases d)
  case (D_Lit n)
  have "findConst zs (digits 10 n) = None"
    using assms(2) legal_not_digit(1) digits_all(3)[of n] by (auto simp: findConst_def find_None_iff legal_consts_def simp del: digits.simps)
  moreover have "sint (strtol_int 0 (digits 10 n)) = int n"
    using strtol_print[of 0 "int n"] D_Lit assms(1) by (simp add: print_int_def del: digits.simps)
  ultimately show ?thesis using D_Lit assms(1) digits_all(3)[of n] by (simp add: parse_dim_def del: digits.simps)
next
  case (D_Const c)
  with assms(1) show ?thesis by (auto simp: parse_dim_def split: option.splits)
next
  case (D_Var m)
  with assms(1) legal_not_digit[of m] show ?thesis by (auto simp: parse_dim_def split: option.splits)
qed

lemma dim_tok_good: "ok_dim zs d \<Longrightarrow> good_tok (dim_tok d)"
proof (cases d)
  case (D_Lit n)
  assume "ok_dim zs d"
  with D_Lit print_int_props(1)[of "int n"] show ?thesis by (simp add: print_int_def del: digits.simps)
qed auto

lemma dims_toks_good: "list_all (ok_dim zs) ds \<Longrightarrow> list_all good_tok (dims_toks ds)"
  by (auto simp: dims_toks_def list_all_iff dim_tok_good)

lemma dims_loop_val:
  assumes "coming t (dims_toks ds @ str '';'' # ws)" "list_all (ok_dim zs) ds" "legal_consts zs" "list_all good_tok ws"
  shows "gives (dims_loop zs acc t) (\<lambda>(r, t'). r = acc @ map (dim_val zs) ds \<and> coming t' (str '';'' # ws))"
  using assms(1,2)
proof (induction ds arbitrary: acc t)
  case Nil
  then show ?case using assms(4) by (subst dims_loop.simps) (auto simp: dims_toks_def intro!: try_rule[of t "str '';''" ws])
next
  case (Cons d ds)
  let ?rest = "dims_toks ds @ str '';'' # ws"
  have toks: "dims_toks (d # ds) @ str '';'' # ws = str ''['' # dim_tok d # str '']'' # ?rest" by (simp add: dims_toks_def)
  have good: "list_all good_tok (dim_tok d # str '']'' # ?rest)" using Cons.prems(2) assms(4) dims_toks_good[of zs ds] dim_tok_good[of zs d] by simp
  show ?case
  proof (subst dims_loop.simps, rule try_rule[of t "str ''[''" "dim_tok d # str '']'' # ?rest"])
    fix u assume "coming u (if str ''['' = str ''['' then dim_tok d # str '']'' # ?rest else str ''['' # dim_tok d # str '']'' # ?rest)"
    then have u: "coming u (dim_tok d # str '']'' # ?rest)" by simp
    have "gives (rbind (skip_comments u) (\<lambda>t. rbind (tokenizeNextOrFail t) (\<lambda>t. rbind (parse_dim zs (token_str t)) (\<lambda>dim. rbind (parseRequire t (str '']'')) (\<lambda>t. dims_loop zs (acc @ [dim]) t)))))
       (\<lambda>(r, t'). r = acc @ map (dim_val zs) (d # ds) \<and> coming t' (str '';'' # ws))"
    proof (rule skip_rule[OF u good], rule next_rule[OF _ good], assumption)
      fix v assume v: "token_str v = dim_tok d" "coming v (str '']'' # ?rest)"
      have "gives (rbind (parseRequire v (str '']'')) (\<lambda>t. dims_loop zs (acc @ [dim_val zs d]) t)) (\<lambda>(r, t'). r = acc @ map (dim_val zs) (d # ds) \<and> coming t' (str '';'' # ws))"
        by (rule require_rule[OF v(2)]) (use good Cons.IH[of _ "acc @ [dim_val zs d]"] Cons.prems(2) in \<open>auto elim!: gives_mono\<close>)
      with v(1) parse_dim_val[OF _ assms(3), of d] Cons.prems(2)
      show "gives (rbind (parse_dim zs (token_str v)) (\<lambda>dim. rbind (parseRequire v (str '']'')) (\<lambda>t. dims_loop zs (acc @ [dim]) t))) (\<lambda>(r, t'). r = acc @ map (dim_val zs) (d # ds) \<and> coming t' (str '';'' # ws))"
        by simp
    qed
    then show "gives (case (str ''['' = str ''['', u) of (b, t) \<Rightarrow> if \<not> b then ok (acc, t) else rbind (skip_comments t) (\<lambda>t. rbind (tokenizeNextOrFail t) (\<lambda>t.
        rbind (parse_dim zs (token_str t)) (\<lambda>dim. rbind (parseRequire t (str '']'')) (\<lambda>t. dims_loop zs (acc @ [dim]) t)))))
       (\<lambda>(r, t'). r = acc @ map (dim_val zs) (d # ds) \<and> coming t' (str '';'' # ws))" by simp
  qed (use Cons.prems(1) toks good in simp_all)
qed

lemma small_bits:
  assumes "b \<noteq> 0" "\<bar>b\<bar> \<le> 64"
  shows "sint (strtol_int 10 (print_int b)) = b" "b < 0 \<Longrightarrow> ucast (- strtol_int 10 (print_int b)) = (word_of_int \<bar>b\<bar> :: u8)"
    "0 < b \<Longrightarrow> ucast (strtol_int 10 (print_int b)) = (word_of_int \<bar>b\<bar> :: u8)" "unat (word_of_int \<bar>b\<bar> :: u8) = nat \<bar>b\<bar>" "word_of_int \<bar>b\<bar> \<noteq> (0 :: u8)"
proof -
  show "sint (strtol_int 10 (print_int b)) = b" by (rule strtol_print) (use assms(2) in auto)
  have "strtoll 10 (print_int b) = (b, False, length (print_int b))" by (rule strtoll_print) (use assms(2) in auto)
  then have v: "strtol_int 10 (print_int b) = word_of_int b" by (simp add: strtol_int_def)
  have u: "ucast (word_of_int x :: u32) = (word_of_int x :: u8)" if "0 \<le> x" "x \<le> 64" for x
    using that by (simp add: unsigned_of_int take_bit_int_eq_self)
  show "b < 0 \<Longrightarrow> ucast (- strtol_int 10 (print_int b)) = (word_of_int \<bar>b\<bar> :: u8)" "0 < b \<Longrightarrow> ucast (strtol_int 10 (print_int b)) = (word_of_int \<bar>b\<bar> :: u8)"
    using u[of "\<bar>b\<bar>"] assms(2) by (simp_all add: v)
  show n: "unat (word_of_int \<bar>b\<bar> :: u8) = nat \<bar>b\<bar>" using assms(2) by (simp add: unat_eq_nat_uint uint_word_of_int_eq take_bit_int_eq_self)
  show "word_of_int \<bar>b\<bar> \<noteq> (0 :: u8)" using n assms(1) by auto
qed

lemma check_bits_val:
  assumes "ok_bits (fullname zt) (Some b)" "\<not> tn_signExtend zt"
  shows "check_bits zt (strtol_int 10 (print_int b)) = ok (zt\<lparr>tn_numbits := word_of_int \<bar>b\<bar>, tn_signExtend := b < 0\<rparr>)" "\<bar>b\<bar> \<le> 64" "isFixedPoint (fullname zt)"
proof -
  obtain w where w: "isFixedPoint (fullname zt)" "b \<noteq> 0" "getPrimitiveTypeNumBits (fullname zt) = Some w" "\<bar>b\<bar> \<le> int w"
      "if fullname zt = str ''byte'' then 0 < b else \<bar>b\<bar> = int w \<longrightarrow> b < 0"
    using assms(1) by (auto simp: ok_bits_def split: option.splits)
  show "isFixedPoint (fullname zt)" by (rule w(1))
  show small: "\<bar>b\<bar> \<le> 64" using w(4) width_cases[OF w(3)] by auto
  note b = small_bits[OF w(2) small]
  have le: "nat \<bar>b\<bar> \<le> w" "nat \<bar>b\<bar> = w \<longleftrightarrow> \<bar>b\<bar> = int w" using w(4) by linarith+
  have same: "zt\<lparr>tn_numbits := x, tn_signExtend := False\<rparr> = zt\<lparr>tn_numbits := x\<rparr>" for x using assms(2) by (cases zt) simp
  show "check_bits zt (strtol_int 10 (print_int b)) = ok (zt\<lparr>tn_numbits := word_of_int \<bar>b\<bar>, tn_signExtend := b < 0\<rparr>)"
  proof (cases "b < 0")
    case True
    with w(3,5) b le show ?thesis by (simp add: check_bits_def Let_def not_less split: if_splits)
  next
    case False
    then have "0 < b" using w(2) by simp
    with w(3,5) b le same assms(2) show ?thesis by (simp add: check_bits_def Let_def not_less split: if_splits)
  qed
qed

lemma member_bits_val:
  assumes "coming t (bits_toks bits @ nm # ws)" "list_all good_tok (nm # ws)" "nm \<noteq> str '':''" "ok_bits (fullname zt) bits" "\<not> tn_signExtend zt"
  shows "gives (member_bits zt t) (\<lambda>(zt', t'). zt' = (case bits of None \<Rightarrow> zt | Some b \<Rightarrow> zt\<lparr>tn_numbits := word_of_int \<bar>b\<bar>, tn_signExtend := b < 0\<rparr>) \<and> coming t' (nm # ws))"
proof (cases bits)
  case None
  then have "coming t (nm # ws)" using assms(1) by (simp add: bits_toks_def)
  then show ?thesis unfolding member_bits_def using assms(2,3) None by (auto intro!: try_rule[of t nm ws])
next
  case (Some b)
  note b = check_bits_val[OF assms(4)[unfolded Some] assms(5)]
  let ?P = "\<lambda>(zt', t'). zt' = zt\<lparr>tn_numbits := word_of_int \<bar>b\<bar>, tn_signExtend := b < 0\<rparr> \<and> coming t' (nm # ws)"
  have c: "coming t (str '':'' # print_int b # nm # ws)" using assms(1) Some by (simp add: bits_toks_def)
  have good: "list_all good_tok (print_int b # nm # ws)" using assms(2) print_int_props(1)[of b] b(2) by simp
  have "gives (rbind (tokenizeNextOrFail u) (\<lambda>t. rbind (check_bits zt (strtol_int 10 (token_str t))) (\<lambda>zt. ok (zt, t)))) ?P" if "coming u (print_int b # nm # ws)" for u
    by (rule next_rule[OF that good]) (simp add: b(1))
  with Some b(3) good show ?thesis unfolding member_bits_def by (auto intro!: try_rule[OF c])
qed

text \<open>An item leaves the context as it was, without a comment.\<close>

definition adds :: "ZCMGen \<Rightarrow> ZCMStruct \<Rightarrow> item_src \<Rightarrow> name list \<Rightarrow> ZCMGen \<times> ZCMStruct \<times> tokenize_t \<Rightarrow> bool" where
  "adds zg zs i ws = (\<lambda>(zg', zs', t'). zg' = zg \<and> zs' = add_item zg zs i \<and> coming t' ws)"

definition quiet :: "ZCMGen \<Rightarrow> bool" where
  "quiet zg \<longleftrightarrow> zg_comment zg = [] \<and> \<not> errno_ERANGE zg"

lemma quiet_same: "quiet zg \<Longrightarrow> zg\<lparr>zg_comment := []\<rparr> = zg" "quiet zg \<Longrightarrow> zg\<lparr>errno_ERANGE := False\<rparr> = zg"
  by (cases zg, simp add: quiet_def)+

lemma member_loop_val:
  assumes "coming t (nm # dims_toks ds @ str '';'' # ws)" "ok_name zs nm" "list_all (ok_dim zs) ds" "legal_consts zs" "list_all good_tok ws" "quiet zg"
    and "zt = field_type zg zs ty bits"
  shows "gives (member_loop zt zg zs t) (adds zg zs (Field ty bits nm ds) ws)"
proof -
  let ?rest = "dims_toks ds @ str '';'' # ws"
  have good: "list_all good_tok (nm # ?rest)" using assms(2,3,5) dims_toks_good[OF assms(3)] by (simp add: ok_name_def)
  let ?m = "\<lparr>m_type = zt, m_membername = nm, m_dimensions = map (dim_val zs) ds, m_comment = []\<rparr>"
  have fin: "gives (rbind (parseTryConsume u (str '','')) (\<lambda>(b, t). if b then member_loop zt zg (zs\<lparr>members := members zs @ [?m]\<rparr>) t
        else rbind (parseRequire t (str '';'')) (\<lambda>t. ok (zg, zs\<lparr>members := members zs @ [?m]\<rparr>, t)))) (adds zg zs (Field ty bits nm ds) ws)"
    if "coming u (str '';'' # ws)" for u
    by (rule try_rule[OF that]) (use assms(5,7) in \<open>auto simp: adds_def intro!: require_rule\<close>)
  have q: "zg_comment zg = []" "zg\<lparr>zg_comment := []\<rparr> = zg" using assms(6) quiet_same(1)[OF assms(6)] by (simp_all add: quiet_def)
  show ?thesis
  proof (subst member_loop.simps, rule skip_rule[OF assms(1) good], rule next_rule[OF _ good], assumption)
    fix v assume v: "token_str v = nm" "coming v ?rest"
    have "gives (rbind (dims_loop zs [] v) (\<lambda>(ds, t). let zm = \<lparr>m_type = zt, m_membername = nm, m_dimensions = ds, m_comment = []\<rparr>; zs = zs\<lparr>members := members zs @ [zm]\<rparr>
         in rbind (parseTryConsume t (str '','')) (\<lambda>(b, t). if b then member_loop zt zg zs t else rbind (parseRequire t (str '';'')) (\<lambda>t. ok (zg, zs, t)))))
       (adds zg zs (Field ty bits nm ds) ws)"
      by (rule gives_bindI[OF dims_loop_val[OF v(2) assms(3,4,5)]]) (use fin in \<open>auto simp: Let_def\<close>)
    with v assms(2) show "gives (let nm = token_str v in if \<not> isLegalMemberName nm then stop Parse_Error
       else if findMember zs nm \<noteq> None then stop Semantic_Error
       else if findConst zs nm \<noteq> None then stop Semantic_Error
       else let comment = zg_comment zg; zg = zg\<lparr>zg_comment := []\<rparr> in
       rbind (dims_loop zs [] v) (\<lambda>(ds, t).
         let zm = \<lparr>m_type = zt, m_membername = nm, m_dimensions = ds, m_comment = comment\<rparr>; zs = zs\<lparr>members := members zs @ [zm]\<rparr>
         in rbind (parseTryConsume t (str '','')) (\<lambda>(b, t). if b then member_loop zt zg zs t else rbind (parseRequire t (str '';'')) (\<lambda>t. ok (zg, zs, t)))))
       (adds zg zs (Field ty bits nm ds) ws)" by (simp add: Let_def ok_name_def q)
  qed
qed

lemma mkTypename_plain: "tn_numbits (mkTypename g nm b) = 0" "\<not> tn_signExtend (mkTypename g nm b)"
  by (simp_all add: mkTypename_def Let_def split: option.splits)

lemma parseMember_field:
  assumes "coming t (item_toks (Field ty bits nm ds) @ ws)" "ok_item zg zs (Field ty bits nm ds)" "legal_consts zs" "list_all good_tok ws" "quiet zg"
  shows "gives (parseMember zg zs t) (adds zg zs (Field ty bits nm ds) ws)"
proof -
  let ?r2 = "nm # dims_toks ds @ str '';'' # ws"
  let ?r1 = "bits_toks bits @ ?r2"
  have ok: "good_tok ty" "isLegalTypeName ty" "ty \<noteq> str ''int''" "ty \<noteq> str ''struct''" "ty \<noteq> str ''const''" "ok_bits (fullname (field_type zg zs ty None)) bits" "ok_name zs nm" "list_all (ok_dim zs) ds"
    using assms(2) by simp_all
  have g2: "list_all good_tok ?r2" using ok(7) assms(4) dims_toks_good[OF ok(8)] by (simp add: ok_name_def)
  let ?zt = "mkTypename (gopt zg) (member_type zg zs ty) True"
  have zt: "field_type zg zs ty None = ?zt" by (simp add: field_type_def)
  have "\<bar>b\<bar> \<le> 64" if "bits = Some b" for b using check_bits_val(2)[of ?zt b] ok(6) that mkTypename_plain(2) by (simp add: zt)
  then have "list_all good_tok (bits_toks bits)" using print_int_props(1) by (auto simp: bits_toks_def split: option.splits)
  then have g1: "list_all good_tok (ty # ?r1)" using ok(1) g2 by simp
  have c: "coming t (ty # ?r1)" using assms(1) by simp
  have nm: "nm \<noteq> str '':''" using ok(7) legal_neq(1) by (auto simp: ok_name_def)
  have body: "gives (rbind (member_bits ?zt u) (\<lambda>(zt, t). member_loop zt zg zs t)) (adds zg zs (Field ty bits nm ds) ws)" if "coming u ?r1" for u
  proof (rule gives_bindI[OF member_bits_val[OF that g2 nm ok(6)[unfolded zt] mkTypename_plain(2)]], clarify)
    fix u' assume "coming u' (nm # dims_toks ds @ str '';'' # ws)"
    then show "gives (member_loop (case bits of None \<Rightarrow> ?zt | Some b \<Rightarrow> ?zt\<lparr>tn_numbits := word_of_int \<bar>b\<bar>, tn_signExtend := b < 0\<rparr>) zg zs u') (adds zg zs (Field ty bits nm ds) ws)"
      by (rule member_loop_val[OF _ ok(7,8) assms(3,4,5)]) (simp add: field_type_def Let_def)
  qed
  show ?thesis unfolding parseMember_def
  proof (rule try_miss[OF c g1 ok(4)], simp only: decided, rule try_miss[OF _ g1 ok(5)], assumption, simp only: decided, rule skip_rule[OF _ g1], assumption, rule next_rule[OF _ g1], assumption)
    fix v assume "token_str v = ty" "coming v ?r1"
    with ok(2,3) body show "gives (if \<not> isLegalTypeName (token_str v) then stop Parse_Error else if token_str v = str ''int'' then stop Semantic_Error
      else rbind (member_bits (mkTypename (gopt zg) (member_type zg zs (token_str v)) True) v) (\<lambda>(zt, t). member_loop zt zg zs t)) (adds zg zs (Field ty bits nm ds) ws)" by simp
  qed
qed

lemma ctype_cast_same:
  assumes "getPrimitiveTypeNumBits ty = Some w" "ctype_min ty w \<le> v" "v \<le> ctype_max ty w"
  shows "ctype_cast ty w v = v" "- (2 ^ 63) \<le> v" "v < 2 ^ 63"
proof -
  have w: "w \<in> {8, 16, 32, 64}" "ty = str ''byte'' \<longrightarrow> w = 8" using width_cases[OF assms(1)] by auto
  have "- (2 ^ 63) \<le> ctype_min ty w" "ctype_max ty w < 2 ^ 63" using w by (auto simp: ctype_min_def ctype_max_def)
  with assms(2,3) show "- (2 ^ 63) \<le> v" "v < 2 ^ 63" by linarith+
  show "ctype_cast ty w v = v"
    using assms(2,3) w by (auto simp: ctype_cast_def ctype_min_def ctype_max_def intro!: signed_take_bit_int_eq_self split: if_splits)
qed

lemma const_value_val:
  assumes "isFixedPoint ty" "getPrimitiveTypeNumBits ty = Some w" "ctype_min ty w \<le> v" "v \<le> ctype_max ty w" "quiet zg"
  shows "const_value zg ty 0 False (print_int v) = ok (print_int v, V_Int (word_of_int v), False)" "good_tok (print_int v)"
proof -
  note v = ctype_cast_same[OF assms(2-4)]
  note p = print_int_props[OF v(2,3)] strtoll_print[OF _ v(2,3), of 0]
  show "good_tok (print_int v)" by (rule p(1))
  have "int_in_bounds ty w 0 False (print_int v) v" using p(2) assms(3,4) by (simp add: int_in_bounds_def)
  moreover have "int_value ty w 0 False v = v" using v(1) by (simp add: int_value_def)
  ultimately have "int_case ty 0 False False (print_int v) = ok (print_int v, word_of_int v, False)"
    using assms(2) p(2,3,5) by (simp add: int_case_def print_const_def Let_def)
  then show "const_value zg ty 0 False (print_int v) = ok (print_int v, V_Int (word_of_int v), False)"
    using assms(1,5) by (simp add: const_value_def quiet_def)
qed

lemma fixedPoint_toks:
  assumes "isFixedPoint ty"
  shows "good_tok ty" "isLegalConstType ty"
  using assms by (auto simp: isFixedPoint_def fixedPointTypes_def isLegalConstType_def constTypes_def good_tok_def str_def wordch_def single_char_toks_def op_chars_def)

lemma parseMember_const:
  assumes "coming t (item_toks (Const ty nm v) @ ws)" "ok_item zg zs (Const ty nm v)" "list_all good_tok ws" "quiet zg"
  shows "gives (parseMember zg zs t) (adds zg zs (Const ty nm v) ws)"
proof -
  obtain w where ok: "isFixedPoint ty" "ok_name zs nm" "getPrimitiveTypeNumBits ty = Some w" "ctype_min ty w \<le> v" "v \<le> ctype_max ty w"
    using assms(2) by (auto split: option.splits)
  note val = const_value_val[OF ok(1,3-5) assms(4)] and ty = fixedPoint_toks[OF ok(1)]
  let ?r = "nm # str ''='' # print_int v # str '';'' # ws"
  have c: "coming t (str ''const'' # ty # ?r)" using assms(1) by simp
  have nm: "nm \<noteq> str '':''" using ok(2) legal_neq(1) by (auto simp: ok_name_def)
  have g: "list_all good_tok (str ''const'' # ty # ?r)" using ty val(2) ok(2) assms(3) by (simp add: ok_name_def)
  then have g1: "list_all good_tok (ty # ?r)" and g2: "list_all good_tok ?r" and g3: "list_all good_tok (str ''='' # print_int v # str '';'' # ws)"
    and g4: "list_all good_tok (print_int v # str '';'' # ws)" and g5: "list_all good_tok (str '';'' # ws)" by simp_all
  have loop: "gives (const_loop ty 0 False zg zs u) (adds zg zs (Const ty nm v) ws)" if "coming u ?r" for u
  proof (subst const_loop.simps, rule skip_rule[OF that g2], rule next_rule[OF _ g2], assumption)
    fix u' assume u': "token_str u' = nm" "coming u' (str ''='' # print_int v # str '';'' # ws)"
    let ?zc = "\<lparr>c_type = ty, c_membername = nm, c_val = V_Int (word_of_int v), c_valstr = print_int v, c_numbits = 0, c_signExtend = False, c_comment = []\<rparr>"
    have q: "zg_comment zg = []" "zg\<lparr>zg_comment := []\<rparr> = zg" "zg\<lparr>errno_ERANGE := False\<rparr> = zg" using assms(4) quiet_same[OF assms(4)] by (simp_all add: quiet_def)
    have fin: "gives (rbind (parseTryConsume x (str '','')) (\<lambda>(b, t). if b then const_loop ty 0 False zg (zs\<lparr>constants := constants zs @ [?zc]\<rparr>) t
        else rbind (parseRequire t (str '';'')) (\<lambda>t. ok (zg, zs\<lparr>constants := constants zs @ [?zc]\<rparr>, t)))) (adds zg zs (Const ty nm v) ws)"
      if "coming x (str '';'' # ws)" for x
      by (rule try_miss[OF that g5 tok_neq(2)], simp only: decided, rule require_rule[OF _ g5], assumption) (simp add: adds_def)
    have "gives (rbind (parseRequire u' (str ''='')) (\<lambda>t. rbind (skip_comments t) (\<lambda>t. rbind (tokenizeNextOrFail t) (\<lambda>t.
       rbind (const_value zg ty 0 False (token_str t)) (\<lambda>(valstr, v, errno).
         let zc = \<lparr>c_type = ty, c_membername = nm, c_val = v, c_valstr = valstr, c_numbits = of_nat 0, c_signExtend = False, c_comment = zg_comment zg\<rparr>;
             zg = zg\<lparr>zg_comment := [], errno_ERANGE := errno\<rparr>; zs = zs\<lparr>constants := constants zs @ [zc]\<rparr>
         in rbind (parseTryConsume t (str '','')) (\<lambda>(b, t). if b then const_loop ty 0 False zg zs t else rbind (parseRequire t (str '';'')) (\<lambda>t. ok (zg, zs, t)))))))) (adds zg zs (Const ty nm v) ws)"
      by (rule require_rule[OF u'(2) g3], rule skip_rule[OF _ g4], assumption, rule next_rule[OF _ g4], assumption) (use fin in \<open>simp add: val(1) q Let_def cong: if_cong\<close>)
    with u'(1) ok(2) show "gives (let membername = token_str u' in if \<not> isLegalMemberName membername then stop Parse_Error
       else if findMember zs membername \<noteq> None then stop Semantic_Error
       else if findConst zs membername \<noteq> None then stop Semantic_Error
       else rbind (parseRequire u' (str ''='')) (\<lambda>t. rbind (skip_comments t) (\<lambda>t. rbind (tokenizeNextOrFail t) (\<lambda>t.
       rbind (const_value zg ty 0 False (token_str t)) (\<lambda>(valstr, v, errno).
         let zc = \<lparr>c_type = ty, c_membername = membername, c_val = v, c_valstr = valstr, c_numbits = of_nat 0, c_signExtend = False, c_comment = zg_comment zg\<rparr>;
             zg = zg\<lparr>zg_comment := [], errno_ERANGE := errno\<rparr>; zs = zs\<lparr>constants := constants zs @ [zc]\<rparr>
         in rbind (parseTryConsume t (str '','')) (\<lambda>(b, t). if b then const_loop ty 0 False zg zs t else rbind (parseRequire t (str '';'')) (\<lambda>t. ok (zg, zs, t)))))))) (adds zg zs (Const ty nm v) ws)"
      by (simp add: ok_name_def)
  qed
  have bits: "gives (const_bits ty u) (\<lambda>(n, s, t'). n = 0 \<and> \<not> s \<and> coming t' ?r)" if "coming u ?r" for u
    unfolding const_bits_def by (rule try_miss[OF that g2 nm]) (simp only: decided gives_ok simp_thms)
  have const_decl: "gives (rbind (const_bits ty u) (\<lambda>(numbits, signExtend, t). const_loop ty numbits signExtend zg zs t)) (adds zg zs (Const ty nm v) ws)" if "coming u ?r" for u
    by (rule gives_bindI[OF bits[OF that]]) (use loop in auto)
  have "gives (parseConst zg zs u) (adds zg zs (Const ty nm v) ws)" if "coming u (ty # ?r)" for u
    unfolding parseConst_def
    by (rule skip_rule[OF that g1], rule next_rule[OF _ g1], assumption) (use ty(2) const_decl in \<open>simp add: Let_def\<close>)
  then show ?thesis unfolding parseMember_def
    by - (rule try_miss[OF c g tok_neq(3)], simp only: decided, rule try_hit[OF _ g], assumption, simp only: decided)
qed

section \<open>Structs\<close>

lemma parseMember_val:
  assumes "coming t (item_toks i @ ws)" "ok_item zg zs i" "legal_consts zs" "list_all good_tok ws" "quiet zg"
  shows "gives (parseMember zg zs t) (adds zg zs i ws)"
  using assms parseMember_field parseMember_const by (cases i) blast+

lemma item_toks_head:
  assumes "ok_item zg zs i"
  obtains w ws where "item_toks i = w # ws" "w \<noteq> str ''}''" "list_all good_tok (w # ws)"
proof (cases i)
  case (Field ty bits nm ds)
  have "\<bar>b\<bar> \<le> 64" if "bits = Some b" for b
    using check_bits_val(2)[of "field_type zg zs ty None" b] assms Field that mkTypename_plain(2) by (simp add: field_type_def Let_def)
  then have "list_all good_tok (bits_toks bits)" using print_int_props(1) by (auto simp: bits_toks_def split: option.splits)
  then show ?thesis using that[of ty] Field assms legal_neq(2) dims_toks_good[of zs ds] by (auto simp: ok_name_def)
next
  case (Const ty nm v)
  obtain w where w: "getPrimitiveTypeNumBits ty = Some w" "ctype_min ty w \<le> v" "v \<le> ctype_max ty w" "isFixedPoint ty" using assms Const by (auto split: option.splits)
  have "good_tok (print_int v)" by (rule print_int_props(1)) (rule ctype_cast_same[OF w(1-3)])+
  then show ?thesis using that[of "str ''const''"] Const assms fixedPoint_toks(1)[OF w(4)] by (simp add: ok_name_def)
qed

lemma item_toks_good: "ok_item zg zs i \<Longrightarrow> list_all good_tok (item_toks i)"
  by (erule item_toks_head) simp

lemma items_toks_good: "ok_items zg zs is \<Longrightarrow> list_all good_tok (concat (map item_toks is))"
  by (induction "is" arbitrary: zs) (auto simp: item_toks_good)

lemma legal_consts_add: "ok_item zg zs i \<Longrightarrow> legal_consts zs \<Longrightarrow> legal_consts (add_item zg zs i)"
  by (cases i) (auto simp: legal_consts_def ok_name_def)

lemma struct_loop_val:
  assumes "coming t (concat (map item_toks is) @ str ''}'' # ws)" "ok_items zg zs is" "legal_consts zs" "list_all good_tok ws" "quiet zg"
  shows "gives (struct_loop zg zs t) (\<lambda>(zg', zs', t'). zg' = zg \<and> zs' = foldl (add_item zg) zs is \<and> coming t' ws)"
  using assms(1-3)
proof (induction "is" arbitrary: zs t)
  case Nil
  have "coming t (str ''}'' # ws)" using Nil.prems(1) by simp
  then show ?case by (subst struct_loop.simps, rule try_hit) (use assms(4) in simp_all)
next
  case (Cons i "is")
  let ?rest = "concat (map item_toks is) @ str ''}'' # ws" and ?P = "\<lambda>(zg', zs', t'). zg' = zg \<and> zs' = foldl (add_item zg) zs (i # is) \<and> coming t' ws"
  have i: "ok_item zg zs i" using Cons.prems(2) by simp
  obtain w us where w: "item_toks i = w # us" "w \<noteq> str ''}''" "list_all good_tok (w # us)" by (rule item_toks_head[OF i])
  have rest: "list_all good_tok ?rest" using items_toks_good[of zg "add_item zg zs i" "is"] Cons.prems(2) assms(4) by simp
  have c: "coming t (w # us @ ?rest)" using Cons.prems(1) w(1) by simp
  have g: "list_all good_tok (w # us @ ?rest)" using w(3) rest by simp
  have member: "gives (rbind (parseMember zg zs u) (\<lambda>(zg, zs, t). struct_loop zg zs t)) ?P" if "coming u (w # us @ ?rest)" for u
  proof (rule gives_bindI[OF parseMember_val[OF _ i Cons.prems(3) rest assms(5)]])
    show "coming u (item_toks i @ ?rest)" using that w(1) by simp
    fix x assume "adds zg zs i ?rest x"
    with Cons.IH[of _ "add_item zg zs i"] Cons.prems(2) legal_consts_add[OF i Cons.prems(3)] show "gives (case x of (zg, zs, t) \<Rightarrow> struct_loop zg zs t) ?P"
      by (auto simp: adds_def)
  qed
  show ?case
    by (subst struct_loop.simps, rule try_miss[OF c g w(2)], simp only: decided, rule comment_rule[OF _ g], assumption,
        simp only: decided quiet_same(1)[OF assms(5)], rule try_miss[OF _ g w(2)], assumption, simp only: decided, rule member)
qed

lemma parseStruct_val:
  assumes "coming t (s_name d # str ''{'' # concat (map item_toks (s_items d)) @ str ''}'' # ws)" "ok_struct zg path d" "list_all good_tok ws" "quiet zg"
    and "pkg = (case s_pkg d of None \<Rightarrow> [] | Some p \<Rightarrow> p)"
  shows "gives (parseStruct hashing zg path pkg t) (\<lambda>(zg', zs, t'). zg' = zg \<and> zs = struct_val hashing zg path d \<and> coming t' ws)"
proof -
  let ?body = "concat (map item_toks (s_items d)) @ str ''}'' # ws" and ?zs = "empty_struct zg path d"
  have ok: "good_tok (s_name d)" "ok_items zg ?zs (s_items d)" and p: "\<And>p. s_pkg d = Some p \<Longrightarrow> p \<noteq> []"
    using assms(2) by (auto simp: ok_struct_def good_tok_def split: option.splits)
  have g: "list_all good_tok (s_name d # str ''{'' # ?body)" using ok(1) items_toks_good[OF ok(2)] assms(3) by simp
  then have g1: "list_all good_tok (str ''{'' # ?body)" by simp
  have q: "zg_comment zg = []" "zg\<lparr>zg_comment := []\<rparr> = zg" using assms(4) quiet_same(1)[OF assms(4)] by (simp_all add: quiet_def)
  have zs: "\<lparr>structname = mkTypename (gopt zg) (if pkg = [] then s_name d else pkg @ [46] @ s_name d) False, members = [], constants = [],
      zcmfile = path, hash = 0, zs_comment = []\<rparr> = ?zs"
    using p assms(5) by (auto simp: empty_struct_def split: option.splits)
  have legal: "legal_consts ?zs" by (simp add: legal_consts_def empty_struct_def)
  have "gives (rbind (struct_loop zg ?zs u) (\<lambda>(zg, zs, t). ok (zg, zs\<lparr>hash := computeHash (fst hashing) (snd hashing) zs\<rparr>, t)))
      (\<lambda>(zg', zs, t'). zg' = zg \<and> zs = struct_val hashing zg path d \<and> coming t' ws)" if "coming u ?body" for u
    by (rule gives_bindI[OF struct_loop_val[OF that ok(2) legal assms(3,4)]]) (auto simp: struct_val_def Let_def)
  note body = require_rule[OF _ g1 this]
  show ?thesis unfolding parseStruct_def
    by (rule skip_rule[OF assms(1) g], rule next_rule[OF _ g], assumption) (use body in \<open>simp add: Let_def q zs\<close>)
qed

section \<open>Files\<close>

definition struct_key :: "ZCMStruct \<Rightarrow> name \<times> name" where
  "struct_key zs = (package (structname zs), shortname (structname zs))"

lemma findStruct_key: "findStruct zg (package (structname zs)) (shortname (structname zs)) = None \<longleftrightarrow> struct_key zs \<notin> struct_key ` set (structs zg)"
  by (auto simp: findStruct_def find_None_iff struct_key_def)

lemma struct_toks_good: "ok_struct zg path d \<Longrightarrow> list_all good_tok (struct_toks d)"
  by (auto simp: ok_struct_def struct_toks_def items_toks_good split: option.splits)

text \<open>Nothing but the list of structs changes from one definition to the next.\<close>

lemma struct_val_gen:
  assumes "gopt zg' = gopt zg"
  shows "ok_struct zg' path d = ok_struct zg path d" "struct_val hashing zg' path d = struct_val hashing zg path d"
proof -
  have ft: "field_type zg' zs ty b = field_type zg zs ty b" for zs ty b using assms by (simp add: field_type_def member_type_def)
  have ai: "add_item zg' zs i = add_item zg zs i" for zs i by (cases i) (simp_all add: ft)
  have oi: "ok_item zg' zs i = ok_item zg zs i" for zs i by (cases i) (simp_all add: ft)
  have e: "empty_struct zg' path d = empty_struct zg path d" using assms by (simp add: empty_struct_def)
  have "ok_items zg' zs is = ok_items zg zs is" for zs "is" by (induction "is" arbitrary: zs) (simp_all add: oi ai)
  then show "ok_struct zg' path d = ok_struct zg path d" by (simp add: ok_struct_def e)
  show "struct_val hashing zg' path d = struct_val hashing zg path d" using ai by (simp add: struct_val_def e fun_eq_iff Let_def cong: foldl_cong)
qed

lemma parseEntity_struct:
  assumes "coming t (str ''struct'' # s_name d # str ''{'' # concat (map item_toks (s_items d)) @ str ''}'' # ws)" "ok_struct zg path d" "list_all good_tok ws" "quiet zg"
    and "zg_package zg = (case s_pkg d of None \<Rightarrow> [] | Some p \<Rightarrow> p)" "struct_key (struct_val hashing zg path d) \<notin> struct_key ` set (structs zg)"
  shows "gives (parseEntity hashing zg path t)
    (\<lambda>(r, zg', t'). r = 0 \<and> zg' = zg\<lparr>structs := structs zg @ [struct_val hashing zg path d], zg_package := []\<rparr> \<and> coming t' ws)"
proof -
  let ?r = "s_name d # str ''{'' # concat (map item_toks (s_items d)) @ str ''}'' # ws"
  let ?P = "\<lambda>(r, zg', t'). r = 0 \<and> zg' = zg\<lparr>structs := structs zg @ [struct_val hashing zg path d], zg_package := []\<rparr> \<and> coming t' ws"
  have g: "list_all good_tok (str ''struct'' # ?r)" using assms(2,3) items_toks_good by (auto simp: ok_struct_def)
  have "gives (rbind (parseStruct hashing zg path (zg_package zg) u) (\<lambda>(zg, zs, t).
      if findStruct zg (package (structname zs)) (shortname (structname zs)) \<noteq> None then ok (1, zg, t)
      else ok (0, zg\<lparr>structs := structs zg @ [zs], zg_package := []\<rparr>, t))) ?P" if "coming u ?r" for u
    by (rule gives_bindI[OF parseStruct_val[OF that assms(2-5)]]) (use assms(6) in \<open>auto simp: findStruct_key\<close>)
  then have tail: "gives (case x of (res, t) \<Rightarrow> if res = EOF then ok (EOF, zg, t)
       else if token_str t = str ''package'' then rbind (parseTryConsumeComment zg t) (\<lambda>(zg, t). rbind (tokenizeNextOrFail t) (\<lambda>t.
           let zg = zg\<lparr>zg_package := token_str t\<rparr> in rbind (parseRequire t (str '';'')) (\<lambda>t. ok (0, zg, t))))
       else if token_str t \<noteq> str ''struct'' then stop Parse_Error
       else rbind (parseStruct hashing zg path (zg_package zg) t) (\<lambda>(zg, zs, t).
         if findStruct zg (package (structname zs)) (shortname (structname zs)) \<noteq> None then ok (1, zg, t)
         else ok (0, zg\<lparr>structs := structs zg @ [zs], zg_package := []\<rparr>, t))) ?P"
    if "case x of (n, t') \<Rightarrow> n \<ge> 0 \<and> token_str t' = str ''struct'' \<and> token_type t' = ZCM_TOK_OTHER \<and> coming t' ?r" for x
    using that by auto
  show ?thesis unfolding parseEntity_def
    by (rule comment_rule[OF assms(1) g], simp only: decided quiet_same(1)[OF assms(4)], rule gives_bindI[OF next_coming]) (use tail in \<open>auto simp: Let_def\<close>)
qed

lemma parseEntity_package:
  assumes "coming t (str ''package'' # p # str '';'' # ws)" "good_tok p" "list_all good_tok ws" "quiet zg"
  shows "gives (parseEntity hashing zg path t) (\<lambda>(r, zg', t'). r = 0 \<and> zg' = zg\<lparr>zg_package := p\<rparr> \<and> coming t' ws)"
proof -
  let ?P = "\<lambda>(r, zg', t'). r = 0 \<and> zg' = zg\<lparr>zg_package := p\<rparr> \<and> coming t' ws"
  have g1: "list_all good_tok (str '';'' # ws)" and g2: "list_all good_tok (p # str '';'' # ws)" and g3: "list_all good_tok (str ''package'' # p # str '';'' # ws)"
    using assms(2,3) by simp_all
  have "gives (rbind (parseTryConsumeComment zg u) (\<lambda>(zg, t). rbind (tokenizeNextOrFail t) (\<lambda>t. let zg = zg\<lparr>zg_package := token_str t\<rparr> in
      rbind (parseRequire t (str '';'')) (\<lambda>t. ok (0, zg, t))))) ?P" if "coming u (p # str '';'' # ws)" for u
    by (rule comment_rule[OF that g2], simp only: decided quiet_same(1)[OF assms(4)], rule next_rule[OF _ g2], assumption, rule require_rule[OF _ g1], assumption) simp
  then have tail: "gives (case x of (res, t) \<Rightarrow> if res = EOF then ok (EOF, zg, t)
       else if token_str t = str ''package'' then rbind (parseTryConsumeComment zg t) (\<lambda>(zg, t). rbind (tokenizeNextOrFail t) (\<lambda>t.
           let zg = zg\<lparr>zg_package := token_str t\<rparr> in rbind (parseRequire t (str '';'')) (\<lambda>t. ok (0, zg, t))))
       else if token_str t \<noteq> str ''struct'' then stop Parse_Error
       else rbind (parseStruct hashing zg path (zg_package zg) t) (\<lambda>(zg, zs, t).
         if findStruct zg (package (structname zs)) (shortname (structname zs)) \<noteq> None then ok (1, zg, t)
         else ok (0, zg\<lparr>structs := structs zg @ [zs], zg_package := []\<rparr>, t))) ?P"
    if "case x of (n, t') \<Rightarrow> n \<ge> 0 \<and> token_str t' = str ''package'' \<and> token_type t' = ZCM_TOK_OTHER \<and> coming t' (p # str '';'' # ws)" for x
    using that by (auto simp: Let_def)
  show ?thesis unfolding parseEntity_def
    by (rule comment_rule[OF assms(1) g3], simp only: decided quiet_same(1)[OF assms(4)], rule gives_bindI[OF next_coming]) (use tail in \<open>auto simp: Let_def\<close>)
qed

lemma entity_loop_step:
  assumes "gives (parseEntity hashing zg path t) (\<lambda>(r, zg', t'). r = 0 \<and> Q zg' t')" "\<And>zg' t'. Q zg' t' \<Longrightarrow> gives (entity_loop hashing zg' path t') P"
  shows "gives (entity_loop hashing zg path t) P"
  by (subst entity_loop.simps, rule gives_bindI[OF assms(1)]) (use assms(2) in auto)

lemma entity_loop_end: "coming t [] \<Longrightarrow> quiet zg \<Longrightarrow> gives (entity_loop hashing zg path t) (\<lambda>(r, zg', t'). r = EOF \<and> zg' = zg)"
  unfolding entity_loop.simps[of hashing zg path t] parseEntity_def
  by (rule gives_bindI, rule comment_rule, assumption, simp, simp only: decided quiet_same(1), rule gives_bindI[OF next_end], assumption) auto

lemma entity_loop_val:
  assumes "coming t (concat (map struct_toks ds))" "list_all (ok_struct zg path) ds" "quiet zg" "zg_package zg = []"
    and "distinct (map struct_key (structs zg @ map (struct_val hashing zg path) ds))"
  shows "gives (entity_loop hashing zg path t) (\<lambda>(r, zg', t'). r = EOF \<and> structs zg' = structs zg @ map (struct_val hashing zg path) ds)"
  using assms
proof (induction ds arbitrary: zg t)
  case Nil
  then show ?case using entity_loop_end[of t zg hashing path] by (auto elim!: gives_mono)
next
  case (Cons d ds)
  let ?ws = "concat (map struct_toks ds)" and ?P = "\<lambda>(r, zg', t'). r = EOF \<and> structs zg' = structs zg @ map (struct_val hashing zg path) (d # ds)"
  let ?body = "str ''struct'' # s_name d # str ''{'' # concat (map item_toks (s_items d)) @ str ''}'' # ?ws"
  have ws: "list_all good_tok ?ws" using Cons.prems(2) struct_toks_good by (induction ds) (auto simp: list_all_iff)
  have d: "ok_struct zg path d" "struct_key (struct_val hashing zg path d) \<notin> struct_key ` set (structs zg)" using Cons.prems(2,5) by auto
  have str: "gives (entity_loop hashing zg' path u) ?P"
    if u: "coming u ?body" and zg': "zg' = zg\<lparr>zg_package := (case s_pkg d of None \<Rightarrow> [] | Some p \<Rightarrow> p)\<rparr>" for zg' u
  proof (rule entity_loop_step)
    have same: "gopt zg' = gopt zg" "structs zg' = structs zg" "quiet zg'" using Cons.prems(3) zg' by (simp_all add: quiet_def)
    show "gives (parseEntity hashing zg' path u) (\<lambda>(r, zg'', t'). r = 0 \<and> zg'' = zg'\<lparr>structs := structs zg' @ [struct_val hashing zg' path d], zg_package := []\<rparr> \<and> coming t' ?ws)"
      by (rule parseEntity_struct[OF u _ ws same(3)]) (use d zg' struct_val_gen[OF same(1)] in simp_all)
    fix zg'' v assume v: "zg'' = zg'\<lparr>structs := structs zg' @ [struct_val hashing zg' path d], zg_package := []\<rparr> \<and> coming v ?ws"
    have g: "gopt zg'' = gopt zg" using v same(1) by simp
    note sv = struct_val_gen[OF g] struct_val_gen[OF same(1)]
    have n: "list_all (ok_struct zg'' path) ds" "quiet zg''" "zg_package zg'' = []" "structs zg'' = structs zg @ [struct_val hashing zg path d]"
      using Cons.prems(2) v same sv by (simp_all add: quiet_def list_all_iff)
    have m: "map (struct_val hashing zg'' path) ds = map (struct_val hashing zg path) ds" by (simp add: sv)
    have "distinct (map struct_key (structs zg'' @ map (struct_val hashing zg'' path) ds))" unfolding n(4) m using Cons.prems(5) by simp
    from Cons.IH[OF _ n(1-3) this] v show "gives (entity_loop hashing zg'' path v) ?P" unfolding n(4) m by simp
  qed
  show ?case
  proof (cases "s_pkg d")
    case None
    have "zg\<lparr>zg_package := []\<rparr> = zg" using Cons.prems(4) by (cases zg) simp
    then show ?thesis using str[of t zg] Cons.prems(1) None by (simp add: struct_toks_def[of d])
  next
    case (Some p)
    have c: "coming t (str ''package'' # p # str '';'' # ?body)" using Cons.prems(1) Some by (simp add: struct_toks_def[of d])
    have g: "good_tok p" "list_all good_tok ?body" using d(1) ws Some items_toks_good by (auto simp: ok_struct_def)
    show ?thesis
      by (rule entity_loop_step[OF parseEntity_package[OF c g Cons.prems(3)]]) (use str Some in simp)
  qed
qed

section \<open>Properties\<close>


definition sample_src :: struct_src where
  "sample_src = \<lparr>s_pkg = Some (str ''p''), s_name = str ''s'',
     s_items = [Const (str ''int32_t'') (str ''N'') 4, Field (str ''int8_t'') None (str ''n'') [],
       Field (str ''float'') None (str ''a'') [D_Const (str ''N''), D_Var (str ''n''), D_Lit 3], Field (str ''int16_t'') (Some (- 5)) (str ''b'') []]\<rparr>"


end
