(* ===== verification/Zcm_Api.thy ===== *)
theory Zcm_Api
  imports Blocking Nonblocking Url
begin

text \<open>
  The interface of the library (\<^verbatim>\<open>zcm/zcm.c\<close>): a \<^verbatim>\<open>zcm_t\<close> is created from a URL, by way of the registered transports, and every call goes
  to the core that fits the transport. \<open>embedded\<close> tells whether the library is built with \<^verbatim>\<open>ZCM_EMBEDDED\<close>. The pointer
  \<^verbatim>\<open>impl\<close> has no type in the sources; following it to a core of the other kind, or to none, is a fault, as is a failed assertion.
\<close>

section \<open>Definitions\<close>

datatype 't zcm_impl = Impl_NULL | Impl_Blocking "'t zcm_blocking" | Impl_Nonblocking "'t zcm_nonblocking"

record 't zcm_t =
  z_type :: zcm_type
  z_impl :: "'t zcm_impl"

definition ZCM_RETURN_CODES :: "(string \<times> int \<times> string) list" where
  "ZCM_RETURN_CODES =
     [(''ZCM_EOK'', ZCM_EOK, ''Okay, no errors''),
      (''ZCM_EINVALID'', ZCM_EINVALID, ''Invalid arguments''),
      (''ZCM_EAGAIN'', ZCM_EAGAIN, ''Resource unavailable, try again''),
      (''ZCM_ECONNECT'', ZCM_ECONNECT, ''Transport connection failed''),
      (''ZCM_EINTR'', ZCM_EINTR, ''Operation was unexpectedly interrupted''),
      (''ZCM_EUNKNOWN'', ZCM_EUNKNOWN, ''Unknown error''),
      (''ZCM_EMEMORY'', ZCM_EMEMORY, ''Out of memory''),
      (''ZCM_EUNIMPL'', ZCM_EUNIMPL, ''Function is not implemented''),
      (''ZCM_NUM_RETURN_CODES'', ZCM_NUM_RETURN_CODES, ''Invalid return code'')]"

definition zcm_retcode_name_to_enum :: "string \<Rightarrow> int" where
  "zcm_retcode_name_to_enum name =
     (case find (\<lambda>(n, v, s). n = name) ZCM_RETURN_CODES of Some (n, v, s) \<Rightarrow> v | None \<Rightarrow> ZCM_NUM_RETURN_CODES)"

definition errcode_str :: "string list" where
  "errcode_str = map (\<lambda>(n, v, s). s) ZCM_RETURN_CODES"

text \<open>The conversion to \<^verbatim>\<open>unsigned\<close> is modulo \<open>2 ^ 32\<close>.\<close>

definition zcm_strerrno :: "int \<Rightarrow> string" where
  "zcm_strerrno err =
     (let err = (if err mod 2 ^ 32 \<ge> ZCM_NUM_RETURN_CODES then ZCM_NUM_RETURN_CODES else err)
      in errcode_str ! nat (err mod 2 ^ 32))"

subsection \<open>Creation\<close>

text \<open>\<open>mem\<close> is the memory of the non-blocking core, as in \<open>zcm_nonblocking_try_create\<close>; a transport pointer may be null.\<close>

definition zcm_init_from_trans ::
    "bool \<Rightarrow> (nb_sub list \<times> bool list) option \<Rightarrow> 't zcm_t \<Rightarrow> 't zcm_trans_t option \<Rightarrow> int \<times> 't zcm_t" where
  "zcm_init_from_trans embedded mem zcm zt =
     (case zt of
        None \<Rightarrow> (ZCM_EINVALID, zcm\<lparr>z_impl := Impl_NULL\<rparr>)
      | Some zt \<Rightarrow>
          (case trans_type zt of
             ZCM_BLOCKING \<Rightarrow>
               if embedded then (ZCM_EINVALID, zcm\<lparr>z_impl := Impl_NULL\<rparr>)
               else (let (ret, b) = zcm_blocking_try_create ZCM_BLOCKING zt
                     in (ret, zcm\<lparr>z_type := ZCM_BLOCKING,
                            z_impl := (if ret \<noteq> ZCM_EOK then Impl_NULL else case b of None \<Rightarrow> Impl_NULL | Some b \<Rightarrow> Impl_Blocking b)\<rparr>))
           | ZCM_NONBLOCKING \<Rightarrow>
               (let (ret, n) = zcm_nonblocking_try_create mem ZCM_NONBLOCKING zt
                in (ret, zcm\<lparr>z_type := ZCM_NONBLOCKING,
                       z_impl := (if ret \<noteq> ZCM_EOK then Impl_NULL else case n of None \<Rightarrow> Impl_NULL | Some n \<Rightarrow> Impl_Nonblocking n)\<rparr>))))"

type_synonym 't zcm_trans_create_func = "zcm_url \<Rightarrow> 't zcm_trans_t option"

text \<open>\<open>env\<close> is the value of \<^verbatim>\<open>ZCM_DEFAULT_URL\<close>, if any.\<close>

definition zcm_init ::
    "string option \<Rightarrow> 't zcm_trans_create_func registry \<Rightarrow> (nb_sub list \<times> bool list) option \<Rightarrow> 't zcm_t \<Rightarrow> string option \<Rightarrow> int \<times> 't zcm_t" where
  "zcm_init env reg mem zcm url =
     (case (if url = None \<or> url = Some [] then env else url) of
        None \<Rightarrow> (ZCM_EUNKNOWN, zcm)
      | Some url \<Rightarrow>
          (let u = zcm_url_create url
           in case zcm_transport_find (url_protocol u) reg of
                None \<Rightarrow> (ZCM_ECONNECT, zcm)
              | Some creator \<Rightarrow>
                  (case creator u of
                     None \<Rightarrow> (ZCM_ECONNECT, zcm)
                   | Some zt \<Rightarrow> zcm_init_from_trans False mem zcm (Some zt))))"

text \<open>\<open>zmem\<close> is the memory of the \<^verbatim>\<open>zcm_t\<close>, with arbitrary contents.\<close>

definition zcm_try_create ::
    "string option \<Rightarrow> 't zcm_trans_create_func registry \<Rightarrow> (nb_sub list \<times> bool list) option \<Rightarrow> 't zcm_t option \<Rightarrow> string option \<Rightarrow> int \<times> 't zcm_t option" where
  "zcm_try_create env reg mem zmem url =
     (case zmem of
        None \<Rightarrow> (ZCM_EMEMORY, None)
      | Some z \<Rightarrow>
          (let (ret, z) = zcm_init env reg mem z url
           in if ret \<noteq> ZCM_EOK then (ret, None) else (ZCM_EOK, Some z)))"

definition zcm_create ::
    "string option \<Rightarrow> 't zcm_trans_create_func registry \<Rightarrow> (nb_sub list \<times> bool list) option \<Rightarrow> 't zcm_t option \<Rightarrow> string option \<Rightarrow> 't zcm_t outcome" where
  "zcm_create env reg mem zmem url =
     (let (ret, z) = zcm_try_create env reg mem zmem url
      in if ret \<noteq> ZCM_EOK then Faults else case z of None \<Rightarrow> Faults | Some z \<Rightarrow> Returns z)"

definition zcm_try_create_from_trans ::
    "bool \<Rightarrow> (nb_sub list \<times> bool list) option \<Rightarrow> 't zcm_t option \<Rightarrow> 't zcm_trans_t option \<Rightarrow> int \<times> 't zcm_t option" where
  "zcm_try_create_from_trans embedded mem zmem zt =
     (case zmem of
        None \<Rightarrow> (ZCM_EMEMORY, None)
      | Some z \<Rightarrow>
          (let (ret, z) = zcm_init_from_trans embedded mem z zt
           in if ret \<noteq> ZCM_EOK then (ret, None) else (ZCM_EOK, Some z)))"

definition zcm_create_from_trans ::
    "bool \<Rightarrow> (nb_sub list \<times> bool list) option \<Rightarrow> 't zcm_t option \<Rightarrow> 't zcm_trans_t option \<Rightarrow> 't zcm_t outcome" where
  "zcm_create_from_trans embedded mem zmem zt =
     (let (ret, z) = zcm_try_create_from_trans embedded mem zmem zt
      in if ret \<noteq> ZCM_EOK then Faults else case z of None \<Rightarrow> Faults | Some z \<Rightarrow> Returns z)"

subsection \<open>Calls\<close>

text \<open>
  Following \<^verbatim>\<open>impl\<close> to the core that the type names. A call of the blocking core gives its result or the point where the calling
  thread goes on; a call of the non-blocking core also gives the handlers called.
\<close>

definition the_blocking :: "'t zcm_t \<Rightarrow> 't zcm_blocking outcome" where
  "the_blocking z = (case z_impl z of Impl_Blocking b \<Rightarrow> Returns b | _ \<Rightarrow> Faults)"

definition the_nonblocking :: "'t zcm_t \<Rightarrow> 't zcm_nonblocking outcome" where
  "the_nonblocking z = (case z_impl z of Impl_Nonblocking n \<Rightarrow> Returns n | _ \<Rightarrow> Faults)"

definition on_blocking :: "('t zcm_blocking \<Rightarrow> ('a \<times> 't zcm_blocking) outcome) \<Rightarrow> 't zcm_t \<Rightarrow> ('a \<times> 't zcm_t) outcome" where
  "on_blocking f z = obind (the_blocking z) (\<lambda>b. obind (f b) (\<lambda>(r, b). Returns (r, z\<lparr>z_impl := Impl_Blocking b\<rparr>)))"

definition on_nonblocking :: "('t zcm_nonblocking \<Rightarrow> ('a \<times> 't zcm_nonblocking) option) \<Rightarrow> 't zcm_t \<Rightarrow> ('a \<times> 't zcm_t) outcome" where
  "on_nonblocking f z = obind (the_nonblocking z) (\<lambda>n. obind (of_opt (f n)) (\<lambda>(r, n). Returns (r, z\<lparr>z_impl := Impl_Nonblocking n\<rparr>)))"

text \<open>The choice between the cores; the embedded library asserts that the type is the non-blocking one.\<close>

definition switch :: "bool \<Rightarrow> ('t zcm_t \<Rightarrow> 'a outcome) \<Rightarrow> ('t zcm_t \<Rightarrow> 'a outcome) \<Rightarrow> 't zcm_t \<Rightarrow> 'a outcome" where
  "switch embedded blk nonblk z =
     (case z_type z of ZCM_BLOCKING \<Rightarrow> if embedded then Faults else blk z | ZCM_NONBLOCKING \<Rightarrow> nonblk z)"

definition blocking_only :: "('t zcm_blocking \<Rightarrow> ('a \<times> 't zcm_blocking) outcome) \<Rightarrow> 't zcm_t \<Rightarrow> ('a \<times> 't zcm_t) outcome" where
  "blocking_only f z = (if z_type z \<noteq> ZCM_BLOCKING then Faults else on_blocking f z)"

definition zcm_publish :: "bool \<Rightarrow> u64 \<Rightarrow> 't zcm_t \<Rightarrow> cstring \<Rightarrow> u8 list \<Rightarrow> (cont \<times> 't zcm_t) outcome" where
  "zcm_publish embedded now z channel data =
     switch embedded
       (on_blocking (publish_call now channel data))
       (on_nonblocking (\<lambda>n. map_option (\<lambda>(rc, n). (Return rc, n)) (zcm_nonblocking_publish n channel data now))) z"

definition zcm_flush :: "bool \<Rightarrow> 't zcm_t \<Rightarrow> ((cont \<times> nb_call list) \<times> 't zcm_t) outcome" where
  "zcm_flush embedded z =
     switch embedded
       (on_blocking (\<lambda>b. obind (flush_call True b) (\<lambda>(c, b). Returns ((c, []), b))))
       (on_nonblocking (\<lambda>n. map_option (\<lambda>(calls, n). ((Return ZCM_EOK, calls), n)) (zcm_nonblocking_flush n))) z"

datatype sub_handle = Sub_Blocking zcm_sub_t | Sub_Nonblocking int

text \<open>\<open>lock_free\<close> is whether the locks of the blocking core's subscriptions are free.\<close>

definition zcm_subscribe_with :: "bool \<Rightarrow> bool \<Rightarrow> regex_lib \<Rightarrow> bool \<Rightarrow> 't zcm_t \<Rightarrow> cstring \<Rightarrow> nat \<Rightarrow> nat \<Rightarrow> (sub_handle option \<times> 't zcm_t) outcome" where
  "zcm_subscribe_with block embedded rx lock_free z channel cb usr =
     switch embedded
       (on_blocking (\<lambda>b. obind (subscribe rx lock_free block channel cb usr b) (\<lambda>(s, b). Returns (map_option Sub_Blocking s, b))))
       (on_nonblocking (\<lambda>n. map_option (\<lambda>(i, n). (map_option (\<lambda>i. Sub_Nonblocking (int i)) i, n)) (zcm_nonblocking_subscribe n channel cb usr))) z"

definition zcm_subscribe :: "bool \<Rightarrow> regex_lib \<Rightarrow> bool \<Rightarrow> 't zcm_t \<Rightarrow> cstring \<Rightarrow> nat \<Rightarrow> nat \<Rightarrow> (sub_handle option \<times> 't zcm_t) outcome" where
  "zcm_subscribe = zcm_subscribe_with True"

definition zcm_try_subscribe :: "bool \<Rightarrow> regex_lib \<Rightarrow> bool \<Rightarrow> 't zcm_t \<Rightarrow> cstring \<Rightarrow> nat \<Rightarrow> nat \<Rightarrow> (sub_handle option \<times> 't zcm_t) outcome" where
  "zcm_try_subscribe = zcm_subscribe_with False"

text \<open>A handle of the other core is a pointer to some other object.\<close>

definition zcm_unsubscribe_with :: "bool \<Rightarrow> bool \<Rightarrow> bool \<Rightarrow> 't zcm_t \<Rightarrow> sub_handle \<Rightarrow> (int \<times> 't zcm_t) outcome" where
  "zcm_unsubscribe_with block embedded lock_free z sub =
     switch embedded
       (on_blocking (\<lambda>b. case sub of Sub_Blocking s \<Rightarrow> unsubscribe lock_free block s b | Sub_Nonblocking _ \<Rightarrow> Faults))
       (on_nonblocking (\<lambda>n. case sub of Sub_Nonblocking i \<Rightarrow> zcm_nonblocking_unsubscribe n i | Sub_Blocking _ \<Rightarrow> None)) z"

definition zcm_unsubscribe :: "bool \<Rightarrow> bool \<Rightarrow> 't zcm_t \<Rightarrow> sub_handle \<Rightarrow> (int \<times> 't zcm_t) outcome" where
  "zcm_unsubscribe = zcm_unsubscribe_with True"

definition zcm_try_unsubscribe :: "bool \<Rightarrow> bool \<Rightarrow> 't zcm_t \<Rightarrow> sub_handle \<Rightarrow> (int \<times> 't zcm_t) outcome" where
  "zcm_try_unsubscribe = zcm_unsubscribe_with False"

text \<open>\<open>i\<close> is the calling thread.\<close>

definition zcm_start :: "'t zcm_t \<Rightarrow> (cont \<times> 't zcm_t) outcome" where "zcm_start = blocking_only start_call"
definition zcm_stop :: "nat \<Rightarrow> 't zcm_t \<Rightarrow> (cont \<times> 't zcm_t) outcome" where "zcm_stop i = blocking_only (stop_call i True)"
definition zcm_try_stop :: "nat \<Rightarrow> 't zcm_t \<Rightarrow> (cont \<times> 't zcm_t) outcome" where "zcm_try_stop i = blocking_only (stop_call i False)"
definition zcm_run :: "'t zcm_t \<Rightarrow> (cont \<times> 't zcm_t) outcome" where "zcm_run = blocking_only run_call"
definition zcm_pause :: "'t zcm_t \<Rightarrow> (cont \<times> 't zcm_t) outcome" where "zcm_pause = blocking_only pause_call"
definition zcm_resume :: "'t zcm_t \<Rightarrow> (cont \<times> 't zcm_t) outcome" where "zcm_resume = blocking_only resume_call"
definition zcm_handle :: "'t zcm_t \<Rightarrow> (cont \<times> 't zcm_t) outcome" where "zcm_handle = blocking_only (handle_call False)"
definition zcm_set_queue_size :: "'t zcm_t \<Rightarrow> nat \<Rightarrow> (cont \<times> 't zcm_t) outcome" where
  "zcm_set_queue_size z numMsgs = blocking_only (setQueueSize_call numMsgs True) z"
definition zcm_try_set_queue_size :: "'t zcm_t \<Rightarrow> nat \<Rightarrow> (cont \<times> 't zcm_t) outcome" where
  "zcm_try_set_queue_size z numMsgs = blocking_only (setQueueSize_call numMsgs False) z"

definition zcm_handle_nonblock :: "bool \<Rightarrow> 't zcm_t \<Rightarrow> ((cont \<times> nb_call list) \<times> 't zcm_t) outcome" where
  "zcm_handle_nonblock embedded z =
     switch embedded
       (on_blocking (\<lambda>b. obind (handle_call True b) (\<lambda>(c, b). Returns ((c, []), b))))
       (on_nonblocking (\<lambda>n. map_option (\<lambda>(rc, calls, n). ((Return rc, calls), n)) (zcm_nonblocking_handle_nonblock n))) z"

text \<open>The embedded library calls \<^verbatim>\<open>zcm_nonblocking_handle_nonblock\<close> here.\<close>

definition zcm_query_drops :: "bool \<Rightarrow> 't zcm_t \<Rightarrow> u64 \<Rightarrow> ((int \<times> u64 \<times> nb_call list) \<times> 't zcm_t) outcome" where
  "zcm_query_drops embedded z out_drops =
     switch embedded
       (on_blocking (\<lambda>b. obind (queryDrops out_drops b) (\<lambda>(rc, d, b). Returns ((rc, d, []), b))))
       (if embedded then on_nonblocking (\<lambda>n. map_option (\<lambda>(rc, calls, n). ((rc, out_drops, calls), n)) (zcm_nonblocking_handle_nonblock n))
        else on_nonblocking (\<lambda>n. map_option (\<lambda>(rc, d, n). ((rc, d, []), n)) (zcm_nonblocking_query_drops n out_drops))) z"

definition zcm_try_flush :: "bool \<Rightarrow> 't zcm_t \<Rightarrow> ((cont \<times> nb_call list) \<times> 't zcm_t) outcome" where
  "zcm_try_flush embedded z =
     switch embedded
       (on_blocking (\<lambda>b. obind (flush_call False b) (\<lambda>(c, b). Returns ((c, []), b))))
       (on_nonblocking (\<lambda>n. map_option (\<lambda>(calls, n). ((Return ZCM_EOK, calls), n)) (zcm_nonblocking_flush n))) z"

subsection \<open>The registration of the in-process transport\<close>

definition create_blocking :: "('e \<Rightarrow> u64 \<times> 'e) \<Rightarrow> 'e \<Rightarrow> 'e inproc zcm_trans_create_func" where
  "create_blocking utime clock url =
     Some \<lparr>trans_type = ZCM_BLOCKING, trans_vtbl = inproc_methods utime, trans_state = inproc_new True clock\<rparr>"

definition create_nonblocking :: "('e \<Rightarrow> u64 \<times> 'e) \<Rightarrow> 'e \<Rightarrow> 'e inproc zcm_trans_create_func" where
  "create_nonblocking utime clock url =
     Some \<lparr>trans_type = ZCM_NONBLOCKING, trans_vtbl = inproc_methods utime, trans_state = inproc_new False clock\<rparr>"

definition register_inproc ::
    "('e \<Rightarrow> u64 \<times> 'e) \<Rightarrow> 'e \<Rightarrow> 'e inproc zcm_trans_create_func registry \<Rightarrow> 'e inproc zcm_trans_create_func registry" where
  "register_inproc utime clock reg =
     (let (_, reg) = zcm_transport_register ''block-inproc'' ''Blocking in-process deterministic transport'' (create_blocking utime clock) reg;
          (_, reg) = zcm_transport_register ''nonblock-inproc''
            ''Nonblocking in-process deterministic transport. NOT INTERNALLY THREADSAFE'' (create_nonblocking utime clock) reg
      in reg)"

section \<open>Calls on a non-blocking core\<close>

definition zcm_nonblock :: "'t zcm_nonblocking \<Rightarrow> 't zcm_t" where
  "zcm_nonblock n = \<lparr>z_type = ZCM_NONBLOCKING, z_impl = Impl_Nonblocking n\<rparr>"

text \<open>The calls that \<open>nb_exec\<close> makes directly on the core, made through the interface.\<close>

fun api_exec :: "bool \<Rightarrow> regex_lib \<Rightarrow> nb_op \<Rightarrow> 't zcm_t \<Rightarrow> (nb_out \<times> 't zcm_t) outcome" where
  "api_exec embedded rx (Publish c d t) z =
     obind (zcm_publish embedded t z c d) (\<lambda>(r, z). case r of Return rc \<Rightarrow> Returns (Code rc, z) | Continue _ \<Rightarrow> Faults)"
| "api_exec embedded rx (Subscribe c cb usr) z =
     obind (zcm_subscribe embedded rx True z c cb usr)
       (\<lambda>(h, z). Returns (Handle_of (case h of Some (Sub_Nonblocking i) \<Rightarrow> Some (nat i) | _ \<Rightarrow> None), z))"
| "api_exec embedded rx (Unsubscribe h) z =
     obind (zcm_unsubscribe embedded True z (Sub_Nonblocking h)) (\<lambda>(rc, z). Returns (Code rc, z))"
| "api_exec embedded rx Handle z =
     obind (zcm_handle_nonblock embedded z) (\<lambda>((r, calls), z). case r of Return rc \<Rightarrow> Returns (Calls rc calls, z) | Continue _ \<Rightarrow> Faults)"

fun api_run :: "bool \<Rightarrow> regex_lib \<Rightarrow> nb_op list \<Rightarrow> 't zcm_t \<Rightarrow> (nb_out list \<times> 't zcm_t) outcome" where
  "api_run embedded rx [] z = Returns ([], z)"
| "api_run embedded rx (op # ops) z =
     obind (api_exec embedded rx op z) (\<lambda>(out, z). obind (api_run embedded rx ops z) (\<lambda>(outs, z). Returns (out # outs, z)))"

lemma on_nonblocking_nonblock [simp]:
  "on_nonblocking f (zcm_nonblock n) = obind (of_opt (f n)) (\<lambda>(r, n). Returns (r, zcm_nonblock n))"
  by (simp add: on_nonblocking_def the_nonblocking_def zcm_nonblock_def)

lemma switch_nonblock [simp]: "switch embedded f g (zcm_nonblock n) = g (zcm_nonblock n)"
  by (simp add: switch_def zcm_nonblock_def)

lemma obind_of_opt_map: "obind (of_opt (map_option f r)) g = obind (of_opt r) (\<lambda>x. g (f x))"
  by (cases r) auto

lemma api_exec_nonblock:
  "api_exec embedded rx op (zcm_nonblock n) = of_opt (map_option (\<lambda>(out, n). (out, zcm_nonblock n)) (nb_exec op n))"
proof (cases op)
  case (Publish c d t)
  then show ?thesis by (cases "zcm_nonblocking_publish n c d t") (auto simp: zcm_publish_def)
next
  case (Subscribe c cb usr)
  show ?thesis
  proof (cases "zcm_nonblocking_subscribe n c cb usr")
    case (Some r)
    with Subscribe show ?thesis by (cases r; cases "fst r") (auto simp: zcm_subscribe_def zcm_subscribe_with_def)
  qed (simp add: Subscribe zcm_subscribe_def zcm_subscribe_with_def)
next
  case (Unsubscribe h)
  then show ?thesis by (cases "zcm_nonblocking_unsubscribe n h") (auto simp: zcm_unsubscribe_def zcm_unsubscribe_with_def)
next
  case Handle
  then show ?thesis by (cases "zcm_nonblocking_handle_nonblock n") (auto simp: zcm_handle_nonblock_def)
qed

lemma api_run_nonblock:
  "api_run embedded rx ops (zcm_nonblock n) = of_opt (map_option (\<lambda>(outs, n). (outs, zcm_nonblock n)) (nb_run ops n))"
proof (induction ops arbitrary: n)
  case (Cons op ops)
  show ?case
  proof (cases "nb_exec op n")
    case (Some r)
    obtain out n' where r: "r = (out, n')" by fastforce
    with Some Cons.IH[of n'] show ?thesis by (cases "nb_run ops n'") (auto simp: api_exec_nonblock)
  qed (simp add: api_exec_nonblock)
qed simp

text \<open>What \<open>zcm_try_create\<close> makes of the URL of the in-process transport.\<close>

lemma find_register:
  assumes "zcm_transport_find name reg = None" "length reg < ZCM_TRANSPORTS_MAX"
  shows "zcm_transport_register name desc creator reg = (True, reg @ [(name, desc, creator)])"
  using assms by (auto simp: zcm_transport_register_def find_None name_taken)

lemma find_append_list: "zcm_transport_find name reg = None \<Longrightarrow> zcm_transport_find name (reg @ reg') = zcm_transport_find name reg'"
  by (induction reg) (auto split: if_splits)

lemma register_inproc_find:
  assumes "zcm_transport_find ''block-inproc'' reg = None" "zcm_transport_find ''nonblock-inproc'' reg = None" "length reg + 2 \<le> ZCM_TRANSPORTS_MAX"
  shows "zcm_transport_find ''block-inproc'' (register_inproc utime clock reg) = Some (create_blocking utime clock)"
    "zcm_transport_find ''nonblock-inproc'' (register_inproc utime clock reg) = Some (create_nonblocking utime clock)"
proof -
  let ?reg = "reg @ [(''block-inproc'', ''Blocking in-process deterministic transport'', create_blocking utime clock)]"
  have "zcm_transport_find ''nonblock-inproc'' ?reg = None" using assms(2) by (simp add: find_append)
  note r = find_register[OF this] find_register[OF assms(1)]
  show "zcm_transport_find ''block-inproc'' (register_inproc utime clock reg) = Some (create_blocking utime clock)"
    "zcm_transport_find ''nonblock-inproc'' (register_inproc utime clock reg) = Some (create_nonblocking utime clock)"
    using assms r by (simp_all add: register_inproc_def find_append_list)
qed

lemma try_create_nonblock_inproc:
  assumes "zcm_transport_find ''nonblock-inproc'' reg = Some (create_nonblocking utime clock)"
  shows "zcm_try_create env reg (Some (subs, isRegex)) (Some zmem) (Some ''nonblock-inproc'')
    = (ZCM_EOK, Some (zcm_nonblock (nb_inproc_new utime clock subs isRegex)))"
proof -
  have "find_sub ''://'' ''nonblock-inproc'' = None" by code_simp
  then have "url_protocol (zcm_url_create ''nonblock-inproc'') = ''nonblock-inproc''" by (simp add: zcm_url_create_def del: find_sub.simps)
  with assms show ?thesis
    by (simp add: zcm_try_create_def zcm_init_def zcm_init_from_trans_def create_nonblocking_def nb_inproc_new_def zcm_nonblocking_try_create_def
      zcm_nonblock_def Let_def del: zcm_transport_find.simps)
qed

lemma inproc_subscriptions:
  assumes "length subs = ZCM_NONBLOCK_SUBS_MAX" "length isRegex = ZCM_NONBLOCK_SUBS_MAX" "list_all subscribes ops"
  shows "\<exists>outs z. nb_run ops (nb_inproc_new utime clock subs isRegex) = Some (outs, z) \<and> nb_spec_run Map.empty ops outs (nb_abs z)"
proof -
  let ?z = "nb_inproc_new utime clock subs isRegex"
  have "nb_inv ?z \<and> nb_abs ?z = Map.empty \<and> trans_vtbl (nb_zt ?z) = inproc_methods utime"
    using create_inv[of subs isRegex ZCM_NONBLOCKING _ ?z] assms by (auto simp: nb_inproc_new_def zcm_nonblocking_try_create_def)
  moreover have "list_all nb_op_ok ops"
    using assms(3) by (auto simp: list_all_iff subscribes_def nb_op_ok_def split: nb_op.splits)
  ultimately show ?thesis using inproc.run_ok[of utime ?z ops] by (auto simp: inproc.nb_ok_def inproc.trans_ok_def)
qed

section \<open>Properties\<close>



text \<open>
  Error codes are negative and their conversion to \<^verbatim>\<open>unsigned\<close> is always beyond the table of messages: \<^verbatim>\<open>zcm_strerrno\<close> describes every error as an
  invalid return code, although the table has a message for each, which the name of the code leads to.
\<close>

theorem zcm_strerrno_errors:
  "(- (2 ^ 31) \<le> err \<and> err < 0 \<longrightarrow> zcm_strerrno err = ''Invalid return code'')
    \<and> zcm_strerrno ZCM_EOK = ''Okay, no errors''
    \<and> list_all (\<lambda>(n, v, s). zcm_retcode_name_to_enum n = v) ZCM_RETURN_CODES"
proof (intro conjI impI)
  assume e: "- (2 ^ 31) \<le> err \<and> err < 0"
  then have "err mod 2 ^ 32 = err + 2 ^ 32" using mod_pos_pos_trivial[of "err + 2 ^ 32" "2 ^ 32"] by simp
  with e have "err mod 2 ^ 32 \<ge> ZCM_NUM_RETURN_CODES" by (simp add: ZCM_NUM_RETURN_CODES_def)
  then show "zcm_strerrno err = ''Invalid return code''"
    by (simp add: zcm_strerrno_def errcode_str_def ZCM_RETURN_CODES_def ZCM_NUM_RETURN_CODES_def)
qed (simp_all add: zcm_strerrno_def errcode_str_def ZCM_RETURN_CODES_def retcode_defs zcm_retcode_name_to_enum_def)

theorem zcm_strerrno_errors_witness:
  "zcm_strerrno ZCM_EAGAIN = ''Invalid return code'' \<and> zcm_retcode_name_to_enum ''ZCM_EAGAIN'' = ZCM_EAGAIN"
  using zcm_strerrno_errors[of ZCM_EAGAIN] by (simp add: ZCM_RETURN_CODES_def retcode_defs)

text \<open>In the embedded library a query of the dropped messages handles a message instead and leaves the counter of the caller as it was.\<close>

lemma embedded_query_drops_handles:
  "zcm_query_drops True (zcm_nonblock n) d =
    (case zcm_nonblocking_handle_nonblock n of None \<Rightarrow> Faults | Some (rc, calls, n) \<Rightarrow> Returns ((rc, d, calls), zcm_nonblock n))"
  by (cases "zcm_nonblocking_handle_nonblock n") (auto simp: zcm_query_drops_def)

end
