(* ===== verification/Log_File.thy ===== *)
theory Log_File
  imports Eventlog_Seek
begin

text \<open>
  Log files of C++ programs (\<^verbatim>\<open>LogFile\<close> of \<^verbatim>\<open>zcm/zcm-cpp.hpp\<close> and \<^verbatim>\<open>zcm/zcm-cpp-impl.hpp\<close>): an event log, the event it has read last, which it owns, and the
  \<^verbatim>\<open>LogEvent\<close> it hands out. A method of a file that is not open, or an event that is null, is a fault (\<open>None\<close>).
\<close>

record LogEvent =
  ev_eventnum :: u64
  ev_timestamp :: u64
  ev_channel :: "u8 list"
  ev_datalen :: u32
  ev_data :: "u8 list"

record LogFile =
  lf_eventlog :: "zcm_eventlog_t option"
  lf_lastevent :: "zcm_eventlog_event_t option"
  lf_curEvent :: LogEvent

definition no_event :: LogEvent where
  "no_event = \<lparr>ev_eventnum = 0, ev_timestamp = 0, ev_channel = [], ev_datalen = 0, ev_data = []\<rparr>"

text \<open>A disk maps paths to the contents of files; a path is a file, and two paths are two files.\<close>

record disk =
  content :: "string \<Rightarrow> u8 list option"
  readable :: "string \<Rightarrow> bool"
  room :: "string \<Rightarrow> nat option"

definition LogFile_create :: "disk \<Rightarrow> string \<Rightarrow> string \<Rightarrow> LogFile option" where
  "LogFile_create dk path mode =
     map_option (\<lambda>l. \<lparr>lf_eventlog = l, lf_lastevent = None, lf_curEvent = no_event\<rparr>)
       (zcm_eventlog_create (if mode = ''r'' \<and> \<not> readable dk path then None else content dk path) (room dk path) mode)"

text \<open>Closing a file flushes it: the result has the file as it is then on the disk.\<close>

definition LogFile_close :: "LogFile \<Rightarrow> FILE option \<times> LogFile" where
  "LogFile_close lf = (map_option el_f (lf_eventlog lf), lf\<lparr>lf_eventlog := None, lf_lastevent := None\<rparr>)"

definition flush_disk :: "string \<Rightarrow> LogFile \<Rightarrow> disk \<Rightarrow> disk" where
  "flush_disk path lf dk = (case fst (LogFile_close lf) of None \<Rightarrow> dk | Some f \<Rightarrow> dk\<lparr>content := (content dk)(path := Some (f_data f))\<rparr>)"

definition good :: "LogFile \<Rightarrow> bool" where
  "good lf \<longleftrightarrow> lf_eventlog lf \<noteq> None"

definition getFilePtr :: "LogFile \<Rightarrow> FILE option" where
  "getFilePtr lf = map_option el_f (lf_eventlog lf)"

definition cplusplusIfyEvent :: "LogFile \<Rightarrow> zcm_eventlog_event_t option \<Rightarrow> (LogEvent option \<times> LogFile) option" where
  "cplusplusIfyEvent lf evt =
     (let lf = lf\<lparr>lf_lastevent := evt\<rparr>
      in case evt of
           None \<Rightarrow> Some (None, lf)
         | Some evt \<Rightarrow>
             if sint (le_channellen evt) < 0 then None
             else do {
               channel \<leftarrow> mem_slice (le_channel evt) 0 (unat (le_channellen evt));
               let curEvent = \<lparr>ev_eventnum = le_eventnum evt, ev_timestamp = le_timestamp evt, ev_channel = channel,
                               ev_datalen = le_datalen evt, ev_data = le_data evt\<rparr>;
               Some (Some curEvent, lf\<lparr>lf_curEvent := curEvent\<rparr>)
             })"

definition seekToTimestamp :: "LogFile \<Rightarrow> u64 \<Rightarrow> (int \<times> LogFile) option" where
  "seekToTimestamp lf timestamp =
     do { l \<leftarrow> lf_eventlog lf; (r, l) \<leftarrow> zcm_eventlog_seek_to_timestamp l timestamp; Some (r, lf\<lparr>lf_eventlog := Some l\<rparr>) }"

definition readNextEvent :: "LogFile \<Rightarrow> (LogEvent option \<times> LogFile) option" where
  "readNextEvent lf =
     do { l \<leftarrow> lf_eventlog lf; (evt, l) \<leftarrow> zcm_eventlog_read_next_event l; cplusplusIfyEvent (lf\<lparr>lf_eventlog := Some l\<rparr>) evt }"

definition readPrevEvent :: "LogFile \<Rightarrow> (LogEvent option \<times> LogFile) option" where
  "readPrevEvent lf =
     do { l \<leftarrow> lf_eventlog lf; (evt, l) \<leftarrow> zcm_eventlog_read_prev_event l; cplusplusIfyEvent (lf\<lparr>lf_eventlog := Some l\<rparr>) evt }"

definition readEventAtOffset :: "LogFile \<Rightarrow> nat \<Rightarrow> (LogEvent option \<times> LogFile) option" where
  "readEventAtOffset lf offset =
     do { l \<leftarrow> lf_eventlog lf; (evt, l) \<leftarrow> zcm_eventlog_read_event_at_offset l offset; cplusplusIfyEvent (lf\<lparr>lf_eventlog := Some l\<rparr>) evt }"

definition writeEvent :: "LogFile \<Rightarrow> LogEvent option \<Rightarrow> (int \<times> LogFile) option" where
  "writeEvent lf event =
     do {
       event \<leftarrow> event;
       l \<leftarrow> lf_eventlog lf;
       (r, l) \<leftarrow> zcm_eventlog_write_event l
         \<lparr>le_eventnum = ev_eventnum event, le_timestamp = ev_timestamp event, le_channellen = of_nat (length (ev_channel event)),
          le_datalen = ev_datalen event, le_channel = ev_channel event, le_data = ev_data event\<rparr>;
       Some (r, lf\<lparr>lf_eventlog := Some l\<rparr>)
     }"

section \<open>Reading\<close>

text \<open>The event of a record, and the file a reader works on.\<close>

definition log_event :: "zcm_eventlog_event_t \<Rightarrow> LogEvent" where
  "log_event le = \<lparr>ev_eventnum = le_eventnum le, ev_timestamp = le_timestamp le, ev_channel = le_channel le, ev_datalen = le_datalen le, ev_data = le_data le\<rparr>"

definition reads :: "LogFile \<Rightarrow> u8 list \<Rightarrow> nat \<Rightarrow> bool" where
  "reads lf d p \<longleftrightarrow> (\<exists>l. lf_eventlog lf = Some l \<and> f_data (el_f l) = d \<and> f_pos (el_f l) = p)"

lemma event_ok_lengths:
  "event_ok le \<Longrightarrow> unat (le_channellen le) = length (le_channel le) \<and> \<not> sint (le_channellen le) < 0"
  by (simp add: event_ok_def unat_of_nat_small sint_of_nat_small)

lemma cplusplusIfy_ok:
  "event_ok le \<Longrightarrow> cplusplusIfyEvent lf (Some le) = Some (Some (log_event le), lf\<lparr>lf_lastevent := Some le, lf_curEvent := log_event le\<rparr>)"
  by (simp add: cplusplusIfyEvent_def event_ok_lengths log_event_def mem_simps Let_def)

lemma first_event_ok: "first_event d p q le \<Longrightarrow> event_ok le \<and> p \<le> q \<and> q + length (event_bytes le) \<le> length d"
proof -
  assume "first_event d p q le"
  then obtain rest where *: "event_ok le" "p \<le> q" "drop q d = event_bytes le @ rest" by (auto simp: first_event_def event_at_def)
  have "length (event_bytes le) \<le> length (drop q d)" "0 < length (event_bytes le)" unfolding *(3) by (simp_all add: event_bytes_def)
  then have "q + length (event_bytes le) \<le> length d" by (auto simp del: length_greater_0_conv)
  with *(1,2) show ?thesis by simp
qed

text \<open>The record at an offset is unique, and a header of the largest length is none.\<close>

lemma event_at_unique:
  assumes "event_at d q le" "event_at d q le'"
  shows "le = le'"
proof -
  let ?f = "\<lparr>f_data = d, f_pos = q + 4, f_append = False, f_room = 0\<rparr>"
  from helper_event[of ?f q le] helper_event[of ?f q le'] assms show ?thesis by auto
qed

lemma first_event_unique: "first_event d p q le \<Longrightarrow> first_event d p q' le' \<Longrightarrow> q' = q \<and> le' = le"
  unfolding first_event_def by (metis event_at_unique linorder_neqE_nat)

lemma event_not_huge:
  assumes "event_at d q le"
  shows "\<not> huge_at d q"
proof
  assume "huge_at d q"
  then obtain le' r where h: "drop q d = bytes32 MAGIC @ head_bytes le' @ r" "le_datalen le' = 0x7fffffff" by (auto simp: huge_at_def)
  from assms obtain r' where e: "event_ok le" "drop q d = bytes32 MAGIC @ head_bytes le @ r'" by (auto simp: event_at_def event_bytes_def)
  have "get32 (drop 24 (drop q d)) = Some (le_datalen le')" unfolding h(1) by (simp add: head_bytes_def)
  moreover have "get32 (drop 24 (drop q d)) = Some (le_datalen le)" unfolding e(2) by (simp add: head_bytes_def)
  ultimately have "le_datalen le = 0x7fffffff" using h(2) by simp
  then have "unat (le_datalen le) = 2 ^ 31 - 1" by simp
  moreover have "unat (le_datalen le) < 2 ^ 31 - 1" using e(1) by (simp add: event_ok_def unat_of_nat_small)
  ultimately show False by simp
qed

text \<open>No header of the largest length in a part of a file.\<close>

definition no_huge :: "u8 list \<Rightarrow> nat \<Rightarrow> nat \<Rightarrow> bool" where
  "no_huge d p q \<longleftrightarrow> (\<forall>q'. p \<le> q' \<and> q' < q \<longrightarrow> \<not> huge_at d q')"

lemma readNextEvent_event:
  assumes "reads lf d p" "first_event d p q le" "no_huge d p q"
  shows "\<exists>lf'. readNextEvent lf = Some (Some (log_event le), lf') \<and> reads lf' d (next_pos d q le)"
proof -
  from assms(1) obtain l where l: "lf_eventlog lf = Some l" "f_data (el_f l) = d" "f_pos (el_f l) = p" by (auto simp: reads_def)
  note sp = read_next_spec[of "el_f l", unfolded l(2,3)]
  from assms(2) have e: "p \<le> q" "event_at d q le" by (auto simp: first_event_def)
  have "read_next_loop (el_f l) \<noteq> None"
  proof
    assume "read_next_loop (el_f l) = None"
    with sp obtain q' where q': "p \<le> q'" "huge_at d q'" "\<forall>x le. p \<le> x \<and> x < q' \<longrightarrow> \<not> event_at d x le" by auto
    with e have "q' \<le> q" by (metis not_less)
    with q'(1,2) assms(3) have "q' = q" by (auto simp: no_huge_def nat_less_le)
    with q'(2) event_not_huge[OF e(2)] show False by simp
  qed
  then obtain r f where r: "read_next_loop (el_f l) = Some (r, f)" by auto
  with sp e have "r \<noteq> None" by (cases r) auto
  with r sp obtain le' q' where f: "r = Some le'" "first_event d p q' le'" "f_data f = d" "f_pos f = next_pos d q' le'" by auto
  with first_event_unique[OF assms(2) f(2)] r l first_event_ok[OF assms(2)] show ?thesis
    by (auto simp: readNextEvent_def zcm_eventlog_read_next_event_def cplusplusIfy_ok reads_def)
qed

lemma readNextEvent_none:
  assumes "reads lf d p" "\<And>q le. p \<le> q \<Longrightarrow> \<not> event_at d q le" "\<And>q. p \<le> q \<Longrightarrow> \<not> huge_at d q"
  shows "\<exists>lf' p'. readNextEvent lf = Some (None, lf') \<and> reads lf' d p'"
proof -
  from assms(1) obtain l where l: "lf_eventlog lf = Some l" "f_data (el_f l) = d" "f_pos (el_f l) = p" by (auto simp: reads_def)
  note sp = read_next_spec[of "el_f l", unfolded l(2,3)]
  with assms(3) obtain r f where r: "read_next_loop (el_f l) = Some (r, f)" by (cases "read_next_loop (el_f l)") auto
  have "r = None" using sp r assms(2) by (cases r) (auto simp: first_event_def)
  with sp r l show ?thesis by (auto simp: readNextEvent_def zcm_eventlog_read_next_event_def cplusplusIfyEvent_def reads_def)
qed

lemma readEventAtOffset_event:
  assumes "reads lf d p'" "first_event d p q le" "no_huge d p q"
  shows "\<exists>lf'. readEventAtOffset lf p = Some (Some (log_event le), lf') \<and> reads lf' d (next_pos d q le)"
proof -
  from assms(1) obtain l where l: "lf_eventlog lf = Some l" "f_data (el_f l) = d" by (auto simp: reads_def)
  let ?lf = "lf\<lparr>lf_eventlog := Some (l\<lparr>el_f := (el_f l)\<lparr>f_pos := p\<rparr>\<rparr>)\<rparr>"
  have "readEventAtOffset lf p = readNextEvent ?lf"
    using l(1) by (cases "read_next_loop ((el_f l)\<lparr>f_pos := p\<rparr>)")
      (auto simp: readEventAtOffset_def readNextEvent_def zcm_eventlog_read_event_at_offset_def zcm_eventlog_read_next_event_def)
  with readNextEvent_event[of ?lf d p, OF _ assms(2,3)] l(2) show ?thesis by (simp add: reads_def)
qed

section \<open>The records of a file\<close>

text \<open>
  The records a file gives from a position to its end, each with the position from which it is found: bytes that belong to no complete record are
  skipped, and no header of the largest length is met on the way.
\<close>

inductive scan :: "u8 list \<Rightarrow> nat \<Rightarrow> (nat \<times> zcm_eventlog_event_t) list \<Rightarrow> bool" for d where
  scan_end: "(\<And>q le. p \<le> q \<Longrightarrow> \<not> event_at d q le) \<Longrightarrow> (\<And>q. p \<le> q \<Longrightarrow> \<not> huge_at d q) \<Longrightarrow> scan d p []"
| scan_event: "first_event d p q le \<Longrightarrow> no_huge d p q \<Longrightarrow> scan d (next_pos d q le) es \<Longrightarrow> scan d p ((p, le) # es)"

text \<open>A file without headers of the largest length has a list of records.\<close>

lemma scan_total: "(\<And>q. \<not> huge_at d q) \<Longrightarrow> \<exists>es. scan d p es"
proof (induction "length d - p" arbitrary: p rule: less_induct)
  case less
  show ?case
  proof (cases "\<exists>q le. p \<le> q \<and> event_at d q le")
    case True
    let ?P = "\<lambda>q. p \<le> q \<and> (\<exists>le. event_at d q le)"
    from True obtain q where q: "?P q" "\<And>x. ?P x \<Longrightarrow> q \<le> x" using exists_least_iff[of ?P] by (metis not_less)
    from q obtain le where "event_at d q le" by blast
    then have le: "first_event d p q le" using q by (fastforce simp: first_event_def)
    have "28 \<le> length (event_bytes le)" by (simp add: event_bytes_def)
    with first_event_ok[OF le] have "length d - next_pos d q le < length d - p" by (auto simp: next_pos_def)
    from less.hyps[OF this less.prems] obtain es where "scan d (next_pos d q le) es" by blast
    with scan_event[OF le] less.prems show ?thesis by (auto simp: no_huge_def)
  next
    case False
    with less.prems scan_end[of p d] show ?thesis by blast
  qed
qed

lemma scan_facts:
  "scan d p es \<Longrightarrow> sorted_wrt (<) (map fst es) \<and> (\<forall>(p', le) \<in> set es. p \<le> p' \<and> event_ok le \<and> (\<exists>q. first_event d p' q le \<and> no_huge d p' q))"
proof (induction rule: scan.induct)
  case (scan_event p q le es)
  have "28 \<le> length (event_bytes le)" by (simp add: event_bytes_def)
  with first_event_ok[OF scan_event.hyps(1)] have "p < next_pos d q le" "event_ok le" by (auto simp: next_pos_def)
  with scan_event show ?case by force
qed simp

lemma scan_log:
  assumes "list_all event_ok les" "drop p d = log_bytes les"
  shows "\<exists>es. scan d p es \<and> map snd es = les"
  using assms
proof (induction les arbitrary: p)
  case Nil
  then have "length d \<le> p" by (simp add: log_bytes_def)
  then have "\<not> event_at d q le" "\<not> huge_at d q" if "p \<le> q" for q le
    using that by (auto simp: event_at_def huge_at_def event_bytes_def bytes32_def)
  then show ?case by (auto intro!: exI[of _ "[]"] scan_end)
next
  case (Cons le les)
  have d: "drop p d = event_bytes le @ log_bytes les" using Cons.prems(2) by (simp add: log_bytes_def)
  have "event_at d p le" using Cons.prems(1) d by (auto simp: event_at_def ends_ok_log)
  then have f: "first_event d p p le" by (auto simp: first_event_def)
  have d': "drop (p + length (event_bytes le)) d = log_bytes les" using d by (metis add.commute append_eq_conv_conj drop_drop)
  then have "drop (next_pos d p le) d = log_bytes les"
    by (cases les) (auto simp: next_pos_def trailing_def log_bytes_def event_bytes_def)
  with Cons obtain es where "scan d (next_pos d p le) es" "map snd es = les" by auto
  moreover have "no_huge d p p" unfolding no_huge_def by auto
  ultimately show ?case using scan_event[OF f] by (intro exI[of _ "(p, le) # es"]) simp
qed

section \<open>Opening and writing\<close>

lemma open_read_reads:
  "content dk path = Some d \<Longrightarrow> readable dk path \<Longrightarrow> \<exists>lf. LogFile_create dk path ''r'' = Some lf \<and> reads lf d 0 \<and> good lf"
  by (simp add: LogFile_create_def zcm_eventlog_create_def fopen_def reads_def good_def)

lemma open_write_empty:
  "room dk path = Some n \<Longrightarrow> \<exists>lf l. LogFile_create dk path ''w'' = Some lf \<and> lf_eventlog lf = Some l \<and> at_end n (el_f l) \<and> f_data (el_f l) = [] \<and> f_room (el_f l) = n
     \<and> el_eventcount l = 0"
  by (simp add: LogFile_create_def zcm_eventlog_create_def fopen_def at_end_def)

text \<open>An event that has been read is written as the record it was.\<close>

lemma writeEvent_record:
  assumes "event_ok le" "lf_eventlog lf = Some l"
  shows "writeEvent lf (Some (log_event le)) = map_option (\<lambda>(r, l). (r, lf\<lparr>lf_eventlog := Some l\<rparr>)) (zcm_eventlog_write_event l le)"
proof -
  have "le = \<lparr>le_eventnum = le_eventnum le, le_timestamp = le_timestamp le, le_channellen = of_nat (length (le_channel le)), le_datalen = le_datalen le,
    le_channel = le_channel le, le_data = le_data le\<rparr>" using assms(1) by (simp add: event_ok_def)
  then show ?thesis using assms(2) by (cases "zcm_eventlog_write_event l le") (auto simp: writeEvent_def log_event_def)
qed

end
