(* ===== verification/Log_Repair.thy ===== *)
theory Log_Repair
  imports Log_File "HOL-Library.Product_Lexorder" "HOL-Library.Multiset"
begin

text \<open>
  The tool that puts the events of a log in the order of their timestamps (\<^verbatim>\<open>tools/cpp/log-repair/main.cpp\<close>). A file that is open for reading is a copy of its content at that time: the one case in which the tool changes a file it reads is an output that
  is the input, which is written out. The function \<open>dn\<close> says in which rounds of the three loops a signal has set \<^verbatim>\<open>done\<close>. Memory accesses outside of a vector, and
  a division by zero, are faults (\<open>None\<close>). The display of the progress is left out.
\<close>

section \<open>The tool\<close>

record Args =
  infile :: string
  outfile :: string
  verify :: bool

text \<open>The options are what \<^verbatim>\<open>getopt_long\<close> gives, with their arguments, and the rest are the arguments that are no options.\<close>

fun parse_options :: "(char \<times> string) list \<Rightarrow> Args \<Rightarrow> Args option" where
  "parse_options [] args = Some args"
| "parse_options ((c, optarg) # opts) args =
     (if c = CHR ''o'' then parse_options opts (args\<lparr>outfile := optarg\<rparr>)
      else if c = CHR ''v'' then parse_options opts (args\<lparr>verify := True\<rparr>)
      else None)"

definition args_init :: "(char \<times> string) list \<Rightarrow> string list \<Rightarrow> Args option" where
  "args_init opts rest =
     do {
       args \<leftarrow> parse_options opts \<lparr>infile = [], outfile = [], verify = False\<rparr>;
       if length rest \<noteq> 1 then None
       else let args = args\<lparr>infile := hd rest\<rparr>
            in if outfile args = [] \<and> \<not> verify args then None else Some args
     }"

record LogRepair =
  lr_args :: Args
  logIn :: LogFile
  logOut :: "LogFile option"
  lr_length :: nat

text \<open>The file of a log whose path has been opened for writing has become empty.\<close>

definition truncate_file :: "LogFile \<Rightarrow> LogFile" where
  "truncate_file lf = lf\<lparr>lf_eventlog := map_option (\<lambda>l. l\<lparr>el_f := (el_f l)\<lparr>f_data := []\<rparr>\<rparr>) (lf_eventlog lf)\<rparr>"

text \<open>The outer option is a fault, the inner one is \<^verbatim>\<open>false\<close>.\<close>

definition log_repair_init :: "Args \<Rightarrow> disk \<Rightarrow> (LogRepair \<times> disk) option option" where
  "log_repair_init args dk =
     do {
       lin \<leftarrow> LogFile_create dk (infile args) ''r'';
       if \<not> good lin then Some None
       else if verify args then do {
         f \<leftarrow> getFilePtr lin;
         Some (Some (\<lparr>lr_args = args, logIn = lin, logOut = None, lr_length = length (f_data f)\<rparr>, dk))
       }
       else do {
         lout \<leftarrow> LogFile_create dk (outfile args) ''w'';
         if \<not> good lout then Some None
         else do {
           let lin = (if outfile args = infile args then truncate_file lin else lin);
           f \<leftarrow> getFilePtr lin;
           Some (Some (\<lparr>lr_args = args, logIn = lin, logOut = Some lout, lr_length = length (f_data f)\<rparr>,
                       dk\<lparr>content := (content dk)(outfile args := Some [])\<rparr>))
         }
       }
     }"

text \<open>Every event that is read moves the position of its file forward.\<close>

definition rest_bytes :: "LogFile \<Rightarrow> nat" where
  "rest_bytes lf = (case lf_eventlog lf of None \<Rightarrow> 0 | Some l \<Rightarrow> length (f_data (el_f l)) - f_pos (el_f l))"

lemma readNextEvent_progress:
  assumes "readNextEvent lf = Some (Some e, lf')"
  shows "rest_bytes lf' < rest_bytes lf"
proof -
  from assms obtain l le f where l: "lf_eventlog lf = Some l" "read_next_loop (el_f l) = Some (Some le, f)" "lf_eventlog lf' = Some (l\<lparr>el_f := f\<rparr>)"
    by (auto simp: readNextEvent_def zcm_eventlog_read_next_event_def cplusplusIfyEvent_def bind_eq_Some_conv Let_def split: option.splits if_splits)
  from read_next_spec[of "el_f l"] l(2) obtain q where q: "first_event (f_data (el_f l)) (f_pos (el_f l)) q le" "f_data f = f_data (el_f l)"
    "f_pos f = next_pos (f_data (el_f l)) q le" by auto
  have "28 \<le> length (event_bytes le)" by (simp add: event_bytes_def)
  with first_event_ok[OF q(1)] l q(2,3) show ?thesis by (auto simp: rest_bytes_def next_pos_def)
qed

function read_loop :: "(nat \<Rightarrow> bool) \<Rightarrow> bool \<Rightarrow> nat \<Rightarrow> LogFile \<Rightarrow> (int \<times> nat) list \<Rightarrow> (int + (int \<times> nat) list \<times> LogFile) option" where
  "read_loop dn verifying len lf timestamps =
     (if dn (length timestamps) then Some (Inl 1)
      else case getFilePtr lf of
          None \<Rightarrow> None
        | Some f \<Rightarrow>
            (case readNextEvent lf of
               None \<Rightarrow> None
             | Some (None, lf) \<Rightarrow> Some (Inr (timestamps, lf))
             | Some (Some event, lf) \<Rightarrow>
                 if verifying \<and> timestamps \<noteq> [] \<and> sint (ev_timestamp event) < fst (last timestamps) then Some (Inl 1)
                 else if len = 0 then None
                 else read_loop dn verifying len lf (timestamps @ [(sint (ev_timestamp event), f_pos f)])))"
  by pat_completeness auto
termination
  by (relation "measure (\<lambda>(dn, verifying, len, lf, timestamps). rest_bytes lf)") (auto dest: readNextEvent_progress)

text \<open>The results of writing are not looked at. The loop returns whether it was interrupted.\<close>

fun write_loop :: "(nat \<Rightarrow> bool) \<Rightarrow> nat \<Rightarrow> (int \<times> nat) list \<Rightarrow> LogFile \<Rightarrow> LogFile \<Rightarrow> (bool \<times> LogFile \<times> LogFile) option" where
  "write_loop dn i [] lin lout = Some (False, lin, lout)"
| "write_loop dn i (t # ts) lin lout =
     (if dn i then Some (True, lin, lout)
      else do {
        (event, lin) \<leftarrow> readEventAtOffset lin (snd t);
        (r, lout) \<leftarrow> writeEvent lout event;
        write_loop dn (Suc i) ts lin lout
      })"

text \<open>The message about a wrong timestamp shows the next entry of the vector.\<close>

function check_loop :: "(nat \<Rightarrow> bool) \<Rightarrow> (int \<times> nat) list \<Rightarrow> nat \<Rightarrow> LogFile \<Rightarrow> (int + nat) option" where
  "check_loop dn timestamps i lf =
     (if dn i then Some (Inl 1)
      else case readNextEvent lf of
          None \<Rightarrow> None
        | Some (None, lf) \<Rightarrow> Some (Inr i)
        | Some (Some event, lf) \<Rightarrow>
            if length timestamps \<le> i then None
            else if sint (ev_timestamp event) \<noteq> fst (timestamps ! i) then (if length timestamps \<le> Suc i then None else Some (Inl 1))
            else check_loop dn timestamps (Suc i) lf)"
  by pat_completeness auto
termination
  by (relation "measure (\<lambda>(dn, timestamps, i, lf). rest_bytes lf)") (auto dest: readNextEvent_progress)

definition log_repair_run :: "(nat \<Rightarrow> nat \<Rightarrow> bool) \<Rightarrow> LogRepair \<Rightarrow> disk \<Rightarrow> (int \<times> disk) option" where
  "log_repair_run dn lr dk =
     do {
       r \<leftarrow> read_loop (dn 0) (verify (lr_args lr)) (lr_length lr) (logIn lr) [];
       case r of
         Inl ret \<Rightarrow> Some (ret, dk)
       | Inr (timestamps, lin) \<Rightarrow>
           if verify (lr_args lr) then Some (0, dk)
           else do {
             let timestamps = sort timestamps;
             lout \<leftarrow> logOut lr;
             (interrupted, lin, lout) \<leftarrow> write_loop (dn 1) 0 timestamps lin lout;
             let dk = flush_disk (outfile (lr_args lr)) lout dk;
             if interrupted then Some (1, dk)
             else do {
               lout \<leftarrow> LogFile_create dk (outfile (lr_args lr)) ''r'';
               if \<not> good lout then Some (1, dk)
               else do {
                 r \<leftarrow> check_loop (dn 2) timestamps 0 lout;
                 Some (case r of Inl ret \<Rightarrow> ret | Inr i \<Rightarrow> 0, dk)
               }
             }
           }
     }"

definition log_repair_main :: "(nat \<Rightarrow> nat \<Rightarrow> bool) \<Rightarrow> (char \<times> string) list \<Rightarrow> string list \<Rightarrow> disk \<Rightarrow> (int \<times> disk) option" where
  "log_repair_main dn opts rest dk =
     (case args_init opts rest of
        None \<Rightarrow> Some (1, dk)
      | Some args \<Rightarrow>
          do {
            r \<leftarrow> log_repair_init args dk;
            case r of None \<Rightarrow> Some (1, dk) | Some (lr, dk) \<Rightarrow> log_repair_run dn lr dk
          })"

declare read_loop.simps [simp del] check_loop.simps [simp del]

section \<open>Sorting\<close>

abbreviation stamp :: "zcm_eventlog_event_t \<Rightarrow> int" where "stamp le \<equiv> sint (le_timestamp le)"

definition entry :: "nat \<times> zcm_eventlog_event_t \<Rightarrow> int \<times> nat" where
  "entry e = (stamp (snd e), fst e)"

lemma entry_sel [simp]: "fst (entry e) = stamp (snd e)" "snd (entry e) = fst e"
  by (simp_all add: entry_def)

lemma insort_entry:
  "\<forall>y \<in> set ys. fst x < fst y \<Longrightarrow> insort (entry x) (map entry ys) = map entry (insort_key (\<lambda>e. stamp (snd e)) x ys)"
  by (induction ys) (auto simp: entry_def less_eq_prod_def)

text \<open>Entries with increasing offsets are sorted as by a stable sort of the timestamps.\<close>

lemma sort_entries: "sorted_wrt (<) (map fst es) \<Longrightarrow> sort (map entry es) = map entry (sort_key (\<lambda>e. stamp (snd e)) es)"
proof (induction es)
  case (Cons e es)
  then have "sort (map entry (e # es)) = insort (entry e) (map entry (sort_key (\<lambda>e. stamp (snd e)) es))" by simp
  also have "\<dots> = map entry (insort_key (\<lambda>e. stamp (snd e)) e (sort_key (\<lambda>e. stamp (snd e)) es))" using Cons.prems by (intro insort_entry) simp
  finally show ?case by simp
qed simp

lemma map_snd_insort: "map snd (insort_key (\<lambda>e. f (snd e)) e es) = insort_key f (snd e) (map snd es)"
  by (induction es) auto

lemma map_snd_sort: "map snd (sort_key (\<lambda>e. f (snd e)) es) = sort_key f (map snd es)"
  by (induction es) (simp_all add: map_snd_insort)

section \<open>The loops\<close>

abbreviation never :: "nat \<Rightarrow> bool" where "never \<equiv> \<lambda>_. False"

lemma reads_file: "reads lf d p \<Longrightarrow> \<exists>f. getFilePtr lf = Some f \<and> f_pos f = p"
  by (auto simp: reads_def getFilePtr_def)

text \<open>The reading loop collects the timestamps and offsets of all records; when verifying, it stops at the first timestamp below its predecessor.\<close>

lemma read_loop_scan:
  assumes "scan d p es" "reads lf d p" "d \<noteq> [] \<Longrightarrow> len \<noteq> 0"
  shows "\<exists>lf' p'. reads lf' d p' \<and> read_loop never verifying len lf ts =
    (if verifying \<and> \<not> sorted (map fst (drop (length ts - 1) ts) @ map (\<lambda>e. stamp (snd e)) es) then Some (Inl 1) else Some (Inr (ts @ map entry es, lf')))"
  using assms
proof (induction arbitrary: lf ts rule: scan.induct)
  case (scan_end p)
  from readNextEvent_none[OF scan_end(3,1,2)] reads_file[OF scan_end(3)] obtain f lf' p' where
    "getFilePtr lf = Some f" "readNextEvent lf = Some (None, lf')" "reads lf' d p'" by blast
  moreover have "sorted (map fst (drop (length ts - 1) ts))" by (cases ts rule: rev_cases) auto
  ultimately show ?case by (subst read_loop.simps) auto
next
  case (scan_event p q le es)
  from readNextEvent_event[OF scan_event.prems(1) scan_event.hyps(1,2)] reads_file[OF scan_event.prems(1)] obtain f lf1 where
    f: "getFilePtr lf = Some f" "f_pos f = p" "readNextEvent lf = Some (Some (log_event le), lf1)" "reads lf1 d (next_pos d q le)" by blast
  have "d \<noteq> []" using first_event_ok[OF scan_event.hyps(1)] by (auto simp: event_bytes_def bytes32_def)
  with scan_event.prems have len: "len \<noteq> 0" by simp
  let ?bad = "verifying \<and> ts \<noteq> [] \<and> stamp le < fst (last ts)"
  have step: "read_loop never verifying len lf ts = (if ?bad then Some (Inl 1) else read_loop never verifying len lf1 (ts @ [entry (p, le)]))"
    using f len by (subst read_loop.simps) (simp add: log_event_def entry_def)
  from scan_event.IH[OF f(4) scan_event.prems(2), of "ts @ [entry (p, le)]"] obtain lf' p' where IH: "reads lf' d p'"
    "read_loop never verifying len lf1 (ts @ [entry (p, le)]) = (if verifying \<and> \<not> sorted (stamp le # map (\<lambda>e. stamp (snd e)) es) then Some (Inl 1)
      else Some (Inr (ts @ entry (p, le) # map entry es, lf')))"
    by (auto simp: entry_def)
  have "sorted (map fst (drop (length ts - 1) ts) @ map (\<lambda>e. stamp (snd e)) ((p, le) # es)) \<longleftrightarrow>
    (ts = [] \<or> fst (last ts) \<le> stamp le) \<and> sorted (stamp le # map (\<lambda>e. stamp (snd e)) es)"
    by (cases ts rule: rev_cases) auto
  with IH step show ?case by (auto simp: not_le)
qed

lemma write_loop_records:
  assumes "\<forall>(p, le) \<in> set es. event_ok le \<and> (\<exists>q. first_event d p q le \<and> no_huge d p q)"
    and "reads lin d p'" "lf_eventlog lout = Some l" "at_end n (el_f l)" "length (log_bytes (map snd es)) \<le> n"
  shows "\<exists>lin' lout' l'. write_loop never i (map entry es) lin lout = Some (False, lin', lout') \<and> lf_eventlog lout' = Some l'
    \<and> f_data (el_f l') = f_data (el_f l) @ log_bytes (number (el_eventcount l) (map snd es))"
  using assms
proof (induction es arbitrary: i lin lout l n p')
  case (Cons e es)
  obtain p le where e: "e = (p, le)" by (cases e)
  from Cons.prems(1) e obtain q where q: "event_ok le" "first_event d p q le" "no_huge d p q" by auto
  from readEventAtOffset_event[OF Cons.prems(2) q(2,3)] obtain lin1 where
    lin1: "readEventAtOffset lin p = Some (Some (log_event le), lin1)" "reads lin1 d (next_pos d q le)" by blast
  have n: "length (event_bytes le) \<le> n" "length (log_bytes (map snd es)) \<le> n - length (event_bytes le)" using Cons.prems(5) e by (auto simp: log_bytes_def)
  note w = write_event_ok[OF q(1) Cons.prems(4) n(1)]
  let ?l = "\<lparr>el_f = appended (event_bytes (numbered (el_eventcount l) le)) (el_f l), el_eventcount = el_eventcount l + 1\<rparr>"
  let ?lout = "lout\<lparr>lf_eventlog := Some ?l\<rparr>"
  have wr: "writeEvent lout (Some (log_event le)) = Some (0, ?lout)" using writeEvent_record[OF q(1) Cons.prems(3)] w(1) by simp
  from Cons.IH[OF _ lin1(2), of ?lout ?l "n - length (event_bytes le)" "Suc i"] Cons.prems(1) w(2) n(2) e obtain lin' lout' l' where
    "write_loop never (Suc i) (map entry es) lin1 ?lout = Some (False, lin', lout')" "lf_eventlog lout' = Some l'"
    "f_data (el_f l') = f_data (el_f ?l) @ log_bytes (number (el_eventcount ?l) (map snd es))" by auto
  then show ?case using lin1(1) wr e by (intro exI[of _ lin'] exI[of _ lout'] exI[of _ l']) (simp add: appended_def log_bytes_def)
qed (simp add: log_bytes_def)

lemma check_loop_scan:
  assumes "scan d p es" "reads lf d p" "map (\<lambda>e. stamp (snd e)) es = map fst (drop i ts)" "i \<le> length ts"
  shows "check_loop never ts i lf = Some (Inr (length ts))"
  using assms
proof (induction arbitrary: lf i rule: scan.induct)
  case (scan_end p)
  from readNextEvent_none[OF scan_end(3,1,2)] obtain lf' where "readNextEvent lf = Some (None, lf')" by blast
  then show ?case using scan_end by (subst check_loop.simps) simp
next
  case (scan_event p q le es)
  from readNextEvent_event[OF scan_event.prems(1) scan_event.hyps(1,2)] obtain lf1 where
    f: "readNextEvent lf = Some (Some (log_event le), lf1)" "reads lf1 d (next_pos d q le)" by blast
  from scan_event.prems(2) have i: "i < length ts" by (cases "i < length ts") auto
  with scan_event.prems(2) have "stamp le = fst (ts ! i)" "map (\<lambda>e. stamp (snd e)) es = map fst (drop (Suc i) ts)"
    by (auto simp: Cons_nth_drop_Suc[symmetric])
  with scan_event.IH[OF f(2), of "Suc i"] f(1) i show ?case by (subst check_loop.simps) (simp add: log_event_def)
qed

lemma stamp_number: "map stamp (number n les) = map stamp les"
  by (induction les arbitrary: n) (simp_all add: numbered_def)

lemma length_log_perm: "mset es = mset es' \<Longrightarrow> length (log_bytes (map snd es)) = length (log_bytes (map snd es'))"
  unfolding log_bytes_def length_concat map_map by (metis mset_map sum_mset_sum_list)

section \<open>Runs\<close>

text \<open>How a run continues once the events are read and sorted.\<close>

lemma log_repair_run_written:
  assumes r: "scan d 0 es" "reads lin d 0" "len = length d"
    and w: "\<And>lin p. reads lin d p \<Longrightarrow> \<exists>lin' lout' l'. write_loop never 0 (map entry (sort_key (\<lambda>e. stamp (snd e)) es)) lin lout = Some (False, lin', lout')
      \<and> lf_eventlog lout' = Some l' \<and> f_data (el_f l') = d'"
    and o: "readable dk out" "\<And>lf. reads lf d' 0 \<Longrightarrow> \<exists>i. check_loop never (map entry (sort_key (\<lambda>e. stamp (snd e)) es)) 0 lf = Some (Inr i)"
  shows "log_repair_run (\<lambda>_ _. False) \<lparr>lr_args = \<lparr>infile = inp, outfile = out, verify = False\<rparr>, logIn = lin, logOut = Some lout, lr_length = len\<rparr> dk
    = Some (0, dk\<lparr>content := (content dk)(out := Some d')\<rparr>)"
proof -
  let ?ts = "map entry (sort_key (\<lambda>e. stamp (snd e)) es)" and ?dk = "dk\<lparr>content := (content dk)(out := Some d')\<rparr>"
  from read_loop_scan[OF r(1,2), of len False "[]"] r(3) obtain lin' p' where
    rl: "reads lin' d p'" "read_loop never False len lin [] = Some (Inr (map entry es, lin'))" by auto
  from w[OF rl(1)] obtain lin2 lout' l' where
    wl: "write_loop never 0 ?ts lin' lout = Some (False, lin2, lout')" "lf_eventlog lout' = Some l'" "f_data (el_f l') = d'" by blast
  have fl: "flush_disk out lout' dk = ?dk" using wl by (simp add: flush_disk_def LogFile_close_def)
  from open_read_reads[of ?dk out d'] o(1) obtain lf where lf: "LogFile_create ?dk out ''r'' = Some lf" "reads lf d' 0" "good lf" by auto
  from o(2)[OF lf(2)] obtain i where "check_loop never ?ts 0 lf = Some (Inr i)" by blast
  with rl(2) wl(1) fl lf sort_entries[of es] scan_facts[OF r(1)] show ?thesis by (simp add: log_repair_run_def Let_def)
qed

lemma log_repair_main_init:
  assumes "content dk inp = Some d" "readable dk inp" "room dk out = Some n" "out \<noteq> []" "out \<noteq> inp"
  obtains lin lout l where "reads lin d 0" "lf_eventlog lout = Some l" "at_end n (el_f l)" "f_data (el_f l) = []" "f_room (el_f l) = n" "el_eventcount l = 0"
    "\<And>dn. log_repair_main dn [(CHR ''o'', out)] [inp] dk = log_repair_run dn \<lparr>lr_args = \<lparr>infile = inp, outfile = out, verify = False\<rparr>, logIn = lin, logOut = Some lout,
      lr_length = length d\<rparr> (dk\<lparr>content := (content dk)(out := Some [])\<rparr>)"
proof -
  from open_read_reads[OF assms(1,2)] obtain lin where lin: "LogFile_create dk inp ''r'' = Some lin" "reads lin d 0" "good lin" by blast
  from open_write_empty[OF assms(3)] obtain lout l where lout: "LogFile_create dk out ''w'' = Some lout" "lf_eventlog lout = Some l" "at_end n (el_f l)" "f_data (el_f l) = []"
    "f_room (el_f l) = n" "el_eventcount l = 0" by blast
  from lin(2) obtain f where f: "getFilePtr lin = Some f" "f_data f = d" by (auto simp: reads_def getFilePtr_def)
  have "good lout" using lout by (simp add: good_def)
  with lin lout f assms(4,5) show thesis by (intro that[of lin lout l]) (simp_all add: log_repair_main_def args_init_def log_repair_init_def)
qed

section \<open>Properties\<close>

text \<open>
  C10. Run on any log with room for the output and without a signal, whether the log is damaged or not, the tool succeeds and leaves in the output file exactly the complete records of the
  input, in the order of their timestamps, those with the same timestamp in the order of the input, and numbered from zero. Nothing else on the disk changes. A
  log that the library has written is such an input, and so is every file without a header of the largest data length.
\<close>

theorem log_repair_sorts:
  assumes "content dk inp = Some d" "readable dk inp" "readable dk out" "room dk out = Some n" "out \<noteq> []" "out \<noteq> inp"
    and "scan d 0 es" "length (log_bytes (map snd es)) \<le> n"
  shows "log_repair_main (\<lambda>_ _. False) [(CHR ''o'', out)] [inp] dk =
    Some (0, dk\<lparr>content := (content dk)(out := Some (log_bytes (number 0 (sort_key stamp (map snd es)))))\<rparr>)"
proof -
  let ?es = "sort_key (\<lambda>e. stamp (snd e)) es" and ?les = "sort_key stamp (map snd es)"
  from log_repair_main_init[OF assms(1,2,4,5,6)] obtain lin lout l where
    i: "reads lin d 0" "lf_eventlog lout = Some l" "at_end n (el_f l)" "f_data (el_f l) = []" "el_eventcount l = 0"
    "log_repair_main (\<lambda>_ _. False) [(CHR ''o'', out)] [inp] dk = log_repair_run (\<lambda>_ _. False) \<lparr>lr_args = \<lparr>infile = inp, outfile = out, verify = False\<rparr>,
      logIn = lin, logOut = Some lout, lr_length = length d\<rparr> (dk\<lparr>content := (content dk)(out := Some [])\<rparr>)" by metis
  have ok: "list_all event_ok ?les" "\<forall>(p, le) \<in> set ?es. event_ok le \<and> (\<exists>q. first_event d p q le \<and> no_huge d p q)"
    using scan_facts[OF assms(7)] by (fastforce simp: list_all_iff)+
  have len: "length (log_bytes (map snd ?es)) \<le> n" using assms(8) length_log_perm[of ?es es] by simp
  have w: "\<exists>lin' lout' l'. write_loop never 0 (map entry ?es) lin lout = Some (False, lin', lout') \<and> lf_eventlog lout' = Some l'
      \<and> f_data (el_f l') = log_bytes (number 0 ?les)" if "reads lin d p" for lin p
    using write_loop_records[OF ok(2) that i(2,3) len, of 0] i(4,5) by (simp add: map_snd_sort[of stamp])
  have c: "\<exists>i. check_loop never (map entry ?es) 0 lf = Some (Inr i)" if "reads lf (log_bytes (number 0 ?les)) 0" for lf
  proof -
    from scan_log[of "number 0 ?les" 0 "log_bytes (number 0 ?les)"] ok(1) obtain es' where
      es': "scan (log_bytes (number 0 ?les)) 0 es'" "map snd es' = number 0 ?les" by (auto simp: number_ok)
    have "map (\<lambda>e. stamp (snd e)) es' = map stamp (number 0 ?les)" by (simp add: es'(2)[symmetric])
    also have "\<dots> = map fst (drop 0 (map entry ?es))" by (simp add: stamp_number map_snd_sort[of stamp, symmetric])
    finally show ?thesis using check_loop_scan[OF es'(1) that] by blast
  qed
  from log_repair_run_written[where dk = "dk\<lparr>content := (content dk)(out := Some [])\<rparr>" and out = out, OF assms(7) i(1) refl w _ c] i(6) assms(3) show ?thesis by simp
qed

abbreviation late_event :: "zcm_eventlog_event_t" where
  "late_event \<equiv> sample_event\<lparr>le_eventnum := 7, le_timestamp := 9\<rparr>"

abbreviation sample_disk :: "nat \<Rightarrow> disk" where
  "sample_disk n \<equiv> \<lparr>content = [''in'' \<mapsto> log_bytes [late_event, sample_event]], readable = \<lambda>_. True, room = \<lambda>_. Some n\<rparr>"

lemma sample_scan: "\<exists>es. scan (log_bytes [late_event, sample_event]) 0 es \<and> map snd es = [late_event, sample_event]"
  by (rule scan_log) (simp_all add: event_ok_def)

theorem log_repair_sorts_witness:
  "log_repair_main (\<lambda>_ _. False) [(CHR ''o'', ''out'')] [''in''] (sample_disk 99) =
    Some (0, (sample_disk 99)\<lparr>content := [''in'' \<mapsto> log_bytes [late_event, sample_event],
      ''out'' \<mapsto> log_bytes [sample_event, late_event\<lparr>le_eventnum := 1\<rparr>]]\<rparr>)"
proof -
  let ?les = "[late_event, sample_event]"
  obtain es where "scan (log_bytes ?les) 0 es \<and> map snd es = ?les" by (rule exE[OF sample_scan])
  note es = conjunct1[OF this] conjunct2[OF this]
  have "length (log_bytes (map snd es)) \<le> 99" unfolding es(2) by (simp add: log_bytes_def event_bytes_def)
  note main = log_repair_sorts[of "sample_disk 99" "''in''" "log_bytes ?les" "''out''" 99 es, OF _ _ _ _ _ _ es(1) this]
  have "number 0 (sort_key stamp (map snd es)) = [sample_event, late_event\<lparr>le_eventnum := 1\<rparr>]" unfolding es(2) by (simp add: numbered_def)
  with main show ?thesis by (simp del: list.map)
qed

text \<open>
  C39. With the option to verify, the tool changes nothing on the disk and succeeds exactly when the timestamps of the complete records of the log never decrease.
\<close>

theorem log_repair_verify:
  assumes "content dk inp = Some d" "readable dk inp" "scan d 0 es"
  shows "log_repair_main (\<lambda>_ _. False) [(CHR ''v'', [])] [inp] dk = Some (if sorted (map stamp (map snd es)) then 0 else 1, dk)"
proof -
  from open_read_reads[OF assms(1,2)] obtain lin where lin: "LogFile_create dk inp ''r'' = Some lin" "reads lin d 0" "good lin" by blast
  then obtain f where "getFilePtr lin = Some f" "f_data f = d" by (auto simp: reads_def getFilePtr_def)
  moreover from read_loop_scan[OF assms(3) lin(2), of "length d" True "[]"] obtain lin' where
    "read_loop never True (length d) lin [] = (if \<not> sorted (map (\<lambda>e. stamp (snd e)) es) then Some (Inl 1) else Some (Inr ([] @ map entry es, lin')))" by (auto cong: if_cong)
  ultimately show ?thesis using lin by (auto simp: log_repair_main_def args_init_def log_repair_init_def log_repair_run_def comp_def)
qed

theorem log_repair_verify_witness:
  "log_repair_main (\<lambda>_ _. False) [(CHR ''v'', [])] [''in''] (sample_disk 0) = Some (1, sample_disk 0)"
proof -
  let ?les = "[late_event, sample_event]"
  obtain es where "scan (log_bytes ?les) 0 es \<and> map snd es = ?les" by (rule exE[OF sample_scan])
  note es = conjunct1[OF this] conjunct2[OF this]
  have "\<not> sorted (map stamp (map snd es))" unfolding es(2) by simp
  with log_repair_verify[of "sample_disk 0" "''in''" "log_bytes ?les", OF _ _ es(1)] show ?thesis by (simp del: list.map map_map)
qed

section \<open>Lost logs\<close>

text \<open>On a disk without room every write fails. The results are not looked at, the missing events are only reported, and the tool returns success with an empty output.\<close>

lemma write_event_full: "f_room (el_f l) = 0 \<Longrightarrow> f_data (el_f l) = [] \<Longrightarrow> f_pos (el_f l) = 0 \<Longrightarrow> zcm_eventlog_write_event l le = Some (-1, l)"
  by (simp add: zcm_eventlog_write_event_def fwrite32_def fwrite_def Let_def)

lemma write_loop_full:
  assumes "\<forall>(p, le) \<in> set es. event_ok le \<and> (\<exists>q. first_event d p q le \<and> no_huge d p q)"
    and "reads lin d p'" "lf_eventlog lout = Some l" "f_room (el_f l) = 0" "f_data (el_f l) = []" "f_pos (el_f l) = 0"
  shows "\<exists>lin'. write_loop never i (map entry es) lin lout = Some (False, lin', lout)"
  using assms
proof (induction es arbitrary: i lin p')
  case (Cons e es)
  from Cons.prems(1) obtain q where q: "event_ok (snd e)" "first_event d (fst e) q (snd e)" "no_huge d (fst e) q" by auto
  from readEventAtOffset_event[OF Cons.prems(2) q(2,3)] obtain lin1 where
    lin1: "readEventAtOffset lin (fst e) = Some (Some (log_event (snd e)), lin1)" "reads lin1 d (next_pos d q (snd e))" by blast
  have "writeEvent lout (Some (log_event (snd e))) = Some (-1, lout)"
    using writeEvent_record[OF q(1) Cons.prems(3)] write_event_full[OF Cons.prems(4-6)] Cons.prems(3) by simp
  with Cons.IH[OF _ lin1(2) Cons.prems(3-6)] Cons.prems(1) lin1(1) show ?case by auto
qed simp

lemma log_repair_full_disk:
  assumes "content dk inp = Some d" "readable dk inp" "readable dk out" "room dk out = Some 0" "out \<noteq> []" "out \<noteq> inp" "scan d 0 es"
  shows "log_repair_main (\<lambda>_ _. False) [(CHR ''o'', out)] [inp] dk = Some (0, dk\<lparr>content := (content dk)(out := Some [])\<rparr>)"
proof -
  from log_repair_main_init[OF assms(1,2,4,5,6)] obtain lin lout l where
    i: "reads lin d 0" "lf_eventlog lout = Some l" "at_end 0 (el_f l)" "f_data (el_f l) = []" "f_room (el_f l) = 0"
    "log_repair_main (\<lambda>_ _. False) [(CHR ''o'', out)] [inp] dk = log_repair_run (\<lambda>_ _. False) \<lparr>lr_args = \<lparr>infile = inp, outfile = out, verify = False\<rparr>,
      logIn = lin, logOut = Some lout, lr_length = length d\<rparr> (dk\<lparr>content := (content dk)(out := Some [])\<rparr>)" by metis
  have ok: "\<forall>(p, le) \<in> set (sort_key (\<lambda>e. stamp (snd e)) es). event_ok le \<and> (\<exists>q. first_event d p q le \<and> no_huge d p q)"
    using scan_facts[OF assms(7)] by fastforce
  have c: "\<exists>i. check_loop never ts 0 lf = Some (Inr i)" if "reads lf [] 0" for lf ts
  proof -
    from readNextEvent_none[OF that] obtain lf' where "readNextEvent lf = Some (None, lf')"
      by (auto simp: event_at_def huge_at_def event_bytes_def bytes32_def)
    then show ?thesis by (subst check_loop.simps) simp
  qed
  have "f_pos (el_f l) = 0" using i(3,4) by (simp add: at_end_def)
  note w = write_loop_full[OF ok _ i(2,5,4) this, of _ _ 0]
  have w': "\<exists>lin' lout' l'. write_loop never 0 (map entry (sort_key (\<lambda>e. stamp (snd e)) es)) lin lout = Some (False, lin', lout')
      \<and> lf_eventlog lout' = Some l' \<and> f_data (el_f l') = []" if "reads lin d p" for lin p
    using w[OF that] i(2,4) by auto
  from log_repair_run_written[where dk = "dk\<lparr>content := (content dk)(out := Some [])\<rparr>" and out = out, OF assms(7) i(1) refl w' _ c] i(6) assms(3) show ?thesis by simp
qed

text \<open>
  C40. When the output file is the input file, the tool empties the log before it has read it, finds no events and returns success: the log is lost.
\<close>

theorem log_repair_in_place_loses_log:
  assumes "content dk path = Some d" "readable dk path" "room dk path = Some n" "path \<noteq> []"
  shows "log_repair_main (\<lambda>_ _. False) [(CHR ''o'', path)] [path] dk = Some (0, dk\<lparr>content := (content dk)(path := Some [])\<rparr>)"
proof -
  have none: "scan [] 0 []" by (rule scan_end) (auto simp: event_at_def huge_at_def event_bytes_def bytes32_def)
  from open_read_reads[OF assms(1,2)] obtain lin where lin: "LogFile_create dk path ''r'' = Some lin" "reads lin d 0" "good lin" by blast
  from open_write_empty[OF assms(3)] obtain lout l where lout: "LogFile_create dk path ''w'' = Some lout" "lf_eventlog lout = Some l" "f_data (el_f l) = []" by blast
  from lin(2) have t: "reads (truncate_file lin) [] 0" by (auto simp: reads_def truncate_file_def)
  then obtain f where f: "getFilePtr (truncate_file lin) = Some f" "f_data f = []" by (auto simp: reads_def getFilePtr_def)
  let ?dk = "dk\<lparr>content := (content dk)(path := Some [])\<rparr>"
  have good: "good lout" using lout(2) by (simp add: good_def)
  have i: "log_repair_main (\<lambda>_ _. False) [(CHR ''o'', path)] [path] dk = log_repair_run (\<lambda>_ _. False) \<lparr>lr_args = \<lparr>infile = path, outfile = path, verify = False\<rparr>,
      logIn = truncate_file lin, logOut = Some lout, lr_length = 0\<rparr> ?dk"
    using lin lout f assms(4) good by (simp add: log_repair_main_def args_init_def log_repair_init_def)
  have "check_loop never [] 0 lf = Some (Inr 0)" if "reads lf [] 0" for lf using check_loop_scan[OF none that, of 0 "[]"] by simp
  with log_repair_run_written[OF none t, of 0 lout "[]" ?dk path path] lout assms(2) i show ?thesis by simp
qed

theorem log_repair_in_place_loses_log_witness:
  "log_repair_main (\<lambda>_ _. False) [(CHR ''o'', ''in'')] [''in''] (sample_disk 99) = Some (0, (sample_disk 99)\<lparr>content := [''in'' \<mapsto> []]\<rparr>)"
  using log_repair_in_place_loses_log[of "sample_disk 99" "''in''" "log_bytes [late_event, sample_event]" 99] by simp

end
