(* ===== verification/Transport_File.thy ===== *)
theory Transport_File
  imports Log_File Transport Url
begin

text \<open>
  The file transport (\<^verbatim>\<open>zcm/transport/transport_file.cpp\<close>): it records messages in a log file, or replays those of a log at the pace at which they were recorded.
  The clock is part of the state: \<open>utime\<close> reads it and \<open>usleep\<close> lets it run. \<^verbatim>\<open>atof\<close> is a parameter. A failed assertion, an access
  outside of memory and the conversion of a number that does not fit are faults (\<open>None\<close>).
\<close>

section \<open>The pace of a replay\<close>

text \<open>
  The quotient of an unsigned integer and a positive double, as an unsigned integer. The integer is first rounded to a double; the quotient is rounded to 53
  significant bits, ties to even (it is taken to be in the range of normal numbers), and then truncated.
\<close>

definition round_ratio :: "rat \<Rightarrow> rat" where
  "round_ratio x =
     (let (a, b) = quotient_of x;
          k = int (floorlog 2 (nat a)) - int (floorlog 2 (nat b)) - 53;
          k = (if x / 2 powi k \<ge> 2 ^ 53 then k + 1 else k);
          y = x / 2 powi k;
          n = \<lfloor>y\<rfloor>;
          r = y - of_int n
      in of_int (if r > 1 / 2 \<or> r = 1 / 2 \<and> odd n then n + 1 else n) * 2 powi k)"

definition u64_over_double :: "u64 \<Rightarrow> rat \<Rightarrow> u64 option" where
  "u64_over_double n speed =
     (let q = \<lfloor>round_ratio (of_nat (round53 (unat n)) / speed)\<rfloor> in if q < 2 ^ 64 then Some (of_int q) else None)"

section \<open>The transport\<close>

definition FILE_MTU :: nat where "FILE_MTU = 2 ^ 63 - 1"

record 'e transport_file =
  tf_log :: "LogFile option"
  tf_options :: "string \<rightharpoonup> string"
  tf_mode :: string
  tf_speed :: rat
  tf_lastMsgUtime :: u64
  tf_lastDispatchUtime :: u64
  tf_clock :: 'e

definition file_findOption :: "'e transport_file \<Rightarrow> string \<Rightarrow> string option" where
  "file_findOption zt s = tf_options zt s"

text \<open>The constructor returns early, without a log, when an option is wrong. The outer option is a fault.\<close>

definition file_new :: "(string \<Rightarrow> rat) \<Rightarrow> 'e \<Rightarrow> disk \<Rightarrow> zcm_url \<Rightarrow> 'e transport_file option" where
  "file_new atof clock dk url =
     (let zt = \<lparr>tf_log = None, tf_options = map_of (rev (getZopts url)), tf_mode = ''r'', tf_speed = 1, tf_lastMsgUtime = 0, tf_lastDispatchUtime = 0, tf_clock = clock\<rparr>;
          zt = (case file_findOption zt ''speed'' of None \<Rightarrow> zt | Some speedStr \<Rightarrow> zt\<lparr>tf_speed := atof speedStr\<rparr>)
      in if tf_speed zt \<le> 0 then Some zt
         else let zt = (case file_findOption zt ''mode'' of None \<Rightarrow> zt | Some modeStr \<Rightarrow> zt\<lparr>tf_mode := modeStr\<rparr>)
              in if tf_mode zt \<notin> {''r'', ''w'', ''a''} then Some zt
                 else map_option (\<lambda>lf. zt\<lparr>tf_log := Some lf\<rparr>) (LogFile_create dk (url_address url) (tf_mode zt)))"

definition file_good :: "'e transport_file \<Rightarrow> bool" where
  "file_good zt \<longleftrightarrow> (case tf_log zt of None \<Rightarrow> False | Some lf \<Rightarrow> good lf)"

definition file_destroy :: "string \<Rightarrow> 'e transport_file \<Rightarrow> disk \<Rightarrow> disk" where
  "file_destroy path zt dk = (case tf_log zt of None \<Rightarrow> dk | Some lf \<Rightarrow> flush_disk path lf dk)"

definition file_create :: "(string \<Rightarrow> rat) \<Rightarrow> 'e \<Rightarrow> disk \<Rightarrow> zcm_url \<Rightarrow> 'e transport_file option option" where
  "file_create atof clock dk url = map_option (\<lambda>zt. if file_good zt then Some zt else None) (file_new atof clock dk url)"

text \<open>The event's number is not set; the writer of logs does not use it. The length becomes an \<^verbatim>\<open>int32_t\<close>.\<close>

definition file_sendmsg :: "'e transport_file \<Rightarrow> zcm_msg_t \<Rightarrow> (int \<times> 'e transport_file) option" where
  "file_sendmsg zt msg =
     (case tf_log zt of
        None \<Rightarrow> None
      | Some lf \<Rightarrow>
          if \<not> good lf \<or> tf_mode zt \<noteq> ''w'' \<and> tf_mode zt \<noteq> ''a'' then None
          else if msg_len msg > FILE_MTU then Some (ZCM_EINVALID, zt)
          else do {
            let le = \<lparr>ev_eventnum = 0, ev_timestamp = msg_utime msg, ev_channel = msg_channel msg, ev_datalen = of_nat (msg_len msg), ev_data = msg_buf msg\<rparr>;
            (r, lf) \<leftarrow> writeEvent lf (Some le);
            Some (ZCM_EOK, zt\<lparr>tf_log := Some lf\<rparr>)
          })"

definition file_recvmsg_enable :: "'e transport_file \<Rightarrow> cstring \<Rightarrow> bool \<Rightarrow> int \<times> 'e transport_file" where
  "file_recvmsg_enable zt channel enable = (ZCM_EOK, zt)"

text \<open>\<^verbatim>\<open>timeoutMs * 1000\<close> is computed as an \<^verbatim>\<open>unsigned\<close>.\<close>

definition timeout_us :: "nat \<Rightarrow> u64" where
  "timeout_us timeoutMs = ucast (of_nat timeoutMs * 1000 :: u32)"

definition file_msg :: "LogEvent \<Rightarrow> zcm_msg_t option" where
  "file_msg le =
     (if sint (ev_datalen le) < 0 then None
      else do {
        buf \<leftarrow> mem_slice (ev_data le) 0 (unat (ev_datalen le));
        Some \<lparr>msg_utime = ev_timestamp le, msg_channel = takeWhile (\<lambda>c. c \<noteq> 0) (ev_channel le), msg_buf = buf\<rparr>
      })"

text \<open>The part of \<^verbatim>\<open>recvmsg\<close> that waits for the time of a message that has been read.\<close>

definition file_pace :: "('e \<Rightarrow> u64 \<times> 'e) \<Rightarrow> (u64 \<Rightarrow> 'e \<Rightarrow> 'e) \<Rightarrow> 'e transport_file \<Rightarrow> u64 \<Rightarrow> u64 \<Rightarrow> (int \<times> 'e transport_file) option" where
  "file_pace utime usleep zt msgUtime timeoutUs =
     do {
       let (now, clock) = utime (tf_clock zt);
       let zt = zt\<lparr>tf_lastMsgUtime := (if tf_lastMsgUtime zt = 0 then msgUtime else tf_lastMsgUtime zt),
                   tf_lastDispatchUtime := (if tf_lastDispatchUtime zt = 0 then now else tf_lastDispatchUtime zt)\<rparr>;
       let localDiff = now - tf_lastDispatchUtime zt;
       let logDiff = msgUtime - tf_lastMsgUtime zt;
       logDiffSpeed \<leftarrow> u64_over_double logDiff (tf_speed zt);
       let diff = (if logDiffSpeed > localDiff then logDiffSpeed - localDiff else 0);
       let (late, clock) = (if diff > 0 then let (t, clock) = utime (usleep (min diff timeoutUs) clock) in (t < now + diff, clock) else (False, clock));
       if late then Some (ZCM_EAGAIN, zt\<lparr>tf_clock := clock\<rparr>)
       else let (t, clock) = utime clock
            in Some (ZCM_EOK, zt\<lparr>tf_lastDispatchUtime := t, tf_lastMsgUtime := msgUtime, tf_clock := clock\<rparr>)
     }"

definition file_recvmsg :: "('e \<Rightarrow> u64 \<times> 'e) \<Rightarrow> (u64 \<Rightarrow> 'e \<Rightarrow> 'e) \<Rightarrow> 'e transport_file \<Rightarrow> nat \<Rightarrow> (int \<times> zcm_msg_t option \<times> 'e transport_file) option" where
  "file_recvmsg utime usleep zt timeoutMs =
     (if tf_mode zt \<noteq> ''r'' then None
      else case tf_log zt of
          Some lf \<Rightarrow>
            if good lf then do {
              (le, lf) \<leftarrow> readNextEvent lf;
              case le of
                None \<Rightarrow> Some (ZCM_ECONNECT, None, zt\<lparr>tf_log := None\<rparr>)
              | Some le \<Rightarrow> do {
                  msg \<leftarrow> file_msg le;
                  (rc, zt) \<leftarrow> file_pace utime usleep (zt\<lparr>tf_log := Some lf\<rparr>) (msg_utime msg) (timeout_us timeoutMs);
                  Some (rc, Some msg, zt)
                }
            }
            else Some (ZCM_ECONNECT, None, if timeoutMs > 0 then zt\<lparr>tf_clock := usleep (timeout_us timeoutMs) (tf_clock zt)\<rparr> else zt)
        | None \<Rightarrow> Some (ZCM_ECONNECT, None, if timeoutMs > 0 then zt\<lparr>tf_clock := usleep (timeout_us timeoutMs) (tf_clock zt)\<rparr> else zt))"

definition file_methods :: "('e \<Rightarrow> u64 \<times> 'e) \<Rightarrow> (u64 \<Rightarrow> 'e \<Rightarrow> 'e) \<Rightarrow> 'e transport_file zcm_trans_methods_t" where
  "file_methods utime usleep =
     \<lparr>vt_get_mtu = \<lambda>_. FILE_MTU, vt_sendmsg = file_sendmsg, vt_recvmsg_enable = \<lambda>zt channel enable. Some (file_recvmsg_enable zt channel enable),
      vt_recvmsg = file_recvmsg utime usleep, vt_query_drops = None, vt_update = None\<rparr>"

section \<open>Waiting\<close>

lemma round_ratio_0 [simp]: "round_ratio 0 = 0"
  by (simp add: round_ratio_def)

lemma u64_over_double_0 [simp]: "u64_over_double 0 speed = Some 0"
  by (simp add: u64_over_double_def round53_small)

text \<open>A difference of two times that can be scaled, and one that can be waited for within every timeout of a list.\<close>

definition paced :: "rat \<Rightarrow> u64 \<Rightarrow> u64 \<Rightarrow> bool" where
  "paced speed a b \<longleftrightarrow> u64_over_double (b - a) speed \<noteq> None"

definition in_time :: "rat \<Rightarrow> nat list \<Rightarrow> u64 \<Rightarrow> u64 \<Rightarrow> bool" where
  "in_time speed ts a b \<longleftrightarrow> (\<exists>x. u64_over_double (b - a) speed = Some x \<and> (\<forall>t \<in> set ts. x \<le> timeout_us t))"

text \<open>A clock on which at least the requested time has passed after a sleep.\<close>

definition sleeps_enough :: "('e \<Rightarrow> u64 \<times> 'e) \<Rightarrow> (u64 \<Rightarrow> 'e \<Rightarrow> 'e) \<Rightarrow> bool" where
  "sleeps_enough utime usleep \<longleftrightarrow> (\<forall>c us. fst (utime c) + us \<le> fst (utime (usleep us (snd (utime c)))))"

lemma file_pace_result:
  assumes "prev = (if tf_lastMsgUtime zt = 0 then u else tf_lastMsgUtime zt)" "paced (tf_speed zt) prev u"
  shows "\<exists>rc zt'. file_pace utime usleep zt u us = Some (rc, zt') \<and> rc \<in> {ZCM_EOK, ZCM_EAGAIN} \<and> tf_lastMsgUtime zt' \<in> {prev, u}
    \<and> tf_log zt' = tf_log zt \<and> tf_mode zt' = tf_mode zt \<and> tf_speed zt' = tf_speed zt
    \<and> (sleeps_enough utime usleep \<and> (\<exists>x. u64_over_double (u - prev) (tf_speed zt) = Some x \<and> x \<le> us) \<longrightarrow> rc = ZCM_EOK \<and> tf_lastMsgUtime zt' = u)"
proof -
  obtain now c where now: "utime (tf_clock zt) = (now, c)" by fastforce
  from assms(2) obtain x where x: "u64_over_double (u - prev) (tf_speed zt) = Some x" by (auto simp: paced_def)
  define zt1 where "zt1 = zt\<lparr>tf_lastMsgUtime := prev, tf_lastDispatchUtime := (if tf_lastDispatchUtime zt = 0 then now else tf_lastDispatchUtime zt)\<rparr>"
  define diff where "diff = (if x > now - tf_lastDispatchUtime zt1 then x - (now - tf_lastDispatchUtime zt1) else 0)"
  have "diff \<le> x" by (auto simp: diff_def word_sub_le)
  obtain t1 c1 where t1: "utime (usleep (min diff us) c) = (t1, c1)" by fastforce
  have late: "\<not> t1 < now + diff" if "sleeps_enough utime usleep" "x \<le> us"
  proof -
    have "min diff us = diff" by (rule min_absorb1[OF order_trans[OF \<open>diff \<le> x\<close> that(2)]])
    with that(1) now t1 have "now + diff \<le> t1" unfolding sleeps_enough_def by (metis fst_conv snd_conv)
    then show ?thesis by simp
  qed
  have fp: "file_pace utime usleep zt u us =
      (let (late, clock) = (if diff > 0 then let (t, clock) = utime (usleep (min diff us) c) in (t < now + diff, clock) else (False, c))
       in if late then Some (ZCM_EAGAIN, zt1\<lparr>tf_clock := clock\<rparr>)
          else let (t, clock) = utime clock in Some (ZCM_EOK, zt1\<lparr>tf_lastDispatchUtime := t, tf_lastMsgUtime := u, tf_clock := clock\<rparr>))"
    using x unfolding file_pace_def diff_def zt1_def assms(1) by (simp add: now Let_def split del: if_split)
  have keeps: "tf_log zt1 = tf_log zt" "tf_mode zt1 = tf_mode zt" "tf_speed zt1 = tf_speed zt" "tf_lastMsgUtime zt1 = prev" by (simp_all add: zt1_def)
  show ?thesis
  proof (cases "diff > 0 \<and> t1 < now + diff")
    case True
    with fp t1 have "file_pace utime usleep zt u us = Some (ZCM_EAGAIN, zt1\<lparr>tf_clock := c1\<rparr>)" by simp
    with True late x keeps show ?thesis by auto
  next
    case False
    with fp t1 obtain t2 c2 where "file_pace utime usleep zt u us = Some (ZCM_EOK, zt1\<lparr>tf_lastDispatchUtime := t2, tf_lastMsgUtime := u, tf_clock := c2\<rparr>)"
      by (cases "diff > 0") (auto split: prod.splits)
    with keeps show ?thesis by auto
  qed
qed

section \<open>Replays\<close>

fun file_send_all :: "zcm_msg_t list \<Rightarrow> 'e transport_file \<Rightarrow> (int list \<times> 'e transport_file) option" where
  "file_send_all [] zt = Some ([], zt)"
| "file_send_all (m # ms) zt = do { (rc, zt) \<leftarrow> file_sendmsg zt m; (rcs, zt) \<leftarrow> file_send_all ms zt; Some (rc # rcs, zt) }"

fun file_recv_all :: "('e \<Rightarrow> u64 \<times> 'e) \<Rightarrow> (u64 \<Rightarrow> 'e \<Rightarrow> 'e) \<Rightarrow> nat list \<Rightarrow> 'e transport_file
    \<Rightarrow> ((int \<times> zcm_msg_t option) list \<times> 'e transport_file) option" where
  "file_recv_all utime usleep [] zt = Some ([], zt)"
| "file_recv_all utime usleep (t # ts) zt =
     do { (rc, m, zt) \<leftarrow> file_recvmsg utime usleep zt t; (rs, zt) \<leftarrow> file_recv_all utime usleep ts zt; Some ((rc, m) # rs, zt) }"

text \<open>The messages that a log can hold, and their records.\<close>

definition file_msg_ok :: "zcm_msg_t \<Rightarrow> bool" where
  "file_msg_ok m \<longleftrightarrow> 0 < length (msg_channel m) \<and> length (msg_channel m) < 1000 \<and> is_cstring (msg_channel m) \<and> msg_len m < 2 ^ 31 - 1"

definition msg_record :: "zcm_msg_t \<Rightarrow> zcm_eventlog_event_t" where
  "msg_record m = \<lparr>le_eventnum = 0, le_timestamp = msg_utime m, le_channellen = of_nat (length (msg_channel m)), le_datalen = of_nat (msg_len m),
     le_channel = msg_channel m, le_data = msg_buf m\<rparr>"

definition record_msg :: "zcm_eventlog_event_t \<Rightarrow> zcm_msg_t" where
  "record_msg le = \<lparr>msg_utime = le_timestamp le, msg_channel = takeWhile (\<lambda>c. c \<noteq> 0) (le_channel le), msg_buf = le_data le\<rparr>"

lemma msg_record_ok: "file_msg_ok m \<Longrightarrow> event_ok (msg_record m)"
  by (simp add: file_msg_ok_def event_ok_def msg_record_def)

lemma record_msg_record: "file_msg_ok m \<Longrightarrow> record_msg (numbered n (msg_record m)) = m"
  by (cases m) (auto simp: file_msg_ok_def is_cstring_def record_msg_def msg_record_def numbered_def takeWhile_eq_all_conv)

lemma record_msgs: "list_all file_msg_ok ms \<Longrightarrow> map record_msg (number n (map msg_record ms)) = ms"
  by (induction ms arbitrary: n) (simp_all add: record_msg_record)

lemma file_msg_event: "event_ok le \<Longrightarrow> file_msg (log_event le) = Some (record_msg le)"
  by (simp add: file_msg_def log_event_def record_msg_def event_ok_def sint_of_nat_small unat_of_nat_small mem_simps)

lemma file_send_all_ok:
  assumes "list_all file_msg_ok ms" "tf_log zt = Some lf" "lf_eventlog lf = Some l" "tf_mode zt = ''w''" "at_end n (el_f l)"
    and "length (log_bytes (map msg_record ms)) \<le> n"
  shows "\<exists>zt' lf' l'. file_send_all ms zt = Some (replicate (length ms) ZCM_EOK, zt') \<and> tf_log zt' = Some lf' \<and> lf_eventlog lf' = Some l'
    \<and> f_data (el_f l') = f_data (el_f l) @ log_bytes (number (el_eventcount l) (map msg_record ms))"
  using assms
proof (induction ms arbitrary: zt lf l n)
  case (Cons m ms)
  let ?le = "msg_record m"
  have m: "file_msg_ok m" "event_ok ?le" using Cons.prems(1) msg_record_ok by auto
  have n: "length (event_bytes ?le) \<le> n" "length (log_bytes (map msg_record ms)) \<le> n - length (event_bytes ?le)" using Cons.prems(6) by (auto simp: log_bytes_def)
  note w = write_event_ok[OF m(2) Cons.prems(5) n(1)]
  let ?l = "\<lparr>el_f = appended (event_bytes (numbered (el_eventcount l) ?le)) (el_f l), el_eventcount = el_eventcount l + 1\<rparr>"
  let ?lf = "lf\<lparr>lf_eventlog := Some ?l\<rparr>"
  have "writeEvent lf (Some (log_event ?le)) = Some (0, ?lf)" using writeEvent_record[OF m(2) Cons.prems(3)] w(1) by simp
  then have s: "file_sendmsg zt m = Some (ZCM_EOK, zt\<lparr>tf_log := Some ?lf\<rparr>)"
    using Cons.prems(2-4) m(1) by (simp add: file_sendmsg_def good_def FILE_MTU_def file_msg_ok_def log_event_def msg_record_def)
  from Cons.IH[of "zt\<lparr>tf_log := Some ?lf\<rparr>" ?lf ?l "n - length (event_bytes ?le)"] Cons.prems(1,4) w(2) n(2) obtain zt' lf' l' where
    "file_send_all ms (zt\<lparr>tf_log := Some ?lf\<rparr>) = Some (replicate (length ms) ZCM_EOK, zt')" "tf_log zt' = Some lf'" "lf_eventlog lf' = Some l'"
    "f_data (el_f l') = f_data (el_f ?l) @ log_bytes (number (el_eventcount ?l) (map msg_record ms))" by auto
  with s show ?case by (intro exI[of _ zt'] exI[of _ lf'] exI[of _ l']) (simp add: appended_def log_bytes_def)
qed (simp add: log_bytes_def)

lemma in_time_paced: "in_time speed ts a b \<Longrightarrow> paced speed a b"
  by (auto simp: in_time_def paced_def)

lemma in_time_tl: "in_time speed (t # ts) a b \<Longrightarrow> in_time speed ts a b"
  by (auto simp: in_time_def)

lemma file_recv_scan:
  assumes "scan d p es" "tf_log zt = Some lf" "reads lf d p" "tf_mode zt = ''r''" "tf_speed zt = speed" "us = map (\<lambda>e. le_timestamp (snd e)) es"
    and "sorted_wrt (paced speed) us" "tf_lastMsgUtime zt = 0 \<or> list_all (paced speed (tf_lastMsgUtime zt)) us" "length ts = length es + 1"
  shows "\<exists>rcs zt'. file_recv_all utime usleep ts zt = Some (zip rcs (map (\<lambda>e. Some (record_msg (snd e))) es) @ [(ZCM_ECONNECT, None)], zt')
    \<and> length rcs = length es \<and> set rcs \<subseteq> {ZCM_EOK, ZCM_EAGAIN}
    \<and> (sleeps_enough utime usleep \<and> sorted_wrt (in_time speed ts) us \<and> (tf_lastMsgUtime zt = 0 \<or> list_all (in_time speed ts (tf_lastMsgUtime zt)) us)
      \<longrightarrow> set rcs \<subseteq> {ZCM_EOK})"
  using assms
proof (induction arbitrary: lf zt us ts rule: scan.induct)
  case (scan_end p)
  obtain t where t: "ts = [t]" using scan_end.prems(8) by (auto simp: length_Suc_conv)
  from readNextEvent_none[OF scan_end.prems(2) scan_end.hyps] obtain lf' where "readNextEvent lf = Some (None, lf')" by blast
  moreover have "good lf" using scan_end.prems(2) by (auto simp: reads_def good_def)
  ultimately have "file_recvmsg utime usleep zt t = Some (ZCM_ECONNECT, None, zt\<lparr>tf_log := None\<rparr>)"
    using scan_end.prems(1,3) by (simp add: file_recvmsg_def)
  then show ?case using t by (intro exI[of _ "[]"]) simp
next
  case (scan_event p q le es)
  let ?u = "le_timestamp le" and ?us = "map (\<lambda>e. le_timestamp (snd e)) es"
  let ?last = "tf_lastMsgUtime zt"
  define prev where "prev = (if ?last = 0 then ?u else ?last)"
  obtain t ts' where ts: "ts = t # ts'" "length ts' = length es + 1" using scan_event.prems(8) by (auto simp: length_Suc_conv)
  have us: "us = ?u # ?us" using scan_event.prems(5) by simp
  from readNextEvent_event[OF scan_event.prems(2) scan_event.hyps(1,2)] obtain lf1 where
    lf1: "readNextEvent lf = Some (Some (log_event le), lf1)" "reads lf1 d (next_pos d q le)" by blast
  have good: "good lf" using scan_event.prems(2) by (auto simp: reads_def good_def)
  have msg: "file_msg (log_event le) = Some (record_msg le)" using first_event_ok[OF scan_event.hyps(1)] by (simp add: file_msg_event)
  have self: "paced speed x x" "in_time speed ts x x" for x by (simp_all add: paced_def in_time_def)
  have prev: "paced speed prev ?u" "list_all (paced speed prev) ?us" "list_all (paced speed ?u) ?us"
    using scan_event.prems(6,7) self unfolding us prev_def by (auto simp: list_all_iff)
  let ?zt = "zt\<lparr>tf_log := Some lf1\<rparr>"
  have "prev = (if tf_lastMsgUtime ?zt = 0 then ?u else tf_lastMsgUtime ?zt)" "paced (tf_speed ?zt) prev ?u"
    using prev(1) scan_event.prems(4) by (simp_all add: prev_def cong: if_cong)
  from file_pace_result[OF this, of utime usleep "timeout_us t"] scan_event.prems(4) obtain rc zt1 where
    zt1: "file_pace utime usleep ?zt ?u (timeout_us t) = Some (rc, zt1)" "rc \<in> {ZCM_EOK, ZCM_EAGAIN}" "tf_lastMsgUtime zt1 \<in> {prev, ?u}"
      "tf_log zt1 = Some lf1" "tf_mode zt1 = tf_mode zt" "tf_speed zt1 = speed"
      "sleeps_enough utime usleep \<Longrightarrow> \<exists>x. u64_over_double (?u - prev) speed = Some x \<and> x \<le> timeout_us t \<Longrightarrow> rc = ZCM_EOK \<and> tf_lastMsgUtime zt1 = ?u"
    by auto
  have step: "file_recvmsg utime usleep zt t = Some (rc, Some (record_msg le), zt1)"
    using scan_event.prems(1,3) good lf1(1) msg zt1(1) by (simp add: file_recvmsg_def record_msg_def)
  have "tf_lastMsgUtime zt1 = 0 \<or> list_all (paced speed (tf_lastMsgUtime zt1)) ?us" using zt1(3) prev by auto
  from scan_event.IH[OF zt1(4) lf1(2) _ zt1(6) refl _ this ts(2)] zt1(5) scan_event.prems(3,6) us obtain rcs zt' where
    IH: "file_recv_all utime usleep ts' zt1 = Some (zip rcs (map (\<lambda>e. Some (record_msg (snd e))) es) @ [(ZCM_ECONNECT, None)], zt')"
      "length rcs = length es" "set rcs \<subseteq> {ZCM_EOK, ZCM_EAGAIN}"
      "sleeps_enough utime usleep \<and> sorted_wrt (in_time speed ts') ?us \<and> (tf_lastMsgUtime zt1 = 0 \<or> list_all (in_time speed ts' (tf_lastMsgUtime zt1)) ?us)
        \<longrightarrow> set rcs \<subseteq> {ZCM_EOK}" by auto
  have "rc = ZCM_EOK \<and> set rcs \<subseteq> {ZCM_EOK}"
    if a: "sleeps_enough utime usleep" "sorted_wrt (in_time speed ts) us" "?last = 0 \<or> list_all (in_time speed ts ?last) us"
  proof -
    have "in_time speed ts prev ?u" using a(3) self us by (auto simp: prev_def)
    with zt1(7)[OF a(1)] ts(1) have rc: "rc = ZCM_EOK" "tf_lastMsgUtime zt1 = ?u" by (auto simp: in_time_def)
    have "sorted_wrt (in_time speed ts') ?us" "list_all (in_time speed ts' ?u) ?us"
      using a(2) us ts(1) by (auto simp: list_all_iff intro: in_time_tl elim: sorted_wrt_mono_rel[rotated])
    with IH(4) a(1) rc show ?thesis by simp
  qed
  with step IH(1-3) zt1(2) ts(1) show ?case by (intro exI[of _ "rc # rcs"] exI[of _ zt']) auto
qed

section \<open>From URLs to transports\<close>

definition file_url :: "string \<Rightarrow> string \<Rightarrow> string \<Rightarrow> zcm_url" where
  "file_url path key val = zcm_url_create (url_text ''file'' path [\<lparr>opt_key = key, opt_val = val\<rparr>])"

lemma file_url_parts:
  assumes "CHR ''?'' \<notin> set path" "opt_ok \<lparr>opt_key = key, opt_val = val\<rparr>"
  shows "url_address (file_url path key val) = path" "getZopts (file_url path key val) = [(key, val)]"
proof -
  have "file_url path key val = \<lparr>url_url = url_text ''file'' path [\<lparr>opt_key = key, opt_val = val\<rparr>], url_protocol = ''file'', url_address = path,
    url_opts = [\<lparr>opt_key = key, opt_val = val\<rparr>]\<rparr>"
    unfolding file_url_def by (rule zcm_url_create_text) (use assms in simp_all)
  then show "url_address (file_url path key val) = path" "getZopts (file_url path key val) = [(key, val)]"
    by (simp_all add: getZopts_def ZCM_OPTS_MAX_def)
qed

lemma file_create_w:
  assumes "CHR ''?'' \<notin> set path" "room dk path = Some n"
  shows "\<exists>zt lf l. file_create atof clock dk (file_url path ''mode'' ''w'') = Some (Some zt) \<and> tf_log zt = Some lf \<and> lf_eventlog lf = Some l
    \<and> tf_mode zt = ''w'' \<and> at_end n (el_f l) \<and> f_data (el_f l) = [] \<and> el_eventcount l = 0"
proof -
  from open_write_empty[of dk path, OF assms(2)] obtain lf l where
    "LogFile_create dk path ''w'' = Some lf" "lf_eventlog lf = Some l" "at_end n (el_f l)" "f_data (el_f l) = []" "el_eventcount l = 0" by blast
  with file_url_parts[of path "''mode''" "''w''"] assms(1) show ?thesis
    by (simp add: file_create_def file_new_def file_findOption_def file_good_def good_def opt_ok_def Let_def)
qed

lemma file_create_r:
  assumes "CHR ''?'' \<notin> set path" "CHR ''&'' \<notin> set s" "atof s > 0" "content dk path = Some d" "readable dk path"
  shows "\<exists>zt lf. file_create atof clock dk (file_url path ''speed'' s) = Some (Some zt) \<and> tf_log zt = Some lf \<and> reads lf d 0
    \<and> tf_mode zt = ''r'' \<and> tf_speed zt = atof s \<and> tf_lastMsgUtime zt = 0"
proof -
  from open_read_reads[OF assms(4,5)] obtain lf where "LogFile_create dk path ''r'' = Some lf" "reads lf d 0" "good lf" by blast
  with file_url_parts[of path "''speed''" s] assms(1-3) show ?thesis
    by (simp add: file_create_def file_new_def file_findOption_def file_good_def opt_ok_def Let_def)
qed

lemma map_number_stamp: "map le_timestamp (number n les) = map le_timestamp les"
  by (induction les arbitrary: n) (simp_all add: numbered_def)

section \<open>Properties\<close>

text \<open>
  C11. Messages sent over a transport that records to a file are all accepted, and a transport that replays the file gives, call by call, exactly these messages in order, and reports
  the loss of the connection at the end. A call returns \<^verbatim>\<open>ZCM_EOK\<close> or, when the time of the message has not come within the timeout, \<^verbatim>\<open>ZCM_EAGAIN\<close>; each call uses up its
  message in both cases. When sleeping takes at least the requested time and every difference between the messages, divided by the speed, fits in the
  timeouts, every call returns \<^verbatim>\<open>ZCM_EOK\<close>.
\<close>

theorem file_transport_replay:
  assumes "list_all file_msg_ok ms" "CHR ''?'' \<notin> set path" "CHR ''&'' \<notin> set s" "atof s = speed" "speed > 0"
    and "readable dk path" "room dk path = Some n" "length (log_bytes (map msg_record ms)) \<le> n"
    and "length ts = length ms + 1" "sorted_wrt (paced speed) (map msg_utime ms)"
  shows "\<exists>w w' r r' rcs. file_create atof c dk (file_url path ''mode'' ''w'') = Some (Some w) \<and> file_send_all ms w = Some (replicate (length ms) ZCM_EOK, w')
    \<and> file_create atof c' (file_destroy path w' dk) (file_url path ''speed'' s) = Some (Some r)
    \<and> file_recv_all utime usleep ts r = Some (zip rcs (map Some ms) @ [(ZCM_ECONNECT, None)], r') \<and> length rcs = length ms \<and> set rcs \<subseteq> {ZCM_EOK, ZCM_EAGAIN}
    \<and> (sleeps_enough utime usleep \<and> sorted_wrt (in_time speed ts) (map msg_utime ms) \<longrightarrow> set rcs \<subseteq> {ZCM_EOK})"
proof -
  let ?les = "number 0 (map msg_record ms)"
  from file_create_w[of path dk n atof c, OF assms(2,7)] obtain w lf l where w: "file_create atof c dk (file_url path ''mode'' ''w'') = Some (Some w)" "tf_log w = Some lf"
    "lf_eventlog lf = Some l" "tf_mode w = ''w''" "at_end n (el_f l)" "f_data (el_f l) = []" "el_eventcount l = 0" by blast
  from file_send_all_ok[OF assms(1) w(2-5) assms(8)] w(6,7) obtain w' lf' l' where w': "file_send_all ms w = Some (replicate (length ms) ZCM_EOK, w')"
    "tf_log w' = Some lf'" "lf_eventlog lf' = Some l'" "f_data (el_f l') = log_bytes ?les" by auto
  let ?dk = "file_destroy path w' dk"
  have dk: "content ?dk path = Some (log_bytes ?les)" "readable ?dk path"
    using w'(2-4) assms(6) by (simp_all add: file_destroy_def flush_disk_def LogFile_close_def)
  from file_create_r[of path s atof ?dk _ c', OF assms(2,3) _ dk] assms(4,5) obtain r lf2 where r: "file_create atof c' ?dk (file_url path ''speed'' s) = Some (Some r)"
    "tf_log r = Some lf2" "reads lf2 (log_bytes ?les) 0" "tf_mode r = ''r''" "tf_speed r = speed" "tf_lastMsgUtime r = 0" by auto
  have "list_all event_ok (map msg_record ms)" using assms(1) by (auto simp: list_all_iff msg_record_ok)
  then have "list_all event_ok ?les" by (simp add: number_ok)
  from scan_log[OF this, of 0 "log_bytes ?les"] obtain es where es: "scan (log_bytes ?les) 0 es" "map snd es = ?les" by auto
  have us: "map msg_utime ms = map (\<lambda>e. le_timestamp (snd e)) es"
    using arg_cong[OF es(2), of "map le_timestamp"] by (simp add: map_number_stamp msg_record_def comp_def)
  have "map record_msg (map snd es) = ms" unfolding es(2) by (rule record_msgs[OF assms(1)])
  then have ms: "map (\<lambda>e. Some (record_msg (snd e))) es = map Some ms" by (auto simp: comp_def)
  have "length es = length ms" using arg_cong[OF es(2), of length] by (simp add: number_ok)
  with file_recv_scan[OF es(1) r(2-5) us assms(10), of ts utime usleep] r(6) assms(9) ms obtain rcs r' where
    "file_recv_all utime usleep ts r = Some (zip rcs (map Some ms) @ [(ZCM_ECONNECT, None)], r')" "length rcs = length ms" "set rcs \<subseteq> {ZCM_EOK, ZCM_EAGAIN}"
    "sleeps_enough utime usleep \<and> sorted_wrt (in_time speed ts) (map msg_utime ms) \<longrightarrow> set rcs \<subseteq> {ZCM_EOK}" by auto
  with w(1) w'(1) r(1) show ?thesis by blast
qed

abbreviation recorded :: "zcm_msg_t list" where
  "recorded \<equiv> [\<lparr>msg_utime = 7, msg_channel = [65], msg_buf = [1, 2]\<rparr>, \<lparr>msg_utime = 8, msg_channel = [66], msg_buf = []\<rparr>]"

abbreviation exact_clock :: "u64 \<Rightarrow> u64 \<times> u64" where "exact_clock \<equiv> \<lambda>c. (c, c)"

lemma u64_over_double_1: "u64_over_double 1 1 = Some 1"
proof -
  have fl: "floorlog 2 (Suc 0) = 1" by (simp add: floorlog_def)
  have "(1::rat) / 2 powi (- 53) = 2 ^ 53" "(1::rat) / 2 powi (- 52) = 2 ^ 52" "(2::rat) powi (- 52) = 1 / 2 ^ 52" by (simp_all add: power_int_minus)
  then have "round_ratio 1 = 1" by (simp add: round_ratio_def fl Let_def)
  then show ?thesis by (simp add: u64_over_double_def round53_small)
qed

theorem file_transport_replay_witness:
  "\<exists>w w' r r'. file_create (\<lambda>_. 1) (0 :: u64) \<lparr>content = Map.empty, readable = \<lambda>_. True, room = \<lambda>_. Some 99\<rparr> (file_url ''log'' ''mode'' ''w'') = Some (Some w)
    \<and> file_send_all recorded w = Some ([ZCM_EOK, ZCM_EOK], w')
    \<and> file_create (\<lambda>_. 1) (0 :: u64) (file_destroy ''log'' w' \<lparr>content = Map.empty, readable = \<lambda>_. True, room = \<lambda>_. Some 99\<rparr>) (file_url ''log'' ''speed'' ''1'') = Some (Some r)
    \<and> file_recv_all exact_clock (+) [10, 10, 10] r
      = Some ([(ZCM_EOK, Some (recorded ! 0)), (ZCM_EOK, Some (recorded ! 1)), (ZCM_ECONNECT, None)], r')"
proof -
  let ?dk = "\<lparr>content = Map.empty, readable = \<lambda>_. True, room = \<lambda>_. Some 99\<rparr>"
  have ok: "list_all file_msg_ok recorded" by (simp add: file_msg_ok_def is_cstring_def)
  have len: "length (log_bytes (map msg_record recorded)) \<le> 99" by (simp add: log_bytes_def event_bytes_def msg_record_def)
  have pace: "sorted_wrt (paced 1) (map msg_utime recorded)" "sorted_wrt (in_time 1 [10, 10, 10]) (map msg_utime recorded)"
    by (simp_all add: paced_def in_time_def u64_over_double_1 timeout_us_def)
  have clock: "sleeps_enough exact_clock (+)" by (simp add: sleeps_enough_def add.commute)
  from file_transport_replay[of recorded "''log''" "''1''" "\<lambda>_. 1" 1 ?dk 99 "[10, 10, 10]" 0 0 exact_clock "(+)", OF ok _ _ _ _ _ _ len _ pace(1)] clock pace(2)
  obtain w w' r r' rcs where *: "file_create (\<lambda>_. 1) (0 :: u64) ?dk (file_url ''log'' ''mode'' ''w'') = Some (Some w)" "file_send_all recorded w = Some (replicate 2 ZCM_EOK, w')"
    "file_create (\<lambda>_. 1) (0 :: u64) (file_destroy ''log'' w' ?dk) (file_url ''log'' ''speed'' ''1'') = Some (Some r)"
    "file_recv_all exact_clock (+) [10, 10, 10] r = Some (zip rcs (map Some recorded) @ [(ZCM_ECONNECT, None)], r')" "length rcs = 2" "set rcs \<subseteq> {ZCM_EOK}"
    by (auto simp del: file_send_all.simps file_recv_all.simps simp: numeral_2_eq_2)
  have "rcs = [ZCM_EOK, ZCM_EOK]" using *(5,6) by (auto simp: numeral_2_eq_2 length_Suc_conv)
  with *(1-4) show ?thesis by (intro exI[of _ w] exI[of _ w'] exI[of _ r] exI[of _ r']) (simp add: numeral_2_eq_2 del: file_send_all.simps file_recv_all.simps)
qed

end
