(* ===== verification/Spec2Isabelle.thy ===== *)
theory Spec2Isabelle
  imports Serial_Link Coretypes Bitfield Msg_Queue Url Inproc Message_Tracker Blocking_Props Mempool Udp_Roundtrip Nonblocking Eventlog_Seek Zcmgen_Hash Zcmgen_Roundtrip Zcm_Api Log_Repair Transport_File
begin

text \<open>
  Verification of ZCM, a library for publish/subscribe messaging, and of its type generator.

  \<^bold>\<open>The program.\<close> A program publishes messages on named channels and subscribes to channels. The core (blocking, with threads, or
  non-blocking, for embedded systems) queues and dispatches messages and moves them over a transport, which is a table of methods and is chosen by a URL. Messages
  are structs whose encoders and decoders the type generator writes from a type definition file; the generated code rests on the codecs of
  primitive types. Event logs store messages in files; message trackers sit above the core and look messages up by time.

  \<^bold>\<open>Theories and sources.\<close> Every definition that translates code has the name of the function or type in the sources, with a prefix where names
  of different files would clash. Paths are relative to \<^verbatim>\<open>src/\<close>.

  \<^item> \<^verbatim>\<open>Zcm_Prelude\<close>: machine types (\<^verbatim>\<open>u8\<close>, \<^verbatim>\<open>u16\<close>, \<^verbatim>\<open>u32\<close>, \<^verbatim>\<open>u64\<close> are words of these widths), return codes (\<^verbatim>\<open>zcm/zcm.h\<close>), memory accesses that fail outside of
    their array, the arithmetic of \<^verbatim>\<open>size_t\<close>, and general lemmas on lists, options and words.
  \<^item> \<^verbatim>\<open>Transport\<close>: the message structure and the method table (\<^verbatim>\<open>zcm/transport.h\<close>); the contract of non-blocking transports is a locale.
  \<^item> \<^verbatim>\<open>Circ_Buff\<close>, \<^verbatim>\<open>Fletcher\<close>, \<^verbatim>\<open>Generic_Serial\<close>, \<^verbatim>\<open>Serial_Receive\<close>, \<^verbatim>\<open>Serial_Link\<close>: the circular buffer, the checksum, and the framing of messages on a
    byte stream (\<^verbatim>\<open>zcm/transport/generic_serial_*\<close>). \<^verbatim>\<open>Serial_Receive\<close> has a parser on byte lists as the specification of the receiver, \<^verbatim>\<open>Serial_Link\<close> joins two
    transports by a byte stream.
  \<^item> \<^verbatim>\<open>Coretypes\<close>, \<^verbatim>\<open>Bitfield\<close>: encoders and decoders of primitive types and of bit fields (\<^verbatim>\<open>zcm/zcm_coretypes.h\<close>).
  \<^item> \<^verbatim>\<open>Msg_Queue\<close>: the ring of messages, its thread-safe wrapper and the pool of message buffers (\<^verbatim>\<open>zcm/util/queue.hpp\<close>, \<^verbatim>\<open>threadsafe_queue.hpp\<close>,
    \<^verbatim>\<open>message_buffer_pool.hpp\<close>).
  \<^item> \<^verbatim>\<open>String_Util\<close>, \<^verbatim>\<open>Url\<close>: string helpers (\<^verbatim>\<open>util/StringUtil.hpp\<close>), the URL parser and the registrar of transports (\<^verbatim>\<open>zcm/url.cpp\<close>, \<^verbatim>\<open>zcm/transport_registrar.c\<close>).
  \<^item> \<^verbatim>\<open>Inproc\<close>: the in-process transport (\<^verbatim>\<open>zcm/transport/transport_inproc.cpp\<close>).
  \<^item> \<^verbatim>\<open>Nonblocking\<close>: the non-blocking core (\<^verbatim>\<open>zcm/nonblocking.c\<close>), over any transport, and composed with the in-process transport.
  \<^item> \<^verbatim>\<open>Blocking\<close>, \<^verbatim>\<open>Blocking_Step\<close>, \<^verbatim>\<open>Blocking_Props\<close>: the core with threads (\<^verbatim>\<open>zcm/blocking.cpp\<close>). The threads and the calls of clients are programs over the shared state;
    a step relation interleaves any number of them.
  \<^item> \<^verbatim>\<open>Message_Tracker\<close>: trackers, the synchronised dispatcher and the filter (\<^verbatim>\<open>zcm/message_tracker.hpp\<close>, \<^verbatim>\<open>zcm/util/Filter.hpp\<close>).
  \<^item> \<^verbatim>\<open>Mempool\<close>, \<^verbatim>\<open>Udp\<close>, \<^verbatim>\<open>Udp_Safe\<close>, \<^verbatim>\<open>Udp_Roundtrip\<close>: the memory pool, fragments, reassembly, sending and receiving (\<^verbatim>\<open>zcm/transport/udp/\<close>).
  \<^item> \<^verbatim>\<open>Eventlog\<close>, \<^verbatim>\<open>Eventlog_Props\<close>, \<^verbatim>\<open>Eventlog_Seek\<close>: event logs (\<^verbatim>\<open>zcm/eventlog.c\<close>, \<^verbatim>\<open>zcm/util/ioutils.h\<close>).
  \<^item> \<^verbatim>\<open>Log_File\<close>, \<^verbatim>\<open>Log_Repair\<close>, \<^verbatim>\<open>Transport_File\<close>: log files of C++ programs (\<^verbatim>\<open>LogFile\<close> of \<^verbatim>\<open>zcm/zcm-cpp-impl.hpp\<close>), the tool that sorts a log (\<^verbatim>\<open>tools/cpp/log-repair/main.cpp\<close>), and the
    transport that records and replays logs (\<^verbatim>\<open>zcm/transport/transport_file.cpp\<close>). \<^verbatim>\<open>Log_File\<close> describes the complete records of any file as a relation (\<^verbatim>\<open>scan\<close>).
  \<^item> \<^verbatim>\<open>Zcm_Api\<close>: the library interface (\<^verbatim>\<open>zcm/zcm.c\<close>): it makes the transport of a URL, chooses the core and forwards the calls to it.
  \<^item> \<^verbatim>\<open>Tokenize\<close>, \<^verbatim>\<open>Tokenize_Props\<close>, \<^verbatim>\<open>Tokenize_Stream\<close>: the tokenizer of the type generator (\<^verbatim>\<open>gen/tokenize.c\<close>); \<^verbatim>\<open>Tokenize_Stream\<close> has the tokens of a text as a list.
  \<^item> \<^verbatim>\<open>Zcmgen\<close>, \<^verbatim>\<open>Zcmgen_Props\<close>, \<^verbatim>\<open>Zcmgen_Hash\<close>, \<^verbatim>\<open>Zcmgen_Roundtrip\<close>: the parser, the checks and the hash of type definitions (\<^verbatim>\<open>gen/ZCMGen.cpp\<close>). \<^verbatim>\<open>Zcmgen_Roundtrip\<close> describes files
    of definitions as data, prints them as text and relates the text to the structs of the parser.

  \<^bold>\<open>How code is modelled.\<close> Structs are records and enums are datatypes. Integers have their width where the code computes with them at that width. A call returns
  its result and the new state; an access outside of a buffer, a failed assertion or an overflow of a signed integer is the failure value of the result type, so a theorem that a
  call returns a value also says that none of these happens. Memory that the code shares is explicit where it matters (the blocks of the memory pool,
  the buffers of the message pool); allocation does not fail. A file is its list of bytes and a position. Times, sockets, callbacks of users, \<^verbatim>\<open>strtod\<close> and \<^verbatim>\<open>atof\<close> are parameters.

  \<^bold>\<open>What is shown.\<close>

  \<^item> Serial transport: two transports joined by a byte stream deliver exactly the accepted messages in order, however the stream is cut into chunks; the receiver ends on any bytes and implements the
    list parser; sending is all or nothing.
  \<^item> Blocking core: under every interleaving messages are sent and dispatched in order and once, by one thread at a time; every step implements a step of an abstract worked queue;
    threads halt; subscriptions get exactly their messages. Some executions show calls that do not combine well.
  \<^item> Non-blocking core: over any transport that keeps its contract the table of subscriptions implements a map from handles to subscriptions; with the in-process transport a flush calls exactly
    the matching subscriptions for every published message, in order.
  \<^item> UDP: a long message is received unchanged from its fragments in any order and with duplicates; on any packets the receiver stays in its buffers and its accounts are exact;
    the memory pool never hands out a block twice.
  \<^item> Codecs, URLs, event logs: what is written is read back; on any bytes the readers stay in bounds and end. The reader of logs finds exactly the first complete record; seeking ends.
  \<^item> Log tools: the repair tool turns any log, damaged or not, into the log of its complete records sorted by time; the file transport replays exactly the recorded messages, one per call.
  \<^item> Queues and trackers: FIFO order under any interleaving of the methods; a look-up by time gives the closest message; the dispatcher pairs messages.
  \<^item> Library interface: from a URL of the in-process transport to the calls of the handlers, through the URL parser, the registrar, the core and the transport; the texts of error codes.
  \<^item> Type generator: tokenizer and parser end on every file, and every accepted type is well formed; a file that follows the rules of the language is accepted and gives exactly the structs it
    describes; the hash of a type changes whenever one of the bytes it is computed from changes.
  \<^item> Where the code does not do what it means to, a theorem states what it does.

  \<^bold>\<open>Loops and fuel.\<close> Loops are recursive functions with a termination proof, or partial functions over options where the code itself may fail to end; for these a
  theorem states that they end (the receivers, the readers of logs, the tokenizer and the parser), on every input. The one loop with fuel is the bisection of \<^verbatim>\<open>Eventlog_Seek\<close>: 40 rounds,
  more than the rounds in which its interval becomes smaller than the threshold of the code, as the termination theorem shows. The step relations have no bound on the number of steps or threads.

  \<^bold>\<open>Not modelled.\<close>

  \<^item> Vendored code: the JSON library (\<^verbatim>\<open>zcm/json\<close>) and the lock-free queues (\<^verbatim>\<open>zcm/transport/lockfree\<close>).
  \<^item> System calls: the UDP sockets, the serial device, CAN, ZeroMQ and shared memory transports, lock files, the topology files, time; they are thin layers over the operating system.
  \<^item> The other classes of \<^verbatim>\<open>zcm/zcm-cpp-impl.hpp\<close> forward the calls of C++ programs to the library interface.
  \<^item> The emitters (\<^verbatim>\<open>gen/emit\<close>) and the command line of the generator: text output for seven languages. Of \<^verbatim>\<open>gen/ZCMGen.cpp\<close> the dump and the comparison of file times are left out, and the text of error
    messages everywhere.
  \<^item> The other tools (\<^verbatim>\<open>tools/cpp\<close>, \<^verbatim>\<open>tools/java\<close>): user interfaces, plugins loaded at run time and logging loops over the modelled library.
  \<^item> Bindings to Java, JavaScript, Python and Julia.
\<close>

section \<open>Properties that span components\<close>



end
